(* ===== verification/Big_Prelude.thy ===== *)
theory Big_Prelude
  imports Main "HOL-Library.Word"
begin

text \<open>
  The shared ground of the development: names for the machine integer types of the Rust
  sources, the comparison results of \<^verbatim>\<open>core::cmp\<close>, the bit operations of
  \<^verbatim>\<open>u64\<close> the bitmap code uses, the binary search of \<^verbatim>\<open>core::slice\<close>,
  and the generic lemmas on sorted lists and words that the components share.
\<close>

unbundle bit_operations_syntax

type_synonym u8 = "8 word"
type_synonym u16 = "16 word"
type_synonym u32 = "32 word"
type_synonym u64 = "64 word"

named_theorems big_defs \<open>definitions that proofs of the storage layer unfold together\<close>

abbreviation ssorted :: "'a::linorder list \<Rightarrow> bool" where
  "ssorted xs \<equiv> sorted_wrt (<) xs"


section \<open>Bits of a machine word\<close>

text \<open>
  \<^verbatim>\<open>count_ones\<close> and \<^verbatim>\<open>trailing_zeros\<close> of \<^verbatim>\<open>u64\<close>. The positions of the
  set bits, in ascending order, are \<open>word_bits\<close>.
\<close>

definition word_bits :: "'a::len word \<Rightarrow> nat list" where
  "word_bits w = filter (bit w) [0..<LENGTH('a)]"

definition count_ones :: "'a::len word \<Rightarrow> nat" where
  "count_ones w = length (word_bits w)"

definition trailing_zeros :: "'a::len word \<Rightarrow> nat" where
  "trailing_zeros w = (case find (bit w) [0..<LENGTH('a)] of Some i \<Rightarrow> i | None \<Rightarrow> LENGTH('a))"

lemma set_word_bits: "set (word_bits (w :: 'a::len word)) = {i. bit w i}"
  by (auto simp: word_bits_def dest: bit_imp_le_length)

lemma sorted_word_bits: "ssorted (word_bits w)"
  by (simp add: word_bits_def sorted_wrt_filter)

lemma distinct_word_bits: "distinct (word_bits w)"
  by (simp add: word_bits_def)

lemma count_ones_eq_card: "count_ones w = card {i. bit w i}"
  by (metis count_ones_def distinct_card distinct_word_bits set_word_bits)

lemma count_ones_le: "count_ones (w :: 'a::len word) \<le> LENGTH('a)"
  unfolding count_ones_def word_bits_def
  by (metis length_filter_le length_upt minus_nat.diff_0)

lemma finite_word_bits [simp]: "finite {i. bit (w :: 'a::len word) i}"
  by (metis set_word_bits List.finite_set)

lemma find_filter_hd: "find P xs = (case filter P xs of [] \<Rightarrow> None | x # _ \<Rightarrow> Some x)"
  by (induction xs) (auto split: list.splits)

lemma word_bits_eq_Nil_iff: "word_bits w = [] \<longleftrightarrow> w = 0"
proof -
  have "word_bits w = [] \<longleftrightarrow> {i. bit w i} = {}"
    by (metis set_word_bits set_empty)
  then show ?thesis by (auto simp: bit_eq_iff dest: bit_imp_le_length)
qed

lemma ssorted_set_eqI: "ssorted xs \<Longrightarrow> ssorted ys \<Longrightarrow> set xs = set ys \<Longrightarrow> xs = ys"
  for xs ys :: "'a::linorder list"
  using sorted_distinct_set_unique strict_sorted_iff by blast

text \<open>Clearing the lowest set bit, the step of \<^verbatim>\<open>cur &= cur - 1\<close>.\<close>

lemma bit_clear_lowest:
  fixes w :: "'a::len word"
  assumes k: "bit w k" and low: "\<And>j. j < k \<Longrightarrow> \<not> bit w j"
  shows "bit (w AND (w - 1)) n \<longleftrightarrow> bit w n \<and> n \<noteq> k"
proof -
  have kl: "k < LENGTH('a)" using k by (rule bit_imp_le_length)
  let ?h = "w AND NOT (mask (Suc k))"
  have bh: "bit ?h i \<longleftrightarrow> bit w i \<and> k < i" for i
    by (auto simp: bit_and_iff bit_not_iff bit_mask_iff less_Suc_eq_le not_le dest: bit_imp_le_length)
  have "w = ?h OR 2 ^ k"
    by (rule bit_eqI) (use k low bh kl in \<open>auto simp: bit_or_iff bit_exp_iff bh linorder_neq_iff\<close>)
  also have "\<dots> = ?h + 2 ^ k"
    by (rule disjunctive_add [symmetric]) (auto simp: bh bit_exp_iff)
  finally have "w - 1 = ?h + mask k"
    by (simp add: mask_eq_decr_exp algebra_simps)
  also have "\<dots> = ?h OR mask k"
    by (rule disjunctive_add) (auto simp: bh bit_mask_iff)
  finally have "w - 1 = ?h OR mask k" .
  then have "bit (w - 1) n \<longleftrightarrow> bit w n \<and> k < n \<or> (n < k \<and> n < LENGTH('a))"
    by (simp add: bit_or_iff bh bit_mask_iff conj_commute)
  then show ?thesis
    using low k by (auto simp: bit_and_iff linorder_neq_iff)
qed

lemma word_bits_step:
  fixes w :: "'a::len word"
  assumes "w \<noteq> 0"
  shows "word_bits w = trailing_zeros w # word_bits (w AND (w - 1))"
proof -
  from assms obtain k ks where kk: "word_bits w = k # ks"
    by (meson neq_Nil_conv word_bits_eq_Nil_iff)
  have tz: "trailing_zeros w = k"
    using kk by (simp add: trailing_zeros_def find_filter_hd word_bits_def [symmetric])
  have srt: "ssorted (k # ks)" using sorted_word_bits [of w] kk by simp
  have sk: "{i. bit w i} = insert k (set ks)" using set_word_bits [of w] kk by auto
  have bk: "bit w k" using sk by auto
  have low: "\<And>j. j < k \<Longrightarrow> \<not> bit w j" using srt sk by force
  have "set (word_bits (w AND (w - 1))) = set ks"
    using sk srt by (auto simp: set_word_bits bit_clear_lowest [OF bk low])
  then have "word_bits (w AND (w - 1)) = ks"
    using srt by (intro ssorted_set_eqI) (auto simp: sorted_word_bits)
  with kk tz show ?thesis by simp
qed

lemma test_bit_shift: "(drop_bit n w AND 1 = 1) \<longleftrightarrow> bit w n" for w :: "'a::len word"
  by (simp add: and_one_eq bit_iff_odd_drop_bit odd_iff_mod_2_eq_one)


lemma unat_bound: "unat (w :: 'a::len word) < 2 ^ LENGTH('a)"
  by (rule unsigned_less)

section \<open>Ordering and binary search\<close>

text \<open>\<^verbatim>\<open>core::cmp::Ordering\<close>, and \<^verbatim>\<open>Ord::cmp\<close> on a linear order.\<close>

datatype ordering = Less | Equal | Greater

definition cmp :: "'a::linorder \<Rightarrow> 'a \<Rightarrow> ordering" where
  "cmp x y = (if x < y then Less else if x = y then Equal else Greater)"

lemma cmp_simps [simp]:
  "cmp x y = Less \<longleftrightarrow> x < y" "cmp x y = Equal \<longleftrightarrow> x = y" "cmp x y = Greater \<longleftrightarrow> y < x"
  for x y :: "'a::linorder"
  by (auto simp: cmp_def)

text \<open>
  \<^verbatim>\<open>slice::binary_search_by\<close>: \<open>Inr i\<close> is \<^verbatim>\<open>Ok(i)\<close>, an index whose element compares
  \<open>Equal\<close>, and \<open>Inl i\<close> is \<^verbatim>\<open>Err(i)\<close>, the insertion point. It is also, word for word, the
  loop that \<^verbatim>\<open>LeafPage::search\<close> writes out by hand.
\<close>

function bsearch :: "('a \<Rightarrow> ordering) \<Rightarrow> 'a list \<Rightarrow> nat \<Rightarrow> nat \<Rightarrow> nat + nat" where
  "bsearch f xs lo hi =
     (if lo < hi then
        (let mid = (lo + hi) div 2 in
         case f (xs ! mid) of
           Less \<Rightarrow> bsearch f xs (mid + 1) hi
         | Greater \<Rightarrow> bsearch f xs lo mid
         | Equal \<Rightarrow> Inr mid)
      else Inl lo)"
  by pat_completeness auto
termination
  by (relation "measure (\<lambda>(f, xs, lo, hi). hi - lo)") auto

declare bsearch.simps [simp del]

definition binary_search_by :: "('a \<Rightarrow> ordering) \<Rightarrow> 'a list \<Rightarrow> nat + nat" where
  "binary_search_by f xs = bsearch f xs 0 (length xs)"

definition is_ok :: "'e + 'a \<Rightarrow> bool" where
  "is_ok r = (case r of Inl _ \<Rightarrow> False | Inr _ \<Rightarrow> True)"

lemma is_ok_simps [simp]: "\<not> is_ok (Inl e)" "is_ok (Inr a)"
  by (simp_all add: is_ok_def)

text \<open>
  The contract a sorted slice offers to the search: the comparison of a key with the
  elements goes from \<open>Less\<close> through \<open>Equal\<close> to \<open>Greater\<close>. The arrays, the runs, the delta
  entries and the leaf cells all meet it, each with its own notion of sorted.
\<close>

locale searchable =
  fixes probe :: "'k \<Rightarrow> 'a \<Rightarrow> ordering"
    and srt :: "'a list \<Rightarrow> bool"
  assumes less_down: "\<lbrakk>srt xs; i < j; j < length xs; probe k (xs ! j) = Less\<rbrakk> \<Longrightarrow> probe k (xs ! i) = Less"
    and greater_up: "\<lbrakk>srt xs; i < j; j < length xs; probe k (xs ! i) = Greater\<rbrakk> \<Longrightarrow> probe k (xs ! j) = Greater"
begin

lemma bsearch_hit:
  "bsearch (probe k) xs lo hi = Inr i \<Longrightarrow> hi \<le> length xs \<Longrightarrow>
     lo \<le> i \<and> i < hi \<and> probe k (xs ! i) = Equal"
proof (induction "probe k" xs lo hi rule: bsearch.induct)
  case (1 xs lo hi)
  show ?case
  proof (cases "probe k (xs ! ((lo + hi) div 2))")
    case Less
    with "1.prems" "1.hyps"(1) [OF _ refl Less] show ?thesis
      by (auto simp: bsearch.simps [of "probe k" xs lo hi] split: if_splits)
  next
    case Greater
    with "1.prems" "1.hyps"(2) [OF _ refl Greater] show ?thesis
      by (fastforce simp: bsearch.simps [of "probe k" xs lo hi] split: if_splits)
  next
    case Equal
    with "1.prems" show ?thesis
      by (auto simp: bsearch.simps [of "probe k" xs lo hi] Let_def split: if_splits)
  qed
qed

lemma bsearch_miss:
  "bsearch (probe k) xs lo hi = Inl i \<Longrightarrow> srt xs \<Longrightarrow> lo \<le> hi \<Longrightarrow> hi \<le> length xs \<Longrightarrow>
   \<forall>j < lo. probe k (xs ! j) = Less \<Longrightarrow>
   \<forall>j < length xs. hi \<le> j \<longrightarrow> probe k (xs ! j) = Greater \<Longrightarrow>
     lo \<le> i \<and> i \<le> hi \<and> (\<forall>j < i. probe k (xs ! j) = Less) \<and>
     (\<forall>j < length xs. i \<le> j \<longrightarrow> probe k (xs ! j) = Greater)"
proof (induction "probe k" xs lo hi rule: bsearch.induct)
  case (1 xs lo hi)
  let ?mid = "(lo + hi) div 2"
  show ?case
  proof (cases "lo < hi")
    case False
    with "1.prems" show ?thesis by (auto simp: bsearch.simps [of "probe k" xs lo hi])
  next
    case True
    then have mid: "lo \<le> ?mid" "?mid < hi" "?mid < length xs" using "1.prems" by auto
    show ?thesis
    proof (cases "probe k (xs ! ?mid)")
      case Less
      have "\<forall>j < ?mid + 1. probe k (xs ! j) = Less"
        using less_down [OF "1.prems"(2) _ mid(3) Less] Less by (auto simp: less_Suc_eq)
      moreover have "bsearch (probe k) xs (?mid + 1) hi = Inl i"
        using "1.prems"(1) True Less by (simp add: bsearch.simps [of "probe k" xs lo hi])
      ultimately have "?mid + 1 \<le> i \<and> i \<le> hi \<and> (\<forall>j < i. probe k (xs ! j) = Less) \<and>
          (\<forall>j < length xs. i \<le> j \<longrightarrow> probe k (xs ! j) = Greater)"
        using mid "1.prems" by (intro "1.hyps"(1) [OF True refl Less]) simp_all
      with mid show ?thesis by simp
    next
      case Greater
      have "\<forall>j < length xs. ?mid \<le> j \<longrightarrow> probe k (xs ! j) = Greater"
        using greater_up [OF "1.prems"(2) _ _ Greater] Greater by (auto simp: le_less)
      moreover have "bsearch (probe k) xs lo ?mid = Inl i"
        using "1.prems"(1) True Greater by (simp add: bsearch.simps [of "probe k" xs lo hi])
      ultimately have "lo \<le> i \<and> i \<le> ?mid \<and> (\<forall>j < i. probe k (xs ! j) = Less) \<and>
          (\<forall>j < length xs. i \<le> j \<longrightarrow> probe k (xs ! j) = Greater)"
        using mid "1.prems" by (intro "1.hyps"(2) [OF True refl Greater]) simp_all
      with mid show ?thesis by simp
    next
      case Equal
      with True "1.prems" show ?thesis by (simp add: bsearch.simps [of "probe k" xs lo hi])
    qed
  qed
qed

lemma search_hit:
  "binary_search_by (probe k) xs = Inr i \<Longrightarrow> i < length xs \<and> probe k (xs ! i) = Equal"
  unfolding binary_search_by_def using bsearch_hit [of k xs 0 "length xs" i] by simp

lemma search_miss:
  assumes "binary_search_by (probe k) xs = Inl i" and "srt xs"
  shows "i \<le> length xs"
    and "x \<in> set (take i xs) \<Longrightarrow> probe k x = Less"
    and "x \<in> set (drop i xs) \<Longrightarrow> probe k x = Greater"
proof -
  from assms have i: "i \<le> length xs \<and> (\<forall>j < i. probe k (xs ! j) = Less) \<and>
     (\<forall>j < length xs. i \<le> j \<longrightarrow> probe k (xs ! j) = Greater)"
    unfolding binary_search_by_def using bsearch_miss [of k xs 0 "length xs" i] by simp
  then show "i \<le> length xs" by simp
  show "x \<in> set (take i xs) \<Longrightarrow> probe k x = Less"
    using i by (auto simp: in_set_conv_nth)
  show "x \<in> set (drop i xs) \<Longrightarrow> probe k x = Greater"
    using i by (auto simp: in_set_conv_nth)
qed

lemma search_is_ok:
  assumes "srt xs"
  shows "is_ok (binary_search_by (probe k) xs) \<longleftrightarrow> (\<exists>x \<in> set xs. probe k x = Equal)"
proof (cases "binary_search_by (probe k) xs")
  case (Inr i)
  with search_hit [OF Inr] show ?thesis by (auto intro: nth_mem)
next
  case (Inl i)
  have "probe k x \<noteq> Equal" if "x \<in> set xs" for x
  proof -
    from that have "x \<in> set (take i xs) \<or> x \<in> set (drop i xs)"
      by (metis Un_iff append_take_drop_id set_append)
    then show ?thesis using search_miss(2,3) [OF Inl assms] by force
  qed
  with Inl show ?thesis by simp
qed

end

text \<open>Strictly ascending values searched with \<^verbatim>\<open>cmp\<close>: the arrays of the containers.\<close>

lemma ssorted_nth_less: "ssorted xs \<Longrightarrow> i < j \<Longrightarrow> j < length xs \<Longrightarrow> xs ! i < xs ! j"
  by (simp add: sorted_wrt_iff_nth_less)

interpretation vals: searchable "\<lambda>(k::'a::linorder) x. cmp x k" ssorted
  by unfold_locales (auto dest: ssorted_nth_less)

lemma ssorted_insert_at:
  assumes "ssorted xs" and "\<And>x. x \<in> set (take i xs) \<Longrightarrow> x < v"
    and "\<And>x. x \<in> set (drop i xs) \<Longrightarrow> v < x"
  shows "ssorted (take i xs @ v # drop i xs)"
proof -
  have "ssorted (take i xs @ drop i xs)" using assms(1) by simp
  then show ?thesis using assms(2,3) unfolding sorted_wrt_append sorted_wrt.simps by auto
qed

lemma set_insert_at: "set (take i xs @ v # drop i xs) = insert v (set xs)"
  by (metis append_take_drop_id set_append Un_insert_right list.simps(15))

lemma set_remove_at:
  assumes "distinct xs" and "i < length xs"
  shows "set (take i xs @ drop (Suc i) xs) = set xs - {xs ! i}"
proof -
  define a b where "a = take i xs" and "b = drop (Suc i) xs"
  have xs: "xs = a @ xs ! i # b"
    unfolding a_def b_def using assms(2) by (rule id_take_nth_drop)
  have "set (a @ b) = set (a @ xs ! i # b) - {xs ! i}"
    using assms(1) xs by (metis distinct.simps(2) distinct_append Diff_insert_absorb Un_insert_right
        disjoint_insert(1) inf_commute list.simps(15) set_append Un_iff)
  then show ?thesis unfolding a_def [symmetric] b_def [symmetric] using xs by metis
qed

text \<open>A predicate that holds exactly on a prefix filters to that prefix.\<close>

lemma filter_take_prefix:
  assumes "n \<le> length cs" "\<forall>j < n. P (cs ! j)" "\<forall>j < length cs. n \<le> j \<longrightarrow> \<not> P (cs ! j)"
  shows "filter P cs = take n cs"
proof -
  have "filter P (take n cs) = take n cs" using assms by (auto simp: filter_id_conv in_set_conv_nth)
  moreover have "filter P (drop n cs) = []" using assms by (auto simp: filter_empty_conv in_set_conv_nth)
  ultimately show ?thesis by (metis append_take_drop_id filter_append append_Nil2)
qed

section \<open>Early return\<close>

text \<open>The \<^verbatim>\<open>?\<close> of the sources: an error ends the function, a value goes on.\<close>

definition rbind :: "'e + 'a \<Rightarrow> ('a \<Rightarrow> 'e + 'b) \<Rightarrow> 'e + 'b" where
  "rbind r f = (case r of Inl e \<Rightarrow> Inl e | Inr x \<Rightarrow> f x)"

lemma rbind_simps [simp]: "rbind (Inl e) f = Inl e" "rbind (Inr x) f = f x"
  by (simp_all add: rbind_def)

lemma rbind_Inr_iff: "rbind r f = Inr y \<longleftrightarrow> (\<exists>x. r = Inr x \<and> f x = Inr y)"
  by (cases r) simp_all

lemma rbind_cong [fundef_cong]:
  "r = r' \<Longrightarrow> (\<And>x. r' = Inr x \<Longrightarrow> f x = f' x) \<Longrightarrow> rbind r f = rbind r' f'"
  by (cases r') simp_all

end
