(* ===== verification/Big_Container.thy ===== *)
theory Big_Container
  imports Big_Prelude
begin

text \<open>
  The roaring container of \<^verbatim>\<open>crates/big-container\<close>: a set of 16-bit offsets in one of
  three representations. This theory models \<^verbatim>\<open>interval.rs\<close>, \<^verbatim>\<open>container/mod.rs\<close>
  and \<^verbatim>\<open>optimize.rs\<close>: the representations, the ascending iterator all three share, point
  reads, point writes, and the choice of the cheapest representation. A borrowed
  \<^verbatim>\<open>ContainerRef\<close> and an owned \<^verbatim>\<open>Container\<close> have the same content and are one type
  here; \<open>op_result\<close> keeps the distinction where the code returns it.
\<close>

section \<open>Data\<close>

definition BITMAP_WORDS :: nat where "BITMAP_WORDS = 1024"
definition BITMAP_BYTES :: nat where "BITMAP_BYTES = BITMAP_WORDS * 8"
definition ARRAY_BREAK_EVEN :: nat where "ARRAY_BREAK_EVEN = BITMAP_BYTES div 2"

record interval =
  istart :: u16
  ilast :: u16

definition interval_new :: "u16 \<Rightarrow> u16 \<Rightarrow> interval" where
  "interval_new s l = \<lparr>istart = s, ilast = l\<rparr>"

definition interval_len :: "interval \<Rightarrow> u32" where
  "interval_len i = ucast (ilast i) - ucast (istart i) + 1"

definition interval_contains :: "interval \<Rightarrow> u16 \<Rightarrow> bool" where
  "interval_contains i v \<longleftrightarrow> istart i \<le> v \<and> v \<le> ilast i"

datatype container_type =
  TArray | TRun | TBitmapPtr | TBitmapDelta | TValuesInline | TValuesPtr

fun container_type_as_u16 :: "container_type \<Rightarrow> u16" where
  "container_type_as_u16 TArray = 0"
| "container_type_as_u16 TRun = 1"
| "container_type_as_u16 TBitmapPtr = 2"
| "container_type_as_u16 TBitmapDelta = 3"
| "container_type_as_u16 TValuesInline = 4"
| "container_type_as_u16 TValuesPtr = 5"

definition container_type_from_u16 :: "u16 \<Rightarrow> container_type option" where
  "container_type_from_u16 v =
     (if v = 0 then Some TArray else if v = 1 then Some TRun else if v = 2 then Some TBitmapPtr
      else if v = 3 then Some TBitmapDelta else if v = 4 then Some TValuesInline
      else if v = 5 then Some TValuesPtr else None)"

fun owns_page :: "container_type \<Rightarrow> bool" where
  "owns_page TBitmapPtr = True"
| "owns_page TBitmapDelta = True"
| "owns_page TValuesPtr = True"
| "owns_page _ = False"

fun is_values :: "container_type \<Rightarrow> bool" where
  "is_values TValuesInline = True"
| "is_values TValuesPtr = True"
| "is_values _ = False"

datatype container = Array "u16 list" | Bitmap "u64 list" | Run "interval list"

datatype op_result = Borrowed container | Owned container

fun op_result_as_ref :: "op_result \<Rightarrow> container" where
  "op_result_as_ref (Borrowed c) = c"
| "op_result_as_ref (Owned c) = c"

fun is_borrowed :: "op_result \<Rightarrow> bool" where
  "is_borrowed (Borrowed _) = True"
| "is_borrowed (Owned _) = False"


section \<open>Point reads\<close>

text \<open>\<^verbatim>\<open>b[v as usize / 64] >> (v % 64) & 1 == 1\<close>\<close>

definition bitmap_has :: "u64 list \<Rightarrow> u16 \<Rightarrow> bool" where
  "bitmap_has b v \<longleftrightarrow> (drop_bit (unat v mod 64) (b ! (unat v div 64))) AND 1 = 1"

definition run_probe :: "u16 \<Rightarrow> interval \<Rightarrow> ordering" where
  "run_probe v i = (if ilast i < v then Less else if v < istart i then Greater else Equal)"

fun byte_size :: "container \<Rightarrow> nat" where
  "byte_size (Array a) = 2 * length a"
| "byte_size (Bitmap b) = BITMAP_BYTES"
| "byte_size (Run r) = 4 * length r"

fun cardinality :: "container \<Rightarrow> u32" where
  "cardinality (Array a) = of_nat (length a)"
| "cardinality (Bitmap b) = sum_list (map (\<lambda>w. of_nat (count_ones w)) b)"
| "cardinality (Run r) = sum_list (map interval_len r)"

fun container_is_empty :: "container \<Rightarrow> bool" where
  "container_is_empty (Array a) \<longleftrightarrow> a = []"
| "container_is_empty (Bitmap b) \<longleftrightarrow> list_all (\<lambda>w. w = 0) b"
| "container_is_empty (Run r) \<longleftrightarrow> r = []"

fun container_contains :: "container \<Rightarrow> u16 \<Rightarrow> bool" where
  "container_contains (Array a) v \<longleftrightarrow> is_ok (binary_search_by (\<lambda>x. cmp x v) a)"
| "container_contains (Bitmap b) v \<longleftrightarrow> bitmap_has b v"
| "container_contains (Run r) v \<longleftrightarrow> is_ok (binary_search_by (run_probe v) r)"

definition windows2 :: "'a list \<Rightarrow> ('a \<times> 'a) list" where
  "windows2 xs = zip xs (tl xs)"

fun is_well_formed :: "container \<Rightarrow> bool" where
  "is_well_formed (Array a) \<longleftrightarrow> list_all (\<lambda>(x, y). x < y) (windows2 a)"
| "is_well_formed (Bitmap b) \<longleftrightarrow> True"
| "is_well_formed (Run r) \<longleftrightarrow>
     list_all (\<lambda>i. istart i \<le> ilast i) r \<and>
     list_all (\<lambda>(x, y). unat (ilast x) + 1 < unat (istart y)) (windows2 r)"


section \<open>The ascending iterator\<close>

datatype iter =
  IArray "u16 list"
| IBitmap "u64 list" nat u64
| IRun "interval list" nat u16

definition run_start_at :: "interval list \<Rightarrow> nat \<Rightarrow> u16" where
  "run_start_at runs idx = (if idx < length runs then istart (runs ! idx) else 0)"

fun container_iter :: "container \<Rightarrow> iter" where
  "container_iter (Array a) = IArray a"
| "container_iter (Bitmap b) = IBitmap b 0 (b ! 0)"
| "container_iter (Run r) = IRun r 0 (run_start_at r 0)"

text \<open>The inner \<^verbatim>\<open>while *cur == 0\<close> of the bitmap case; a zero in the result means exhausted.\<close>

function skip_zero :: "u64 list \<Rightarrow> nat \<Rightarrow> u64 \<Rightarrow> nat \<times> u64" where
  "skip_zero words word cur =
     (if cur = 0 then
        (if Suc word \<ge> BITMAP_WORDS then (Suc word, 0)
         else skip_zero words (Suc word) (words ! Suc word))
      else (word, cur))"
  by pat_completeness auto
termination
  by (relation "measure (\<lambda>(words, word, cur). BITMAP_WORDS - word)") auto

declare skip_zero.simps [simp del]

fun iter_next :: "iter \<Rightarrow> u16 option \<times> iter" where
  "iter_next (IArray []) = (None, IArray [])"
| "iter_next (IArray (x # xs)) = (Some x, IArray xs)"
| "iter_next (IBitmap words word cur) =
     (let (word', cur') = skip_zero words word cur in
      if cur' = 0 then (None, IBitmap words word' cur')
      else (Some (of_nat (word' * 64 + trailing_zeros cur')),
            IBitmap words word' (cur' AND (cur' - 1))))"
| "iter_next (IRun runs idx nxt) =
     (if idx < length runs then
        (if nxt = ilast (runs ! idx)
         then (Some nxt, IRun runs (Suc idx) (run_start_at runs (Suc idx)))
         else (Some nxt, IRun runs idx (nxt + 1)))
      else (None, IRun runs idx nxt))"

text \<open>What an iterator has still to yield, written without the iteration.\<close>

definition wrap_range :: "u16 \<Rightarrow> u16 \<Rightarrow> u16 list" where
  "wrap_range s l = map (\<lambda>k. s + of_nat k) [0..<Suc (unat (l - s))]"

definition word_values :: "nat \<Rightarrow> u64 \<Rightarrow> u16 list" where
  "word_values j w = map (\<lambda>b. of_nat (j * 64 + b)) (word_bits w)"

fun iter_rest :: "iter \<Rightarrow> u16 list" where
  "iter_rest (IArray xs) = xs"
| "iter_rest (IBitmap words word cur) =
     word_values word cur @ concat (map (\<lambda>j. word_values j (words ! j)) [Suc word..<BITMAP_WORDS])"
| "iter_rest (IRun runs idx nxt) =
     (if idx < length runs
      then wrap_range nxt (ilast (runs ! idx)) @
           concat (map (\<lambda>i. wrap_range (istart i) (ilast i)) (drop (Suc idx) runs))
      else [])"

lemma word_values_0 [simp]: "word_values j 0 = []"
  by (simp add: word_values_def word_bits_def)

lemma skip_zero_rest:
  "skip_zero words word cur = (word', cur') \<Longrightarrow>
   iter_rest (IBitmap words word cur) = (if cur' = 0 then [] else iter_rest (IBitmap words word' cur'))"
proof (induction words word cur rule: skip_zero.induct)
  case (1 words word cur)
  show ?case
  proof (cases "cur = 0 \<and> Suc word < BITMAP_WORDS")
    case True
    then have "[Suc word..<BITMAP_WORDS] = Suc word # [Suc (Suc word)..<BITMAP_WORDS]"
      by (simp add: upt_rec)
    moreover from True "1.prems" have "skip_zero words (Suc word) (words ! Suc word) = (word', cur')"
      by (simp add: skip_zero.simps [of words word 0])
    ultimately show ?thesis using True "1.IH" by simp
  next
    case False
    with "1.prems" show ?thesis
      by (auto simp: skip_zero.simps [of words word cur] split: if_splits)
  qed
qed

lemma wrap_range_same [simp]: "wrap_range l l = [l]"
  by (simp add: wrap_range_def)

lemma wrap_range_step:
  "wrap_range s l = s # (if s = l then [] else wrap_range (s + 1) l)"
proof (cases "s = l")
  case True
  then show ?thesis by (simp add: wrap_range_def)
next
  case False
  then have ne: "l - s \<noteq> 0" by simp
  then have "unat (l - s) = Suc (unat (l - s - 1))" by (metis unat_minus_one Suc_pred' unat_gt_0)
  then have "Suc (unat (l - (s + 1))) = unat (l - s)" by (simp add: algebra_simps)
  then have "[0..<Suc (unat (l - s))] = 0 # map Suc [0..<Suc (unat (l - (s + 1)))]"
    by (simp add: upt_conv_Cons map_Suc_upt del: upt_Suc)
  with False show ?thesis
    by (simp add: wrap_range_def o_def add.assoc del: upt_Suc)
qed

lemma iter_next_None: "iter_next it = (None, it') \<Longrightarrow> iter_rest it = []"
  by (cases it rule: iter_next.cases)
    (auto split: prod.splits if_splits dest: skip_zero_rest)

lemma iter_next_Some: "iter_next it = (Some v, it') \<Longrightarrow> iter_rest it = v # iter_rest it'"
proof (cases it rule: iter_next.cases)
  case (3 words word cur)
  assume nx: "iter_next it = (Some v, it')"
  obtain word' cur' where sk: "skip_zero words word cur = (word', cur')" by fastforce
  with nx 3 have c: "cur' \<noteq> 0" and v: "v = of_nat (word' * 64 + trailing_zeros cur')"
    and it': "it' = IBitmap words word' (cur' AND (cur' - 1))"
    by (auto split: if_splits)
  show ?thesis
    using skip_zero_rest [OF sk] c v it' 3 word_bits_step [OF c] by (simp add: word_values_def)
next
  case (4 runs idx nxt)
  assume nx: "iter_next it = (Some v, it')"
  then have idx: "idx < length runs" and v: "v = nxt" using 4 by (auto split: if_splits)
  show ?thesis
  proof (cases "nxt = ilast (runs ! idx)")
    case False
    with nx 4 idx v show ?thesis
      by (auto simp: wrap_range_step [of nxt "ilast (runs ! idx)"])
  next
    case True
    with nx 4 idx v show ?thesis
      by (auto simp: run_start_at_def Cons_nth_drop_Suc [symmetric])
  qed
qed auto

text \<open>\<^verbatim>\<open>for v in c.iter()\<close> and \<^verbatim>\<open>c.iter().collect()\<close> run the iterator to its end.\<close>

function collect :: "iter \<Rightarrow> u16 list" where
  "collect it = (case iter_next it of (None, it') \<Rightarrow> [] | (Some v, it') \<Rightarrow> v # collect it')"
  by pat_completeness auto
termination
  by (relation "measure (\<lambda>it. length (iter_rest it))") (auto dest!: iter_next_Some [OF sym])

declare collect.simps [simp del]

definition container_values :: "container \<Rightarrow> u16 list" where
  "container_values c = collect (container_iter c)"

lemma collect_eq_rest: "collect it = iter_rest it"
proof (induction it rule: collect.induct)
  case (1 it)
  show ?case
  proof (cases "iter_next it")
    case (Pair a it')
    with "1.IH" show ?thesis
      by (cases a) (auto simp: collect.simps [of it] iter_next_None iter_next_Some)
  qed
qed


lemmas container_values_simps =
  container_values_def collect_eq_rest container_iter.simps iter_rest.simps


section \<open>The set a container stands for\<close>

fun elems :: "container \<Rightarrow> u16 set" where
  "elems (Array a) = set a"
| "elems (Bitmap b) = {v. bit (b ! (unat v div 64)) (unat v mod 64)}"
| "elems (Run r) = {v. \<exists>i \<in> set r. interval_contains i v}"

text \<open>
  The invariant: the code's own \<^verbatim>\<open>is_well_formed\<close>, and the length that the type
  \<^verbatim>\<open>[u64; BITMAP_WORDS]\<close> fixes.
\<close>

definition container_inv :: "container \<Rightarrow> bool" where
  "container_inv c \<longleftrightarrow> is_well_formed c \<and>
     (case c of Bitmap b \<Rightarrow> length b = BITMAP_WORDS | _ \<Rightarrow> True)"

lemma windows2_Cons: "windows2 (x # y # xs) = (x, y) # windows2 (y # xs)"
  by (simp add: windows2_def)

lemma windows2_short [simp]: "windows2 [] = []" "windows2 [x] = []"
  by (simp_all add: windows2_def)

lemma windows2_transp:
  assumes "transp P"
  shows "list_all (\<lambda>(x, y). P x y) (windows2 xs) \<longleftrightarrow> sorted_wrt P xs"
proof (induction xs rule: induct_list012)
  case (3 x y zs)
  then show ?case using assms by (auto simp: windows2_Cons dest: transpD)
qed simp_all

lemma windows2_ssorted: "list_all (\<lambda>(x, y). x < y) (windows2 xs) \<longleftrightarrow> ssorted xs"
  for xs :: "'a::linorder list"
  by (rule windows2_transp) (rule transp_on_less)

text \<open>Disjoint, non-adjacent runs in ascending order.\<close>

definition runs_wf :: "interval list \<Rightarrow> bool" where
  "runs_wf r \<longleftrightarrow> (\<forall>i \<in> set r. istart i \<le> ilast i) \<and>
     sorted_wrt (\<lambda>x y. unat (ilast x) + 1 < unat (istart y)) r"

lemma runs_wf_Nil [simp]: "runs_wf []"
  by (simp add: runs_wf_def)

lemma runs_wf_Cons:
  "runs_wf (i # r) \<longleftrightarrow> istart i \<le> ilast i \<and> (\<forall>j \<in> set r. unat (ilast i) + 1 < unat (istart j)) \<and> runs_wf r"
  by (auto simp: runs_wf_def)

lemma windows2_runs:
  "list_all (\<lambda>i. istart i \<le> ilast i) r \<Longrightarrow>
   list_all (\<lambda>(x, y). unat (ilast x) + 1 < unat (istart y)) (windows2 r) \<longleftrightarrow>
   sorted_wrt (\<lambda>x y. unat (ilast x) + 1 < unat (istart y)) r"
proof (induction r rule: induct_list012)
  case (3 x y zs)
  have "unat (ilast x) + 1 < unat (istart z)"
    if "unat (ilast x) + 1 < unat (istart y)" "unat (ilast y) + 1 < unat (istart z)" for z
    using that "3.prems" by (auto simp: word_le_nat_alt)
  with 3 show ?case by (auto simp: windows2_Cons)
qed simp_all

lemma container_inv_simps [simp]:
  "container_inv (Array a) \<longleftrightarrow> ssorted a"
  "container_inv (Bitmap b) \<longleftrightarrow> length b = BITMAP_WORDS"
  "container_inv (Run r) \<longleftrightarrow> runs_wf r"
  using windows2_runs [of r] windows2_ssorted [of a]
  by (auto simp: container_inv_def runs_wf_def list_all_iff)

lemma bitmap_has_iff: "bitmap_has b v \<longleftrightarrow> v \<in> elems (Bitmap b)"
  by (simp add: bitmap_has_def test_bit_shift)

interpretation runs: searchable run_probe runs_wf
proof unfold_locales
  fix xs :: "interval list" and i j k
  assume r: "runs_wf xs" "i < j" "j < length xs"
  then have "unat (ilast (xs ! i)) + 1 < unat (istart (xs ! j))" "istart (xs ! j) \<le> ilast (xs ! j)"
    "istart (xs ! i) \<le> ilast (xs ! i)"
    by (simp_all add: runs_wf_def sorted_wrt_iff_nth_less)
  then have "ilast (xs ! i) < istart (xs ! j)" "istart (xs ! j) \<le> ilast (xs ! j)"
    "istart (xs ! i) \<le> ilast (xs ! i)"
    by (simp_all add: word_less_nat_alt)
  then show "run_probe k (xs ! j) = Less \<Longrightarrow> run_probe k (xs ! i) = Less"
    and "run_probe k (xs ! i) = Greater \<Longrightarrow> run_probe k (xs ! j) = Greater"
    by (auto simp: run_probe_def split: if_splits)
qed

lemma run_probe_Equal: "run_probe v i = Equal \<longleftrightarrow> interval_contains i v"
  by (auto simp: run_probe_def interval_contains_def)

lemma contains_iff_elems:
  assumes "container_inv c"
  shows "container_contains c v \<longleftrightarrow> v \<in> elems c"
proof (cases c)
  case (Array a)
  with assms vals.search_is_ok [of a v] show ?thesis by simp
next
  case (Bitmap b)
  with bitmap_has_iff show ?thesis by simp
next
  case (Run r)
  with assms runs.search_is_ok [of r v] show ?thesis by (simp add: run_probe_Equal)
qed

text \<open>The iterator yields exactly the set, in strictly ascending order.\<close>

lemma wrap_range_set:
  assumes "s \<le> l"
  shows "set (wrap_range s l) = {v. s \<le> v \<and> v \<le> l}" and "ssorted (wrap_range s l)"
proof -
  have d: "unat (l - s) = unat l - unat s" using assms by (simp add: unat_sub)
  have u: "unat (s + of_nat k) = unat s + k" if "k \<le> unat l - unat s" for k
  proof -
    have "unat s + k < 2 ^ LENGTH(16)"
      using that assms unat_bound [of l] by (auto simp: word_le_nat_alt)
    then show ?thesis by (simp add: unat_word_ariths unat_of_nat)
  qed
  show "ssorted (wrap_range s l)"
    unfolding wrap_range_def
    by (auto simp: sorted_wrt_iff_nth_less word_less_nat_alt u d simp del: upt_Suc)
  show "set (wrap_range s l) = {v. s \<le> v \<and> v \<le> l}"
  proof (intro set_eqI iffI)
    fix v assume "v \<in> set (wrap_range s l)"
    then obtain k where "k \<le> unat l - unat s" "v = s + of_nat k"
      by (auto simp: wrap_range_def d less_Suc_eq_le simp del: upt_Suc)
    with u [of k] assms show "v \<in> {v. s \<le> v \<and> v \<le> l}" by (simp add: word_le_nat_alt)
  next
    fix v assume "v \<in> {v. s \<le> v \<and> v \<le> l}"
    then have "v = s + of_nat (unat v - unat s)" "unat v - unat s < Suc (unat (l - s))"
      by (auto simp: word_le_nat_alt d word_unat_eq_iff u)
    then show "v \<in> set (wrap_range s l)" unfolding wrap_range_def by (auto simp del: upt_Suc)
  qed
qed


lemma ssorted_concat:
  assumes "\<And>xs. xs \<in> set xss \<Longrightarrow> ssorted xs"
    and "sorted_wrt (\<lambda>xs ys. \<forall>x \<in> set xs. \<forall>y \<in> set ys. x < y) xss"
  shows "ssorted (concat xss)"
  using assms by (induction xss) (auto simp: sorted_wrt_append)

lemma values_Run: "container_values (Run r) = concat (map (\<lambda>i. wrap_range (istart i) (ilast i)) r)"
  by (cases r) (auto simp: container_values_simps run_start_at_def)

lemma values_Bitmap:
  "container_values (Bitmap b) = concat (map (\<lambda>j. word_values j (b ! j)) [0..<BITMAP_WORDS])"
proof -
  have "[0..<BITMAP_WORDS] = 0 # [Suc 0..<BITMAP_WORDS]"
    by (rule upt_conv_Cons) (simp add: BITMAP_WORDS_def)
  then show ?thesis by (simp add: container_values_simps)
qed

lemma values_Array [simp]: "container_values (Array a) = a"
  by (simp add: container_values_simps)

lemma word_value_bound: "bit (w :: u64) k \<Longrightarrow> j < BITMAP_WORDS \<Longrightarrow> j * 64 + k < 65536"
  using bit_imp_le_length [of w k] by (simp add: BITMAP_WORDS_def)

lemma unat_word_value: "n < 65536 \<Longrightarrow> unat (of_nat n :: u16) = n"
  by (simp add: unat_of_nat)

lemma set_word_values:
  assumes "j < BITMAP_WORDS"
  shows "set (word_values j w) = {v. unat v div 64 = j \<and> bit w (unat v mod 64)}"
proof (intro set_eqI iffI)
  fix v assume "v \<in> set (word_values j w)"
  then obtain k where k: "bit w k" "v = of_nat (j * 64 + k)"
    by (auto simp: word_values_def set_word_bits)
  have "unat v = j * 64 + k"
    unfolding k(2) by (rule unat_word_value [OF word_value_bound [OF k(1) assms]])
  moreover have "k < 64" using bit_imp_le_length [OF k(1)] by simp
  ultimately show "v \<in> {v. unat v div 64 = j \<and> bit w (unat v mod 64)}" using k by simp
next
  fix v :: u16 assume "v \<in> {v. unat v div 64 = j \<and> bit w (unat v mod 64)}"
  moreover then have "j * 64 + unat v mod 64 = unat v" by auto
  then have "v = of_nat (j * 64 + unat v mod 64)" by simp
  ultimately show "v \<in> set (word_values j w)"
    unfolding word_values_def by (auto simp: set_word_bits intro: image_eqI)
qed

lemma sorted_word_values:
  assumes "j < BITMAP_WORDS"
  shows "ssorted (word_values j w)"
proof -
  have "(of_nat (j * 64 + x) :: u16) < of_nat (j * 64 + y)" if "bit w x" "bit w y" "x < y" for x y
    using that(3) unfolding word_less_nat_alt
      unat_word_value [OF word_value_bound [OF that(1) assms]]
      unat_word_value [OF word_value_bound [OF that(2) assms]] by simp
  then show ?thesis
    using sorted_word_bits [of w] unfolding word_values_def sorted_wrt_map
    by (auto simp: set_word_bits elim!: sorted_wrt_mono_rel [rotated])
qed

lemma values_spec_Bitmap:
  assumes "length b = BITMAP_WORDS"
  shows "ssorted (container_values (Bitmap b))" and "set (container_values (Bitmap b)) = elems (Bitmap b)"
proof -
  have blk: "unat x div 64 = j" if "x \<in> set (word_values j (b ! j))" "j < BITMAP_WORDS" for x j
    using that by (simp add: set_word_values)
  have "sorted_wrt (\<lambda>xs ys. \<forall>x \<in> set xs. \<forall>y \<in> set ys. x < y)
          (map (\<lambda>j. word_values j (b ! j)) [0..<BITMAP_WORDS])"
  proof (clarsimp simp: sorted_wrt_iff_nth_less)
    fix i j x y assume ij: "i < j" "j < BITMAP_WORDS"
      and x: "x \<in> set (word_values i (b ! i))" and y: "y \<in> set (word_values j (b ! j))"
    then have "unat x div 64 < unat y div 64" using blk by simp
    then show "x < y" by (meson div_le_mono not_less word_le_nat_alt)
  qed
  then show "ssorted (container_values (Bitmap b))"
    unfolding values_Bitmap by (intro ssorted_concat) (auto simp: sorted_word_values)
  have "unat (v :: u16) div 64 < BITMAP_WORDS" for v
    using unat_bound [of v] by (simp add: BITMAP_WORDS_def)
  then show "set (container_values (Bitmap b)) = elems (Bitmap b)"
    by (auto simp: values_Bitmap set_word_values)
qed

lemma values_spec_Run:
  assumes "runs_wf r"
  shows "ssorted (container_values (Run r))" and "set (container_values (Run r)) = elems (Run r)"
proof -
  have le: "istart i \<le> ilast i" if "i \<in> set r" for i
    using that assms by (simp add: runs_wf_def)
  have "sorted_wrt (\<lambda>xs ys. \<forall>x \<in> set xs. \<forall>y \<in> set ys. x < y)
          (map (\<lambda>i. wrap_range (istart i) (ilast i)) r)"
    unfolding sorted_wrt_map
  proof (rule sorted_wrt_mono_rel [of r "\<lambda>x y. unat (ilast x) + 1 < unat (istart y)"])
    fix i j assume "i \<in> set r" "j \<in> set r" "unat (ilast i) + 1 < unat (istart j)"
    then show "\<forall>x \<in> set (wrap_range (istart i) (ilast i)). \<forall>y \<in> set (wrap_range (istart j) (ilast j)). x < y"
      using le by (auto simp: wrap_range_set word_le_nat_alt word_less_nat_alt)
  qed (use assms in \<open>simp add: runs_wf_def\<close>)
  then show "ssorted (container_values (Run r))"
    unfolding values_Run by (intro ssorted_concat) (auto simp: wrap_range_set le)
  show "set (container_values (Run r)) = elems (Run r)"
    by (auto simp: values_Run wrap_range_set le interval_contains_def)
qed

lemma values_spec:
  assumes "container_inv c"
  shows values_sorted: "ssorted (container_values c)" and set_values: "set (container_values c) = elems c"
  using assms by (cases c; simp add: values_spec_Bitmap values_spec_Run del: elems.simps(2,3))+

lemma finite_elems [simp]: "finite (elems c)"
  by (rule finite_subset [OF subset_UNIV]) simp

lemma card_elems_le: "card (elems c) \<le> 65536"
proof -
  have "card (elems c) \<le> card (UNIV :: u16 set)" by (intro card_mono) simp_all
  then show ?thesis by (simp add: card_word)
qed

lemma length_values: "container_inv c \<Longrightarrow> length (container_values c) = card (elems c)"
  by (metis distinct_card set_values strict_sorted_iff values_sorted)

lemma unat_ucast_u16_u32: "unat (ucast (w :: u16) :: u32) = unat w"
  using unat_bound [of w] by (simp add: unsigned_ucast_eq take_bit_nat_eq_self)

lemma interval_len_eq:
  assumes "istart i \<le> ilast i"
  shows "interval_len i = of_nat (length (wrap_range (istart i) (ilast i)))"
proof -
  have "unat (interval_len i) = Suc (unat (ilast i) - unat (istart i))"
    using assms unat_bound [of "ilast i"] unat_bound [of "istart i"]
    by (simp add: interval_len_def unat_word_ariths unat_sub word_le_nat_alt unat_ucast_u16_u32)
  then show ?thesis
    using assms unat_bound [of "ilast i"]
    by (simp add: wrap_range_def unat_sub word_unat_eq_iff unat_of_nat del: of_nat_Suc)
qed

lemma sum_list_of_nat: "sum_list (map (\<lambda>x. of_nat (f x)) xs) = (of_nat (sum_list (map f xs)) :: 'a::semiring_1)"
  by (induction xs) simp_all

lemma cardinality_values: "container_inv c \<Longrightarrow> cardinality c = of_nat (length (container_values c))"
proof (cases c)
  case (Bitmap b)
  assume "container_inv c"
  then have "b = map ((!) b) [0..<BITMAP_WORDS]" using Bitmap map_nth [of b] by simp
  then have "sum_list (map count_ones b) = sum_list (map (\<lambda>j. count_ones (b ! j)) [0..<BITMAP_WORDS])"
    by (metis (no_types) comp_apply map_eq_conv map_map)
  with Bitmap show ?thesis
    by (simp add: sum_list_of_nat values_Bitmap length_concat o_def word_values_def flip: count_ones_def)
next
  case (Run r)
  assume "container_inv c"
  then have "cardinality (Run r) = sum_list (map (\<lambda>i. of_nat (length (wrap_range (istart i) (ilast i)))) r)"
    using Run by (auto simp: runs_wf_def interval_len_eq intro!: arg_cong [of _ _ sum_list])
  then show ?thesis
    by (simp add: Run values_Run length_concat o_def sum_list_of_nat)
qed simp

lemma cardinality_card: "container_inv c \<Longrightarrow> unat (cardinality c) = card (elems c)"
  using card_elems_le [of c] by (simp add: cardinality_values length_values unat_of_nat)

lemma container_is_empty_iff: "container_inv c \<Longrightarrow> container_is_empty c \<longleftrightarrow> elems c = {}"
proof (cases c)
  case (Bitmap b)
  assume inv: "container_inv c"
  show ?thesis
  proof
    assume "elems c = {}"
    then have "v \<notin> elems c" for v by blast
    then have e: "\<not> bit (b ! (unat v div 64)) (unat v mod 64)" for v :: u16 using Bitmap by simp
    have "b ! j = 0" if "j < BITMAP_WORDS" for j
    proof (rule bit_eqI)
      fix n assume "possible_bit TYPE(64 word) n"
      then have "n < 64" by simp
      then have "unat (of_nat (j * 64 + n) :: u16) = j * 64 + n"
        using that by (intro unat_word_value) (simp add: BITMAP_WORDS_def)
      then show "bit (b ! j) n = bit 0 n" using e [of "of_nat (j * 64 + n)"] \<open>n < 64\<close> by simp
    qed
    then show "container_is_empty c" using Bitmap inv by (auto simp: list_all_iff in_set_conv_nth)
  next
    assume "container_is_empty c"
    moreover have "unat (v :: u16) div 64 < BITMAP_WORDS" for v
      using unat_bound [of v] by (simp add: BITMAP_WORDS_def)
    ultimately show "elems c = {}" using Bitmap inv by (auto simp: list_all_length)
  qed
next
  case (Run r)
  assume "container_inv c"
  then show ?thesis using Run by (cases r) (auto simp: runs_wf_Cons interval_contains_def)
qed auto



section \<open>Runs of a sequence of values\<close>

definition to_runs_step :: "interval list \<Rightarrow> u16 \<Rightarrow> interval list" where
  "to_runs_step out v =
     (if out \<noteq> [] \<and> ilast (last out) + 1 = v
      then butlast out @ [(last out)\<lparr>ilast := v\<rparr>]
      else out @ [interval_new v v])"

definition to_runs :: "container \<Rightarrow> interval list" where
  "to_runs c = foldl to_runs_step [] (container_values c)"

definition run_count_step :: "nat \<times> u16 option \<Rightarrow> u16 \<Rightarrow> nat \<times> u16 option" where
  "run_count_step st v =
     (let (runs, prev) = st in
      (if (case prev of None \<Rightarrow> True | Some p \<Rightarrow> v \<noteq> p + 1) then runs + 1 else runs, Some v))"

fun run_count :: "container \<Rightarrow> nat" where
  "run_count (Run r) = length r"
| "run_count c = fst (foldl run_count_step (0, None) (container_values c))"

lemma runs_wf_snoc:
  "runs_wf (r @ [i]) \<longleftrightarrow> runs_wf r \<and> istart i \<le> ilast i \<and> (\<forall>j \<in> set r. unat (ilast j) + 1 < unat (istart i))"
  by (auto simp: runs_wf_def sorted_wrt_append)

lemma unat_Suc_u16: "p < v \<Longrightarrow> unat (p + 1 :: u16) = unat p + 1"
  using unat_bound [of v] by (simp add: unat_word_ariths word_less_nat_alt)

lemma runs_wf_last:
  assumes "runs_wf r" and "j \<in> set r"
  shows "ilast j \<le> ilast (last r)"
proof -
  from assms(2) have "r \<noteq> []" by auto
  then obtain rs i where r: "r = rs @ [i]" by (metis rev_exhaust)
  with assms show ?thesis by (auto simp: runs_wf_snoc word_le_nat_alt)
qed

lemma to_runs_step_new:
  assumes "runs_wf out" and "out \<noteq> [] \<Longrightarrow> ilast (last out) < v \<and> ilast (last out) + 1 \<noteq> v"
  shows "runs_wf (out @ [interval_new v v])"
proof -
  have "unat (ilast j) + 1 < unat v" if "j \<in> set out" for j
  proof -
    from that have "out \<noteq> []" by auto
    then have lt: "ilast (last out) < v" and ne: "ilast (last out) + 1 \<noteq> v" using assms(2) by auto
    then have "unat (ilast (last out)) + 1 < unat v"
      by (metis unat_Suc_u16 Suc_eq_plus1 Suc_leI le_neq_implies_less word_less_nat_alt word_unat_eq_iff)
    moreover have "unat (ilast j) \<le> unat (ilast (last out))"
      using runs_wf_last [OF assms(1) that] by (simp add: word_le_nat_alt)
    ultimately show ?thesis by simp
  qed
  with assms(1) show ?thesis by (simp add: runs_wf_snoc interval_new_def)
qed

lemma elems_Run_append: "elems (Run (r @ r')) = elems (Run r) \<union> elems (Run r')"
  by auto

lemma elems_Run_new: "elems (Run [interval_new v v]) = {v}"
  by (auto simp: interval_new_def interval_contains_def)

lemma to_runs_step_extend:
  assumes "runs_wf out" "out \<noteq> []" "ilast (last out) < v" "ilast (last out) + 1 = v"
  shows "runs_wf (to_runs_step out v)" and "elems (Run (to_runs_step out v)) = insert v (elems (Run out))"
proof -
  obtain rs i where r: "out = rs @ [i]" using assms(2) by (metis rev_exhaust)
  have st: "to_runs_step out v = rs @ [i\<lparr>ilast := v\<rparr>]" using assms r by (simp add: to_runs_step_def)
  have wf: "istart i \<le> ilast i" "ilast i < v" "ilast i + 1 = v" using assms r by (auto simp: runs_wf_snoc)
  show "runs_wf (to_runs_step out v)" using assms(1) wf r st by (auto simp: runs_wf_snoc)
  have "unat v = unat (ilast i) + 1" using wf(2,3) unat_Suc_u16 by metis
  then have "x \<le> v \<longleftrightarrow> x \<le> ilast i \<or> x = v" for x
    by (auto simp: word_le_nat_alt word_unat_eq_iff)
  then show "elems (Run (to_runs_step out v)) = insert v (elems (Run out))"
    using wf r st by (auto simp: interval_contains_def)
qed

text \<open>
  What the fold has built after the values \<open>xs\<close>: well-formed runs of exactly those values,
  as many of them as \<open>run_count\<close> counts, the last one ending at the last value.
\<close>

lemma to_runs_fold:
  assumes "ssorted xs"
  shows "runs_wf (foldl to_runs_step [] xs)"
    and "elems (Run (foldl to_runs_step [] xs)) = set xs"
    and "foldl run_count_step (0, None) xs =
           (length (foldl to_runs_step [] xs), if xs = [] then None else Some (last xs))"
    and "xs \<noteq> [] \<Longrightarrow> foldl to_runs_step [] xs \<noteq> [] \<and> ilast (last (foldl to_runs_step [] xs)) = last xs"
proof -
  have "runs_wf (foldl to_runs_step [] xs) \<and> elems (Run (foldl to_runs_step [] xs)) = set xs \<and>
    foldl run_count_step (0, None) xs =
      (length (foldl to_runs_step [] xs), if xs = [] then None else Some (last xs)) \<and>
    (xs \<noteq> [] \<longrightarrow> foldl to_runs_step [] xs \<noteq> [] \<and> ilast (last (foldl to_runs_step [] xs)) = last xs)"
    using assms
  proof (induction xs rule: rev_induct)
    case (snoc v xs)
    obtain out where out: "foldl to_runs_step [] xs = out" by blast
    from snoc out have IH: "runs_wf out" "elems (Run out) = set xs"
      "foldl run_count_step (0, None) xs = (length out, if xs = [] then None else Some (last xs))"
      "xs \<noteq> [] \<Longrightarrow> out \<noteq> [] \<and> ilast (last out) = last xs"
      and lt: "\<And>x. x \<in> set xs \<Longrightarrow> x < v"
      by (auto simp: sorted_wrt_append simp del: elems.simps)
    have out_Nil: "out = [] \<longleftrightarrow> xs = []" using IH(4) out by auto
    have last_lt: "ilast (last out) < v" "ilast (last out) = last xs" if "out \<noteq> []"
      using that IH(4) lt out_Nil by auto
    show ?case
    proof (cases "out \<noteq> [] \<and> ilast (last out) + 1 = v")
      case True
      note ext = to_runs_step_extend [OF IH(1), of v]
      have "to_runs_step out v = butlast out @ [(last out)\<lparr>ilast := v\<rparr>]"
        using True by (simp add: to_runs_step_def)
      moreover have "runs_wf (to_runs_step out v)" "elems (Run (to_runs_step out v)) = insert v (set xs)"
        using True last_lt ext IH(2) by auto
      moreover have "run_count_step (length out, Some (last xs)) v = (length out, Some v)"
        using True last_lt by (simp add: run_count_step_def)
      ultimately show ?thesis using out IH(3) True out_Nil by (simp del: elems.simps)
    next
      case False
      then have st: "to_runs_step out v = out @ [interval_new v v]" by (auto simp: to_runs_step_def)
      have "runs_wf (out @ [interval_new v v])"
        using False last_lt by (intro to_runs_step_new [OF IH(1)]) auto
      moreover have "elems (Run (out @ [interval_new v v])) = insert v (set xs)"
        by (simp add: elems_Run_append elems_Run_new IH(2) del: elems.simps)
      moreover have "run_count_step (length out, if xs = [] then None else Some (last xs)) v
          = (Suc (length out), Some v)"
        using False last_lt out_Nil by (auto simp: run_count_step_def)
      ultimately show ?thesis using out st IH(3) by (simp add: interval_new_def del: elems.simps)
    qed
  qed simp
  then show "runs_wf (foldl to_runs_step [] xs)" and "elems (Run (foldl to_runs_step [] xs)) = set xs"
    and "foldl run_count_step (0, None) xs =
           (length (foldl to_runs_step [] xs), if xs = [] then None else Some (last xs))"
    and "xs \<noteq> [] \<Longrightarrow> foldl to_runs_step [] xs \<noteq> [] \<and> ilast (last (foldl to_runs_step [] xs)) = last xs"
    by blast+
qed

lemma to_runs_wf: "container_inv c \<Longrightarrow> runs_wf (to_runs c)"
  unfolding to_runs_def by (intro to_runs_fold values_sorted)

lemma elems_to_runs: "container_inv c \<Longrightarrow> elems (Run (to_runs c)) = elems c"
  unfolding to_runs_def by (simp only: to_runs_fold(2) [OF values_sorted] set_values)

text \<open>Runs are a canonical form: reading well-formed runs back gives the same runs.\<close>

lemma to_runs_fold_range:
  assumes "s \<le> l" and "out = [] \<or> ilast (last out) + 1 \<noteq> s"
  shows "foldl to_runs_step out (wrap_range s l) = out @ [\<lparr>istart = s, ilast = l\<rparr>]"
proof -
  have ext: "foldl to_runs_step (out @ [\<lparr>istart = a, ilast = s\<rparr>]) (if s = l then [] else wrap_range (s + 1) l)
        = out @ [\<lparr>istart = a, ilast = l\<rparr>]" if "s \<le> l" for a s
    using that
  proof (induction "unat (l - s)" arbitrary: s)
    case 0
    then have "s = l" by (metis unat_eq_zero right_minus_eq)
    then show ?case by simp
  next
    case (Suc n)
    then have "s < l" by (metis le_less unat_0 diff_self nat.distinct(1))
    then have n: "n = unat (l - (s + 1))" "s + 1 \<le> l" "s \<noteq> l"
      using Suc.hyps(2) unat_Suc_u16 [of s l] by (auto simp: unat_sub word_le_nat_alt word_less_nat_alt)
    have "wrap_range (s + 1) l = (s + 1) # (if s + 1 = l then [] else wrap_range (s + 1 + 1) l)"
      by (rule wrap_range_step)
    with Suc.hyps(1) [OF n(1,2)] n(3) show ?case by (simp add: to_runs_step_def)
  qed
  show ?thesis
    using assms ext [of s s] by (subst wrap_range_step) (auto simp: to_runs_step_def interval_new_def)
qed

lemma to_runs_Run:
  assumes "runs_wf r"
  shows "to_runs (Run r) = r"
proof -
  have "foldl to_runs_step out (container_values (Run r)) = out @ r" if "runs_wf (out @ r)" for out
    using that
  proof (induction r arbitrary: out)
    case (Cons i r)
    have i: "istart i \<le> ilast i" and gap: "\<forall>j \<in> set out. unat (ilast j) + 1 < unat (istart i)"
      using Cons.prems by (auto simp: runs_wf_def sorted_wrt_append)
    have "out = [] \<or> ilast (last out) + 1 \<noteq> istart i"
    proof (cases "out = []")
      case False
      then have lt: "unat (ilast (last out)) + 1 < unat (istart i)" using gap by simp
      then have "unat (ilast (last out) + 1) = unat (ilast (last out)) + 1"
        by (intro unat_Suc_u16 [of _ "istart i"]) (simp add: word_less_nat_alt)
      with lt show ?thesis by auto
    qed simp
    then have "foldl to_runs_step out (wrap_range (istart i) (ilast i)) = out @ [i]"
      using to_runs_fold_range [OF i, of out] by simp
    with Cons.IH [of "out @ [i]"] Cons.prems show ?case by (simp add: values_Run)
  qed (simp add: values_Run)
  from this [of "[]"] assms show ?thesis by (simp add: to_runs_def)
qed

lemma run_count_to_runs: "container_inv c \<Longrightarrow> run_count c = length (to_runs c)"
  by (cases c) (simp_all add: to_runs_Run, simp_all add: to_runs_def to_runs_fold(3) values_sorted values_spec_Bitmap)



section \<open>Point writes\<close>

definition bitmap_set :: "u64 list \<Rightarrow> u16 \<Rightarrow> u64 list" where
  "bitmap_set b v = b[unat v div 64 := (b ! (unat v div 64)) OR push_bit (unat v mod 64) 1]"

definition bitmap_clear :: "u64 list \<Rightarrow> u16 \<Rightarrow> u64 list" where
  "bitmap_clear b v = b[unat v div 64 := (b ! (unat v div 64)) AND NOT (push_bit (unat v mod 64) 1)]"

definition bitmap_flip :: "u64 list \<Rightarrow> u16 \<Rightarrow> u64 list" where
  "bitmap_flip b v = b[unat v div 64 := (b ! (unat v div 64)) XOR push_bit (unat v mod 64) 1]"

definition list_insert_at :: "nat \<Rightarrow> 'a \<Rightarrow> 'a list \<Rightarrow> 'a list" where
  "list_insert_at i x xs = take i xs @ x # drop i xs"

definition list_remove_at :: "nat \<Rightarrow> 'a list \<Rightarrow> 'a list" where
  "list_remove_at i xs = take i xs @ drop (Suc i) xs"

definition container_empty :: container where
  "container_empty = Array []"

text \<open>\<^verbatim>\<open>sort_unstable\<close> and \<^verbatim>\<open>dedup\<close> are skipped when the values already ascend strictly.\<close>

definition from_values :: "u16 list \<Rightarrow> container" where
  "from_values v = (if list_all (\<lambda>(x, y). x < y) (windows2 v) then Array v
                    else Array (remdups_adj (sort v)))"

text \<open>The flag first, then the container the method leaves behind.\<close>

fun container_insert :: "container \<Rightarrow> u16 \<Rightarrow> bool \<times> container" where
  "container_insert (Array a) v =
     (case binary_search_by (\<lambda>x. cmp x v) a of
        Inr _ \<Rightarrow> (False, Array a)
      | Inl i \<Rightarrow> (True, Array (list_insert_at i v a)))"
| "container_insert (Bitmap b) v =
     (let had = (b ! (unat v div 64)) AND push_bit (unat v mod 64) 1 \<noteq> 0
      in (\<not> had, Bitmap (bitmap_set b v)))"
| "container_insert (Run r) v =
     (if container_contains (Run r) v then (False, Run r)
      else let vals = container_values (Run r) in
        (case binary_search_by (\<lambda>x. cmp x v) vals of
           Inr _ \<Rightarrow> (False, Run r)
         | Inl i \<Rightarrow> (True, Run (to_runs (Array (list_insert_at i v vals))))))"

fun container_remove :: "container \<Rightarrow> u16 \<Rightarrow> bool \<times> container" where
  "container_remove (Array a) v =
     (case binary_search_by (\<lambda>x. cmp x v) a of
        Inr i \<Rightarrow> (True, Array (list_remove_at i a))
      | Inl _ \<Rightarrow> (False, Array a))"
| "container_remove (Bitmap b) v =
     (let had = (b ! (unat v div 64)) AND push_bit (unat v mod 64) 1 \<noteq> 0
      in (had, Bitmap (bitmap_clear b v)))"
| "container_remove (Run r) v =
     (if \<not> container_contains (Run r) v then (False, Run r)
      else (True, Run (to_runs (Array (filter (\<lambda>x. x \<noteq> v) (container_values (Run r)))))))"

lemma word_index: "unat (v :: u16) div 64 < BITMAP_WORDS"
  using unat_bound [of v] by (simp add: BITMAP_WORDS_def)

lemma bit_push_1: "bit (2 ^ n :: 'a::len word) i \<longleftrightarrow> i = n \<and> n < LENGTH('a)"
  by (auto simp: bit_exp_iff)

lemma same_word_bit:
  "unat (x :: u16) div 64 = unat (v :: u16) div 64 \<Longrightarrow> unat x mod 64 = unat v mod 64 \<longleftrightarrow> x = v"
  by (metis div_mult_mod_eq word_unat_eq_iff)

lemma bitmap_update_elems:
  fixes v :: u16
  assumes "length b = BITMAP_WORDS"
  shows "x \<in> elems (Bitmap (b[unat v div 64 := w])) \<longleftrightarrow>
    (if unat x div 64 = unat v div 64 then bit w (unat x mod 64) else x \<in> elems (Bitmap b))"
  using assms word_index [of v] by (auto simp: nth_list_update)

lemma elems_bitmap_set:
  "length b = BITMAP_WORDS \<Longrightarrow> elems (Bitmap (bitmap_set b v)) = insert v (elems (Bitmap b))"
  by (rule set_eqI)
    (auto simp: bitmap_set_def bitmap_update_elems bit_or_iff bit_push_1 same_word_bit simp del: elems.simps,
     auto simp: same_word_bit)

lemma elems_bitmap_clear:
  "length b = BITMAP_WORDS \<Longrightarrow> elems (Bitmap (bitmap_clear b v)) = elems (Bitmap b) - {v}"
  by (rule set_eqI)
    (auto simp: bitmap_clear_def bitmap_update_elems bit_and_iff bit_not_iff bit_push_1 same_word_bit simp del: elems.simps,
     auto simp: same_word_bit)

lemma elems_bitmap_flip:
  "length b = BITMAP_WORDS \<Longrightarrow>
     elems (Bitmap (bitmap_flip b v)) = (if v \<in> elems (Bitmap b) then elems (Bitmap b) - {v} else insert v (elems (Bitmap b)))"
  by (rule set_eqI)
    (auto simp: bitmap_flip_def bitmap_update_elems bit_xor_iff bit_push_1 same_word_bit simp del: elems.simps,
     auto simp: same_word_bit)

lemma length_bitmap_upd [simp]:
  "length (bitmap_set b v) = length b" "length (bitmap_clear b v) = length b" "length (bitmap_flip b v) = length b"
  by (simp_all add: bitmap_set_def bitmap_clear_def bitmap_flip_def)

lemma had_bit: "w AND 2 ^ n \<noteq> 0 \<longleftrightarrow> bit w n" for w :: "'a::len word"
proof -
  have "bit w n \<Longrightarrow> n < LENGTH('a)" by (rule bit_imp_le_length)
  then show ?thesis
    by (auto simp: bit_eq_iff [of "w AND 2 ^ n"] bit_and_iff bit_push_1)
qed

lemma insert_at_spec:
  assumes "ssorted xs" and "binary_search_by (\<lambda>x. cmp x v) xs = Inl i"
  shows "ssorted (list_insert_at i v xs)" and "set (list_insert_at i v xs) = insert v (set xs)" and "v \<notin> set xs"
proof -
  note miss = vals.search_miss [OF assms(2,1)]
  show "ssorted (list_insert_at i v xs)"
    unfolding list_insert_at_def using miss by (intro ssorted_insert_at [OF assms(1)]) auto
  show "set (list_insert_at i v xs) = insert v (set xs)"
    unfolding list_insert_at_def by (rule set_insert_at)
  show "v \<notin> set xs" using vals.search_is_ok [OF assms(1), of v] assms(2) by auto
qed

lemma remove_at_spec:
  assumes "ssorted xs" and "binary_search_by (\<lambda>x. cmp x v) xs = Inr i"
  shows "ssorted (list_remove_at i xs)" and "set (list_remove_at i xs) = set xs - {v}" and "v \<in> set xs"
proof -
  have i: "i < length xs" "xs ! i = v" using vals.search_hit [OF assms(2)] by auto
  have "ssorted (take i xs @ xs ! i # drop (Suc i) xs)"
    using assms(1) i(1) by (simp add: id_take_nth_drop [symmetric])
  then show "ssorted (list_remove_at i xs)"
    unfolding list_remove_at_def by (auto simp: sorted_wrt_append)
  show "set (list_remove_at i xs) = set xs - {v}"
    using set_remove_at [of xs i] assms(1) i by (simp add: list_remove_at_def strict_sorted_iff)
  show "v \<in> set xs" using i by auto
qed

lemma insert_spec:
  assumes "container_inv c" and "container_insert c v = (new, c')"
  shows insert_flag: "new \<longleftrightarrow> v \<notin> elems c"
    and insert_elems: "elems c' = insert v (elems c)"
    and insert_inv: "container_inv c'"
proof -
  have "(new \<longleftrightarrow> v \<notin> elems c) \<and> elems c' = insert v (elems c) \<and> container_inv c'"
  proof (cases c)
    case (Array a)
    have "v \<in> set a" if "binary_search_by (\<lambda>x. cmp x v) a = Inr i" for i
      using vals.search_hit [OF that] by auto
    with assms Array show ?thesis
      by (auto simp: insert_at_spec split: sum.splits)
  next
    case (Bitmap b)
    with assms show ?thesis
      by (auto simp: had_bit elems_bitmap_set simp del: elems.simps) auto
  next
    case (Run r)
    define vals where "vals = container_values (Run r)"
    have vs: "ssorted vals" "set vals = elems c" using assms(1) Run values_spec [of c] by (auto simp: vals_def)
    show ?thesis
    proof (cases "v \<in> elems c")
      case True
      with assms Run contains_iff_elems [OF assms(1), of v] show ?thesis by auto
    next
      case False
      then obtain i where i: "binary_search_by (\<lambda>x. cmp x v) vals = Inl i"
        using vals.search_is_ok [OF vs(1), of v] vs(2)
        by (cases "binary_search_by (\<lambda>x. cmp x v) vals") auto
      have "container_inv (Array (list_insert_at i v vals))"
        using insert_at_spec [OF vs(1) i] by simp
      from to_runs_wf [OF this] elems_to_runs [OF this] assms(2) Run False i
        contains_iff_elems [OF assms(1), of v] insert_at_spec [OF vs(1) i] vs(2)
      show ?thesis by (auto simp: vals_def [symmetric] simp del: elems.simps(2,3))
    qed
  qed
  then show "new \<longleftrightarrow> v \<notin> elems c" "elems c' = insert v (elems c)" "container_inv c'" by auto
qed

lemma remove_spec:
  assumes "container_inv c" and "container_remove c v = (had, c')"
  shows remove_flag: "had \<longleftrightarrow> v \<in> elems c"
    and remove_elems: "elems c' = elems c - {v}"
    and remove_inv: "container_inv c'"
proof -
  have "(had \<longleftrightarrow> v \<in> elems c) \<and> elems c' = elems c - {v} \<and> container_inv c'"
  proof (cases c)
    case (Array a)
    have "v \<notin> set a" if "binary_search_by (\<lambda>x. cmp x v) a = Inl i" for i
      using insert_at_spec(3) [OF _ that] assms(1) Array by simp
    with assms Array show ?thesis
      by (auto simp: remove_at_spec split: sum.splits)
  next
    case (Bitmap b)
    with assms show ?thesis
      by (auto simp: had_bit elems_bitmap_clear simp del: elems.simps) auto
  next
    case (Run r)
    have vs: "ssorted (container_values c)" "set (container_values c) = elems c"
      using assms(1) values_spec [of c] by auto
    have "container_inv (Array (filter (\<lambda>x. x \<noteq> v) (container_values c)))"
      using vs(1) by (simp add: sorted_wrt_filter)
    from to_runs_wf [OF this] elems_to_runs [OF this] assms Run vs(2)
      contains_iff_elems [OF assms(1), of v]
    show ?thesis by (auto simp del: elems.simps(2,3) split: if_splits)
  qed
  then show "had \<longleftrightarrow> v \<in> elems c" "elems c' = elems c - {v}" "container_inv c'" by auto
qed

lemma distinct_remdups_adj_sorted: "sorted xs \<Longrightarrow> distinct (remdups_adj xs)"
  by (induction xs rule: remdups_adj.induct) (auto simp: less_le)

lemma from_values_spec: "container_inv (from_values v)" "elems (from_values v) = set v"
  using windows2_ssorted [of v]
  by (auto simp: from_values_def strict_sorted_iff sorted_remdups_adj distinct_remdups_adj_sorted)



section \<open>Choosing the cheapest representation\<close>

record caps =
  array_max :: nat
  run_max :: nat

definition usize_MAX :: nat where "usize_MAX = 2 ^ 64 - 1"

definition optimize_array_ok :: "container \<Rightarrow> caps \<Rightarrow> bool" where
  "optimize_array_ok c k \<longleftrightarrow> unat (cardinality c) \<le> min (array_max k) ARRAY_BREAK_EVEN"

definition optimize_run_ok :: "container \<Rightarrow> caps \<Rightarrow> bool" where
  "optimize_run_ok c k \<longleftrightarrow> run_count c \<le> run_max k"

definition bitmap_of_values :: "u16 list \<Rightarrow> u64 list" where
  "bitmap_of_values vs = foldl bitmap_set (replicate BITMAP_WORDS 0) vs"

definition optimize :: "container \<Rightarrow> caps \<Rightarrow> op_result" where
  "optimize c k =
     (let card = unat (cardinality c);
          runs = run_count c;
          array_ok = optimize_array_ok c k;
          run_ok = optimize_run_ok c k;
          array_bytes = (if array_ok then card * 2 else usize_MAX);
          run_bytes = (if run_ok then runs * 4 else usize_MAX);
          bitmap_bytes = BITMAP_BYTES;
          best = min (min array_bytes run_bytes) bitmap_bytes
      in if (case c of
               Array _ \<Rightarrow> array_ok \<and> array_bytes = best
             | Run _ \<Rightarrow> run_ok \<and> run_bytes = best
             | Bitmap _ \<Rightarrow> bitmap_bytes = best)
         then Borrowed c
         else Owned (if best = array_bytes then Array (container_values c)
                     else if best = run_bytes then Run (to_runs c)
                     else Bitmap (bitmap_of_values (container_values c))))"

lemma bitmap_of_values_spec:
  "length (bitmap_of_values vs) = BITMAP_WORDS" "elems (Bitmap (bitmap_of_values vs)) = set vs"
proof -
  have "length (foldl bitmap_set b vs) = BITMAP_WORDS \<and>
        elems (Bitmap (foldl bitmap_set b vs)) = elems (Bitmap b) \<union> set vs" if "length b = BITMAP_WORDS" for b
    using that by (induction vs arbitrary: b) (auto simp: elems_bitmap_set simp del: elems.simps)
  from this [of "replicate BITMAP_WORDS 0"] show "length (bitmap_of_values vs) = BITMAP_WORDS"
    "elems (Bitmap (bitmap_of_values vs)) = set vs"
    using word_index by (simp_all add: bitmap_of_values_def)
qed

text \<open>The size of the best representation that fits, as a function of the set alone.\<close>

definition array_bytes :: "container \<Rightarrow> caps \<Rightarrow> nat" where
  "array_bytes c k = (if optimize_array_ok c k then card (elems c) * 2 else usize_MAX)"

definition run_bytes :: "container \<Rightarrow> caps \<Rightarrow> nat" where
  "run_bytes c k = (if optimize_run_ok c k then length (to_runs c) * 4 else usize_MAX)"

definition best_bytes :: "container \<Rightarrow> caps \<Rightarrow> nat" where
  "best_bytes c k = min (min (array_bytes c k) (run_bytes c k)) BITMAP_BYTES"

lemma bytes_lt_MAX: "BITMAP_BYTES < usize_MAX"
  by (simp add: BITMAP_BYTES_def BITMAP_WORDS_def usize_MAX_def)

lemma same_elems_same_runs:
  assumes "container_inv c" "container_inv c'" "elems c = elems c'"
  shows "container_values c = container_values c'" and "to_runs c = to_runs c'"
    and "run_count c = run_count c'" and "cardinality c = cardinality c'"
proof -
  show v: "container_values c = container_values c'"
    using assms by (intro ssorted_set_eqI) (simp_all add: values_sorted set_values)
  then show "to_runs c = to_runs c'" by (simp add: to_runs_def)
  then show "run_count c = run_count c'" using assms by (simp add: run_count_to_runs)
  show "cardinality c = cardinality c'" using v assms by (simp add: cardinality_values)
qed

lemma optimize_eq:
  assumes "container_inv c"
  shows "optimize c k =
    (if (case c of Array _ \<Rightarrow> optimize_array_ok c k \<and> array_bytes c k = best_bytes c k
         | Run _ \<Rightarrow> optimize_run_ok c k \<and> run_bytes c k = best_bytes c k
         | Bitmap _ \<Rightarrow> BITMAP_BYTES = best_bytes c k)
     then Borrowed c
     else Owned (if best_bytes c k = array_bytes c k then Array (container_values c)
                 else if best_bytes c k = run_bytes c k then Run (to_runs c)
                 else Bitmap (bitmap_of_values (container_values c))))"
  unfolding optimize_def Let_def best_bytes_def array_bytes_def run_bytes_def
    cardinality_card [OF assms] run_count_to_runs [OF assms] ..

lemma best_bytes_array: "best_bytes c k = array_bytes c k \<Longrightarrow> optimize_array_ok c k"
  and best_bytes_run: "best_bytes c k = run_bytes c k \<Longrightarrow> optimize_run_ok c k"
  and best_bytes_bitmap: "best_bytes c k \<noteq> array_bytes c k \<Longrightarrow> best_bytes c k \<noteq> run_bytes c k \<Longrightarrow>
    best_bytes c k = BITMAP_BYTES"
proof -
  have "best_bytes c k \<le> BITMAP_BYTES" by (simp add: best_bytes_def)
  with bytes_lt_MAX show "best_bytes c k = array_bytes c k \<Longrightarrow> optimize_array_ok c k"
    "best_bytes c k = run_bytes c k \<Longrightarrow> optimize_run_ok c k"
    by (auto simp: array_bytes_def run_bytes_def split: if_splits)
  show "best_bytes c k \<noteq> array_bytes c k \<Longrightarrow> best_bytes c k \<noteq> run_bytes c k \<Longrightarrow>
    best_bytes c k = BITMAP_BYTES"
    unfolding best_bytes_def by (auto simp: min_def split: if_splits)
qed

text \<open>
  A container in the representation a size names: the array of its values, its runs, or
  its bitmap. Whatever branch \<open>optimize\<close> takes, its result is one of these.
\<close>

definition represents :: "container \<Rightarrow> container \<Rightarrow> caps \<Rightarrow> bool" where
  "represents r c k \<longleftrightarrow> elems r = elems c \<and> container_inv r \<and>
     (case r of Array _ \<Rightarrow> best_bytes c k = array_bytes c k
      | Run _ \<Rightarrow> best_bytes c k = run_bytes c k
      | Bitmap _ \<Rightarrow> best_bytes c k = BITMAP_BYTES)"

lemma optimize_represents:
  assumes "container_inv c"
  shows "represents (op_result_as_ref (optimize c k)) c k"
proof -
  have "represents (Array (container_values c)) c k" if "best_bytes c k = array_bytes c k"
    using that assms by (simp add: represents_def values_sorted set_values)
  moreover have "represents (Run (to_runs c)) c k" if "best_bytes c k = run_bytes c k"
    using that assms by (simp add: represents_def to_runs_wf elems_to_runs del: elems.simps)
  moreover have "represents (Bitmap (bitmap_of_values (container_values c))) c k"
    if "best_bytes c k = BITMAP_BYTES"
    using that assms by (simp add: represents_def bitmap_of_values_spec set_values del: elems.simps)
  moreover have "represents c c k"
    if "case c of Array _ \<Rightarrow> optimize_array_ok c k \<and> array_bytes c k = best_bytes c k
         | Run _ \<Rightarrow> optimize_run_ok c k \<and> run_bytes c k = best_bytes c k
         | Bitmap _ \<Rightarrow> BITMAP_BYTES = best_bytes c k"
    using that assms by (auto simp: represents_def simp del: elems.simps split: container.splits)
  ultimately show ?thesis
    unfolding optimize_eq [OF assms] using best_bytes_bitmap by auto
qed

lemma represents_spec:
  assumes "represents r c k" and inv: "container_inv c"
  shows represents_bytes: "byte_size r = best_bytes c k"
    and represents_fits: "case r of Array a \<Rightarrow> length a \<le> min (array_max k) ARRAY_BREAK_EVEN
                        | Run q \<Rightarrow> length q \<le> run_max k | Bitmap _ \<Rightarrow> True"
proof -
  have r: "elems r = elems c" "container_inv r" using assms by (auto simp: represents_def)
  have same: "container_values r = container_values c" "to_runs r = to_runs c"
    using same_elems_same_runs [OF r(2) inv r(1)] by auto
  have "byte_size r = best_bytes c k \<and> (case r of Array a \<Rightarrow> length a \<le> min (array_max k) ARRAY_BREAK_EVEN
      | Run q \<Rightarrow> length q \<le> run_max k | Bitmap _ \<Rightarrow> True)"
  proof (cases r)
    case (Array a)
    then have "best_bytes c k = array_bytes c k" using assms by (simp add: represents_def)
    moreover have "length a = card (elems c)" using Array same length_values [OF inv] by simp
    ultimately show ?thesis
      using best_bytes_array [of c k] Array
      by (simp add: array_bytes_def optimize_array_ok_def cardinality_card [OF inv])
  next
    case (Run q)
    then have "best_bytes c k = run_bytes c k" using assms by (simp add: represents_def)
    moreover have "length q = length (to_runs c)" using Run same to_runs_Run [of q] r(2) by simp
    ultimately show ?thesis
      using best_bytes_run [of c k] Run
      by (simp add: run_bytes_def optimize_run_ok_def run_count_to_runs [OF inv])
  next
    case (Bitmap b)
    then show ?thesis using assms by (simp add: represents_def)
  qed
  then show "byte_size r = best_bytes c k" "case r of Array a \<Rightarrow> length a \<le> min (array_max k) ARRAY_BREAK_EVEN
      | Run q \<Rightarrow> length q \<le> run_max k | Bitmap _ \<Rightarrow> True" by auto
qed

lemma best_bytes_cong:
  assumes "container_inv c" "container_inv c'" "elems c = elems c'"
  shows "array_bytes c k = array_bytes c' k" "run_bytes c k = run_bytes c' k" "best_bytes c k = best_bytes c' k"
  using same_elems_same_runs [OF assms] assms(3)
  by (simp_all add: best_bytes_def array_bytes_def run_bytes_def optimize_array_ok_def optimize_run_ok_def
      del: elems.simps)

text \<open>An already optimal container is borrowed as it is.\<close>

lemma represents_borrowed:
  assumes "represents r c k" and inv: "container_inv c"
  shows "optimize r k = Borrowed r"
proof -
  have r: "elems r = elems c" "container_inv r" using assms by (auto simp: represents_def)
  note cong = best_bytes_cong [OF r(2) inv r(1), of k]
  show ?thesis
    unfolding optimize_eq [OF r(2)] using assms(1) cong best_bytes_array [of r k] best_bytes_run [of r k]
    by (auto simp: represents_def split: container.splits)
qed

text \<open>No container with the same values that the caps allow is smaller than the best size.\<close>

definition fits_caps :: "container \<Rightarrow> caps \<Rightarrow> bool" where
  "fits_caps c k = (case c of Array a \<Rightarrow> length a \<le> array_max k | Run r \<Rightarrow> length r \<le> run_max k | Bitmap _ \<Rightarrow> True)"

lemma best_bytes_least:
  assumes "container_inv c" "container_inv r" "elems r = elems c" "fits_caps r k"
  shows "best_bytes c k \<le> byte_size r"
proof -
  note same = same_elems_same_runs [OF assms(2,1,3)]
  show ?thesis
  proof (cases r)
    case (Array a)
    then have len: "length a = card (elems c)" using same(1) length_values [OF assms(1)] by simp
    show ?thesis
    proof (cases "length a \<le> ARRAY_BREAK_EVEN")
      case True
      then have "array_bytes c k = byte_size r" using Array len assms(1,4)
        by (simp add: array_bytes_def optimize_array_ok_def cardinality_card fits_caps_def)
      then show ?thesis by (simp add: best_bytes_def)
    next
      case False
      then have "BITMAP_BYTES \<le> byte_size r"
        using Array by (simp add: ARRAY_BREAK_EVEN_def BITMAP_BYTES_def BITMAP_WORDS_def)
      then show ?thesis by (simp add: best_bytes_def)
    qed
  next
    case (Run q)
    then have "length q = length (to_runs c)" using same(2) to_runs_Run [of q] assms(2) by simp
    then have "run_bytes c k = byte_size r" using Run assms(1,4)
      by (simp add: run_bytes_def optimize_run_ok_def run_count_to_runs fits_caps_def)
    then show ?thesis by (simp add: best_bytes_def)
  qed (simp add: best_bytes_def)
qed

section \<open>Properties\<close>

text \<open>
  Reading a container through its iterator, whatever the representation, stops and
  yields exactly its values, each once, in ascending order; the cardinality the container
  reports is their number.
\<close>

lemma iteration_sorted:
  assumes "container_inv c"
  shows "container_values c = sorted_list_of_set (elems c) \<and>
         unat (cardinality c) = length (container_values c)"
  using assms values_spec [OF assms] length_values [OF assms] cardinality_card [OF assms]
  by (metis sorted_list_of_set_unique finite_elems)

text \<open>
  A membership test answers exactly for the values of the container, in all three
  representations (a binary search of the array, a bit of the bitmap, a binary search of
  the runs).
\<close>

lemma contains_correct:
  assumes "container_inv c"
  shows "container_contains c v \<longleftrightarrow> v \<in> set (container_values c)"
  using contains_iff_elems [OF assms] set_values [OF assms] by simp

text \<open>
  Removing a value takes out that value and nothing else, reports true exactly when it
  was present, and keeps the container well formed.
\<close>

lemma remove_correct:
  assumes "container_inv c" and "container_remove c v = (had, c')"
  shows "(had \<longleftrightarrow> v \<in> elems c) \<and> elems c' = elems c - {v} \<and> container_inv c'"
  using remove_spec [OF assms] by simp

text \<open>
  Converting to runs is lossless and canonical: the runs are well formed, hold the same
  values, are the only well-formed run list that does, and \<^verbatim>\<open>run_count\<close> (which never builds
  them) predicts their number.
\<close>

lemma to_runs_canonical:
  assumes "container_inv c"
  shows "container_inv (Run (to_runs c)) \<and> elems (Run (to_runs c)) = elems c \<and>
         run_count c = length (to_runs c) \<and>
         (\<forall>r. container_inv (Run r) \<longrightarrow> elems (Run r) = elems c \<longrightarrow> r = to_runs c)"
  using assms to_runs_wf [OF assms] elems_to_runs [OF assms] run_count_to_runs [OF assms]
    same_elems_same_runs(2) [OF _ assms] to_runs_Run
  by (metis container_inv_simps(3))

text \<open>
  C29. \<^verbatim>\<open>optimize\<close> changes the representation only: the result is well formed, holds the same
  values, respects the caps (and an array never passes the break-even length), and no other
  representation of the same values that the caps allow takes fewer bytes. Optimising again
  returns the container as it is, without a copy.
\<close>

theorem optimize_minimal:
  fixes k :: caps
  assumes "container_inv c"
  defines "r \<equiv> op_result_as_ref (optimize c k)"
  shows "container_inv r \<and> elems r = elems c \<and> fits_caps r k \<and>
         (\<forall>r'. container_inv r' \<longrightarrow> elems r' = elems c \<longrightarrow> fits_caps r' k \<longrightarrow> byte_size r \<le> byte_size r') \<and>
         optimize r k = Borrowed r"
proof -
  have rep: "represents r c k" unfolding r_def by (rule optimize_represents [OF assms(1)])
  then have "container_inv r \<and> elems r = elems c" by (simp add: represents_def)
  moreover have "fits_caps r k"
    using represents_fits [OF rep assms(1)] by (simp add: fits_caps_def split: container.splits)
  moreover have "byte_size r \<le> byte_size r'"
    if "container_inv r'" "elems r' = elems c" "fits_caps r' k" for r'
    using best_bytes_least [OF assms(1) that] represents_bytes [OF rep assms(1)] by simp
  ultimately show ?thesis using represents_borrowed [OF rep assms(1)] by blast
qed

theorem optimize_minimal_witness:
  "elems (op_result_as_ref (optimize (Array [4, 5, 6, 7]) \<lparr>array_max = 10, run_max = 10\<rparr>)) = {4, 5, 6, 7}"
  using optimize_minimal [of "Array [4, 5, 6, 7]" "\<lparr>array_max = 10, run_max = 10\<rparr>"] by simp

end
