(* ===== verification/Big_SetOps.thy ===== *)
theory Big_SetOps
  imports Big_Container
begin

text \<open>
  The boolean algebra of containers: \<^verbatim>\<open>builder.rs\<close> and \<^verbatim>\<open>ops/\<close> of
  \<^verbatim>\<open>crates/big-container\<close>. Every routine pushes values into an output buffer whose
  representation was chosen before it ran. The buffer's contract is the locale
  \<open>ascending_sink\<close>; each routine is shown to push one strictly ascending sequence, and the
  dispatcher \<open>set_apply\<close> is shown to compute the set operation for all nine pairs of
  representations. \<open>and_cardinality\<close> counts an intersection without building it.
\<close>

section \<open>The output buffer\<close>

datatype out = OutArray "u16 list" | OutBitmap "u64 list"

definition with_bound :: "nat \<Rightarrow> out" where
  "with_bound bound =
     (if bound \<le> ARRAY_BREAK_EVEN then OutArray [] else OutBitmap (replicate BITMAP_WORDS 0))"

fun push :: "out \<Rightarrow> u16 \<Rightarrow> out" where
  "push (OutArray a) v = OutArray (a @ [v])"
| "push (OutBitmap b) v = OutBitmap (bitmap_set b v)"

fun as_bitmap_mut :: "out \<Rightarrow> u64 list option" where
  "as_bitmap_mut (OutBitmap b) = Some b"
| "as_bitmap_mut (OutArray _) = None"

fun is_bitmap :: "out \<Rightarrow> bool" where
  "is_bitmap (OutBitmap _) = True"
| "is_bitmap (OutArray _) = False"

fun finish :: "out \<Rightarrow> container" where
  "finish (OutArray a) = Array a"
| "finish (OutBitmap b) = Bitmap b"

text \<open>
  What a routine may rely on: a value above everything pushed so far can be pushed, and is
  then in the buffer.
\<close>

locale ascending_sink =
  fixes put :: "'o \<Rightarrow> 'v::linorder \<Rightarrow> 'o"
    and content :: "'o \<Rightarrow> 'v set"
    and ok :: "'o \<Rightarrow> bool"
  assumes put_content: "\<lbrakk>ok o1; \<And>x. x \<in> content o1 \<Longrightarrow> x < v\<rbrakk> \<Longrightarrow> content (put o1 v) = insert v (content o1)"
    and put_ok: "\<lbrakk>ok o1; \<And>x. x \<in> content o1 \<Longrightarrow> x < v\<rbrakk> \<Longrightarrow> ok (put o1 v)"
begin

lemma put_all:
  assumes "ok o1" and "ssorted vs" and "\<And>x v. x \<in> content o1 \<Longrightarrow> v \<in> set vs \<Longrightarrow> x < v"
  shows "content (foldl put o1 vs) = content o1 \<union> set vs" and "ok (foldl put o1 vs)"
proof -
  have "content (foldl put o1 vs) = content o1 \<union> set vs \<and> ok (foldl put o1 vs)"
    using assms
  proof (induction vs arbitrary: o1)
    case (Cons v vs)
    have c: "content (put o1 v) = insert v (content o1)" and k: "ok (put o1 v)"
      using Cons.prems by (auto intro!: put_content put_ok)
    have "content (foldl put (put o1 v) vs) = content (put o1 v) \<union> set vs \<and> ok (foldl put (put o1 v) vs)"
      using Cons.prems c k by (intro Cons.IH) auto
    then show ?case using c by simp
  qed simp
  then show "content (foldl put o1 vs) = content o1 \<union> set vs" "ok (foldl put o1 vs)" by auto
qed

lemma put_all_empty:
  assumes "ok o1" "content o1 = {}" "ssorted vs"
  shows "content (foldl put o1 vs) = set vs" "ok (foldl put o1 vs)"
  using put_all [of o1 vs] assms by auto

end

definition out_elems :: "out \<Rightarrow> u16 set" where
  "out_elems o1 = elems (finish o1)"

definition out_inv :: "out \<Rightarrow> bool" where
  "out_inv o1 \<longleftrightarrow> container_inv (finish o1)"

interpretation sink: ascending_sink push out_elems out_inv
proof
  fix o1 and v :: u16
  assume "out_inv o1" and below: "\<And>x. x \<in> out_elems o1 \<Longrightarrow> x < v"
  then show "out_elems (push o1 v) = insert v (out_elems o1)"
    by (cases o1) (simp_all add: out_elems_def out_inv_def elems_bitmap_set del: elems.simps(2))
  from \<open>out_inv o1\<close> below show "out_inv (push o1 v)"
    by (cases o1) (auto simp: out_elems_def out_inv_def sorted_wrt_append)
qed

lemma with_bound_ok [simp]: "out_inv (with_bound n)" "out_elems (with_bound n) = {}"
  using word_index by (auto simp: with_bound_def out_inv_def out_elems_def)

section \<open>The operations\<close>

datatype set_op = And | Or | Xor | AndNot

fun is_commutative :: "set_op \<Rightarrow> bool" where
  "is_commutative AndNot = False"
| "is_commutative _ = True"

fun keeps_left_only :: "set_op \<Rightarrow> bool" where
  "keeps_left_only And = False"
| "keeps_left_only _ = True"

fun keeps_right_only :: "set_op \<Rightarrow> bool" where
  "keeps_right_only Or = True"
| "keeps_right_only Xor = True"
| "keeps_right_only _ = False"

fun keeps_both :: "set_op \<Rightarrow> bool" where
  "keeps_both And = True"
| "keeps_both Or = True"
| "keeps_both _ = False"

fun bound :: "set_op \<Rightarrow> nat \<Rightarrow> nat \<Rightarrow> nat" where
  "bound And la lb = min la lb"
| "bound AndNot la lb = la"
| "bound _ la lb = la + lb"

text \<open>The mathematical operation the code is to compute.\<close>

fun set_of_op :: "set_op \<Rightarrow> 'a set \<Rightarrow> 'a set \<Rightarrow> 'a set" where
  "set_of_op And A B = A \<inter> B"
| "set_of_op Or A B = A \<union> B"
| "set_of_op Xor A B = (A - B) \<union> (B - A)"
| "set_of_op AndNot A B = A - B"

lemma set_of_op_keeps:
  "v \<in> set_of_op op A B \<longleftrightarrow>
     (if v \<in> A then (if v \<in> B then keeps_both op else keeps_left_only op)
      else v \<in> B \<and> keeps_right_only op)"
  by (cases op) auto

lemma set_of_op_commute: "is_commutative op \<Longrightarrow> set_of_op op A B = set_of_op op B A"
  by (cases op) auto

lemma card_set_of_op_le:
  assumes "finite A" "finite B"
  shows "card (set_of_op op A B) \<le> bound op (card A) (card B)"
proof (cases op)
  case Or
  with card_Un_le show ?thesis by simp
next
  case Xor
  have "card ((A - B) \<union> (B - A)) \<le> card (A - B) + card (B - A)" by (rule card_Un_le)
  also have "\<dots> \<le> card A + card B"
    using assms by (intro add_mono card_mono) auto
  finally show ?thesis using Xor by simp
qed (use assms in \<open>auto intro: card_mono\<close>)

text \<open>The merge of two ascending lists that every ordered routine performs.\<close>

fun merge_vals :: "set_op \<Rightarrow> u16 list \<Rightarrow> u16 list \<Rightarrow> u16 list" where
  "merge_vals op (x # xs) (y # ys) =
     (if x < y then (if keeps_left_only op then [x] else []) @ merge_vals op xs (y # ys)
      else if y < x then (if keeps_right_only op then [y] else []) @ merge_vals op (x # xs) ys
      else (if keeps_both op then [x] else []) @ merge_vals op xs ys)"
| "merge_vals op xs [] = (if keeps_left_only op then xs else [])"
| "merge_vals op [] ys = (if keeps_right_only op then ys else [])"

lemma merge_vals_Nil: "merge_vals op [] ys = (if keeps_right_only op then ys else [])"
  by (cases ys) auto

lemma merge_vals_Nil_right: "merge_vals op xs [] = (if keeps_left_only op then xs else [])"
  by (cases xs) auto

lemma set_of_op_insert:
  assumes "x \<notin> A" "x \<notin> B"
  shows "set_of_op op (insert x A) B = (if keeps_left_only op then {x} else {}) \<union> set_of_op op A B"
    and "set_of_op op A (insert x B) = (if keeps_right_only op then {x} else {}) \<union> set_of_op op A B"
    and "set_of_op op (insert x A) (insert x B) = (if keeps_both op then {x} else {}) \<union> set_of_op op A B"
  using assms by (cases op; auto)+

lemma set_of_op_subset: "v \<in> set_of_op op A B \<Longrightarrow> v \<in> A \<or> v \<in> B"
  by (cases op) auto

lemma merge_vals_spec:
  "ssorted xs \<Longrightarrow> ssorted ys \<Longrightarrow>
     set (merge_vals op xs ys) = set_of_op op (set xs) (set ys) \<and> ssorted (merge_vals op xs ys)"
proof (induction op xs ys rule: merge_vals.induct)
  case (1 op x xs y ys)
  consider "x < y" | "y < x" | "x = y" by (metis not_less_iff_gr_or_eq)
  then show ?case
  proof cases
    case l: 1
    with "1.prems" have n: "x \<notin> set xs" "x \<notin> set (y # ys)" by auto
    have "x < v" if "v \<in> set_of_op op (set xs) (set (y # ys))" for v
      using set_of_op_subset [OF that] "1.prems" l by auto
    with "1.IH"(1) l "1.prems" set_of_op_insert(1) [OF n, of op] show ?thesis by simp
  next
    case g: 2
    with "1.prems" have n: "y \<notin> set (x # xs)" "y \<notin> set ys" by auto
    have "y < v" if "v \<in> set_of_op op (set (x # xs)) (set ys)" for v
      using set_of_op_subset [OF that] "1.prems" g by auto
    moreover have "\<not> x < y" using g by simp
    ultimately show ?thesis using "1.IH"(2) g "1.prems" set_of_op_insert(2) [OF n, of op] by simp
  next
    case e: 3
    with "1.prems" have n: "x \<notin> set xs" "x \<notin> set ys" by auto
    have "x < v" if "v \<in> set_of_op op (set xs) (set ys)" for v
      using set_of_op_subset [OF that] "1.prems" e by auto
    with "1.IH"(3) e "1.prems" set_of_op_insert(3) [OF n, of op] show ?thesis by simp
  qed
next
  case (2 op xs)
  then show ?case by (cases op) auto
next
  case (3 op y ys)
  then show ?case by (cases op) auto
qed


section \<open>The routines\<close>

subsection \<open>Array against array\<close>

fun array_array_run :: "set_op \<Rightarrow> u16 list \<Rightarrow> u16 list \<Rightarrow> out \<Rightarrow> out" where
  "array_array_run op (x # xs) (y # ys) out =
     (case cmp x y of
        Less \<Rightarrow> array_array_run op xs (y # ys) (if keeps_left_only op then push out x else out)
      | Greater \<Rightarrow> array_array_run op (x # xs) ys (if keeps_right_only op then push out y else out)
      | Equal \<Rightarrow> array_array_run op xs ys (if keeps_both op then push out x else out))"
| "array_array_run op a b out =
     (let out1 = (if keeps_left_only op then foldl push out a else out)
      in if keeps_right_only op then foldl push out1 b else out1)"

lemma array_array_run_eq: "array_array_run op a b out = foldl push out (merge_vals op a b)"
proof (induction op a b out rule: array_array_run.induct)
  case (1 op x xs y ys out)
  then show ?case by (cases x y rule: linorder_cases) (auto simp: cmp_def)
qed (auto simp: merge_vals_Nil merge_vals_Nil_right Let_def)

subsection \<open>Array against bitmap\<close>

fun array_bitmap_run :: "set_op \<Rightarrow> u16 list \<Rightarrow> u64 list \<Rightarrow> out \<Rightarrow> out \<times> bool" where
  "array_bitmap_run And a b out = (foldl (\<lambda>out v. if bitmap_has b v then push out v else out) out a, True)"
| "array_bitmap_run AndNot a b out = (foldl (\<lambda>out v. if \<not> bitmap_has b v then push out v else out) out a, True)"
| "array_bitmap_run Or a b out =
     (case as_bitmap_mut out of
        Some w \<Rightarrow> (OutBitmap (foldl bitmap_set b a), True)
      | None \<Rightarrow> (out, False))"
| "array_bitmap_run Xor a b out =
     (case as_bitmap_mut out of
        Some w \<Rightarrow> (OutBitmap (foldl bitmap_flip b a), True)
      | None \<Rightarrow> (out, False))"

fun array_bitmap_run_reversed :: "set_op \<Rightarrow> u64 list \<Rightarrow> u16 list \<Rightarrow> out \<Rightarrow> out \<times> bool" where
  "array_bitmap_run_reversed op a b out =
     (case (op, as_bitmap_mut out) of
        (AndNot, Some w) \<Rightarrow> (OutBitmap (foldl bitmap_clear a b), True)
      | _ \<Rightarrow> (out, False))"

lemma foldl_push_filter: "foldl (\<lambda>out v. if P v then push out v else out) out a = foldl push out (filter P a)"
  by (induction a arbitrary: out) auto

lemma foldl_bitmap:
  assumes "length b = BITMAP_WORDS"
  shows "length (foldl bitmap_set b a) = BITMAP_WORDS" "elems (Bitmap (foldl bitmap_set b a)) = elems (Bitmap b) \<union> set a"
    "length (foldl bitmap_clear b a) = BITMAP_WORDS" "elems (Bitmap (foldl bitmap_clear b a)) = elems (Bitmap b) - set a"
    "length (foldl bitmap_flip b a) = BITMAP_WORDS"
    "distinct a \<Longrightarrow> elems (Bitmap (foldl bitmap_flip b a)) = set_of_op Xor (elems (Bitmap b)) (set a)"
  using assms
  by (induction a arbitrary: b)
    (auto simp: elems_bitmap_set elems_bitmap_clear elems_bitmap_flip simp del: elems.simps)

subsection \<open>Array against runs\<close>

fun array_run_loop :: "bool \<Rightarrow> u16 list \<Rightarrow> interval list \<Rightarrow> out \<Rightarrow> out" where
  "array_run_loop keep_inside [] b out = out"
| "array_run_loop keep_inside (v # a) [] out =
     array_run_loop keep_inside a [] (if \<not> keep_inside then push out v else out)"
| "array_run_loop keep_inside (v # a) (r # b) out =
     (if v < istart r then array_run_loop keep_inside a (r # b) (if \<not> keep_inside then push out v else out)
      else if ilast r < v then array_run_loop keep_inside (v # a) b out
      else array_run_loop keep_inside a (r # b) (if keep_inside then push out v else out))"

fun array_run_run :: "set_op \<Rightarrow> u16 list \<Rightarrow> interval list \<Rightarrow> out \<Rightarrow> out \<times> bool" where
  "array_run_run And a b out = (array_run_loop True a b out, True)"
| "array_run_run AndNot a b out = (array_run_loop False a b out, True)"
| "array_run_run _ a b out = (out, False)"

lemma array_run_loop_eq:
  "ssorted a \<Longrightarrow> runs_wf b \<Longrightarrow>
     array_run_loop k a b out = foldl push out (filter (\<lambda>v. (v \<in> elems (Run b)) = k) a)"
proof (induction k a b out rule: array_run_loop.induct)
  case (3 k v a r b out)
  have later: "v < istart i" if "i \<in> set b" "v \<le> ilast r" for i
    using that "3.prems"(2) by (auto simp: runs_wf_Cons word_less_nat_alt word_le_nat_alt)
  consider "v < istart r" | "\<not> v < istart r" "ilast r < v" | "\<not> v < istart r" "\<not> ilast r < v" by blast
  then show ?case
  proof cases
    case 1
    have "istart r \<le> ilast r" using "3.prems"(2) by (simp add: runs_wf_Cons)
    with 1 have "v \<notin> elems (Run (r # b))" using later by (fastforce simp: interval_contains_def)
    with 1 "3.IH"(1) "3.prems" show ?thesis by (simp add: runs_wf_Cons del: elems.simps)
  next
    case 2
    have "x \<in> elems (Run (r # b)) \<longleftrightarrow> x \<in> elems (Run b)" if "x \<in> set (v # a)" for x
      using that 2 "3.prems"(1) by (auto simp: interval_contains_def)
    then have "filter (\<lambda>v. (v \<in> elems (Run (r # b))) = k) (v # a) = filter (\<lambda>v. (v \<in> elems (Run b)) = k) (v # a)"
      by (intro filter_cong) (simp_all del: elems.simps)
    with 2 "3.IH"(2) "3.prems" show ?thesis by (simp add: runs_wf_Cons del: elems.simps)
  next
    case 3
    then have "v \<in> elems (Run (r # b))" by (simp add: interval_contains_def not_less)
    with 3 "3.IH"(3) "3.prems" show ?thesis by (simp add: runs_wf_Cons del: elems.simps)
  qed
qed auto

subsection \<open>Bitmap against bitmap\<close>

fun bitmap_bitmap_word :: "set_op \<Rightarrow> u64 \<Rightarrow> u64 \<Rightarrow> u64" where
  "bitmap_bitmap_word And x y = x AND y"
| "bitmap_bitmap_word Or x y = x OR y"
| "bitmap_bitmap_word Xor x y = x XOR y"
| "bitmap_bitmap_word AndNot x y = x AND NOT y"

definition bitmap_bitmap_run :: "set_op \<Rightarrow> u64 list \<Rightarrow> u64 list \<Rightarrow> out \<Rightarrow> out \<times> bool" where
  "bitmap_bitmap_run op a b out =
     (case as_bitmap_mut out of
        None \<Rightarrow> (out, False)
      | Some w \<Rightarrow> (OutBitmap (map (\<lambda>i. bitmap_bitmap_word op (a ! i) (b ! i)) [0..<BITMAP_WORDS]), True))"

lemma bitmap_bitmap_elems:
  "elems (Bitmap (map (\<lambda>i. bitmap_bitmap_word op (a ! i) (b ! i)) [0..<BITMAP_WORDS]))
     = set_of_op op (elems (Bitmap a)) (elems (Bitmap b))"
proof -
  have "bit (bitmap_bitmap_word op x y) n \<longleftrightarrow>
     (if bit x n then (if bit y n then keeps_both op else keeps_left_only op) else bit y n \<and> keeps_right_only op)"
    if "n < 64" for x y n
    using that by (cases op) (auto simp: bit_and_iff bit_or_iff bit_xor_iff bit_not_iff)
  then show ?thesis by (intro set_eqI) (simp add: set_of_op_keeps word_index)
qed

subsection \<open>The fallback merge\<close>

text \<open>\<open>va\<close> and \<open>vb\<close> are the values the two iterators yielded last.\<close>

definition pending :: "u16 option \<Rightarrow> iter \<Rightarrow> u16 list" where
  "pending va ia = (case va of None \<Rightarrow> [] | Some x \<Rightarrow> x # iter_rest ia)"

lemma pending_next: "iter_next ia = (va, ia') \<Longrightarrow> pending va ia' = iter_rest ia"
  by (cases va) (auto simp: pending_def iter_next_None iter_next_Some)

lemma pending_simps [simp]: "pending None ia = []" "pending (Some x) ia = x # iter_rest ia"
  by (simp_all add: pending_def)

function merge_loop :: "set_op \<Rightarrow> u16 option \<Rightarrow> iter \<Rightarrow> u16 option \<Rightarrow> iter \<Rightarrow> out \<Rightarrow> out" where
  "merge_loop op (Some x) ia (Some y) ib out =
     (if x < y then
        (let (va, ia') = iter_next ia
         in merge_loop op va ia' (Some y) ib (if keeps_left_only op then push out x else out))
      else if y < x then
        (let (vb, ib') = iter_next ib
         in merge_loop op (Some x) ia vb ib' (if keeps_right_only op then push out y else out))
      else
        (let (va, ia') = iter_next ia; (vb, ib') = iter_next ib
         in merge_loop op va ia' vb ib' (if keeps_both op then push out x else out)))"
| "merge_loop op (Some x) ia None ib out =
     (let (va, ia') = iter_next ia
      in merge_loop op va ia' None ib (if keeps_left_only op then push out x else out))"
| "merge_loop op None ia (Some y) ib out =
     (let (vb, ib') = iter_next ib
      in merge_loop op None ia vb ib' (if keeps_right_only op then push out y else out))"
| "merge_loop op None ia None ib out = out"
  by pat_completeness auto
termination
  by (relation "measure (\<lambda>(op, va, ia, vb, ib, out). length (pending va ia) + length (pending vb ib))")
    (auto simp: pending_next [OF sym])

definition fallback_merge :: "set_op \<Rightarrow> container \<Rightarrow> container \<Rightarrow> out \<Rightarrow> out" where
  "fallback_merge op a b out =
     (let (va, ia) = iter_next (container_iter a); (vb, ib) = iter_next (container_iter b)
      in merge_loop op va ia vb ib out)"

lemma merge_loop_eq:
  "merge_loop op va ia vb ib out = foldl push out (merge_vals op (pending va ia) (pending vb ib))"
proof (induction op va ia vb ib out rule: merge_loop.induct)
  case (1 op x ia y ib out)
  then show ?case
    by (cases "iter_next ia"; cases "iter_next ib") (auto simp: pending_next simp del: pending_simps(1))
next
  case (2 op x ia ib out)
  then show ?case
    by (cases "iter_next ia"; cases op; cases "fst (iter_next ia)")
      (auto simp: pending_next split: option.splits)
next
  case (3 op ia y ib out)
  then show ?case
    by (cases "iter_next ib") (auto simp: pending_next merge_vals_Nil)
qed simp

lemma fallback_merge_eq:
  "fallback_merge op a b out = foldl push out (merge_vals op (container_values a) (container_values b))"
  by (auto simp: fallback_merge_def merge_loop_eq pending_next container_values_def collect_eq_rest split: prod.splits)


section \<open>The dispatcher\<close>

fun rank :: "container \<Rightarrow> nat" where
  "rank (Array _) = 0"
| "rank (Run _) = 1"
| "rank (Bitmap _) = 2"

definition shortcut :: "set_op \<Rightarrow> container \<Rightarrow> container \<Rightarrow> op_result option" where
  "shortcut op a b =
     (let ea = container_is_empty a; eb = container_is_empty b in
      if \<not> ea \<and> \<not> eb then None
      else Some (Borrowed (case op of
          And \<Rightarrow> if ea then a else b
        | Or \<Rightarrow> if ea then b else a
        | Xor \<Rightarrow> if ea then b else a
        | AndNot \<Rightarrow> a)))"

fun set_dispatch :: "set_op \<Rightarrow> container \<Rightarrow> container \<Rightarrow> out \<Rightarrow> out \<times> bool" where
  "set_dispatch op (Array x) (Array y) out = (array_array_run op x y out, True)"
| "set_dispatch op (Array x) (Bitmap y) out = array_bitmap_run op x y out"
| "set_dispatch op (Array x) (Run y) out = array_run_run op x y out"
| "set_dispatch op (Bitmap x) (Array y) out = array_bitmap_run_reversed op x y out"
| "set_dispatch op (Bitmap x) (Bitmap y) out = bitmap_bitmap_run op x y out"
| "set_dispatch op _ _ out = (out, False)"

definition set_apply :: "set_op \<Rightarrow> container \<Rightarrow> container \<Rightarrow> op_result" where
  "set_apply op a0 b0 =
     (case shortcut op a0 b0 of
        Some r \<Rightarrow> r
      | None \<Rightarrow>
          (let (a, b) = (if is_commutative op \<and> rank b0 < rank a0 then (b0, a0) else (a0, b0));
               out0 = with_bound (bound op (unat (cardinality a)) (unat (cardinality b)));
               (out1, handled) = set_dispatch op a b out0
           in Owned (finish (if handled then out1 else fallback_merge op a b out1))))"

definition and_op :: "container \<Rightarrow> container \<Rightarrow> op_result" where "and_op a b = set_apply And a b"
definition or_op :: "container \<Rightarrow> container \<Rightarrow> op_result" where "or_op a b = set_apply Or a b"
definition xor_op :: "container \<Rightarrow> container \<Rightarrow> op_result" where "xor_op a b = set_apply Xor a b"
definition andnot_op :: "container \<Rightarrow> container \<Rightarrow> op_result" where "andnot_op a b = set_apply AndNot a b"

definition fold_op :: "set_op \<Rightarrow> container list \<Rightarrow> container option" where
  "fold_op op items =
     (case items of
        [] \<Rightarrow> None
      | c # cs \<Rightarrow> Some (foldl (\<lambda>acc it. op_result_as_ref (set_apply op acc it)) c cs))"

lemma shortcut_spec:
  assumes "container_inv a" "container_inv b" "shortcut op a b = Some r"
  shows "elems (op_result_as_ref r) = set_of_op op (elems a) (elems b)"
    and "container_inv (op_result_as_ref r)" and "is_borrowed r"
  using assms
  by (cases op; auto simp: shortcut_def Let_def container_is_empty_iff simp del: elems.simps split: if_splits)+

lemma push_merge:
  assumes "out_inv out" "out_elems out = {}" "container_inv a" "container_inv b"
  shows "out_elems (foldl push out (merge_vals op (container_values a) (container_values b)))
           = set_of_op op (elems a) (elems b)"
    and "out_inv (foldl push out (merge_vals op (container_values a) (container_values b)))"
proof -
  note m = merge_vals_spec [OF values_sorted [OF assms(3)] values_sorted [OF assms(4)], of op]
  then show "out_elems (foldl push out (merge_vals op (container_values a) (container_values b)))
           = set_of_op op (elems a) (elems b)"
    "out_inv (foldl push out (merge_vals op (container_values a) (container_values b)))"
    using sink.put_all_empty [OF assms(1,2)] by (simp_all add: set_values assms)
qed

lemma push_filter:
  assumes "out_inv out" "out_elems out = {}" "ssorted a"
  shows "out_elems (foldl push out (filter P a)) = {v \<in> set a. P v}" and "out_inv (foldl push out (filter P a))"
  using sink.put_all_empty [OF assms(1,2), of "filter P a"] assms(3)
  by (auto simp: sorted_wrt_filter)

lemma out_bitmap: "out_elems (OutBitmap w) = elems (Bitmap w)" "out_inv (OutBitmap w) \<longleftrightarrow> length w = BITMAP_WORDS"
  by (simp_all add: out_elems_def out_inv_def)

lemma array_bitmap_handled:
  assumes "ssorted x" "length y = BITMAP_WORDS" "out_inv out" "out_elems out = {}"
    and "array_bitmap_run op x y out = (out', True)"
  shows "out_elems out' = set_of_op op (set x) (elems (Bitmap y)) \<and> out_inv out'"
proof (cases op)
  case And
  then have "out' = foldl push out (filter (\<lambda>v. v \<in> elems (Bitmap y)) x)"
    using assms(5) by (simp add: foldl_push_filter bitmap_has_iff del: elems.simps)
  with And push_filter [OF assms(3,4,1), of "\<lambda>v. v \<in> elems (Bitmap y)"] show ?thesis
    by (simp add: Int_def del: elems.simps)
next
  case AndNot
  then have "out' = foldl push out (filter (\<lambda>v. v \<notin> elems (Bitmap y)) x)"
    using assms(5) by (simp add: foldl_push_filter bitmap_has_iff del: elems.simps)
  with AndNot push_filter [OF assms(3,4,1), of "\<lambda>v. v \<notin> elems (Bitmap y)"] show ?thesis
    by (simp add: set_diff_eq del: elems.simps)
next
  case Or
  then have "out' = OutBitmap (foldl bitmap_set y x)"
    using assms(5) by (simp split: option.splits)
  with Or foldl_bitmap(1,2) [OF assms(2), of x] show ?thesis
    by (simp add: out_bitmap Un_commute del: elems.simps)
next
  case Xor
  then have "out' = OutBitmap (foldl bitmap_flip y x)"
    using assms(5) by (simp split: option.splits)
  moreover have "distinct x" using assms(1) by (simp add: strict_sorted_iff)
  ultimately show ?thesis
    using Xor foldl_bitmap(5,6) [OF assms(2), of x] by (simp add: out_bitmap Un_commute del: elems.simps)
qed

lemma array_run_handled:
  assumes "ssorted x" "runs_wf y" "out_inv out" "out_elems out = {}"
    and "array_run_run op x y out = (out', True)"
  shows "out_elems out' = set_of_op op (set x) (elems (Run y)) \<and> out_inv out'"
proof -
  have "out' = foldl push out (filter (\<lambda>v. (v \<in> elems (Run y)) = (op = And)) x) \<and> (op = And \<or> op = AndNot)"
    using assms(5) by (cases op) (auto simp: array_run_loop_eq [OF assms(1,2)] simp del: elems.simps)
  moreover from this have "{v \<in> set x. (v \<in> elems (Run y)) = (op = And)} = set_of_op op (set x) (elems (Run y))"
    by (auto simp del: elems.simps)
  ultimately show ?thesis
    using push_filter [OF assms(3,4,1), of "\<lambda>v. (v \<in> elems (Run y)) = (op = And)"] by metis
qed

lemma dispatch_handled:
  assumes inv: "container_inv a" "container_inv b" and out: "out_inv out" "out_elems out = {}"
    and d: "set_dispatch op a b out = (out', True)"
  shows "out_elems out' = set_of_op op (elems a) (elems b) \<and> out_inv out'"
proof (cases "(op, a, b, out)" rule: set_dispatch.cases)
  case (1 op' x y out1)
  with inv out d push_merge [OF out inv, of op] show ?thesis by (simp add: array_array_run_eq)
next
  case (2 op' x y out1)
  with inv out d array_bitmap_handled [of x y out op out'] show ?thesis by simp
next
  case (3 op' x y out1)
  with inv out d array_run_handled [of x y out op out'] show ?thesis by simp
next
  case (4 op' x y out1)
  then have "out' = OutBitmap (foldl bitmap_clear x y) \<and> op = AndNot"
    using d by (cases op) (simp_all split: option.splits)
  moreover have "length x = BITMAP_WORDS" using 4 inv by simp
  ultimately show ?thesis
    using 4 foldl_bitmap(3,4) [of x y] by (simp add: out_bitmap del: elems.simps(2))
next
  case (5 op' x y out1)
  then have "out' = OutBitmap (map (\<lambda>i. bitmap_bitmap_word op (x ! i) (y ! i)) [0..<BITMAP_WORDS])"
    using d by (simp add: bitmap_bitmap_run_def split: option.splits)
  with 5 show ?thesis by (simp add: out_bitmap bitmap_bitmap_elems del: elems.simps(2))
qed (use d in auto)

lemma dispatch_unhandled: "set_dispatch op a b out = (out', False) \<Longrightarrow> out' = out"
  by (cases "(op, a, b, out)" rule: set_dispatch.cases; cases op; cases out)
    (auto simp: bitmap_bitmap_run_def)

lemma is_bitmap_push [simp]: "is_bitmap (push out v) = is_bitmap out"
  by (cases out) auto

lemma is_bitmap_foldl [simp]: "is_bitmap (foldl push out vs) = is_bitmap out"
  by (induction vs arbitrary: out) auto

lemma is_bitmap_foldl_if [simp]: "is_bitmap (foldl (\<lambda>out v. if P v then push out v else out) out vs) = is_bitmap out"
  by (simp add: foldl_push_filter)

lemma is_bitmap_array_run [simp]: "is_bitmap (array_run_loop k a b out) = is_bitmap out"
  by (induction k a b out rule: array_run_loop.induct) auto

lemma dispatch_is_bitmap: "set_dispatch op a b out = (out', h) \<Longrightarrow> is_bitmap out' = is_bitmap out"
  by (cases "(op, a, b, out)" rule: set_dispatch.cases; cases op; cases out)
    (auto simp: bitmap_bitmap_run_def array_array_run_eq)

lemma apply_unfold:
  assumes "container_inv a0" "container_inv b0" "shortcut op a0 b0 = None"
  obtains out a b where "set_apply op a0 b0 = Owned (finish out)" "out_inv out"
    "out_elems out = set_of_op op (elems a0) (elems b0)"
    "is_bitmap out = is_bitmap (with_bound (bound op (card (elems a)) (card (elems b))))"
    "set_of_op op (elems a0) (elems b0) = set_of_op op (elems a) (elems b)"
proof -
  obtain a b where ab: "(a, b) = (if is_commutative op \<and> rank b0 < rank a0 then (b0, a0) else (a0, b0))"
    by (metis surj_pair)
  then have inv: "container_inv a" "container_inv b"
    and same: "set_of_op op (elems a0) (elems b0) = set_of_op op (elems a) (elems b)"
    using assms set_of_op_commute [of op "elems a0" "elems b0"]
    by (auto split: if_splits simp del: elems.simps)
  define out0 where "out0 = with_bound (bound op (card (elems a)) (card (elems b)))"
  obtain out1 h where d: "set_dispatch op a b out0 = (out1, h)" by fastforce
  define out where "out = (if h then out1 else fallback_merge op a b out1)"
  have ok: "out_inv out0" "out_elems out0 = {}" by (simp_all add: out0_def)
  have "set_apply op a0 b0 = Owned (finish out)"
    using assms(3) d unfolding set_apply_def ab [symmetric] out_def
    by (simp add: cardinality_card inv out0_def [symmetric])
  moreover have "out_inv out \<and> out_elems out = set_of_op op (elems a) (elems b)"
  proof (cases h)
    case True
    with d dispatch_handled [OF inv ok] show ?thesis by (simp add: out_def)
  next
    case False
    with d have "out1 = out0" by (simp add: dispatch_unhandled)
    with False push_merge [OF ok inv, of op] show ?thesis
      by (simp add: out_def fallback_merge_eq)
  qed
  moreover have "is_bitmap out = is_bitmap out0"
    using dispatch_is_bitmap [OF d] by (simp add: out_def fallback_merge_eq)
  ultimately show ?thesis using same that by (simp add: out0_def)
qed

lemma apply_spec:
  assumes "container_inv a" "container_inv b"
  shows apply_elems: "elems (op_result_as_ref (set_apply op a b)) = set_of_op op (elems a) (elems b)"
    and apply_inv: "container_inv (op_result_as_ref (set_apply op a b))"
proof -
  have "elems (op_result_as_ref (set_apply op a b)) = set_of_op op (elems a) (elems b) \<and>
        container_inv (op_result_as_ref (set_apply op a b))"
  proof (cases "shortcut op a b")
    case (Some r)
    with shortcut_spec [OF assms Some] show ?thesis by (simp add: set_apply_def)
  next
    case None
    then show ?thesis
      by (rule apply_unfold [OF assms]) (auto simp: out_inv_def out_elems_def simp del: elems.simps)
  qed
  then show "elems (op_result_as_ref (set_apply op a b)) = set_of_op op (elems a) (elems b)"
    "container_inv (op_result_as_ref (set_apply op a b))" by auto
qed

text \<open>An allocated array result is never past the point where a bitmap is smaller.\<close>

lemma apply_array_bound:
  assumes "container_inv a" "container_inv b" "set_apply op a b = Owned (Array xs)"
  shows "length xs \<le> ARRAY_BREAK_EVEN"
proof -
  have "shortcut op a b = None"
    using assms(3) shortcut_spec(3) [OF assms(1,2), of op "Owned (Array xs)"]
    by (cases "shortcut op a b") (auto simp: set_apply_def)
  then obtain out a' b' where o: "set_apply op a b = Owned (finish out)" "out_inv out"
    "out_elems out = set_of_op op (elems a) (elems b)"
    "is_bitmap out = is_bitmap (with_bound (bound op (card (elems a')) (card (elems b'))))"
    "set_of_op op (elems a) (elems b) = set_of_op op (elems a') (elems b')"
    by (rule apply_unfold [OF assms(1,2)])
  have out: "out = OutArray xs" using o(1) assms(3) by (cases out) auto
  then have "bound op (card (elems a')) (card (elems b')) \<le> ARRAY_BREAK_EVEN"
    using o(4) by (auto simp: with_bound_def split: if_splits)
  moreover have "length xs = card (set_of_op op (elems a') (elems b'))"
    using o(2) o(3) [unfolded o(5), symmetric] out
    by (simp add: out_inv_def out_elems_def distinct_card strict_sorted_iff)
  ultimately show ?thesis
    using card_set_of_op_le [of "elems a'" "elems b'" op] by simp
qed

lemma fold_spec:
  assumes "\<forall>c \<in> set (c # cs). container_inv c"
  shows "\<exists>r. fold_op op (c # cs) = Some r \<and> container_inv r \<and>
           elems r = foldl (set_of_op op) (elems c) (map elems cs)"
proof -
  have "container_inv (foldl (\<lambda>acc it. op_result_as_ref (set_apply op acc it)) c cs) \<and>
    elems (foldl (\<lambda>acc it. op_result_as_ref (set_apply op acc it)) c cs)
      = foldl (set_of_op op) (elems c) (map elems cs)"
    using assms
    by (induction cs arbitrary: c) (simp_all add: apply_elems apply_inv del: elems.simps)
  then show ?thesis by (simp add: fold_op_def)
qed

section \<open>Properties\<close>

text \<open>
  C3. A set operation computes the set it names: for any two well-formed containers, in
  any pair of representations and for each of and, or, xor and and-not, the values of the
  result are the set operation of the values of the operands, and the result is well formed.
\<close>

theorem set_apply_correct:
  assumes "container_inv a" "container_inv b"
  shows "elems (op_result_as_ref (set_apply op a b)) = set_of_op op (elems a) (elems b) \<and>
         container_inv (op_result_as_ref (set_apply op a b))"
  using apply_spec [OF assms] by blast

theorem set_apply_correct_witness:
  "elems (op_result_as_ref (set_apply AndNot (Array [2, 5, 12]) (Run [\<lparr>istart = 4, ilast = 9\<rparr>]))) = {2, 12}"
proof -
  have "container_inv (Run [\<lparr>istart = 4, ilast = 9\<rparr>])" by (simp add: runs_wf_def)
  then show ?thesis
    using set_apply_correct [of "Array [2, 5, 12]" "Run [\<lparr>istart = 4, ilast = 9\<rparr>]" AndNot]
    by (simp add: interval_contains_def insert_Diff_if)
qed

text \<open>
  An array that a set operation allocates never exceeds the break-even length, past
  which a bitmap is the smaller representation: the cardinality bound of the operation is
  a real bound.
\<close>

lemma set_apply_array_bounded:
  assumes "container_inv a" "container_inv b" "set_apply op a b = Owned (Array xs)"
  shows "length xs \<le> ARRAY_BREAK_EVEN"
  using apply_array_bound [OF assms] .

text \<open>
  Folding an operation over a non-empty list of containers gives the left fold of the
  set operation over their values, well formed.
\<close>

lemma fold_op_correct:
  assumes "\<forall>c \<in> set (c # cs). container_inv c"
  shows "\<exists>r. fold_op op (c # cs) = Some r \<and> container_inv r \<and>
           elems r = foldl (set_of_op op) (elems c) (map elems cs)"
  using fold_spec [OF assms] .

section \<open>Every container the operations give\<close>

text \<open>The containers a client can build with the operations of the crate, each with the set it stands for.\<close>

inductive built :: "container \<Rightarrow> u16 set \<Rightarrow> bool" where
  built_values: "built (from_values vs) (set vs)"
| built_insert: "built c S \<Longrightarrow> container_insert c v = (new, c') \<Longrightarrow> built c' (insert v S)"
| built_remove: "built c S \<Longrightarrow> container_remove c v = (had, c') \<Longrightarrow> built c' (S - {v})"
| built_optimize: "built c S \<Longrightarrow> built (op_result_as_ref (optimize c k)) S"
| built_runs: "built c S \<Longrightarrow> built (Run (to_runs c)) S"
| built_apply: "built a A \<Longrightarrow> built b B \<Longrightarrow> built (op_result_as_ref (set_apply op a b)) (set_of_op op A B)"
| built_fold: "built c S \<Longrightarrow> list_all2 built cs Ss \<Longrightarrow> fold_op op (c # cs) = Some r \<Longrightarrow> built r (foldl (set_of_op op) S Ss)"

lemma built_spec: "built c S \<Longrightarrow> container_inv c \<and> elems c = S"
proof (induction rule: built.induct)
  case (built_values vs)
  then show ?case by (simp add: from_values_spec)
next
  case (built_insert c S v new c')
  then show ?case using insert_spec [of c v new c'] by auto
next
  case (built_remove c S v had c')
  then show ?case using remove_spec [of c v had c'] by auto
next
  case (built_optimize c S k)
  then show ?case using optimize_represents [of c k] by (simp add: represents_def)
next
  case (built_runs c S)
  then show ?case using to_runs_wf [of c] elems_to_runs [of c] by simp
next
  case (built_apply a A b B op)
  then show ?case using apply_elems [of a b op] apply_inv [of a b op] by simp
next
  case (built_fold c S cs Ss op r)
  then have "map elems cs = Ss" "\<forall>x \<in> set cs. container_inv x"
    by (auto simp: list_all2_conv_all_nth in_set_conv_nth intro: nth_equalityI)
  then show ?case using built_fold fold_spec [of c cs op] by auto
qed

text \<open>
  C4. Every container that building from values, inserting, removing, optimising, converting to runs,
  the set operations and their folds can give, in any order, is well formed for its representation,
  and whatever representation it has come to, membership, cardinality, emptiness and iteration report
  the set that the same operations give on sets.
\<close>

theorem built_container_typed:
  assumes "built c S"
  shows "container_inv c \<and> (\<forall>v. container_contains c v \<longleftrightarrow> v \<in> S) \<and> unat (cardinality c) = card S \<and>
    (container_is_empty c \<longleftrightarrow> S = {}) \<and> container_values c = sorted_list_of_set S"
proof -
  have c: "container_inv c" "elems c = S" using built_spec [OF assms] by simp_all
  have "container_values c = sorted_list_of_set S" unfolding c(2) [symmetric] by (rule conjunct1 [OF iteration_sorted [OF c(1)]])
  then show ?thesis using c contains_iff_elems [OF c(1)] cardinality_card [OF c(1)] container_is_empty_iff [OF c(1)] by simp
qed

theorem built_container_typed_witness:
  "container_values (op_result_as_ref (set_apply Or (snd (container_insert (from_values [9, 2]) 5)) (from_values [7]))) = [2, 5, 7, 9]"
proof -
  have "built (op_result_as_ref (set_apply Or (snd (container_insert (from_values [9, 2]) 5)) (from_values [7])))
      (set_of_op Or (insert 5 (set [9, 2])) (set [7]))"
    by (rule built_apply, rule built_insert [where new = "fst (container_insert (from_values [9, 2]) 5)"])
      (rule built_values, simp, rule built_values)
  from built_container_typed [OF this] show ?thesis by (simp add: insert_commute)
qed

end
