(* ===== verification/Big_Cardinality.thy ===== *)
theory Big_Cardinality
  imports Big_SetOps
begin

text \<open>
  \<^verbatim>\<open>crates/big-container/src/ops/cardinality.rs\<close>: the size of an intersection, counted
  without building it. Every specialised walk is shown to count exactly the intersection, and
  \<^verbatim>\<open>and_cardinality\<close> to agree with the cardinality of the container that the intersection
  itself produces.
\<close>

section \<open>The counting walks\<close>

definition in_runs :: "interval list \<Rightarrow> u16 \<Rightarrow> bool" where
  "in_runs runs v = is_ok (binary_search_by
     (\<lambda>i. if ilast i < v then Less else if v < istart i then Greater else Equal) runs)"

fun count_array_array :: "u16 list \<Rightarrow> u16 list \<Rightarrow> u32 \<Rightarrow> u32" where
  "count_array_array (x # a) (y # b) n =
     (case cmp x y of
        Less \<Rightarrow> count_array_array a (y # b) n
      | Greater \<Rightarrow> count_array_array (x # a) b n
      | Equal \<Rightarrow> count_array_array a b (n + 1))"
| "count_array_array _ _ n = n"

fun count_run_run :: "interval list \<Rightarrow> interval list \<Rightarrow> u32 \<Rightarrow> u32" where
  "count_run_run (x # a) (y # b) n =
     (let start = max (istart x) (istart y);
          last = min (ilast x) (ilast y);
          n' = (if start \<le> last then n + (ucast last - ucast start + 1) else n)
      in if ilast x < ilast y then count_run_run a (y # b) n' else count_run_run (x # a) b n')"
| "count_run_run _ _ n = n"

definition bits_in :: "u64 list \<Rightarrow> interval \<Rightarrow> u32" where
  "bits_in words run =
     (let start = unat (istart run); last = unat (ilast run);
          first_word = start div 64; last_word = last div 64
      in if first_word = last_word then
           (let width = last - start + 1;
                msk = (if width = 64 then - 1 else push_bit (start mod 64) (push_bit width 1 - 1))
            in of_nat (count_ones (words ! first_word AND msk)))
         else
           (let head = words ! first_word AND push_bit (start mod 64) (- 1);
                tail = words ! last_word AND drop_bit (63 - last mod 64) (- 1);
                middle = sum_list (map (\<lambda>w. of_nat (count_ones w))
                           (take (last_word - (first_word + 1)) (drop (first_word + 1) words)))
            in of_nat (count_ones head) + middle + of_nat (count_ones tail)))"

fun and_count :: "container \<Rightarrow> container \<Rightarrow> u32" where
  "and_count (Array x) (Array y) = count_array_array x y 0"
| "and_count (Array x) (Bitmap y) = of_nat (length (filter (bitmap_has y) x))"
| "and_count (Bitmap y) (Array x) = of_nat (length (filter (bitmap_has y) x))"
| "and_count (Array x) (Run y) = of_nat (length (filter (in_runs y) x))"
| "and_count (Run y) (Array x) = of_nat (length (filter (in_runs y) x))"
| "and_count (Bitmap x) (Bitmap y) = sum_list (map (\<lambda>(p, q). of_nat (count_ones (p AND q))) (zip x y))"
| "and_count (Run x) (Run y) = count_run_run x y 0"
| "and_count (Bitmap x) (Run y) = sum_list (map (bits_in x) y)"
| "and_count (Run y) (Bitmap x) = sum_list (map (bits_in x) y)"

definition and_cardinality :: "container \<Rightarrow> container \<Rightarrow> u32" where
  "and_cardinality a b = (if container_is_empty a \<or> container_is_empty b then 0 else and_count a b)"

section \<open>Each walk counts the intersection\<close>

lemma in_runs_eq: "runs_wf r \<Longrightarrow> in_runs r v \<longleftrightarrow> v \<in> elems (Run r)"
proof -
  assume "runs_wf r"
  then have "container_contains (Run r) v \<longleftrightarrow> v \<in> elems (Run r)" by (intro contains_iff_elems) simp
  moreover have "run_probe v = (\<lambda>i. if ilast i < v then Less else if v < istart i then Greater else Equal)"
    by (auto simp: run_probe_def)
  ultimately show ?thesis by (simp add: in_runs_def)
qed

lemma count_filter: "ssorted x \<Longrightarrow> length (filter P x) = card (set x \<inter> {v. P v})"
  by (metis distinct_card distinct_filter inter_set_filter Int_commute mem_Collect_eq filter_cong set_filter
      Collect_conj_eq strict_sorted_iff Collect_mem_eq)

lemma count_array_array_eq:
  "ssorted a \<Longrightarrow> ssorted b \<Longrightarrow> count_array_array a b n = n + of_nat (card (set a \<inter> set b))"
proof (induction a b n rule: count_array_array.induct)
  case (1 x a y b n)
  consider "x < y" | "y < x" | "x = y" by fastforce
  then show ?case
  proof cases
    case 1
    then have "x \<notin> set (y # b)" using "1.prems" by force
    with 1 "1.IH"(1) "1.prems" show ?thesis by (simp add: cmp_def)
  next
    case 2
    then have "y \<notin> set (x # a)" and "\<not> x < y" "x \<noteq> y" using "1.prems" by force+
    with 2 "1.IH"(3) "1.prems" show ?thesis by (simp add: cmp_def Int_insert_right_if0)
  next
    case 3
    then have "x \<notin> set a" "x \<notin> set b" using "1.prems" by auto
    with 3 "1.IH"(2) "1.prems" show ?thesis by (simp add: cmp_def add.assoc)
  qed
qed auto

lemma interval_len_card:
  assumes "istart i \<le> ilast i" shows "interval_len i = of_nat (card {v. interval_contains i v})"
proof -
  have "container_inv (Run [i])" using assms by (simp add: runs_wf_def)
  then have "cardinality (Run [i]) = of_nat (card (elems (Run [i])))"
    by (simp add: cardinality_values length_values del: elems.simps cardinality.simps)
  then show ?thesis by simp
qed

lemma overlap_len:
  "(if max (istart x) (istart y) \<le> min (ilast x) (ilast y)
    then n + (ucast (min (ilast x) (ilast y)) - ucast (max (istart x) (istart y)) + 1) else n)
     = n + (of_nat (card {v. interval_contains x v \<and> interval_contains y v}) :: u32)"
proof (cases "max (istart x) (istart y) \<le> min (ilast x) (ilast y)")
  case True
  define i where "i = \<lparr>istart = max (istart x) (istart y), ilast = min (ilast x) (ilast y)\<rparr>"
  have "{v. interval_contains x v \<and> interval_contains y v} = {v. interval_contains i v}"
    by (auto simp: interval_contains_def i_def)
  moreover have "interval_len i = of_nat (card {v. interval_contains i v})"
    using True by (intro interval_len_card) (simp add: i_def)
  ultimately show ?thesis using True by (simp add: interval_len_def i_def)
next
  case False
  then have "{v. interval_contains x v \<and> interval_contains y v} = {}"
    by (auto simp: interval_contains_def)
  then show ?thesis using False by (simp only: if_False card.empty) simp
qed

lemma elems_Run_Cons: "elems (Run (i # r)) = {v. interval_contains i v} \<union> elems (Run r)"
  by auto

lemma count_run_run_eq:
  "runs_wf a \<Longrightarrow> runs_wf b \<Longrightarrow> count_run_run a b n = n + of_nat (card (elems (Run a) \<inter> elems (Run b)))"
proof (induction a b n rule: count_run_run.induct)
  case (1 x a y b n)
  let ?xy = "{v. interval_contains x v \<and> interval_contains y v}"
  define n' where "n' = n + (of_nat (card ?xy) :: u32)"
  have wf: "runs_wf a" "runs_wf b" using "1.prems" by (simp_all add: runs_wf_Cons)
  have split: "card (elems (Run (x # a)) \<inter> elems (Run (y # b))) = card ?xy + card R"
    if "elems (Run (x # a)) \<inter> elems (Run (y # b)) = ?xy \<union> R" "?xy \<inter> R = {}" for R
    using that by (simp add: card_Un_disjoint del: elems.simps)
  show ?case
  proof (cases "ilast x < ilast y")
    case True
    have far: "\<not> interval_contains i v" if "i \<in> set b" "interval_contains x v" for i v
      using that True "1.prems"(2) by (force simp: interval_contains_def runs_wf_Cons word_less_nat_alt word_le_nat_alt)
    have far': "\<not> interval_contains i v" if "i \<in> set a" "interval_contains x v" for i v
      using that "1.prems"(1) by (force simp: interval_contains_def runs_wf_Cons word_less_nat_alt word_le_nat_alt)
    have "card (elems (Run (x # a)) \<inter> elems (Run (y # b)))
        = card ?xy + card (elems (Run a) \<inter> elems (Run (y # b)))"
      by (rule split) (use far far' in auto)
    moreover have "count_run_run (x # a) (y # b) n = count_run_run a (y # b) n'"
      using True by (simp only: count_run_run.simps Let_def overlap_len n'_def if_True)
    moreover have "count_run_run a (y # b) n' = n' + of_nat (card (elems (Run a) \<inter> elems (Run (y # b))))"
      using "1.IH"(1) [OF refl refl refl True] "1.prems" wf by (simp only: overlap_len n'_def)
    ultimately show ?thesis by (simp add: n'_def del: elems.simps)
  next
    case False
    have far: "\<not> interval_contains i v" if "i \<in> set a" "interval_contains y v" for i v
      using that False "1.prems"(1) by (force simp: interval_contains_def runs_wf_Cons word_less_nat_alt word_le_nat_alt)
    have far': "\<not> interval_contains i v" if "i \<in> set b" "interval_contains y v" for i v
      using that "1.prems"(2) by (force simp: interval_contains_def runs_wf_Cons word_less_nat_alt word_le_nat_alt)
    have "card (elems (Run (x # a)) \<inter> elems (Run (y # b)))
        = card ?xy + card (elems (Run (x # a)) \<inter> elems (Run b))"
      by (rule split) (use far far' in auto)
    moreover have "count_run_run (x # a) (y # b) n = count_run_run (x # a) b n'"
      using False by (simp only: count_run_run.simps Let_def overlap_len n'_def if_False)
    moreover have "count_run_run (x # a) b n' = n' + of_nat (card (elems (Run (x # a)) \<inter> elems (Run b)))"
      using "1.IH"(2) [OF refl refl refl False] "1.prems" wf by (simp only: overlap_len n'_def)
    ultimately show ?thesis by (simp add: n'_def del: elems.simps)
  qed
qed auto


subsection \<open>Masked words\<close>

text \<open>The bits of one interval: the words outside are cleared, the two at its ends masked.\<close>

definition range_mask :: "interval \<Rightarrow> nat \<Rightarrow> u64" where
  "range_mask i k = NOT (mask (unat (istart i) - 64 * k)) AND mask (unat (ilast i) + 1 - 64 * k)"

lemma bit_range_mask:
  "j < 64 \<Longrightarrow> bit (range_mask i k) j \<longleftrightarrow> unat (istart i) \<le> 64 * k + j \<and> 64 * k + j \<le> unat (ilast i)"
  by (auto simp: range_mask_def bit_and_iff bit_not_iff bit_mask_iff)

lemma elems_masked:
  assumes "length w = BITMAP_WORDS"
  shows "elems (Bitmap (map (\<lambda>k. w ! k AND range_mask i k) [0..<BITMAP_WORDS]))
           = {v. interval_contains i v} \<inter> elems (Bitmap w)"
proof -
  have "bit (map (\<lambda>k. w ! k AND range_mask i k) [0..<BITMAP_WORDS] ! (unat v div 64)) (unat v mod 64)
      \<longleftrightarrow> interval_contains i v \<and> bit (w ! (unat v div 64)) (unat v mod 64)" for v :: u16
    using word_index(1) [of v]
    by (auto simp: bit_and_iff bit_range_mask interval_contains_def word_le_nat_alt)
  then show ?thesis by auto
qed

lemma card_masked:
  assumes "length w = BITMAP_WORDS"
  shows "of_nat (card ({v. interval_contains i v} \<inter> elems (Bitmap w)))
           = (\<Sum>k<BITMAP_WORDS. of_nat (count_ones (w ! k AND range_mask i k)) :: u32)"
proof -
  let ?m = "map (\<lambda>k. w ! k AND range_mask i k) [0..<BITMAP_WORDS]"
  have "cardinality (Bitmap ?m) = of_nat (card (elems (Bitmap ?m)))"
    by (simp add: cardinality_values length_values del: elems.simps cardinality.simps)
  then show ?thesis
    by (simp add: elems_masked [OF assms] o_def interv_sum_list_conv_sum_set_nat atLeast0LessThan del: elems.simps)
qed

lemma range_mask_bits:
  fixes i :: interval
  assumes "j < 64"
  defines "s \<equiv> unat (istart i)" and "l \<equiv> unat (ilast i)"
  shows "bit (range_mask i k) j \<longleftrightarrow>
    (s div 64 < k \<or> s div 64 = k \<and> s mod 64 \<le> j) \<and> (k < l div 64 \<or> k = l div 64 \<and> j \<le> l mod 64)"
proof -
  have below: "a \<le> 64 * k + j \<longleftrightarrow> a div 64 < k \<or> a div 64 = k \<and> a mod 64 \<le> j"
    and above: "64 * k + j \<le> a \<longleftrightarrow> k < a div 64 \<or> k = a div 64 \<and> j \<le> a mod 64" for a
  proof -
    obtain q r where "a = 64 * q + r" "r < 64" "a div 64 = q" "a mod 64 = r"
      by (metis mod_less_divisor mult_div_mod_eq zero_less_numeral)
    with assms(1) show "a \<le> 64 * k + j \<longleftrightarrow> a div 64 < k \<or> a div 64 = k \<and> a mod 64 \<le> j"
      "64 * k + j \<le> a \<longleftrightarrow> k < a div 64 \<or> k = a div 64 \<and> j \<le> a mod 64" by auto
  qed
  show ?thesis unfolding bit_range_mask [OF assms(1)] s_def l_def by (simp only: below above)
qed

lemma range_mask_eqI:
  "(\<And>j. j < 64 \<Longrightarrow> bit m j \<longleftrightarrow> bit (range_mask i k) j) \<Longrightarrow> m = range_mask i k" for m :: u64
  by (rule bit_eqI) (simp add: possible_bit_word)

lemma sum_range_mask:
  assumes "istart i \<le> ilast i"
  defines "fw \<equiv> unat (istart i) div 64" and "lw \<equiv> unat (ilast i) div 64"
  shows "(\<Sum>k<BITMAP_WORDS. of_nat (count_ones (w ! k AND range_mask i k)) :: u32)
           = (\<Sum>k \<in> {fw..lw}. of_nat (count_ones (w ! k AND range_mask i k)))"
proof (rule sum.mono_neutral_right)
  show "{fw..lw} \<subseteq> {..<BITMAP_WORDS}"
    using word_index(1) [of "ilast i"] by (auto simp: lw_def)
  have "0 = range_mask i k" if "k \<notin> {fw..lw}" for k
    by (rule range_mask_eqI) (use that in \<open>auto simp: range_mask_bits fw_def lw_def\<close>)
  then show "\<forall>k \<in> {..<BITMAP_WORDS} - {fw..lw}. of_nat (count_ones (w ! k AND range_mask i k)) = (0 :: u32)"
    by (auto simp: count_ones_eq_card simp flip: \<open>\<And>k. k \<notin> {fw..lw} \<Longrightarrow> 0 = range_mask i k\<close>)
qed simp

lemma range_mask_ends:
  assumes "istart i \<le> ilast i"
  defines "s \<equiv> unat (istart i)" and "l \<equiv> unat (ilast i)"
  shows "s div 64 = l div 64 \<Longrightarrow>
      (if l - s + 1 = 64 then - 1 else push_bit (s mod 64) (push_bit (l - s + 1) 1 - 1)) = range_mask i (s div 64)"
    and "s div 64 < l div 64 \<Longrightarrow> push_bit (s mod 64) (- 1) = range_mask i (s div 64)"
    and "s div 64 < l div 64 \<Longrightarrow> drop_bit (63 - l mod 64) (- 1) = range_mask i (l div 64)"
    and "s div 64 < k \<Longrightarrow> k < l div 64 \<Longrightarrow> - 1 = range_mask i k"
proof -
  note bits = range_mask_bits [where i = i, folded s_def l_def]
  have sl: "s \<le> l" using assms by (simp add: s_def l_def word_le_nat_alt)
  show "(if l - s + 1 = 64 then - 1 else push_bit (s mod 64) (push_bit (l - s + 1) 1 - 1)) = range_mask i (s div 64)"
    if same: "s div 64 = l div 64"
  proof (rule range_mask_eqI)
    fix j :: nat assume j: "j < 64"
    have "l mod 64 = s mod 64 + (l - s)"
      using same sl mult_div_mod_eq [of 64 s] mult_div_mod_eq [of 64 l] by linarith
    moreover have "l mod 64 < 64" by simp
    moreover define width where "width = l - s + 1"
    moreover have "push_bit width 1 - 1 = (mask width :: u64)" by (simp add: mask_eq_exp_minus_1)
    moreover have "bit (- 1 :: u64) j" using j by (simp add: possible_bit_word)
    ultimately have "bit (if width = 64 then - 1 else push_bit (s mod 64) (push_bit width 1 - 1 :: u64)) j
        = bit (range_mask i (s div 64)) j"
      using j same unfolding bits [OF j]
      by (auto simp: bit_push_bit_iff bit_mask_iff possible_bit_word simp del: push_bit_of_1; linarith)
    then show "bit (if l - s + 1 = 64 then - 1 else push_bit (s mod 64) (push_bit (l - s + 1) 1 - 1 :: u64)) j
        = bit (range_mask i (s div 64)) j" by (simp only: width_def)
  qed
  show "push_bit (s mod 64) (- 1) = range_mask i (s div 64)" if "s div 64 < l div 64"
    by (rule range_mask_eqI) (use that in \<open>auto simp: bits bit_not_iff bit_mask_iff bit_push_bit_iff possible_bit_word\<close>)
  show "drop_bit (63 - l mod 64) (- 1) = range_mask i (l div 64)" if "s div 64 < l div 64"
    by (rule range_mask_eqI) (use that in \<open>auto simp: bits bit_mask_iff possible_bit_word\<close>)
  show "- 1 = range_mask i k" if "s div 64 < k" "k < l div 64"
    by (rule range_mask_eqI) (use that in \<open>auto simp: bits possible_bit_word\<close>)
qed

lemma bits_in_eq:
  assumes wf: "istart i \<le> ilast i" and len: "length w = BITMAP_WORDS"
  shows "bits_in w i = of_nat (card ({v. interval_contains i v} \<inter> elems (Bitmap w)))"
proof -
  define s l where "s = unat (istart i)" and "l = unat (ilast i)"
  let ?f = "\<lambda>k. of_nat (count_ones (w ! k AND range_mask i k)) :: u32"
  have total: "of_nat (card ({v. interval_contains i v} \<inter> elems (Bitmap w))) = sum ?f {s div 64..l div 64}"
    by (simp only: card_masked [OF len] sum_range_mask [OF wf] s_def l_def)
  have le: "s div 64 \<le> l div 64" using wf by (simp add: s_def l_def word_le_nat_alt div_le_mono)
  note ends = range_mask_ends [OF wf, folded s_def l_def]
  show ?thesis
  proof (cases "s div 64 = l div 64")
    case True
    then show ?thesis
      unfolding bits_in_def Let_def s_def [symmetric] l_def [symmetric] total by (simp only: ends(1)) simp
  next
    case False
    with le have lt: "s div 64 < l div 64" by simp
    have l: "l div 64 < length w" using word_index(1) [of "ilast i"] len by (simp add: l_def)
    have "take (l div 64 - (s div 64 + 1)) (drop (s div 64 + 1) w) = map ((!) w) [s div 64 + 1..<l div 64]"
      using l lt by (intro nth_equalityI) auto
    then have "sum_list (map (\<lambda>w. of_nat (count_ones w)) (take (l div 64 - (s div 64 + 1)) (drop (s div 64 + 1) w)))
        = (\<Sum>k \<in> {s div 64 + 1..<l div 64}. of_nat (count_ones (w ! k)) :: u32)"
      by (simp add: o_def interv_sum_list_conv_sum_set_nat)
    also have "\<dots> = sum ?f {s div 64 + 1..<l div 64}"
      by (intro sum.cong) (simp_all add: ends(4) [symmetric])
    finally have "bits_in w i = ?f (s div 64) + sum ?f {s div 64 + 1..<l div 64} + ?f (l div 64)"
      unfolding bits_in_def Let_def s_def [symmetric] l_def [symmetric]
      using False ends(2,3) [OF lt] by simp
    also have "\<dots> = sum ?f {s div 64..l div 64}"
      using lt by (simp add: atLeastLessThanSuc_atLeastAtMost [symmetric] sum.atLeast_Suc_lessThan)
    finally show ?thesis by (simp only: total)
  qed
qed

lemma sum_bits_in:
  assumes "runs_wf r" "length w = BITMAP_WORDS"
  shows "sum_list (map (bits_in w) r) = of_nat (card (elems (Run r) \<inter> elems (Bitmap w)))"
  using assms(1)
proof (induction r)
  case (Cons i r)
  have "{v. interval_contains i v} \<inter> elems (Run r) = {}"
    using Cons.prems by (force simp: runs_wf_Cons interval_contains_def word_le_nat_alt)
  then have "card (elems (Run (i # r)) \<inter> elems (Bitmap w))
      = card ({v. interval_contains i v} \<inter> elems (Bitmap w)) + card (elems (Run r) \<inter> elems (Bitmap w))"
    unfolding elems_Run_Cons Int_Un_distrib2 by (intro card_Un_disjoint) auto
  with Cons bits_in_eq [OF _ assms(2), of i] show ?case
    by (simp add: runs_wf_Cons del: elems.simps)
qed simp

lemma zip_and_count:
  assumes "length x = BITMAP_WORDS" "length y = BITMAP_WORDS"
  shows "sum_list (map (\<lambda>(p, q). of_nat (count_ones (p AND q))) (zip x y))
     = (of_nat (card (elems (Bitmap x) \<inter> elems (Bitmap y))) :: u32)"
proof -
  let ?z = "map (\<lambda>i. bitmap_bitmap_word And (x ! i) (y ! i)) [0..<BITMAP_WORDS]"
  have "?z = map (\<lambda>(p, q). p AND q) (zip x y)"
    using assms by (intro nth_equalityI) auto
  then have "sum_list (map (\<lambda>(p, q). of_nat (count_ones (p AND q))) (zip x y)) = cardinality (Bitmap ?z)"
    by (simp add: o_def case_prod_unfold del: bitmap_bitmap_word.simps)
  also have "\<dots> = of_nat (card (elems (Bitmap ?z)))"
    by (simp add: cardinality_values length_values del: elems.simps cardinality.simps)
  finally show ?thesis by (simp only: bitmap_bitmap_elems set_of_op.simps)
qed

lemma and_count_eq:
  assumes "container_inv a" "container_inv b"
  shows "and_count a b = of_nat (card (elems a \<inter> elems b))"
proof -
  have in_runs: "{v. in_runs r v} = elems (Run r)" if "runs_wf r" for r
    using in_runs_eq [OF that] by blast
  have has: "{v. bitmap_has w v} = elems (Bitmap w)" for w
    using bitmap_has_iff by blast
  show ?thesis
    using assms
    by (cases a; cases b)
      (simp_all only: and_count.simps container_inv_simps count_array_array_eq count_filter has in_runs
         count_run_run_eq sum_bits_in zip_and_count elems.simps(1) Int_commute add_0)
qed

lemma and_cardinality_card:
  assumes "container_inv a" "container_inv b"
  shows "and_cardinality a b = of_nat (card (elems a \<inter> elems b))"
  using assms by (auto simp: and_cardinality_def and_count_eq container_is_empty_iff simp del: elems.simps)

section \<open>Properties\<close>

text \<open>
  C30. Counting an intersection without building it gives the size of the intersection, for
  every pair of representations, and so the cardinality of the container that \<^verbatim>\<open>and\<close> builds.
\<close>

theorem and_cardinality_correct:
  assumes "container_inv a" "container_inv b"
  shows "unat (and_cardinality a b) = card (elems a \<inter> elems b) \<and>
         and_cardinality a b = cardinality (op_result_as_ref (and_op a b))"
proof -
  have "card (elems a \<inter> elems b) \<le> card (elems a)" by (intro card_mono) auto
  then have "unat (and_cardinality a b) = card (elems a \<inter> elems b)"
    using card_elems_le [of a] by (simp add: and_cardinality_card [OF assms] unat_of_nat)
  moreover have "unat (cardinality (op_result_as_ref (and_op a b))) = card (elems a \<inter> elems b)"
    using apply_spec [OF assms, of And] by (simp add: and_op_def cardinality_card)
  ultimately show ?thesis by (metis word_unat_eq_iff)
qed

theorem and_cardinality_correct_witness:
  "and_cardinality (Array [1, 5, 7]) (Array [5, 7, 8]) = cardinality (op_result_as_ref (and_op (Array [1, 5, 7]) (Array [5, 7, 8])))"
  using and_cardinality_correct [of "Array [1, 5, 7]" "Array [5, 7, 8]"] by simp

end
