(* ===== verification/Big_Bytes.thy ===== *)
theory Big_Bytes
  imports Big_Prelude
begin

text \<open>
  Little-endian bytes and byte slices: \<^verbatim>\<open>to_le_bytes\<close> and \<^verbatim>\<open>from_le_bytes\<close> of the
  integer types, and the reads and writes of a byte range of a page
  (\<^verbatim>\<open>page[a..b]\<close>, \<^verbatim>\<open>copy_from_slice\<close>), with the lemmas that a read after a write either
  gives back what was written or does not see it.
\<close>

unbundle bit_operations_syntax

section \<open>Little-endian integers\<close>

definition to_le :: "nat \<Rightarrow> 'a::len word \<Rightarrow> u8 list" where
  "to_le n w = map (\<lambda>i. ucast (drop_bit (8 * i) w)) [0..<n]"

primrec from_le :: "u8 list \<Rightarrow> 'a::len word" where
  "from_le [] = 0"
| "from_le (b # bs) = ucast b OR push_bit 8 (from_le bs)"

lemma length_to_le [simp]: "length (to_le n w) = n"
  by (simp add: to_le_def)

lemma bit_from_le:
  "bit (from_le bs :: 'a::len word) i \<longleftrightarrow> i < 8 * length bs \<and> i < LENGTH('a) \<and> bit (bs ! (i div 8)) (i mod 8)"
proof (induction bs arbitrary: i)
  case (Cons b bs)
  show ?case
  proof (cases "i < 8")
    case True
    then show ?thesis by (auto simp: bit_or_iff bit_push_bit_iff bit_ucast_iff)
  next
    case False
    then have "i div 8 = Suc ((i - 8) div 8)" "i mod 8 = (i - 8) mod 8"
      using le_div_geq [of 8 i] le_mod_geq [of 8 i] by simp_all
    moreover have "\<not> bit b i" using False bit_imp_le_length [of b i] by auto
    ultimately show ?thesis using False Cons [of "i - 8"]
      by (auto simp: bit_or_iff bit_push_bit_iff bit_ucast_iff dest: bit_imp_le_length)
  qed
qed simp

lemma from_to_le [simp]:
  fixes w :: "'a::len word"
  assumes "8 * n = LENGTH('a)"
  shows "from_le (to_le n w) = w"
proof (rule bit_eqI)
  fix i assume "possible_bit TYPE('a word) i"
  then have i: "i < LENGTH('a)" by (simp add: possible_bit_word)
  then have "i div 8 < n" using assms by simp
  then have "bit (to_le n w ! (i div 8)) (i mod 8) = bit w i"
    by (simp add: to_le_def bit_ucast_iff bit_drop_bit_eq)
  then show "bit (from_le (to_le n w) :: 'a word) i = bit w i"
    using i assms by (simp add: bit_from_le)
qed

lemma to_from_le [simp]:
  assumes "length bs = n" "8 * n \<le> LENGTH('a)"
  shows "to_le n (from_le bs :: 'a::len word) = bs"
proof (rule nth_equalityI)
  fix k assume k: "k < length (to_le n (from_le bs :: 'a word))"
  show "to_le n (from_le bs :: 'a word) ! k = bs ! k"
  proof (rule bit_eqI)
    fix j assume "possible_bit TYPE(u8) j"
    then have j: "j < 8" by (simp add: possible_bit_word)
    then have "(8 * k + j) div 8 = k" "(8 * k + j) mod 8 = j" by simp_all
    then show "bit (to_le n (from_le bs :: 'a word) ! k) j = bit (bs ! k) j"
      using k j assms by (simp add: to_le_def bit_ucast_iff bit_drop_bit_eq bit_from_le)
  qed
qed (use assms in simp)

section \<open>Reading and writing a range\<close>

definition get_bytes :: "u8 list \<Rightarrow> nat \<Rightarrow> nat \<Rightarrow> u8 list" where
  "get_bytes p off n = take n (drop off p)"

definition put_bytes :: "u8 list \<Rightarrow> nat \<Rightarrow> u8 list \<Rightarrow> u8 list" where
  "put_bytes p off bs = take off p @ bs @ drop (off + length bs) p"

lemma length_put_bytes [simp]: "off + length bs \<le> length p \<Longrightarrow> length (put_bytes p off bs) = length p"
  by (simp add: put_bytes_def)

lemma length_get_bytes [simp]: "off + n \<le> length p \<Longrightarrow> length (get_bytes p off n) = n"
  by (simp add: get_bytes_def)

lemma get_put_same:
  "off + length bs \<le> length p \<Longrightarrow> n = length bs \<Longrightarrow> get_bytes (put_bytes p off bs) off n = bs"
  by (simp add: get_bytes_def put_bytes_def)

lemma nth_put_bytes:
  assumes "off + length bs \<le> length p" "i < length p"
  shows "put_bytes p off bs ! i = (if off \<le> i \<and> i < off + length bs then bs ! (i - off) else p ! i)"
  using assms by (auto simp: put_bytes_def nth_append)

lemma get_put_other:
  assumes "off + length bs \<le> length p" "a + n \<le> length p" "a + n \<le> off \<or> off + length bs \<le> a"
  shows "get_bytes (put_bytes p off bs) a n = get_bytes p a n"
proof (rule nth_equalityI)
  show "length (get_bytes (put_bytes p off bs) a n) = length (get_bytes p a n)" using assms by simp
  fix i assume "i < length (get_bytes (put_bytes p off bs) a n)"
  with assms show "get_bytes (put_bytes p off bs) a n ! i = get_bytes p a n ! i"
    by (auto simp: get_bytes_def nth_put_bytes)
qed

lemma get_put_inside:
  assumes "off + length bs \<le> length p" "off \<le> a" "a + n \<le> off + length bs"
  shows "get_bytes (put_bytes p off bs) a n = get_bytes bs (a - off) n"
  using assms by (auto simp: get_bytes_def put_bytes_def min_def)

lemma get_bytes_all: "n = length p \<Longrightarrow> get_bytes p 0 n = p"
  by (simp add: get_bytes_def)

lemma get_bytes_sub: "get_bytes p o1 n = bs \<Longrightarrow> a + m \<le> n \<Longrightarrow> get_bytes p (o1 + a) m = get_bytes bs a m"
  by (auto simp: get_bytes_def drop_take add.commute min_def)

end
