(* ===== verification/Big_Page.thy ===== *)
theory Big_Page
  imports Big_Bytes
begin

text \<open>
  \<^verbatim>\<open>crates/big-page/src/{layout,error,page}.rs\<close>: the page as a vector of 8192 bytes, its
  header and checksum, the cell index that branch and leaf pages share and its validation,
  and the laying out of cells that both builders do. The checksum is \<^verbatim>\<open>crc32fast::hash\<close>,
  a parameter \<open>crc\<close> of every definition that uses it.
\<close>

section \<open>Layout constants\<close>

definition PAGE_SIZE :: nat where "PAGE_SIZE = 8192"
definition PAGE_HEADER :: nat where "PAGE_HEADER = 12"
definition PAGE_TRAILER :: nat where "PAGE_TRAILER = 4"
definition CELL_INDEX_ENTRY :: nat where "CELL_INDEX_ENTRY = 2"
definition CELL_ALIGN :: nat where "CELL_ALIGN = 8"
definition LEAF_CELL_HEADER :: nat where "LEAF_CELL_HEADER = 24"
definition BRANCH_CELL :: nat where "BRANCH_CELL = 16"

text \<open>\<^verbatim>\<open>(n + CELL_ALIGN - 1) & !(CELL_ALIGN - 1)\<close>, the alignment being a power of two.\<close>

definition align_up :: "nat \<Rightarrow> nat" where
  "align_up n = (n + CELL_ALIGN - 1) div CELL_ALIGN * CELL_ALIGN"

definition CELL_PAYLOAD_MAX :: nat where
  "CELL_PAYLOAD_MAX = PAGE_SIZE - PAGE_TRAILER - align_up (PAGE_HEADER + CELL_INDEX_ENTRY) - LEAF_CELL_HEADER"

definition ARRAY_MAX_ELEMS :: nat where "ARRAY_MAX_ELEMS = CELL_PAYLOAD_MAX div 2"
definition RUN_MAX_INTERVALS :: nat where "RUN_MAX_INTERVALS = CELL_PAYLOAD_MAX div 4"

lemmas layout_defs = PAGE_SIZE_def PAGE_HEADER_def PAGE_TRAILER_def CELL_INDEX_ENTRY_def CELL_ALIGN_def
  LEAF_CELL_HEADER_def BRANCH_CELL_def

lemma align_up_simps: "n \<le> align_up n" "align_up n < n + 8" "align_up n mod 8 = 0"
  by (simp_all add: align_up_def CELL_ALIGN_def)

lemma align_up_id: "n mod 8 = 0 \<Longrightarrow> align_up n = n"
  by (auto simp: align_up_def CELL_ALIGN_def dvd_eq_mod_eq_0 [symmetric] elim!: dvdE)

lemma align_up_add: "a mod 8 = 0 \<Longrightarrow> align_up (a + b) = a + align_up b"
proof -
  assume "a mod 8 = 0"
  then obtain k where a: "a = 8 * k" by (metis mod_0_imp_dvd dvdE)
  have "(7 + (b + 8 * k)) div 8 = k + (7 + b) div 8" by presburger
  then show ?thesis by (simp add: a align_up_def CELL_ALIGN_def ac_simps)
qed

lemma align_up_mono: "a \<le> b \<Longrightarrow> align_up a \<le> align_up b"
  by (simp add: align_up_def div_le_mono)

section \<open>Errors\<close>

datatype page_error =
  TypeMismatch u8 u8
| UnknownPageType u8
| CellCountOverflow u16
| CellOffsetOutOfRange nat u16
| CellMisaligned nat u16
| CellOrderBroken nat
| PayloadOutOfRange nat
| UnknownContainerType u16
| NotAContainer u16
| Misaligned
| ChecksumMismatch u32 u32
| BadMagic u32
| UnsupportedVersion u32
| PageSizeMismatch u32 u32

fun page_error_code :: "page_error \<Rightarrow> string" where
  "page_error_code (ChecksumMismatch _ _) = ''page_checksum_mismatch''"
| "page_error_code (BadMagic _) = ''not_a_big_file''"
| "page_error_code (UnsupportedVersion _) = ''unsupported_format_version''"
| "page_error_code (PageSizeMismatch _ _) = ''page_size_mismatch''"
| "page_error_code _ = ''page_damaged''"

section \<open>The page\<close>

type_synonym pgno = u32
type_synonym txn_id = u64
type_synonym container_key = u64
type_synonym page = "u8 list"

datatype page_type = PMeta | PRootRecords | PBranch | PLeaf | PBitmap | PFreelist | PSnapshots | PCatalog

fun page_type_u8 :: "page_type \<Rightarrow> u8" where
  "page_type_u8 PMeta = 0"
| "page_type_u8 PRootRecords = 1"
| "page_type_u8 PBranch = 2"
| "page_type_u8 PLeaf = 3"
| "page_type_u8 PBitmap = 4"
| "page_type_u8 PFreelist = 5"
| "page_type_u8 PSnapshots = 6"
| "page_type_u8 PCatalog = 7"

definition page_type_from_u8 :: "u8 \<Rightarrow> page_error + page_type" where
  "page_type_from_u8 v =
     (if v = 0 then Inr PMeta else if v = 1 then Inr PRootRecords else if v = 2 then Inr PBranch
      else if v = 3 then Inr PLeaf else if v = 4 then Inr PBitmap else if v = 5 then Inr PFreelist
      else if v = 6 then Inr PSnapshots else if v = 7 then Inr PCatalog else Inl (UnknownPageType v))"

definition page_zeroed :: page where "page_zeroed = replicate PAGE_SIZE 0"

definition rd16 :: "page \<Rightarrow> nat \<Rightarrow> u16" where "rd16 p o1 = from_le (get_bytes p o1 2)"
definition rd32 :: "page \<Rightarrow> nat \<Rightarrow> u32" where "rd32 p o1 = from_le (get_bytes p o1 4)"
definition rd64 :: "page \<Rightarrow> nat \<Rightarrow> u64" where "rd64 p o1 = from_le (get_bytes p o1 8)"

definition page_pgno :: "page \<Rightarrow> pgno" where "page_pgno p = rd32 p 0"
definition page_flags :: "page \<Rightarrow> u32" where "page_flags p = rd32 p 4"
definition page_cell_count :: "page \<Rightarrow> u16" where "page_cell_count p = rd16 p 8"

definition page_page_type :: "page \<Rightarrow> page_error + page_type" where
  "page_page_type p = page_type_from_u8 (ucast (page_flags p AND 0xFF))"

definition set_header :: "page \<Rightarrow> pgno \<Rightarrow> page_type \<Rightarrow> u16 \<Rightarrow> page" where
  "set_header p n ty cell_count =
     (let p1 = put_bytes p 0 (to_le 4 n);
          p2 = put_bytes p1 4 (to_le 4 (ucast (page_type_u8 ty) :: u32));
          p3 = put_bytes p2 8 (to_le 2 cell_count)
      in put_bytes p3 10 (to_le 2 (0 :: u16)))"

definition compute_checksum :: "(u8 list \<Rightarrow> u32) \<Rightarrow> page \<Rightarrow> u32" where
  "compute_checksum crc p = crc (take (PAGE_SIZE - PAGE_TRAILER) p)"

definition stored_checksum :: "page \<Rightarrow> u32" where
  "stored_checksum p = rd32 p (PAGE_SIZE - PAGE_TRAILER)"

definition page_seal :: "(u8 list \<Rightarrow> u32) \<Rightarrow> page \<Rightarrow> page" where
  "page_seal crc p = put_bytes p (PAGE_SIZE - PAGE_TRAILER) (to_le 4 (compute_checksum crc p))"

definition verify_checksum :: "(u8 list \<Rightarrow> u32) \<Rightarrow> page \<Rightarrow> page_error + unit" where
  "verify_checksum crc p =
     (if stored_checksum p = compute_checksum crc p then Inr ()
      else Inl (ChecksumMismatch (stored_checksum p) (compute_checksum crc p)))"

section \<open>The cell index\<close>

definition cell_offset :: "page \<Rightarrow> nat \<Rightarrow> nat" where
  "cell_offset p i = unat (rd16 p (PAGE_HEADER + i * CELL_INDEX_ENTRY))"

text \<open>The loop of \<^verbatim>\<open>validate_cell_index\<close>, from entry \<open>i\<close> with \<open>n\<close> entries to go.\<close>

fun validate_entries :: "page \<Rightarrow> nat \<Rightarrow> nat \<Rightarrow> nat \<Rightarrow> nat \<Rightarrow> nat \<Rightarrow> page_error + unit" where
  "validate_entries p data_start cell_span prev i 0 = Inr ()"
| "validate_entries p data_start cell_span prev i (Suc n) =
     (let off = rd16 p (PAGE_HEADER + i * CELL_INDEX_ENTRY); o1 = unat off in
      if o1 mod CELL_ALIGN \<noteq> 0 then Inl (CellMisaligned i off)
      else if o1 < data_start \<or> o1 + cell_span > PAGE_SIZE - PAGE_TRAILER then Inl (CellOffsetOutOfRange i off)
      else if i > 0 \<and> o1 \<le> prev then Inl (CellOrderBroken i)
      else validate_entries p data_start cell_span o1 (Suc i) n)"

definition validate_cell_index :: "page \<Rightarrow> page_type \<Rightarrow> nat \<Rightarrow> page_error + nat \<times> nat" where
  "validate_cell_index p expected cell_span =
     (let found = ucast (page_flags p AND 0xFF) :: u8 in
      if found \<noteq> page_type_u8 expected then Inl (TypeMismatch (page_type_u8 expected) found)
      else
        (let count = unat (page_cell_count p);
             index_end = PAGE_HEADER + count * CELL_INDEX_ENTRY
         in if index_end > PAGE_SIZE - PAGE_TRAILER then Inl (CellCountOverflow (page_cell_count p))
            else
              (let data_start = align_up index_end in
               case validate_entries p data_start cell_span 0 0 count of
                 Inl e \<Rightarrow> Inl e
               | Inr _ \<Rightarrow> Inr (count, data_start))))"

section \<open>Header and checksum lemmas\<close>

abbreviation page_ok :: "page \<Rightarrow> bool" where "page_ok p \<equiv> length p = PAGE_SIZE"

lemma page_ok_zeroed [simp]: "page_ok page_zeroed"
  by (simp add: page_zeroed_def)

lemma page_ok_set_header [simp]: "page_ok p \<Longrightarrow> page_ok (set_header p n ty c)"
  by (simp add: set_header_def Let_def PAGE_SIZE_def)

lemma page_ok_seal [simp]: "page_ok p \<Longrightarrow> page_ok (page_seal crc p)"
  by (simp add: page_seal_def layout_defs)

lemma get_seal: "page_ok p \<Longrightarrow> a + n \<le> PAGE_SIZE - PAGE_TRAILER \<Longrightarrow> get_bytes (page_seal crc p) a n = get_bytes p a n"
  unfolding page_seal_def by (rule get_put_other) (simp_all add: layout_defs)

lemma rd_seal:
  assumes "page_ok p"
  shows "a + 2 \<le> PAGE_SIZE - PAGE_TRAILER \<Longrightarrow> rd16 (page_seal crc p) a = rd16 p a"
    and "a + 4 \<le> PAGE_SIZE - PAGE_TRAILER \<Longrightarrow> rd32 (page_seal crc p) a = rd32 p a"
    and "a + 8 \<le> PAGE_SIZE - PAGE_TRAILER \<Longrightarrow> rd64 (page_seal crc p) a = rd64 p a"
  using assms by (simp_all add: rd16_def rd32_def rd64_def get_seal)

lemma verify_seal: "page_ok p \<Longrightarrow> verify_checksum crc (page_seal crc p) = Inr ()"
proof -
  assume ok: "page_ok p"
  have "take (PAGE_SIZE - PAGE_TRAILER) (page_seal crc p) = take (PAGE_SIZE - PAGE_TRAILER) p"
    using get_seal [OF ok, of 0 "PAGE_SIZE - PAGE_TRAILER"] by (simp add: get_bytes_def)
  moreover have "get_bytes (page_seal crc p) (PAGE_SIZE - PAGE_TRAILER) 4 = to_le 4 (compute_checksum crc p)"
    unfolding page_seal_def by (rule get_put_same) (use ok in \<open>simp_all add: layout_defs\<close>)
  ultimately show ?thesis
    by (simp add: verify_checksum_def stored_checksum_def compute_checksum_def rd32_def)
qed

lemma header_fields:
  assumes "page_ok p"
  shows "page_pgno (set_header p n ty c) = n"
    and "page_flags (set_header p n ty c) = ucast (page_type_u8 ty)"
    and "page_cell_count (set_header p n ty c) = c"
  using assms
  by (simp_all add: set_header_def Let_def page_pgno_def page_flags_def page_cell_count_def
      rd16_def rd32_def get_put_other get_put_same PAGE_SIZE_def)

lemma page_type_mask: "ucast (ucast (page_type_u8 ty) AND 0xFF :: u32) = page_type_u8 ty"
  by (cases ty) simp_all

lemma get_set_header:
  "page_ok p \<Longrightarrow> 12 \<le> a \<Longrightarrow> a + n \<le> PAGE_SIZE \<Longrightarrow> get_bytes (set_header p k ty c) a n = get_bytes p a n"
  by (simp add: set_header_def Let_def get_put_other PAGE_SIZE_def)

section \<open>Laying out cells\<close>

text \<open>
  The loop both builders run: each cell is written at the cursor, its offset into the index,
  and the cursor moves to the next aligned position. The builders write a cell field by field;
  the fields are adjacent, so that is one write of their concatenation.
\<close>

fun lay_cells :: "page \<Rightarrow> nat \<Rightarrow> nat \<Rightarrow> u8 list list \<Rightarrow> page" where
  "lay_cells p i cursor [] = p"
| "lay_cells p i cursor (c # cs) =
     (let p1 = put_bytes p cursor c;
          p2 = put_bytes p1 (PAGE_HEADER + i * CELL_INDEX_ENTRY) (to_le 2 (of_nat cursor :: u16))
      in lay_cells p2 (Suc i) (align_up (cursor + length c)) cs)"

fun cell_starts :: "nat \<Rightarrow> u8 list list \<Rightarrow> nat list" where
  "cell_starts cursor [] = []"
| "cell_starts cursor (c # cs) = cursor # cell_starts (align_up (cursor + length c)) cs"

text \<open>The end of the last cell, which needs no padding after it.\<close>

fun cells_end :: "nat \<Rightarrow> u8 list list \<Rightarrow> nat" where
  "cells_end cursor [] = cursor"
| "cells_end cursor [c] = cursor + length c"
| "cells_end cursor (c # c' # cs) = cells_end (align_up (cursor + length c)) (c' # cs)"

lemma length_cell_starts [simp]: "length (cell_starts k cs) = length cs"
  by (induction cs arbitrary: k) simp_all

lemma put_bytes_append:
  "o1 + length a + length b \<le> length p \<Longrightarrow> put_bytes (put_bytes p o1 a) (o1 + length a) b = put_bytes p o1 (a @ b)"
  by (simp add: put_bytes_def drop_drop ac_simps)

lemma put_bytes_merge:
  "o2 = o1 + length a \<Longrightarrow> o2 + length b \<le> length p \<Longrightarrow> put_bytes (put_bytes p o1 a) o2 b = put_bytes p o1 (a @ b)"
  by (simp add: put_bytes_append)

lemma cells_end_ge: "cursor \<le> cells_end cursor cs"
  by (induction cursor cs rule: cells_end.induct) (auto intro: order_trans [OF _ order_trans [OF align_up_simps(1)]] le_add1)

lemma cells_end_step:
  assumes "cells_end cursor (c # cs) \<le> L"
  shows "cursor + length c \<le> L" and "cs \<noteq> [] \<Longrightarrow> align_up (cursor + length c) \<le> L"
    and "cs \<noteq> [] \<Longrightarrow> cells_end (align_up (cursor + length c)) cs \<le> L"
proof -
  show "cs \<noteq> [] \<Longrightarrow> cells_end (align_up (cursor + length c)) cs \<le> L"
    using assms by (cases cs) auto
  then show "cs \<noteq> [] \<Longrightarrow> align_up (cursor + length c) \<le> L"
    using cells_end_ge order_trans by blast
  then show "cursor + length c \<le> L"
    using assms align_up_simps(1) [of "cursor + length c"] by (cases cs) auto
qed

lemma cell_starts_ge: "o1 \<in> set (cell_starts cursor cs) \<Longrightarrow> cursor \<le> o1"
proof (induction cs arbitrary: cursor)
  case (Cons c cs)
  have "cursor \<le> align_up (cursor + length c)" using align_up_simps(1) [of "cursor + length c"] by simp
  with Cons show ?case by fastforce
qed simp

lemma cell_starts_sorted: "(\<forall>c \<in> set cs. c \<noteq> []) \<Longrightarrow> ssorted (cell_starts cursor cs)"
proof (induction cs arbitrary: cursor)
  case (Cons c cs)
  have "cursor < o1" if "o1 \<in> set (cell_starts (align_up (cursor + length c)) cs)" for o1
  proof -
    have "cursor < cursor + length c" using Cons.prems by simp
    also have "\<dots> \<le> align_up (cursor + length c)" by (rule align_up_simps)
    also have "\<dots> \<le> o1" using that by (rule cell_starts_ge)
    finally show ?thesis .
  qed
  with Cons show ?case by simp
qed simp

lemma cell_starts_aligned: "cursor mod 8 = 0 \<Longrightarrow> o1 \<in> set (cell_starts cursor cs) \<Longrightarrow> o1 mod 8 = 0"
proof (induction cs arbitrary: cursor)
  case (Cons c cs)
  with Cons.IH [OF align_up_simps(3)] show ?case by auto
qed simp

lemma cell_starts_end:
  "i < length cs \<Longrightarrow> cells_end cursor cs \<le> L \<Longrightarrow> cell_starts cursor cs ! i + length (cs ! i) \<le> L"
proof (induction cs arbitrary: cursor i)
  case (Cons c cs)
  show ?case
  proof (cases i)
    case 0
    then show ?thesis using cells_end_step(1) [OF Cons.prems(2)] by simp
  next
    case (Suc j)
    then have "cs \<noteq> []" using Cons.prems by auto
    with Suc Cons cells_end_step(3) [OF Cons.prems(2)] show ?thesis by simp
  qed
qed simp

text \<open>A range before the index entries still to be written, or between the index and the cursor, stays.\<close>

lemma lay_cells_keeps:
  assumes "page_ok p" "cells_end cursor cs \<le> PAGE_SIZE - PAGE_TRAILER"
    and "PAGE_HEADER + (i + length cs) * CELL_INDEX_ENTRY \<le> cursor"
    and "a + n \<le> PAGE_HEADER + i * CELL_INDEX_ENTRY \<or>
         PAGE_HEADER + (i + length cs) * CELL_INDEX_ENTRY \<le> a \<and> a + n \<le> cursor"
  shows "page_ok (lay_cells p i cursor cs)" and "get_bytes (lay_cells p i cursor cs) a n = get_bytes p a n"
proof -
  have "page_ok (lay_cells p i cursor cs) \<and> get_bytes (lay_cells p i cursor cs) a n = get_bytes p a n"
    using assms
  proof (induction cs arbitrary: p i cursor)
    case (Cons c cs)
    define p1 where "p1 = put_bytes p cursor c"
    define p2 where "p2 = put_bytes p1 (PAGE_HEADER + i * CELL_INDEX_ENTRY) (to_le 2 (of_nat cursor :: u16))"
    have fit: "cursor + length c \<le> PAGE_SIZE - PAGE_TRAILER" using cells_end_step(1) [OF Cons.prems(2)] .
    then have p1: "page_ok p1" "get_bytes p1 a n = get_bytes p a n"
      using Cons.prems by (auto simp: p1_def layout_defs intro!: get_put_other)
    then have p2: "page_ok p2" using Cons.prems fit by (simp add: p2_def layout_defs)
    have p2': "get_bytes p2 a n = get_bytes p1 a n"
      unfolding p2_def by (rule get_put_other) (use Cons.prems fit p1 in \<open>auto simp: layout_defs\<close>)
    show ?case
    proof (cases "cs = []")
      case True
      with p1 p2 p2' show ?thesis by (simp add: p1_def p2_def)
    next
      case False
      have "cursor \<le> align_up (cursor + length c)" using align_up_simps(1) [of "cursor + length c"] by simp
      then have "page_ok (lay_cells p2 (Suc i) (align_up (cursor + length c)) cs) \<and>
          get_bytes (lay_cells p2 (Suc i) (align_up (cursor + length c)) cs) a n = get_bytes p2 a n"
        using Cons.prems p2 cells_end_step(3) [OF Cons.prems(2) False] by (intro Cons.IH) (auto simp: layout_defs)
      with p1 p2 p2' show ?thesis by (simp add: p1_def p2_def Let_def)
    qed
  qed simp
  then show "page_ok (lay_cells p i cursor cs)" "get_bytes (lay_cells p i cursor cs) a n = get_bytes p a n" by auto
qed

lemma lay_cells_read:
  assumes "page_ok p" "cells_end cursor cs \<le> PAGE_SIZE - PAGE_TRAILER"
    and "PAGE_HEADER + (i + length cs) * CELL_INDEX_ENTRY \<le> cursor"
    and "k < length cs"
  shows "cell_offset (lay_cells p i cursor cs) (i + k) = cell_starts cursor cs ! k \<and>
         get_bytes (lay_cells p i cursor cs) (cell_starts cursor cs ! k) (length (cs ! k)) = cs ! k"
  using assms
proof (induction cs arbitrary: p i cursor k)
  case (Cons c cs)
  define p1 where "p1 = put_bytes p cursor c"
  define p2 where "p2 = put_bytes p1 (PAGE_HEADER + i * CELL_INDEX_ENTRY) (to_le 2 (of_nat cursor :: u16))"
  define cur where "cur = align_up (cursor + length c)"
  have step: "lay_cells p i cursor (c # cs) = lay_cells p2 (Suc i) cur cs"
    by (simp add: p1_def p2_def cur_def Let_def)
  have fit: "cursor + length c \<le> PAGE_SIZE - PAGE_TRAILER" using cells_end_step(1) [OF Cons.prems(2)] .
  have ge: "cursor + length c \<le> cur" unfolding cur_def by (rule align_up_simps)
  have ok: "page_ok p1" "page_ok p2" using Cons.prems fit by (simp_all add: p1_def p2_def layout_defs)
  have fits: "cells_end cur cs \<le> PAGE_SIZE - PAGE_TRAILER" if "cs \<noteq> []"
    using cells_end_step(3) [OF Cons.prems(2) that] by (simp add: cur_def)
  show ?case
  proof (cases k)
    case 0
    have keep: "get_bytes (lay_cells p2 (Suc i) cur cs) a n = get_bytes p2 a n"
      if "a + n \<le> PAGE_HEADER + Suc i * CELL_INDEX_ENTRY \<or>
          PAGE_HEADER + (Suc i + length cs) * CELL_INDEX_ENTRY \<le> a \<and> a + n \<le> cur" for a n
    proof (cases "cs = []")
      case False
      show ?thesis
        by (rule lay_cells_keeps(2) [OF ok(2) fits [OF False] _ that]) (use Cons.prems ge in \<open>simp add: layout_defs\<close>)
    qed simp
    have "get_bytes p2 (PAGE_HEADER + i * CELL_INDEX_ENTRY) 2 = to_le 2 (of_nat cursor :: u16)"
      unfolding p2_def by (rule get_put_same) (use ok Cons.prems fit in \<open>simp_all add: layout_defs\<close>)
    then have "cell_offset (lay_cells p2 (Suc i) cur cs) i = unat (of_nat cursor :: u16)"
      unfolding cell_offset_def rd16_def by (subst keep) (simp_all add: layout_defs)
    also have "\<dots> = cursor" using fit by (simp add: unat_of_nat layout_defs)
    finally have off: "cell_offset (lay_cells p2 (Suc i) cur cs) i = cursor" .
    have "get_bytes p2 cursor (length c) = get_bytes p1 cursor (length c)"
      unfolding p2_def by (rule get_put_other) (use ok Cons.prems fit in \<open>simp_all add: layout_defs\<close>)
    also have "\<dots> = c" unfolding p1_def by (rule get_put_same) (use Cons.prems fit in \<open>simp_all add: layout_defs\<close>)
    finally have "get_bytes (lay_cells p2 (Suc i) cur cs) cursor (length c) = c"
      using Cons.prems ge by (subst keep) (simp_all add: layout_defs)
    with off 0 step show ?thesis by simp
  next
    case (Suc j)
    then have "cs \<noteq> []" using Cons.prems by auto
    from Cons.IH [OF ok(2) fits [OF this], of "Suc i" j] Suc step Cons.prems ge show ?thesis
      by (simp add: cur_def [symmetric] layout_defs)
  qed
qed simp

lemma validate_entriesI:
  assumes "\<And>k. k < n \<Longrightarrow> cell_offset p (i + k) = os ! k"
    and "length os = n" "ssorted os" "\<forall>o1 \<in> set os. o1 mod 8 = 0 \<and> ds \<le> o1 \<and> o1 + span \<le> PAGE_SIZE - PAGE_TRAILER"
    and "i = 0 \<or> (\<forall>o1 \<in> set os. prev < o1)"
  shows "validate_entries p ds span prev i n = Inr ()"
  using assms
proof (induction n arbitrary: i os prev)
  case (Suc n)
  then obtain o1 os' where os: "os = o1 # os'" by (cases os) auto
  have o1: "unat (rd16 p (PAGE_HEADER + i * CELL_INDEX_ENTRY)) = o1"
    using Suc.prems(1) [of 0] os by (simp add: cell_offset_def)
  have "validate_entries p ds span o1 (Suc i) n = Inr ()"
    using Suc.prems(1) [of "Suc _"] Suc.prems(2-) os by (intro Suc.IH [of _ os']) auto
  with o1 os Suc.prems show ?case by (auto simp: Let_def CELL_ALIGN_def)
qed simp

text \<open>What a successful validation guarantees: every cell lies inside the page.\<close>

lemma validate_entriesD:
  "validate_entries p ds span prev i n = Inr () \<Longrightarrow> k < n \<Longrightarrow>
     cell_offset p (i + k) mod 8 = 0 \<and> ds \<le> cell_offset p (i + k) \<and>
     cell_offset p (i + k) + span \<le> PAGE_SIZE - PAGE_TRAILER"
proof (induction n arbitrary: i prev k)
  case (Suc n)
  let ?o = "cell_offset p i"
  have here: "?o mod 8 = 0" "ds \<le> ?o" "?o + span \<le> PAGE_SIZE - PAGE_TRAILER"
    and rest: "validate_entries p ds span ?o (Suc i) n = Inr ()"
    using Suc.prems(1) by (simp_all add: Let_def cell_offset_def CELL_ALIGN_def not_less split: if_splits)
  show ?case
  proof (cases k)
    case 0
    with here show ?thesis by simp
  next
    case (Suc j)
    with Suc.IH [OF rest, of j] \<open>k < Suc n\<close> show ?thesis by simp
  qed
qed simp

lemma validate_cell_indexD:
  assumes "validate_cell_index p ty span = Inr (count, ds)" "k < count"
  shows "cell_offset p k mod 8 = 0 \<and> ds \<le> cell_offset p k \<and> cell_offset p k + span \<le> PAGE_SIZE - PAGE_TRAILER"
  using assms validate_entriesD [of p ds span 0 0 count k]
  by (auto simp: validate_cell_index_def Let_def split: if_splits sum.splits)

lemma validate_cell_index_start:
  "validate_cell_index p ty span = Inr (count, ds) \<Longrightarrow> PAGE_HEADER + count * CELL_INDEX_ENTRY \<le> ds"
  by (auto simp: validate_cell_index_def Let_def align_up_simps(1) split: if_splits sum.splits)

text \<open>A page built by laying out cells passes validation, and each cell reads back.\<close>

definition cells_page :: "(u8 list \<Rightarrow> u32) \<Rightarrow> pgno \<Rightarrow> page_type \<Rightarrow> u8 list list \<Rightarrow> page" where
  "cells_page crc n ty cs =
     page_seal crc (lay_cells (set_header page_zeroed n ty (of_nat (length cs))) 0
                     (align_up (PAGE_HEADER + length cs * CELL_INDEX_ENTRY)) cs)"

abbreviation cells_start :: "u8 list list \<Rightarrow> nat" where
  "cells_start cs \<equiv> align_up (PAGE_HEADER + length cs * CELL_INDEX_ENTRY)"

lemma cells_page_spec:
  assumes fit: "cells_end (cells_start cs) cs \<le> PAGE_SIZE - PAGE_TRAILER"
  shows "page_ok (cells_page crc n ty cs)"
    and "verify_checksum crc (cells_page crc n ty cs) = Inr ()"
    and "page_pgno (cells_page crc n ty cs) = n"
    and "k < length cs \<Longrightarrow> cell_offset (cells_page crc n ty cs) k = cell_starts (cells_start cs) cs ! k"
    and "k < length cs \<Longrightarrow> get_bytes (cells_page crc n ty cs) (cell_starts (cells_start cs) cs ! k) (length (cs ! k)) = cs ! k"
    and "page_flags (cells_page crc n ty cs) = ucast (page_type_u8 ty)"
    and "page_cell_count (cells_page crc n ty cs) = of_nat (length cs)"
proof -
  define p where "p = set_header page_zeroed n ty (of_nat (length cs))"
  define q where "q = lay_cells p 0 (cells_start cs) cs"
  have ok: "page_ok p" by (simp add: p_def)
  have idx: "PAGE_HEADER + (0 + length cs) * CELL_INDEX_ENTRY \<le> cells_start cs"
    using align_up_simps(1) by simp
  have le: "cells_start cs \<le> PAGE_SIZE - PAGE_TRAILER" using cells_end_ge fit order_trans by blast
  note keep = lay_cells_keeps [OF ok fit idx, folded q_def]
  have q: "page_ok q" using keep(1) [of 0 0] by simp
  show "page_ok (cells_page crc n ty cs)" using q by (simp add: cells_page_def q_def p_def)
  show "verify_checksum crc (cells_page crc n ty cs) = Inr ()"
    using verify_seal [OF q] by (simp add: cells_page_def q_def p_def)
  have hd: "get_bytes (cells_page crc n ty cs) a m = get_bytes p a m" if "a + m \<le> 12" for a m
    using that keep(2) [of a m] get_seal [OF q, of a m] by (simp add: cells_page_def q_def p_def layout_defs)
  show "page_pgno (cells_page crc n ty cs) = n"
    "page_flags (cells_page crc n ty cs) = ucast (page_type_u8 ty)"
    "page_cell_count (cells_page crc n ty cs) = of_nat (length cs)"
    using header_fields [of page_zeroed n ty "of_nat (length cs)"]
    by (simp_all add: page_pgno_def page_flags_def page_cell_count_def rd16_def rd32_def hd p_def)
  assume k: "k < length cs"
  note rd = lay_cells_read [OF ok fit idx k, folded q_def]
  show "cell_offset (cells_page crc n ty cs) k = cell_starts (cells_start cs) cs ! k"
    using rd k le idx rd_seal(1) [OF q, of "PAGE_HEADER + k * CELL_INDEX_ENTRY" crc]
    by (simp add: cell_offset_def cells_page_def q_def p_def layout_defs)
  show "get_bytes (cells_page crc n ty cs) (cell_starts (cells_start cs) cs ! k) (length (cs ! k)) = cs ! k"
    using rd get_seal [OF q cell_starts_end [OF k fit]] by (simp add: cells_page_def q_def p_def)
qed

lemma cells_page_valid:
  assumes fit: "cells_end (cells_start cs) cs \<le> PAGE_SIZE - PAGE_TRAILER"
    and span: "\<forall>c \<in> set cs. span \<le> length c" "0 < span"
  shows "validate_cell_index (cells_page crc n ty cs) ty span = Inr (length cs, cells_start cs)"
proof -
  let ?p = "cells_page crc n ty cs" and ?os = "cell_starts (cells_start cs) cs"
  note spec = cells_page_spec [OF fit]
  have le: "PAGE_HEADER + length cs * CELL_INDEX_ENTRY \<le> PAGE_SIZE - PAGE_TRAILER"
    using align_up_simps(1) [of "PAGE_HEADER + length cs * CELL_INDEX_ENTRY"]
      cells_end_ge [of "cells_start cs" cs] fit by linarith
  then have count: "unat (page_cell_count ?p) = length cs"
    by (simp add: spec(7) unat_of_nat layout_defs)
  have "validate_entries ?p (cells_start cs) span 0 0 (length cs) = Inr ()"
  proof (rule validate_entriesI [where os = ?os])
    show "ssorted ?os" using span by (intro cell_starts_sorted) auto
    show "\<forall>o1 \<in> set ?os. o1 mod 8 = 0 \<and> cells_start cs \<le> o1 \<and> o1 + span \<le> PAGE_SIZE - PAGE_TRAILER"
    proof
      fix o1 assume o1: "o1 \<in> set ?os"
      then obtain j where j: "j < length cs" "o1 = ?os ! j" by (auto simp: in_set_conv_nth)
      with cell_starts_end [OF j(1) fit] span(1) nth_mem [OF j(1)] have "o1 + span \<le> PAGE_SIZE - PAGE_TRAILER"
        by fastforce
      with o1 show "o1 mod 8 = 0 \<and> cells_start cs \<le> o1 \<and> o1 + span \<le> PAGE_SIZE - PAGE_TRAILER"
        using cell_starts_aligned [OF align_up_simps(3) o1] cell_starts_ge [OF o1] by simp
    qed
  qed (simp_all add: spec(4))
  with count le show ?thesis
    by (simp add: validate_cell_index_def Let_def spec(6) page_type_mask)
qed

end
