(* ===== verification/Big_Delta.thy ===== *)
theory Big_Delta
  imports Big_SetOps Big_Bytes
begin

text \<open>
  \<^verbatim>\<open>crates/big-container/src/delta.rs\<close>: a bounded list of changed bits kept beside a bitmap
  page, its byte encoding, and the three ways the code reads it: one bit, the whole bitmap,
  and the resulting cardinality. The last two are shown to agree with the first.
\<close>

section \<open>Entries and their payload\<close>

record delta_entry =
  offset :: u16
  set_to :: bool

definition DELTA_ENTRY_BYTES :: nat where "DELTA_ENTRY_BYTES = 4"
definition MAX_DELTA :: nat where "MAX_DELTA = 32"

definition delta_encode :: "delta_entry list \<Rightarrow> u8 list" where
  "delta_encode entries = concat (map (\<lambda>e. to_le 2 (offset e) @ to_le 2 (of_bool (set_to e) :: u16)) entries)"

fun decode_chunks :: "u8 list \<Rightarrow> delta_entry list" where
  "decode_chunks (c0 # c1 # c2 # c3 # rest) =
     \<lparr>offset = from_le [c0, c1], set_to = (from_le [c2, c3] :: u16) \<noteq> 0\<rparr> # decode_chunks rest"
| "decode_chunks _ = []"

definition delta_decode :: "u8 list \<Rightarrow> delta_entry list option" where
  "delta_decode payload =
     (if length payload mod DELTA_ENTRY_BYTES \<noteq> 0 then None else Some (decode_chunks payload))"

section \<open>Reading through a delta\<close>

definition delta_contains :: "u64 list \<Rightarrow> delta_entry list \<Rightarrow> u16 \<Rightarrow> bool" where
  "delta_contains base delta off =
     (case binary_search_by (\<lambda>e. cmp (offset e) off) delta of
        Inr i \<Rightarrow> set_to (delta ! i)
      | Inl _ \<Rightarrow> bitmap_has base off)"

definition delta_apply :: "u64 list \<Rightarrow> delta_entry list \<Rightarrow> u64 list" where
  "delta_apply base delta =
     foldl (\<lambda>words e. if set_to e then bitmap_set words (offset e) else bitmap_clear words (offset e)) base delta"

definition cardinality_after :: "u64 list \<Rightarrow> u32 \<Rightarrow> delta_entry list \<Rightarrow> u32" where
  "cardinality_after base base_cardinality delta =
     (let n = foldl (\<lambda>n e. if bitmap_has base (offset e) \<noteq> set_to e
                          then n + (if set_to e then 1 else - 1) else n)
                (uint base_cardinality) delta
      in word_of_int (max n 0))"

section \<open>The round trip\<close>

lemma decode_chunks_encode: "decode_chunks (delta_encode es) = es"
proof (induction es)
  case (Cons e es)
  have two: "to_le 2 w = [ucast w, ucast (drop_bit 8 w)]" for w :: u16
    by (simp add: to_le_def numeral_2_eq_2)
  have inv2: "from_le [ucast w, ucast (drop_bit 8 w)] = w" for w :: u16
    using from_to_le [of 2 w] by (simp add: two)
  have flag: "from_le [1, 0] = (1 :: u16)" "from_le [0, 0] = (0 :: u16)"
    using inv2 [of 1] inv2 [of 0] by simp_all
  have "delta_encode (e # es) = to_le 2 (offset e) @ to_le 2 (of_bool (set_to e) :: u16) @ delta_encode es"
    by (simp add: delta_encode_def)
  with Cons show ?case by (simp add: two inv2 flag del: from_le.simps)
qed (simp add: delta_encode_def)

lemma length_delta_encode: "length (delta_encode es) = DELTA_ENTRY_BYTES * length es"
  by (induction es) (simp_all add: delta_encode_def DELTA_ENTRY_BYTES_def)

lemma decode_encode: "delta_decode (delta_encode es) = Some es"
  by (simp add: delta_decode_def decode_chunks_encode length_delta_encode)

lemma length_decode_chunks: "length (decode_chunks p) = length p div 4"
  by (induction p rule: decode_chunks.induct) auto

section \<open>The three readers agree\<close>

abbreviation delta_sorted :: "delta_entry list \<Rightarrow> bool" where
  "delta_sorted \<equiv> sorted_wrt (\<lambda>a b. offset a < offset b)"

interpretation deltas: searchable "\<lambda>k e. cmp (offset e) k" delta_sorted
  by unfold_locales (auto dest: sorted_wrt_nth_less)

lemma delta_sorted_map: "delta_sorted d \<longleftrightarrow> ssorted (map offset d)"
  by (simp add: sorted_wrt_map)

definition overlay :: "u16 set \<Rightarrow> delta_entry list \<Rightarrow> u16 set" where
  "overlay B d = {v. case map_of (map (\<lambda>e. (offset e, set_to e)) d) v of Some s \<Rightarrow> s | None \<Rightarrow> v \<in> B}"

lemma overlay_Cons:
  "delta_sorted (e # d) \<Longrightarrow>
     overlay B (e # d) = overlay (if set_to e then insert (offset e) B else B - {offset e}) d"
proof -
  assume "delta_sorted (e # d)"
  then have "map_of (map (\<lambda>e. (offset e, set_to e)) d) (offset e) = None"
    by (force simp: map_of_eq_None_iff)
  then show ?thesis by (auto simp: overlay_def split: option.splits if_splits)
qed

lemma delta_apply_spec:
  assumes "length base = BITMAP_WORDS" "delta_sorted d"
  shows "length (delta_apply base d) = BITMAP_WORDS"
    and "elems (Bitmap (delta_apply base d)) = overlay (elems (Bitmap base)) d"
proof -
  have "length (delta_apply base d) = BITMAP_WORDS \<and>
        elems (Bitmap (delta_apply base d)) = overlay (elems (Bitmap base)) d"
    using assms
  proof (induction d arbitrary: base)
    case Nil
    then show ?case by (simp add: delta_apply_def overlay_def del: elems.simps)
  next
    case (Cons e d)
    define b where "b = (if set_to e then bitmap_set base (offset e) else bitmap_clear base (offset e))"
    have "length b = BITMAP_WORDS" using Cons.prems by (simp add: b_def)
    moreover have "elems (Bitmap b) = (if set_to e then insert (offset e) (elems (Bitmap base)) else elems (Bitmap base) - {offset e})"
      using Cons.prems by (simp add: b_def elems_bitmap_set elems_bitmap_clear del: elems.simps)
    moreover have "delta_apply base (e # d) = delta_apply b d" by (simp add: delta_apply_def b_def)
    ultimately show ?case using Cons.IH [of b] Cons.prems
      by (simp only: overlay_Cons) simp
  qed
  then show "length (delta_apply base d) = BITMAP_WORDS"
    "elems (Bitmap (delta_apply base d)) = overlay (elems (Bitmap base)) d" by auto
qed

lemma delta_contains_overlay:
  assumes "delta_sorted d"
  shows "delta_contains base d v \<longleftrightarrow> v \<in> overlay (elems (Bitmap base)) d"
proof (cases "binary_search_by (\<lambda>e. cmp (offset e) v) d")
  case (Inl i)
  have "\<not> (\<exists>e \<in> set d. offset e = v)"
    using deltas.search_is_ok [OF assms, of v] Inl by simp
  then have "map_of (map (\<lambda>e. (offset e, set_to e)) d) v = None"
    by (force simp: map_of_eq_None_iff)
  then show ?thesis using Inl by (simp add: delta_contains_def overlay_def bitmap_has_iff del: elems.simps)
next
  case (Inr i)
  from deltas.search_hit [OF this] have i: "i < length d" "offset (d ! i) = v" by auto
  have "distinct (map fst (map (\<lambda>e. (offset e, set_to e)) d))"
    using assms by (simp add: o_def delta_sorted_map strict_sorted_iff)
  moreover have "(v, set_to (d ! i)) \<in> set (map (\<lambda>e. (offset e, set_to e)) d)"
    using i by force
  ultimately have "map_of (map (\<lambda>e. (offset e, set_to e)) d) v = Some (set_to (d ! i))"
    by (rule map_of_is_SomeI)
  then show ?thesis using Inr by (simp add: delta_contains_def overlay_def)
qed

lemma cardinality_after_step:
  assumes "length base = BITMAP_WORDS" "delta_sorted d"
  shows "foldl (\<lambda>n e. if bitmap_has base (offset e) \<noteq> set_to e then n + (if set_to e then 1 else - 1) else n) n d
    = n + int (card (overlay (elems (Bitmap base)) d)) - int (card (elems (Bitmap base)))"
  using assms(2)
proof (induction d arbitrary: n rule: rev_induct)
  case Nil
  then show ?case by (simp add: overlay_def del: elems.simps)
next
  case (snoc e d)
  let ?B = "elems (Bitmap base)"
  have d: "delta_sorted d" "\<forall>a \<in> set d. offset a < offset e" using snoc.prems by (auto simp: sorted_wrt_append)
  then have new: "offset e \<in> overlay ?B d \<longleftrightarrow> offset e \<in> ?B"
    by (force simp: overlay_def map_of_eq_None_iff split: option.splits dest: map_of_SomeD simp del: elems.simps)
  have "map_of (map (\<lambda>e. (offset e, set_to e)) d) (offset e) = None"
    using d by (force simp: map_of_eq_None_iff)
  then have "overlay ?B (d @ [e]) = (if set_to e then insert (offset e) (overlay ?B d) else overlay ?B d - {offset e})"
    by (auto simp: overlay_def map_add_def split: option.splits if_splits simp del: elems.simps)
  moreover have "0 < card (overlay ?B d)" if "offset e \<in> overlay ?B d"
    using that card_gt_0_iff by fastforce
  ultimately show ?case
    using snoc.IH [OF d(1), of n] new
    by (auto simp: bitmap_has_iff card_insert_if card_Diff_singleton_if of_nat_diff simp del: elems.simps)
qed

lemma cardinality_after_apply:
  assumes "length base = BITMAP_WORDS" "delta_sorted d"
  shows "cardinality_after base (cardinality (Bitmap base)) d = cardinality (Bitmap (delta_apply base d))"
proof -
  have "uint (cardinality (Bitmap base)) = int (card (elems (Bitmap base)))"
    using cardinality_card [of "Bitmap base"] assms(1) by (metis container_inv_simps(2) of_nat_unat)
  then have "cardinality_after base (cardinality (Bitmap base)) d
      = word_of_int (max (int (card (overlay (elems (Bitmap base)) d))) 0)"
    unfolding cardinality_after_def Let_def cardinality_after_step [OF assms]
    by (simp del: elems.simps cardinality.simps)
  then show ?thesis
    using delta_apply_spec [OF assms] cardinality_values [of "Bitmap (delta_apply base d)"]
      length_values [of "Bitmap (delta_apply base d)"]
    by (simp del: elems.simps cardinality.simps)
qed

section \<open>Properties\<close>

text \<open>
  A delta survives its page payload: decoding the encoded entries gives them back, and a
  payload is refused exactly when it is not a whole number of entries.
\<close>

lemma delta_roundtrip:
  "delta_decode (delta_encode es) = Some es \<and>
   (delta_decode p = None \<longleftrightarrow> length p mod DELTA_ENTRY_BYTES \<noteq> 0)"
  by (simp add: decode_encode) (simp add: delta_decode_def)

text \<open>
  The three readers of a delta agree: for entries in ascending offset order the point
  read answers as the materialised bitmap would, and the cardinality computed without
  building the bitmap is the bitmap's own.
\<close>

lemma delta_readers_agree:
  assumes "length base = BITMAP_WORDS" "sorted_wrt (\<lambda>a b. offset a < offset b) d"
  shows "(\<forall>v. delta_contains base d v \<longleftrightarrow> container_contains (Bitmap (delta_apply base d)) v) \<and>
         cardinality_after base (cardinality (Bitmap base)) d = cardinality (Bitmap (delta_apply base d))"
  using delta_apply_spec [OF assms] delta_contains_overlay [OF assms(2), of base]
    cardinality_after_apply [OF assms] contains_iff_elems [of "Bitmap (delta_apply base d)"]
  by (simp del: elems.simps cardinality.simps container_contains.simps)

end
