(* ===== verification/Big_Leaf.thy ===== *)
theory Big_Leaf
  imports Big_Page Big_Delta
begin

text \<open>
  \<^verbatim>\<open>crates/big-page/src/leaf.rs\<close>: leaf pages, whose cells carry a container inline, or point
  at a dense page, or at a dense page with a delta over it. The builder's space accounting is
  an invariant that makes the finished page valid; the page then reads back cell by cell; and
  the point read of a cell agrees with the container the cell resolves to.

  \<^verbatim>\<open>bytemuck\<close>'s slice casts and \<^verbatim>\<open>crc32fast::hash\<close> are not part of the repository: they are
  the fields of \<open>ext\<close>, and \<open>ext_ok\<close> states what the code relies on, that casting a slice to
  bytes and back gives the slice and that a cast has the size of its elements.
\<close>

record ext =
  crc32 :: "u8 list \<Rightarrow> u32"
  cast_u16 :: "u8 list \<Rightarrow> u16 list option"
  cast_interval :: "u8 list \<Rightarrow> interval list option"
  cast_u64 :: "u8 list \<Rightarrow> u64 list option"
  bytes_u16 :: "u16 list \<Rightarrow> u8 list"
  bytes_interval :: "interval list \<Rightarrow> u8 list"
  bytes_u64 :: "u64 list \<Rightarrow> u8 list"

definition ext_ok :: "ext \<Rightarrow> bool" where
  "ext_ok E \<longleftrightarrow>
     (\<forall>xs. cast_u16 E (bytes_u16 E xs) = Some xs \<and> length (bytes_u16 E xs) = 2 * length xs) \<and>
     (\<forall>xs. cast_interval E (bytes_interval E xs) = Some xs \<and> length (bytes_interval E xs) = 4 * length xs) \<and>
     (\<forall>xs. cast_u64 E (bytes_u64 E xs) = Some xs \<and> length (bytes_u64 E xs) = 8 * length xs) \<and>
     (\<forall>bs ws. cast_u64 E bs = Some ws \<longrightarrow> length bs = 8 * length ws)"

section \<open>Reading a leaf\<close>

record leaf_page =
  lpage :: page
  lcount :: nat

record leaf_cell =
  ckey :: container_key
  cty :: container_type
  celem_n :: nat
  ccard :: u32
  cbitmap_checksum :: u32
  cbitmap_pgno :: pgno
  cpayload :: "u8 list"

definition leaf_parse :: "page \<Rightarrow> page_error + leaf_page" where
  "leaf_parse p = (case validate_cell_index p PLeaf LEAF_CELL_HEADER of
     Inl e \<Rightarrow> Inl e | Inr (count, _) \<Rightarrow> Inr \<lparr>lpage = p, lcount = count\<rparr>)"

definition leaf_key_at :: "leaf_page \<Rightarrow> nat \<Rightarrow> container_key option" where
  "leaf_key_at lp i = (if i < lcount lp then Some (rd64 (lpage lp) (cell_offset (lpage lp) i)) else None)"

text \<open>The binary search of \<^verbatim>\<open>LeafPage::search\<close> over the keys of the cells.\<close>

definition leaf_search :: "leaf_page \<Rightarrow> container_key \<Rightarrow> nat + nat" where
  "leaf_search lp k = binary_search_by (\<lambda>i. cmp (the (leaf_key_at lp i)) k) [0..<lcount lp]"

fun payload_len :: "container_type \<Rightarrow> nat \<Rightarrow> nat" where
  "payload_len TArray n = n * 2"
| "payload_len TRun n = n * 4"
| "payload_len TBitmapPtr n = 0"
| "payload_len TBitmapDelta n = n * DELTA_ENTRY_BYTES"
| "payload_len TValuesInline n = n"
| "payload_len TValuesPtr n = n"

definition leaf_cell_at :: "leaf_page \<Rightarrow> nat \<Rightarrow> page_error + leaf_cell" where
  "leaf_cell_at lp i =
     (if i \<ge> lcount lp then Inl (CellOffsetOutOfRange i 0)
      else
        (let base = cell_offset (lpage lp) i; b = lpage lp; raw_type = rd16 b (base + 8) in
         case container_type_from_u16 raw_type of
           None \<Rightarrow> Inl (UnknownContainerType raw_type)
         | Some ty \<Rightarrow>
             (let elem_n = unat (rd16 b (base + 10));
                  start = base + LEAF_CELL_HEADER;
                  stop = start + payload_len ty elem_n
              in if stop > PAGE_SIZE - PAGE_TRAILER then Inl (PayloadOutOfRange i)
                 else Inr \<lparr>ckey = rd64 b base, cty = ty, celem_n = elem_n, ccard = rd32 b (base + 12),
                           cbitmap_checksum = rd32 b (base + 16), cbitmap_pgno = rd32 b (base + 20),
                           cpayload = get_bytes b start (stop - start)\<rparr>)))"

fun total_from :: "leaf_page \<Rightarrow> nat list \<Rightarrow> u64 \<Rightarrow> page_error + u64" where
  "total_from lp [] acc = Inr acc"
| "total_from lp (i # is) acc =
     (case leaf_cell_at lp i of Inl e \<Rightarrow> Inl e | Inr c \<Rightarrow> total_from lp is (acc + ucast (ccard c)))"

definition total_cardinality :: "leaf_page \<Rightarrow> page_error + u64" where
  "total_cardinality lp = total_from lp [0..<lcount lp] 0"

section \<open>What a cell stands for\<close>

definition base_words :: "ext \<Rightarrow> page \<Rightarrow> page_error + u64 list" where
  "base_words E p = (case cast_u64 E p of
     None \<Rightarrow> Inl Misaligned
   | Some ws \<Rightarrow> if length ws = BITMAP_WORDS then Inr ws else Inl Misaligned)"

definition bitmap_container :: "ext \<Rightarrow> page \<Rightarrow> page_error + container" where
  "bitmap_container E p = (case base_words E p of Inl e \<Rightarrow> Inl e | Inr ws \<Rightarrow> Inr (Bitmap ws))"

definition bitmap_page_checksum :: "ext \<Rightarrow> page \<Rightarrow> u32" where
  "bitmap_page_checksum E p = crc32 E p"

definition build_bitmap_page :: "ext \<Rightarrow> u64 list \<Rightarrow> page" where
  "build_bitmap_page E words = put_bytes page_zeroed 0 (bytes_u64 E words)"

definition has_base :: "leaf_cell \<Rightarrow> bool" where
  "has_base c = owns_page (cty c)"

definition verify_base :: "ext \<Rightarrow> leaf_cell \<Rightarrow> page \<Rightarrow> page_error + unit" where
  "verify_base E c p =
     (let computed = bitmap_page_checksum E p in
      if computed \<noteq> cbitmap_checksum c then Inl (ChecksumMismatch (cbitmap_checksum c) computed) else Inr ())"

definition cell_checksum_error :: "ext \<Rightarrow> leaf_cell \<Rightarrow> page \<Rightarrow> page_error" where
  "cell_checksum_error E c p = ChecksumMismatch (cbitmap_checksum c) (bitmap_page_checksum E p)"

definition bitmap_checked :: "ext \<Rightarrow> leaf_cell \<Rightarrow> page \<Rightarrow> page_error + container" where
  "bitmap_checked E c p =
     (if cty c \<noteq> TBitmapPtr then Inl (UnknownContainerType (container_type_as_u16 (cty c)))
      else bitmap_container E p)"

definition cell_bitmap :: "ext \<Rightarrow> leaf_cell \<Rightarrow> page \<Rightarrow> page_error + container" where
  "cell_bitmap E c p =
     (if cty c \<noteq> TBitmapPtr then Inl (UnknownContainerType (container_type_as_u16 (cty c)))
      else case verify_base E c p of Inl e \<Rightarrow> Inl e | Inr _ \<Rightarrow> bitmap_container E p)"

definition cell_delta :: "leaf_cell \<Rightarrow> page_error + delta_entry list" where
  "cell_delta c =
     (if cty c \<noteq> TBitmapDelta then Inr []
      else case delta_decode (cpayload c) of None \<Rightarrow> Inl (PayloadOutOfRange 0) | Some d \<Rightarrow> Inr d)"

definition cell_container :: "ext \<Rightarrow> leaf_cell \<Rightarrow> page_error + container option" where
  "cell_container E c =
     (case cty c of
        TArray \<Rightarrow> (case cast_u16 E (cpayload c) of None \<Rightarrow> Inl Misaligned | Some a \<Rightarrow> Inr (Some (Array a)))
      | TRun \<Rightarrow> (case cast_interval E (cpayload c) of None \<Rightarrow> Inl Misaligned | Some r \<Rightarrow> Inr (Some (Run r)))
      | TBitmapPtr \<Rightarrow> Inr None
      | TBitmapDelta \<Rightarrow> Inr None
      | ty \<Rightarrow> Inl (NotAContainer (container_type_as_u16 ty)))"

text \<open>
  \<^verbatim>\<open>resolve_checked\<close> and \<^verbatim>\<open>contains_checked\<close>. The \<^verbatim>\<open>expect\<close> of the inline case cannot fire:
  \<open>cell_container\<close> gives \<open>Some\<close> for those two types.
\<close>

definition resolve_checked :: "ext \<Rightarrow> leaf_cell \<Rightarrow> page option \<Rightarrow> page_error + container" where
  "resolve_checked E c pg =
     (let missing = Inl (UnknownContainerType (container_type_as_u16 (cty c))) in
      case cty c of
        TBitmapPtr \<Rightarrow> (case pg of None \<Rightarrow> missing | Some p \<Rightarrow> bitmap_container E p)
      | TBitmapDelta \<Rightarrow>
          (case pg of None \<Rightarrow> missing
           | Some p \<Rightarrow> (case base_words E p of Inl e \<Rightarrow> Inl e
               | Inr ws \<Rightarrow> (case cell_delta c of Inl e \<Rightarrow> Inl e | Inr d \<Rightarrow> Inr (Bitmap (delta_apply ws d)))))
      | TValuesInline \<Rightarrow> Inl (NotAContainer (container_type_as_u16 (cty c)))
      | TValuesPtr \<Rightarrow> Inl (NotAContainer (container_type_as_u16 (cty c)))
      | _ \<Rightarrow> (case cell_container E c of Inl e \<Rightarrow> Inl e | Inr k \<Rightarrow> Inr (the k)))"

definition contains_checked :: "ext \<Rightarrow> leaf_cell \<Rightarrow> page option \<Rightarrow> u16 \<Rightarrow> page_error + bool" where
  "contains_checked E c pg off =
     (let missing = Inl (UnknownContainerType (container_type_as_u16 (cty c))) in
      case cty c of
        TBitmapPtr \<Rightarrow>
          (case pg of None \<Rightarrow> missing
           | Some p \<Rightarrow> (case bitmap_container E p of Inl e \<Rightarrow> Inl e | Inr k \<Rightarrow> Inr (container_contains k off)))
      | TBitmapDelta \<Rightarrow>
          (case pg of None \<Rightarrow> missing
           | Some p \<Rightarrow> (case base_words E p of Inl e \<Rightarrow> Inl e
               | Inr ws \<Rightarrow> (case cell_delta c of Inl e \<Rightarrow> Inl e | Inr d \<Rightarrow> Inr (delta_contains ws d off))))
      | TValuesInline \<Rightarrow> Inl (NotAContainer (container_type_as_u16 (cty c)))
      | TValuesPtr \<Rightarrow> Inl (NotAContainer (container_type_as_u16 (cty c)))
      | _ \<Rightarrow> (case cell_container E c of Inl e \<Rightarrow> Inl e | Inr k \<Rightarrow> Inr (container_contains (the k) off)))"

definition base_check :: "ext \<Rightarrow> leaf_cell \<Rightarrow> page option \<Rightarrow> page_error + unit" where
  "base_check E c pg = (case pg of Some p \<Rightarrow> if has_base c then verify_base E c p else Inr () | None \<Rightarrow> Inr ())"

definition cell_resolve :: "ext \<Rightarrow> leaf_cell \<Rightarrow> page option \<Rightarrow> page_error + container" where
  "cell_resolve E c pg = (case base_check E c pg of Inl e \<Rightarrow> Inl e | Inr _ \<Rightarrow> resolve_checked E c pg)"

definition cell_contains :: "ext \<Rightarrow> leaf_cell \<Rightarrow> page option \<Rightarrow> u16 \<Rightarrow> page_error + bool" where
  "cell_contains E c pg off = (case base_check E c pg of Inl e \<Rightarrow> Inl e | Inr _ \<Rightarrow> contains_checked E c pg off)"

section \<open>The builder\<close>

record staged_cell =
  skey :: container_key
  sty :: container_type
  selem_n :: u16
  scard :: u32
  sbitmap_checksum :: u32
  sbitmap_pgno :: pgno
  spayload :: "u8 list"

record leaf_builder =
  lcells :: "staged_cell list"
  payload_bytes :: nat

definition leaf_new :: leaf_builder where
  "leaf_new = \<lparr>lcells = [], payload_bytes = 0\<rparr>"

definition leaf_fits :: "leaf_builder \<Rightarrow> nat \<Rightarrow> bool" where
  "leaf_fits b extra_payload \<longleftrightarrow>
     align_up (PAGE_HEADER + (length (lcells b) + 1) * CELL_INDEX_ENTRY)
       + (payload_bytes b + LEAF_CELL_HEADER + extra_payload) \<le> PAGE_SIZE - PAGE_TRAILER"

definition leaf_push :: "leaf_builder \<Rightarrow> staged_cell \<Rightarrow> leaf_builder option" where
  "leaf_push b c =
     (if \<not> leaf_fits b (length (spayload c)) then None
      else Some \<lparr>lcells = lcells b @ [c],
                 payload_bytes = payload_bytes b + align_up (LEAF_CELL_HEADER + length (spayload c))\<rparr>)"

fun push_container :: "ext \<Rightarrow> leaf_builder \<Rightarrow> container_key \<Rightarrow> container \<Rightarrow> leaf_builder option" where
  "push_container E b k (Array a) = leaf_push b
     \<lparr>skey = k, sty = TArray, selem_n = of_nat (length a), scard = cardinality (Array a),
      sbitmap_checksum = 0, sbitmap_pgno = 0, spayload = bytes_u16 E a\<rparr>"
| "push_container E b k (Run r) = leaf_push b
     \<lparr>skey = k, sty = TRun, selem_n = of_nat (length r), scard = cardinality (Run r),
      sbitmap_checksum = 0, sbitmap_pgno = 0, spayload = bytes_interval E r\<rparr>"
| "push_container E b k (Bitmap _) = None"

definition push_bitmap_ptr :: "leaf_builder \<Rightarrow> container_key \<Rightarrow> u32 \<Rightarrow> pgno \<Rightarrow> u32 \<Rightarrow> leaf_builder option" where
  "push_bitmap_ptr b k crd n checksum = leaf_push b
     \<lparr>skey = k, sty = TBitmapPtr, selem_n = 0, scard = crd, sbitmap_checksum = checksum,
      sbitmap_pgno = n, spayload = []\<rparr>"

definition push_dense :: "ext \<Rightarrow> leaf_builder \<Rightarrow> container_key \<Rightarrow> pgno \<Rightarrow> page \<Rightarrow> leaf_builder option" where
  "push_dense E b k n p = (case bitmap_container E p of
     Inl _ \<Rightarrow> None
   | Inr c \<Rightarrow> push_bitmap_ptr b k (cardinality c) n (bitmap_page_checksum E p))"

fun leaf_write :: "page \<Rightarrow> nat \<Rightarrow> nat \<Rightarrow> staged_cell list \<Rightarrow> page" where
  "leaf_write p i cursor [] = p"
| "leaf_write p i cursor (c # cs) =
     (let p1 = put_bytes p cursor (to_le 8 (skey c));
          p2 = put_bytes p1 (cursor + 8) (to_le 2 (container_type_as_u16 (sty c)));
          p3 = put_bytes p2 (cursor + 10) (to_le 2 (selem_n c));
          p4 = put_bytes p3 (cursor + 12) (to_le 4 (scard c));
          p5 = put_bytes p4 (cursor + 16) (to_le 4 (sbitmap_checksum c));
          p6 = put_bytes p5 (cursor + 20) (to_le 4 (sbitmap_pgno c));
          payload_at = cursor + LEAF_CELL_HEADER;
          p7 = put_bytes p6 payload_at (spayload c);
          at = PAGE_HEADER + i * CELL_INDEX_ENTRY;
          p8 = put_bytes p7 at (to_le 2 (of_nat cursor :: u16))
      in leaf_write p8 (Suc i) (align_up (payload_at + length (spayload c))) cs)"

definition leaf_finish :: "(u8 list \<Rightarrow> u32) \<Rightarrow> leaf_builder \<Rightarrow> pgno \<Rightarrow> page" where
  "leaf_finish crc b n =
     (let count = length (lcells b);
          p = set_header page_zeroed n PLeaf (of_nat count)
      in page_seal crc (leaf_write p 0 (align_up (PAGE_HEADER + count * CELL_INDEX_ENTRY)) (lcells b)))"

section \<open>The builder's accounting\<close>

definition staged_bytes :: "staged_cell \<Rightarrow> u8 list" where
  "staged_bytes c = (to_le 8 (skey c) @ to_le 2 (container_type_as_u16 (sty c)) @ to_le 2 (selem_n c) @
     to_le 4 (scard c) @ to_le 4 (sbitmap_checksum c) @ to_le 4 (sbitmap_pgno c)) @ spayload c"

lemma length_staged_bytes [simp]: "length (staged_bytes c) = 24 + length (spayload c)"
  by (simp add: staged_bytes_def)

lemma cells_end_snoc:
  "cursor mod 8 = 0 \<Longrightarrow>
     cells_end cursor (cs @ [c]) = cursor + sum_list (map (\<lambda>c. align_up (length c)) cs) + length c"
proof (induction cs arbitrary: cursor)
  case (Cons d cs)
  have "align_up (cursor + length d) = cursor + align_up (length d)"
    using Cons.prems by (rule align_up_add)
  moreover have "(cursor + align_up (length d)) mod 8 = 0"
    using Cons.prems align_up_simps(3) [of "length d"] by (simp add: mod_add_eq [symmetric, of cursor])
  ultimately show ?case using Cons.IH [of "cursor + align_up (length d)"] by (cases cs) simp_all
qed simp

definition builder_ok :: "leaf_builder \<Rightarrow> bool" where
  "builder_ok b \<longleftrightarrow>
     payload_bytes b = sum_list (map (\<lambda>c. align_up (LEAF_CELL_HEADER + length (spayload c))) (lcells b)) \<and>
     cells_end (cells_start (map staged_bytes (lcells b))) (map staged_bytes (lcells b)) \<le> PAGE_SIZE - PAGE_TRAILER"

lemma builder_ok_new: "builder_ok leaf_new"
  using align_up_simps(2) [of 12] by (simp add: builder_ok_def leaf_new_def layout_defs)

lemma builder_ok_push: "builder_ok b \<Longrightarrow> leaf_push b c = Some b' \<Longrightarrow> builder_ok b'"
  by (auto simp: builder_ok_def leaf_push_def leaf_fits_def cells_end_snoc align_up_simps(3) o_def LEAF_CELL_HEADER_def
      add.assoc add.commute split: if_splits)

text \<open>A staged cell whose declared element count is the length of its payload.\<close>

definition staged_ok :: "staged_cell \<Rightarrow> bool" where
  "staged_ok c \<longleftrightarrow> payload_len (sty c) (unat (selem_n c)) = length (spayload c)"

definition leaf_cell_of :: "staged_cell \<Rightarrow> leaf_cell" where
  "leaf_cell_of c = \<lparr>ckey = skey c, cty = sty c, celem_n = unat (selem_n c), ccard = scard c,
     cbitmap_checksum = sbitmap_checksum c, cbitmap_pgno = sbitmap_pgno c, cpayload = spayload c\<rparr>"

section \<open>Round trip of the page\<close>

lemma leaf_write_eq:
  "page_ok p \<Longrightarrow> cells_end cursor (map staged_bytes cs) \<le> PAGE_SIZE \<Longrightarrow>
   PAGE_HEADER + (i + length cs) * CELL_INDEX_ENTRY \<le> PAGE_SIZE \<Longrightarrow>
   leaf_write p i cursor cs = lay_cells p i cursor (map staged_bytes cs)"
proof (induction cs arbitrary: p i cursor)
  case (Cons c cs)
  have room: "cursor + (24 + length (spayload c)) \<le> PAGE_SIZE"
    using cells_end_step(1) [of cursor "staged_bytes c" "map staged_bytes cs" PAGE_SIZE] Cons.prems by simp
  define h where "h = [to_le 8 (skey c), to_le 2 (container_type_as_u16 (sty c)), to_le 2 (selem_n c),
     to_le 4 (scard c), to_le 4 (sbitmap_checksum c), to_le 4 (sbitmap_pgno c)]"
  note app = put_bytes_append [of cursor _ _ p]
  have "put_bytes (put_bytes (put_bytes (put_bytes (put_bytes (put_bytes (put_bytes p cursor (to_le 8 (skey c)))
      (cursor + 8) (to_le 2 (container_type_as_u16 (sty c)))) (cursor + 10) (to_le 2 (selem_n c)))
      (cursor + 12) (to_le 4 (scard c))) (cursor + 16) (to_le 4 (sbitmap_checksum c)))
      (cursor + 20) (to_le 4 (sbitmap_pgno c))) (cursor + LEAF_CELL_HEADER) (spayload c)
    = put_bytes p cursor (staged_bytes c)"
    using room Cons.prems(1) app [of "h ! 0" "h ! 1"] app [of "h ! 0 @ h ! 1" "h ! 2"]
      app [of "h ! 0 @ h ! 1 @ h ! 2" "h ! 3"] app [of "h ! 0 @ h ! 1 @ h ! 2 @ h ! 3" "h ! 4"]
      app [of "h ! 0 @ h ! 1 @ h ! 2 @ h ! 3 @ h ! 4" "h ! 5"] app [of "concat h" "spayload c"]
    by (simp add: h_def staged_bytes_def LEAF_CELL_HEADER_def)
  moreover define q where "q = put_bytes (put_bytes p cursor (staged_bytes c)) (PAGE_HEADER + i * CELL_INDEX_ENTRY)
      (to_le 2 (of_nat cursor :: u16))"
  moreover have "leaf_write q (Suc i) (align_up (cursor + (24 + length (spayload c)))) cs
      = lay_cells q (Suc i) (align_up (cursor + (24 + length (spayload c)))) (map staged_bytes cs)"
  proof (cases "cs = []")
    case False
    have "page_ok q" using Cons.prems room by (simp add: q_def layout_defs)
    moreover have "cells_end (align_up (cursor + (24 + length (spayload c)))) (map staged_bytes cs) \<le> PAGE_SIZE"
      using False cells_end_step(3) [of cursor "staged_bytes c" "map staged_bytes cs" PAGE_SIZE] Cons.prems by simp
    ultimately show ?thesis using Cons.prems by (intro Cons.IH) (simp_all add: layout_defs)
  qed simp
  ultimately show ?case by (simp add: Let_def LEAF_CELL_HEADER_def add.assoc)
qed simp

lemma leaf_finish_eq:
  assumes "builder_ok b"
  shows "leaf_finish crc b n = cells_page crc n PLeaf (map staged_bytes (lcells b))"
proof -
  let ?cs = "map staged_bytes (lcells b)"
  have fit: "cells_end (cells_start ?cs) ?cs \<le> PAGE_SIZE - PAGE_TRAILER" using assms by (simp add: builder_ok_def)
  then have "PAGE_HEADER + (0 + length (lcells b)) * CELL_INDEX_ENTRY \<le> PAGE_SIZE"
    using align_up_simps(1) [of "PAGE_HEADER + length ?cs * CELL_INDEX_ENTRY"] cells_end_ge [of "cells_start ?cs" ?cs]
    by (simp add: PAGE_SIZE_def)
  with fit show ?thesis
    by (simp add: leaf_finish_def cells_page_def Let_def leaf_write_eq)
qed

lemma container_type_roundtrip: "container_type_from_u16 (container_type_as_u16 ty) = Some ty"
  by (cases ty) (simp_all add: container_type_from_u16_def)

lemma leaf_finish_spec:
  assumes b: "builder_ok b" and ok: "\<forall>c \<in> set (lcells b). staged_ok c"
  shows "\<exists>lp. leaf_parse (leaf_finish crc b n) = Inr lp \<and> lcount lp = length (lcells b) \<and>
    (\<forall>i < length (lcells b). leaf_cell_at lp i = Inr (leaf_cell_of (lcells b ! i)) \<and>
                             leaf_key_at lp i = Some (skey (lcells b ! i)))"
    and "verify_checksum crc (leaf_finish crc b n) = Inr ()"
    and "page_ok (leaf_finish crc b n)" and "page_pgno (leaf_finish crc b n) = n"
proof -
  let ?cs = "map staged_bytes (lcells b)"
  have fit: "cells_end (cells_start ?cs) ?cs \<le> PAGE_SIZE - PAGE_TRAILER" using b by (simp add: builder_ok_def)
  note eq = leaf_finish_eq [OF b] and spec = cells_page_spec [OF fit]
  show "verify_checksum crc (leaf_finish crc b n) = Inr ()" "page_ok (leaf_finish crc b n)"
    "page_pgno (leaf_finish crc b n) = n" using spec(1,2,3) by (simp_all add: eq)
  let ?p = "cells_page crc n PLeaf ?cs"
  define lp where "lp = \<lparr>lpage = ?p, lcount = length (lcells b)\<rparr>"
  have parse: "leaf_parse (leaf_finish crc b n) = Inr lp"
    using cells_page_valid [OF fit, of LEAF_CELL_HEADER crc n PLeaf]
    by (simp add: leaf_parse_def eq lp_def LEAF_CELL_HEADER_def)
  have "leaf_cell_at lp i = Inr (leaf_cell_of (lcells b ! i)) \<and> leaf_key_at lp i = Some (skey (lcells b ! i))"
    if i: "i < length (lcells b)" for i
  proof -
    let ?o = "cell_offset ?p i" and ?c = "lcells b ! i"
    have c: "get_bytes ?p ?o (24 + length (spayload ?c)) = staged_bytes ?c" using spec(4,5) [of i] i by simp
    note sub = get_bytes_sub [OF c]
    have "get_bytes ?p ?o 8 = to_le 8 (skey ?c)"
      "get_bytes ?p (?o + 8) 2 = to_le 2 (container_type_as_u16 (sty ?c))"
      "get_bytes ?p (?o + 10) 2 = to_le 2 (selem_n ?c)"
      "get_bytes ?p (?o + 12) 4 = to_le 4 (scard ?c)"
      "get_bytes ?p (?o + 16) 4 = to_le 4 (sbitmap_checksum ?c)"
      "get_bytes ?p (?o + 20) 4 = to_le 4 (sbitmap_pgno ?c)"
      "get_bytes ?p (?o + 24) (length (spayload ?c)) = spayload ?c"
      using sub [of 0 8] sub [of 8 2] sub [of 10 2] sub [of 12 4] sub [of 16 4] sub [of 20 4]
        sub [of 24 "length (spayload ?c)"]
      by (simp_all add: staged_bytes_def get_bytes_def)
    moreover have "?o + 24 + length (spayload ?c) \<le> PAGE_SIZE - PAGE_TRAILER"
      using cell_starts_end [of i ?cs, OF _ fit] spec(4) [of i] i by (simp add: add.assoc)
    moreover have "payload_len (sty ?c) (unat (selem_n ?c)) = length (spayload ?c)"
      using ok i by (simp add: staged_ok_def)
    ultimately show ?thesis
      using i by (simp add: leaf_cell_at_def leaf_key_at_def lp_def Let_def rd64_def rd32_def rd16_def
          container_type_roundtrip leaf_cell_of_def LEAF_CELL_HEADER_def)
  qed
  with parse show "\<exists>lp. leaf_parse (leaf_finish crc b n) = Inr lp \<and> lcount lp = length (lcells b) \<and>
    (\<forall>i < length (lcells b). leaf_cell_at lp i = Inr (leaf_cell_of (lcells b ! i)) \<and>
                             leaf_key_at lp i = Some (skey (lcells b ! i)))"
    by (auto simp: lp_def)
qed

section \<open>A damaged page is refused or stays inside its bounds\<close>

lemma leaf_parseD:
  assumes "leaf_parse p = Inr lp" "i < lcount lp"
  shows "lpage lp = p" "cell_offset p i + LEAF_CELL_HEADER \<le> PAGE_SIZE - PAGE_TRAILER"
    "PAGE_HEADER + lcount lp * CELL_INDEX_ENTRY \<le> cell_offset p i"
  using assms validate_cell_indexD [of p PLeaf LEAF_CELL_HEADER "lcount lp" _ i] validate_cell_index_start [of p PLeaf]
  by (fastforce simp: leaf_parse_def split: sum.splits)+

lemma leaf_cell_in_bounds:
  assumes "leaf_parse p = Inr lp" "page_ok p" "leaf_cell_at lp i = Inr c"
  shows "cell_offset p i + LEAF_CELL_HEADER + length (cpayload c) \<le> PAGE_SIZE - PAGE_TRAILER \<and>
         length (cpayload c) = payload_len (cty c) (celem_n c)"
    and "i < lcount lp"
proof -
  show i: "i < lcount lp" using assms(3) by (auto simp: leaf_cell_at_def split: if_splits)
  from leaf_parseD(1) [OF assms(1) i] assms(2,3)
  show "cell_offset p i + LEAF_CELL_HEADER + length (cpayload c) \<le> PAGE_SIZE - PAGE_TRAILER \<and>
         length (cpayload c) = payload_len (cty c) (celem_n c)"
    by (auto simp: leaf_cell_at_def Let_def PAGE_SIZE_def PAGE_TRAILER_def split: if_splits option.splits)
qed

section \<open>Search\<close>

interpretation cells: searchable "\<lambda>k i. cmp (the (leaf_key_at lp i)) k"
  "\<lambda>is. sorted_wrt (\<lambda>i j. the (leaf_key_at lp i) < the (leaf_key_at lp j)) is" for lp
  by unfold_locales (auto dest: sorted_wrt_nth_less)

definition leaf_ascending :: "leaf_page \<Rightarrow> bool" where
  "leaf_ascending lp \<longleftrightarrow> sorted_wrt (\<lambda>i j. the (leaf_key_at lp i) < the (leaf_key_at lp j)) [0..<lcount lp]"

lemma leaf_search_hit: "leaf_search lp k = Inr i \<Longrightarrow> i < lcount lp \<and> leaf_key_at lp i = Some k"
  using cells.search_hit [of lp k "[0..<lcount lp]" i]
  by (auto simp: leaf_search_def leaf_key_at_def)

lemma leaf_search_miss:
  assumes "leaf_ascending lp" "leaf_search lp k = Inl i"
  shows "i \<le> lcount lp" "j < i \<Longrightarrow> the (leaf_key_at lp j) < k"
    "i \<le> j \<Longrightarrow> j < lcount lp \<Longrightarrow> k < the (leaf_key_at lp j)"
proof -
  note miss = cells.search_miss [OF assms(2) [unfolded leaf_search_def] assms(1) [unfolded leaf_ascending_def]]
  show i: "i \<le> lcount lp" using miss(1) by simp
  show "j < i \<Longrightarrow> the (leaf_key_at lp j) < k" using miss(2) [of j] i by (simp add: take_upt)
  show "i \<le> j \<Longrightarrow> j < lcount lp \<Longrightarrow> k < the (leaf_key_at lp j)" using miss(3) [of j] by simp
qed

section \<open>The point read agrees with the container\<close>

lemma base_words_length: "base_words E p = Inr ws \<Longrightarrow> length ws = BITMAP_WORDS"
  by (auto simp: base_words_def split: option.splits if_splits)

lemma contains_resolve_checked:
  assumes "\<And>d. cty c = TBitmapDelta \<Longrightarrow> delta_decode (cpayload c) = Some d \<Longrightarrow> delta_sorted d"
  shows "contains_checked E c pg off = map_sum id (\<lambda>k. container_contains k off) (resolve_checked E c pg)"
proof -
  have "delta_contains ws d off = container_contains (Bitmap (delta_apply ws d)) off"
    if "cty c = TBitmapDelta" "base_words E p = Inr ws" "cell_delta c = Inr d" for p ws d
  proof -
    have d: "delta_sorted d" using that(1,3) assms by (auto simp: cell_delta_def split: option.splits)
    have w: "length ws = BITMAP_WORDS" using that(2) by (rule base_words_length)
    show ?thesis
      using delta_contains_overlay [OF d, of ws off] delta_apply_spec [OF w d]
        contains_iff_elems [of "Bitmap (delta_apply ws d)" off]
      by (simp del: elems.simps container_contains.simps)
  qed
  then show ?thesis
    by (cases "cty c")
      (auto simp: contains_checked_def resolve_checked_def Let_def split: option.splits sum.splits)
qed

lemma contains_resolve:
  assumes "\<And>d. cty c = TBitmapDelta \<Longrightarrow> delta_decode (cpayload c) = Some d \<Longrightarrow> delta_sorted d"
  shows "cell_contains E c pg off = map_sum id (\<lambda>k. container_contains k off) (cell_resolve E c pg)"
  using contains_resolve_checked [of c E pg off, OF assms]
  by (auto simp: cell_contains_def cell_resolve_def split: sum.splits)

section \<open>What the builder pushes, the page gives back\<close>

lemma unat_of_nat_u16: "n < 65536 \<Longrightarrow> unat (of_nat n :: u16) = n"
  by (simp add: unat_of_nat)

lemma leaf_push_payload: "leaf_push b c = Some b' \<Longrightarrow> length (spayload c) \<le> 8192"
  by (auto simp: leaf_push_def leaf_fits_def layout_defs split: if_splits)

lemma push_container_spec:
  assumes "ext_ok E" "push_container E b k c = Some b'"
  shows "\<exists>s. leaf_push b s = Some b' \<and> staged_ok s \<and> skey s = k \<and> scard s = cardinality c \<and>
             cell_resolve E (leaf_cell_of s) None = Inr c"
proof (cases c)
  case (Array a)
  define s where "s = \<lparr>skey = k, sty = TArray, selem_n = of_nat (length a), scard = cardinality (Array a),
      sbitmap_checksum = 0, sbitmap_pgno = 0, spayload = bytes_u16 E a\<rparr>"
  have push: "leaf_push b s = Some b'" using assms(2) Array by (simp add: s_def)
  have E: "length (bytes_u16 E a) = 2 * length a" "cast_u16 E (bytes_u16 E a) = Some a"
    using assms(1) by (simp_all add: ext_ok_def)
  then have "length a < 65536" using leaf_push_payload [OF push] by (simp add: s_def)
  then show ?thesis using push E Array unat_of_nat_u16
    by (intro exI [of _ s])
      (simp add: s_def staged_ok_def leaf_cell_of_def cell_resolve_def base_check_def resolve_checked_def cell_container_def)
next
  case (Run r)
  define s where "s = \<lparr>skey = k, sty = TRun, selem_n = of_nat (length r), scard = cardinality (Run r),
      sbitmap_checksum = 0, sbitmap_pgno = 0, spayload = bytes_interval E r\<rparr>"
  have push: "leaf_push b s = Some b'" using assms(2) Run by (simp add: s_def)
  have E: "length (bytes_interval E r) = 4 * length r" "cast_interval E (bytes_interval E r) = Some r"
    using assms(1) by (simp_all add: ext_ok_def)
  then have "length r < 65536" using leaf_push_payload [OF push] by (simp add: s_def)
  then show ?thesis using push E Run unat_of_nat_u16
    by (intro exI [of _ s])
      (simp add: s_def staged_ok_def leaf_cell_of_def cell_resolve_def base_check_def resolve_checked_def cell_container_def)
qed (use assms in simp)

lemma leaf_push_reads_back:
  assumes "builder_ok b" "\<forall>c \<in> set (lcells b). staged_ok c" "leaf_push b s = Some b'" "staged_ok s"
  shows "\<exists>lp. leaf_parse (leaf_finish crc b' n) = Inr lp \<and> lcount lp = length (lcells b) + 1 \<and>
           leaf_cell_at lp (length (lcells b)) = Inr (leaf_cell_of s)"
proof -
  have b': "lcells b' = lcells b @ [s]" using assms(3) by (auto simp: leaf_push_def split: if_splits)
  from leaf_finish_spec(1) [OF builder_ok_push [OF assms(1,3)], of crc n]
  obtain lp where lp: "leaf_parse (leaf_finish crc b' n) = Inr lp" "lcount lp = length (lcells b')"
    "\<forall>i < length (lcells b'). leaf_cell_at lp i = Inr (leaf_cell_of (lcells b' ! i))"
    using assms(2,4) b' by auto
  moreover have "leaf_cell_at lp (length (lcells b)) = Inr (leaf_cell_of s)"
    using lp(3) b' by simp
  ultimately show ?thesis using b' by simp
qed

lemma build_bitmap_page_spec:
  assumes "ext_ok E" "length ws = BITMAP_WORDS"
  shows "base_words E (build_bitmap_page E ws) = Inr ws" and "page_ok (build_bitmap_page E ws)"
proof -
  have E: "length (bytes_u64 E ws) = PAGE_SIZE" "cast_u64 E (bytes_u64 E ws) = Some ws"
    using assms by (simp_all add: ext_ok_def BITMAP_WORDS_def PAGE_SIZE_def)
  then have "build_bitmap_page E ws = bytes_u64 E ws"
    by (simp add: build_bitmap_page_def put_bytes_def page_zeroed_def)
  with E assms(2) show "base_words E (build_bitmap_page E ws) = Inr ws" "page_ok (build_bitmap_page E ws)"
    by (simp_all add: base_words_def)
qed

lemma push_dense_spec:
  assumes "base_words E p = Inr ws" "push_dense E b k n p = Some b'"
  shows "\<exists>s. leaf_push b s = Some b' \<and> staged_ok s \<and> skey s = k \<and> sbitmap_pgno s = n \<and>
             scard s = cardinality (Bitmap ws) \<and> cell_resolve E (leaf_cell_of s) (Some p) = Inr (Bitmap ws) \<and>
             (\<forall>q off. crc32 E q \<noteq> crc32 E p \<longrightarrow>
                cell_resolve E (leaf_cell_of s) (Some q) = Inl (ChecksumMismatch (crc32 E p) (crc32 E q)) \<and>
                cell_contains E (leaf_cell_of s) (Some q) off = Inl (ChecksumMismatch (crc32 E p) (crc32 E q)))"
  using assms
  by (intro exI [of _ "\<lparr>skey = k, sty = TBitmapPtr, selem_n = 0, scard = cardinality (Bitmap ws),
        sbitmap_checksum = bitmap_page_checksum E p, sbitmap_pgno = n, spayload = []\<rparr>"])
    (simp add: push_dense_def push_bitmap_ptr_def bitmap_container_def staged_ok_def leaf_cell_of_def cell_resolve_def
      cell_contains_def base_check_def has_base_def verify_base_def resolve_checked_def bitmap_page_checksum_def
      Let_def del: cardinality.simps)

section \<open>A little-endian instance of the casts\<close>

definition le_chunks :: "nat \<Rightarrow> (u8 list \<Rightarrow> 'a) \<Rightarrow> u8 list \<Rightarrow> 'a list option" where
  "le_chunks n f bs = (if length bs mod n = 0 then Some (map (\<lambda>i. f (get_bytes bs (n * i) n)) [0..<length bs div n]) else None)"

definition le_ext :: "(u8 list \<Rightarrow> u32) \<Rightarrow> ext" where
  "le_ext crc = \<lparr>crc32 = crc,
     cast_u16 = le_chunks 2 from_le,
     cast_interval = le_chunks 4 (\<lambda>b. \<lparr>istart = from_le (take 2 b), ilast = from_le (drop 2 b)\<rparr>),
     cast_u64 = le_chunks 8 from_le,
     bytes_u16 = (\<lambda>xs. concat (map (to_le 2) xs)),
     bytes_interval = (\<lambda>xs. concat (map (\<lambda>i. to_le 2 (istart i) @ to_le 2 (ilast i)) xs)),
     bytes_u64 = (\<lambda>xs. concat (map (to_le 8) xs))\<rparr>"

text \<open>A function in the place of the CRC that tells two pages apart by their first byte.\<close>

definition hd_crc :: "u8 list \<Rightarrow> u32" where
  "hd_crc bs = (case bs of [] \<Rightarrow> 0 | x # _ \<Rightarrow> ucast x)"

lemma concat_chunks:
  assumes "\<And>x. length (enc x) = n" "0 < n"
  shows "length (concat (map enc xs)) = n * length xs"
    and "i < length xs \<Longrightarrow> get_bytes (concat (map enc xs)) (n * i) n = enc (xs ! i)"
proof -
  show len: "length (concat (map enc xs)) = n * length xs" for xs by (induction xs) (simp_all add: assms)
  show "i < length xs \<Longrightarrow> get_bytes (concat (map enc xs)) (n * i) n = enc (xs ! i)"
  proof (induction xs arbitrary: i)
    case (Cons x xs)
    show ?case
    proof (cases i)
      case 0
      then show ?thesis by (simp add: get_bytes_def assms)
    next
      case (Suc j)
      with Cons.IH [of j] Cons.prems show ?thesis by (simp add: get_bytes_def assms)
    qed
  qed simp
qed

lemma le_chunks_concat:
  assumes "\<And>x. length (enc x) = n" "0 < n" "\<And>x. dec (enc x) = x"
  shows "le_chunks n dec (concat (map enc xs)) = Some xs"
  using assms by (auto simp: le_chunks_def concat_chunks intro!: nth_equalityI)

lemma le_ext_ok: "ext_ok (le_ext crc)"
proof -
  have "from_le (take 2 (to_le 2 (istart i) @ to_le 2 (ilast i))) = istart i"
    "from_le (drop 2 (to_le 2 (istart i) @ to_le 2 (ilast i))) = ilast i" for i :: interval by simp_all
  then show ?thesis
    by (auto simp: ext_ok_def le_ext_def concat_chunks le_chunks_concat, auto simp: le_chunks_def split: if_splits)
qed

section \<open>A whole page\<close>

lemma leaf_finish_page_ok: "builder_ok b \<Longrightarrow> page_ok (leaf_finish crc b n)"
  using cells_page_spec(1) [of "map staged_bytes (lcells b)" crc n PLeaf]
  by (simp add: leaf_finish_eq builder_ok_def)

text \<open>Pushing containers one after the other, as the tree's writers fill a leaf.\<close>

fun push_all :: "ext \<Rightarrow> leaf_builder \<Rightarrow> (container_key \<times> container) list \<Rightarrow> leaf_builder option" where
  "push_all E b [] = Some b"
| "push_all E b ((k, c) # kcs) =
     (case push_container E b k c of None \<Rightarrow> None | Some b' \<Rightarrow> push_all E b' kcs)"

definition stands_for :: "ext \<Rightarrow> container_key \<times> container \<Rightarrow> staged_cell \<Rightarrow> bool" where
  "stands_for E kc s \<longleftrightarrow> staged_ok s \<and> skey s = fst kc \<and> scard s = cardinality (snd kc) \<and>
     cell_resolve E (leaf_cell_of s) None = Inr (snd kc)"

lemma push_all_spec:
  "ext_ok E \<Longrightarrow> push_all E b kcs = Some b' \<Longrightarrow> builder_ok b \<Longrightarrow>
   builder_ok b' \<and> (\<exists>ss. lcells b' = lcells b @ ss \<and> list_all2 (stands_for E) kcs ss)"
proof (induction E b kcs rule: push_all.induct)
  case (2 E b k c kcs)
  then obtain b1 where b1: "push_container E b k c = Some b1" "push_all E b1 kcs = Some b'"
    by (auto split: option.splits)
  from push_container_spec [OF "2.prems"(1) b1(1)]
  obtain s where s: "leaf_push b s = Some b1" "stands_for E (k, c) s" by (auto simp: stands_for_def)
  from s(1) have cells: "lcells b1 = lcells b @ [s]" by (auto simp: leaf_push_def split: if_splits)
  from "2.IH" [OF b1(1) "2.prems"(1) b1(2) builder_ok_push [OF "2.prems"(3) s(1)]]
  obtain ss where "builder_ok b'" "lcells b' = lcells b1 @ ss" "list_all2 (stands_for E) kcs ss" by blast
  with cells s(2) show ?case by (intro conjI exI [of _ "s # ss"]) simp_all
qed simp

lemma push_all_page:
  assumes "ext_ok E" "push_all E leaf_new kcs = Some b"
  shows "\<exists>lp. leaf_parse (leaf_finish crc b n) = Inr lp \<and> lcount lp = length kcs \<and>
    (\<forall>i < length kcs. leaf_key_at lp i = Some (fst (kcs ! i)) \<and>
       (\<exists>c. leaf_cell_at lp i = Inr c \<and> ccard c = cardinality (snd (kcs ! i)) \<and>
            cell_resolve E c None = Inr (snd (kcs ! i))))"
    and "verify_checksum crc (leaf_finish crc b n) = Inr ()"
proof -
  from push_all_spec [OF assms builder_ok_new]
  have b: "builder_ok b" and ss: "list_all2 (stands_for E) kcs (lcells b)" by (auto simp: leaf_new_def)
  from ss have len: "length (lcells b) = length kcs" by (simp add: list_all2_lengthD)
  have st: "stands_for E (kcs ! i) (lcells b ! i)" if "i < length kcs" for i
    using ss that by (rule list_all2_nthD)
  then have ok: "\<forall>c \<in> set (lcells b). staged_ok c" by (auto simp: in_set_conv_nth len stands_for_def)
  show "verify_checksum crc (leaf_finish crc b n) = Inr ()" by (rule leaf_finish_spec(2) [OF b ok])
  from leaf_finish_spec(1) [OF b ok, of crc n] st
  show "\<exists>lp. leaf_parse (leaf_finish crc b n) = Inr lp \<and> lcount lp = length kcs \<and>
    (\<forall>i < length kcs. leaf_key_at lp i = Some (fst (kcs ! i)) \<and>
       (\<exists>c. leaf_cell_at lp i = Inr c \<and> ccard c = cardinality (snd (kcs ! i)) \<and>
            cell_resolve E c None = Inr (snd (kcs ! i))))"
    by (fastforce simp: len stands_for_def leaf_cell_of_def)
qed

section \<open>Properties\<close>

text \<open>
  C6. Leaf round trip: containers pushed one after the other by \<^verbatim>\<open>LeafBuilder::push_container\<close> and
  finished into a page are read back from the page's bytes. The checksum verifies, the page
  parses, it has one cell per container in the order pushed, and each cell has the key, the
  cardinality and, through \<^verbatim>\<open>LeafCell::resolve\<close>, the container pushed.
\<close>

theorem leaf_roundtrip:
  assumes "ext_ok E" "push_all E leaf_new kcs = Some b"
  shows "verify_checksum crc (leaf_finish crc b n) = Inr () \<and>
    (\<exists>lp. leaf_parse (leaf_finish crc b n) = Inr lp \<and> lcount lp = length kcs \<and>
       (\<forall>i < length kcs. leaf_key_at lp i = Some (fst (kcs ! i)) \<and>
          (\<exists>c. leaf_cell_at lp i = Inr c \<and> ccard c = cardinality (snd (kcs ! i)) \<and>
               cell_resolve E c None = Inr (snd (kcs ! i)))))"
  using push_all_page [OF assms] by blast

theorem leaf_roundtrip_witness:
  "\<exists>b lp c. push_all (le_ext (\<lambda>_. 0)) leaf_new [(5, Array [1, 2, 9]), (8, Run [\<lparr>istart = 4, ilast = 90\<rparr>])] = Some b \<and>
     leaf_parse (leaf_finish (\<lambda>_. 0) b 3) = Inr lp \<and> leaf_key_at lp 1 = Some 8 \<and> leaf_cell_at lp 1 = Inr c \<and>
     cell_resolve (le_ext (\<lambda>_. 0)) c None = Inr (Run [\<lparr>istart = 4, ilast = 90\<rparr>])"
proof -
  let ?k = "[(5, Array [1, 2, 9]), (8, Run [\<lparr>istart = 4, ilast = 90\<rparr>])] :: (container_key \<times> container) list"
  obtain b where b: "push_all (le_ext (\<lambda>_. 0)) leaf_new ?k = Some b"
    by (simp add: leaf_new_def leaf_push_def leaf_fits_def layout_defs align_up_def le_ext_def)
  from leaf_roundtrip [OF le_ext_ok b, of "\<lambda>_. 0" 3]
  obtain lp where lp: "leaf_parse (leaf_finish (\<lambda>_. 0) b 3) = Inr lp"
    "\<forall>i < 2. leaf_key_at lp i = Some (fst (?k ! i)) \<and> (\<exists>c. leaf_cell_at lp i = Inr c \<and>
        ccard c = cardinality (snd (?k ! i)) \<and> cell_resolve (le_ext (\<lambda>_. 0)) c None = Inr (snd (?k ! i)))"
    by (auto simp: numeral_2_eq_2 simp del: cardinality.simps)
  with b show ?thesis by (auto dest: spec [of _ 1] simp del: cardinality.simps)
qed

text \<open>
  \<^verbatim>\<open>LeafPage::search\<close> on a page written with strictly ascending keys: a hit is the index of the
  cell with that key, and every key of the page is hit; a miss gives the number of keys below the
  one looked for, which is the position that keeps the page sorted.
\<close>

lemma leaf_search_correct:
  assumes "ext_ok E" "push_all E leaf_new kcs = Some b" "sorted_wrt (<) (map fst kcs)"
  shows "\<exists>lp. leaf_parse (leaf_finish crc b n) = Inr lp \<and>
    (\<forall>k. case leaf_search lp k of
        Inr i \<Rightarrow> i < length kcs \<and> fst (kcs ! i) = k
      | Inl i \<Rightarrow> k \<notin> fst ` set kcs \<and> i = length (filter (\<lambda>kc. fst kc < k) kcs))"
proof -
  from push_all_page(1) [OF assms(1,2), of crc n]
  obtain lp where lp: "leaf_parse (leaf_finish crc b n) = Inr lp" "lcount lp = length kcs"
    and key: "\<And>i. i < length kcs \<Longrightarrow> leaf_key_at lp i = Some (fst (kcs ! i))" by blast
  have asc: "leaf_ascending lp"
    using assms(3) by (auto simp: leaf_ascending_def lp(2) key sorted_wrt_iff_nth_less)
  have "case leaf_search lp k of
        Inr i \<Rightarrow> i < length kcs \<and> fst (kcs ! i) = k
      | Inl i \<Rightarrow> k \<notin> fst ` set kcs \<and> i = length (filter (\<lambda>kc. fst kc < k) kcs)" for k
  proof (cases "leaf_search lp k")
    case (Inl i)
    note miss = leaf_search_miss [OF asc Inl]
    have below: "fst (kcs ! j) < k" if "j < i" for j
      using miss(1) miss(2) [OF that] that by (simp add: lp(2) key)
    have above: "k < fst (kcs ! j)" if "i \<le> j" "j < length kcs" for j
      using miss(3) [of j] that by (simp add: lp(2) key)
    have "k \<noteq> fst (kcs ! j)" if "j < length kcs" for j
      using below [of j] above [of j] that by (cases "j < i") auto
    then have "k \<notin> fst ` set kcs" by (fastforce simp: in_set_conv_nth)
    moreover have "filter (\<lambda>kc. fst kc < k) kcs = take i kcs"
      using miss(1) below above by (intro filter_take_prefix) (auto simp: lp(2) not_less less_imp_le)
    ultimately show ?thesis using Inl miss(1) by (simp add: lp(2))
  next
    case (Inr i)
    with leaf_search_hit [OF Inr] key show ?thesis by (auto simp: lp(2))
  qed
  with lp(1) show ?thesis by blast
qed

text \<open>
  C34. Reading stays inside the page whatever its bytes are: when \<^verbatim>\<open>LeafPage::parse\<close> accepts a page,
  every cell it yields lies with its header and its payload between the cell index and the
  page's trailer, its payload has the length its type and element count declare, and an index
  past the count is an error.
\<close>

theorem leaf_reads_in_bounds:
  assumes "leaf_parse p = Inr lp" "page_ok p"
  shows "case leaf_cell_at lp i of
      Inl e \<Rightarrow> lcount lp \<le> i \<or> (\<exists>raw. e = UnknownContainerType raw) \<or> e = PayloadOutOfRange i
    | Inr c \<Rightarrow> i < lcount lp \<and> PAGE_HEADER + lcount lp * CELL_INDEX_ENTRY \<le> cell_offset p i \<and>
        cell_offset p i + LEAF_CELL_HEADER + length (cpayload c) \<le> PAGE_SIZE - PAGE_TRAILER \<and>
        length (cpayload c) = payload_len (cty c) (celem_n c)"
proof (cases "leaf_cell_at lp i")
  case (Inl e)
  then show ?thesis by (auto simp: leaf_cell_at_def Let_def split: if_splits option.splits)
next
  case (Inr c)
  note b = leaf_cell_in_bounds [OF assms Inr]
  from b leaf_parseD(3) [OF assms(1) b(2)] Inr show ?thesis by simp
qed

theorem leaf_reads_in_bounds_witness:
  "\<exists>b lp c. push_all (le_ext (\<lambda>_. 0)) leaf_new [(5, Array [1, 2, 9])] = Some b \<and>
     leaf_parse (leaf_finish (\<lambda>_. 0) b 3) = Inr lp \<and> leaf_cell_at lp 0 = Inr c \<and>
     cell_offset (leaf_finish (\<lambda>_. 0) b 3) 0 + LEAF_CELL_HEADER + length (cpayload c) \<le> 8188"
proof -
  obtain b where b: "push_all (le_ext (\<lambda>_. 0)) leaf_new [(5, Array [1, 2, 9])] = Some b"
    by (simp add: leaf_new_def leaf_push_def leaf_fits_def layout_defs align_up_def le_ext_def)
  from push_all_page(1) [OF le_ext_ok b, of "\<lambda>_. 0" 3]
  obtain lp c where lp: "leaf_parse (leaf_finish (\<lambda>_. 0) b 3) = Inr lp" "leaf_cell_at lp 0 = Inr c"
    by (auto simp del: cardinality.simps)
  have "page_ok (leaf_finish (\<lambda>_. 0) b 3)"
    using push_all_spec [OF le_ext_ok b builder_ok_new] by (simp add: leaf_finish_page_ok)
  from leaf_reads_in_bounds [OF lp(1) this, of 0] b lp show ?thesis by (auto simp: layout_defs)
qed

text \<open>
  A point read never disagrees with the container: for a cell of any type, with or without
  its dense page, \<^verbatim>\<open>LeafCell::contains\<close> gives the membership in the container that
  \<^verbatim>\<open>LeafCell::resolve\<close> builds, and fails with the same error where \<^verbatim>\<open>resolve\<close> fails. A delta cell is
  required to have its entries in order.
\<close>

lemma cell_contains_is_membership:
  assumes "case delta_decode (cpayload c) of None \<Rightarrow> True | Some d \<Rightarrow> cty c = TBitmapDelta \<longrightarrow> delta_sorted d"
  shows "cell_contains E c pg off =
    (case cell_resolve E c pg of Inl e \<Rightarrow> Inl e | Inr k \<Rightarrow> Inr (container_contains k off))"
proof -
  have "cell_contains E c pg off = map_sum id (\<lambda>k. container_contains k off) (cell_resolve E c pg)"
    using assms by (intro contains_resolve) auto
  then show ?thesis by (auto split: sum.splits)
qed

text \<open>
  C33. A dense container: \<^verbatim>\<open>build_bitmap_page\<close> and \<^verbatim>\<open>push_dense\<close> write it as a page of its own and a
  cell that points at it, and the two read back to the bitmap. A page whose checksum is not the
  one in the cell, a corrupted page or a page that another write has taken, is refused with
  \<^verbatim>\<open>ChecksumMismatch\<close> by both the point read and the resolution, never read as data.
\<close>

theorem dense_page_guarded:
  assumes "ext_ok E" "length ws = BITMAP_WORDS" "push_dense E leaf_new k pg (build_bitmap_page E ws) = Some b"
  shows "\<exists>lp c. leaf_parse (leaf_finish crc b n) = Inr lp \<and> leaf_cell_at lp 0 = Inr c \<and>
    ckey c = k \<and> cbitmap_pgno c = pg \<and> cell_resolve E c (Some (build_bitmap_page E ws)) = Inr (Bitmap ws) \<and>
    (\<forall>q off. crc32 E q \<noteq> crc32 E (build_bitmap_page E ws) \<longrightarrow>
       (let e = ChecksumMismatch (crc32 E (build_bitmap_page E ws)) (crc32 E q) in
        cell_resolve E c (Some q) = Inl e \<and> cell_contains E c (Some q) off = Inl e))"
proof -
  from push_dense_spec [OF build_bitmap_page_spec(1) [OF assms(1,2)] assms(3)]
  obtain s where s: "leaf_push leaf_new s = Some b" "staged_ok s" "skey s = k" "sbitmap_pgno s = pg"
    "cell_resolve E (leaf_cell_of s) (Some (build_bitmap_page E ws)) = Inr (Bitmap ws)"
    "\<And>q off. crc32 E q \<noteq> crc32 E (build_bitmap_page E ws) \<Longrightarrow>
       (let e = ChecksumMismatch (crc32 E (build_bitmap_page E ws)) (crc32 E q) in
        cell_resolve E (leaf_cell_of s) (Some q) = Inl e \<and> cell_contains E (leaf_cell_of s) (Some q) off = Inl e)"
    by (auto simp: Let_def)
  from leaf_push_reads_back [OF builder_ok_new _ s(1,2), of crc n]
  obtain lp where "leaf_parse (leaf_finish crc b n) = Inr lp" "leaf_cell_at lp 0 = Inr (leaf_cell_of s)"
    by (auto simp: leaf_new_def)
  with s(3-6) show ?thesis by (auto simp: leaf_cell_of_def)
qed

theorem dense_page_guarded_witness:
  "\<exists>b lp c. push_dense (le_ext hd_crc) leaf_new 4 17 (build_bitmap_page (le_ext hd_crc) (replicate BITMAP_WORDS 0)) = Some b \<and>
     leaf_parse (leaf_finish hd_crc b 3) = Inr lp \<and> leaf_cell_at lp 0 = Inr c \<and> cbitmap_pgno c = 17 \<and>
     cell_contains (le_ext hd_crc) c (Some [1]) 5 = Inl (ChecksumMismatch 0 1)"
proof -
  let ?E = "le_ext hd_crc" and ?ws = "replicate BITMAP_WORDS 0 :: u64 list"
  note spec = build_bitmap_page_spec [OF le_ext_ok, of ?ws hd_crc]
  have "?ws = 0 # replicate 1023 0"
    unfolding BITMAP_WORDS_def replicate_Suc [symmetric] by simp
  moreover have "to_le 8 (0 :: u64) = 0 # map (\<lambda>_. 0) [1..<8]" by (simp add: to_le_def upt_conv_Cons)
  ultimately have zero: "crc32 ?E (build_bitmap_page ?E ?ws) = 0"
    by (simp add: build_bitmap_page_def le_ext_def hd_crc_def put_bytes_def)
  obtain b where b: "push_dense ?E leaf_new 4 17 (build_bitmap_page ?E ?ws) = Some b"
    using spec(1) by (simp add: push_dense_def bitmap_container_def push_bitmap_ptr_def leaf_push_def leaf_fits_def
        leaf_new_def layout_defs align_up_def)
  have one: "crc32 ?E [1] = 1" by (simp add: le_ext_def hd_crc_def)
  have "length ?ws = BITMAP_WORDS" by simp
  from dense_page_guarded [OF le_ext_ok this b, of hd_crc 3] zero one b show ?thesis
    by (fastforce simp: Let_def)
qed

end
