(* ===== verification/Big_Branch.thy ===== *)
theory Big_Branch
  imports Big_Page
begin

text \<open>
  \<^verbatim>\<open>crates/big-page/src/branch.rs\<close>: branch pages of fixed 16-byte cells. A page the builder
  finishes parses back to the cells pushed, and \<^verbatim>\<open>child_for\<close> finds the last cell whose key is
  not above the key looked for.
\<close>

section \<open>Cells and builder\<close>

record branch_cell =
  bkey :: container_key
  bflags :: u32
  bchild :: pgno

record branch_page =
  bpage :: page
  bcount :: nat

definition branch_parse :: "page \<Rightarrow> page_error + branch_page" where
  "branch_parse p = (case validate_cell_index p PBranch BRANCH_CELL of
     Inl e \<Rightarrow> Inl e | Inr (count, _) \<Rightarrow> Inr \<lparr>bpage = p, bcount = count\<rparr>)"

definition branch_cell_at :: "branch_page \<Rightarrow> nat \<Rightarrow> branch_cell option" where
  "branch_cell_at bp i =
     (if i < bcount bp then
        (let o1 = cell_offset (bpage bp) i; b = bpage bp
         in Some \<lparr>bkey = rd64 b o1, bflags = rd32 b (o1 + 8), bchild = rd32 b (o1 + 12)\<rparr>)
      else None)"

text \<open>The binary search of \<^verbatim>\<open>child_for\<close>: the number of cells whose key is at most \<open>ckey\<close>.\<close>

function child_loop :: "branch_page \<Rightarrow> container_key \<Rightarrow> nat \<Rightarrow> nat \<Rightarrow> nat" where
  "child_loop bp ckey lo hi =
     (if lo < hi then
        (let mid = (lo + hi) div 2 in
         if bkey (the (branch_cell_at bp mid)) \<le> ckey then child_loop bp ckey (mid + 1) hi
         else child_loop bp ckey lo mid)
      else lo)"
  by pat_completeness auto
termination
  by (relation "measure (\<lambda>(bp, ckey, lo, hi). hi - lo)") auto

declare child_loop.simps [simp del]

definition child_for :: "branch_page \<Rightarrow> container_key \<Rightarrow> pgno option" where
  "child_for bp ckey =
     (if bcount bp = 0 then None
      else let lo = child_loop bp ckey 0 (bcount bp)
           in if lo > 0 then Some (bchild (the (branch_cell_at bp (lo - 1)))) else None)"

definition branch_iter :: "branch_page \<Rightarrow> branch_cell list" where
  "branch_iter bp = map (\<lambda>i. the (branch_cell_at bp i)) [0..<bcount bp]"

text \<open>\<^verbatim>\<open>BranchBuilder::CAPACITY\<close> counts up while one more cell still fits.\<close>

function capacity_loop :: "nat \<Rightarrow> nat" where
  "capacity_loop n =
     (if align_up (PAGE_HEADER + (n + 1) * CELL_INDEX_ENTRY) + (n + 1) * BRANCH_CELL \<le> PAGE_SIZE - PAGE_TRAILER
      then capacity_loop (n + 1) else n)"
  by pat_completeness auto
termination
  by (relation "measure (\<lambda>n. PAGE_SIZE - n)") (auto simp: layout_defs)

declare capacity_loop.simps [simp del]

definition BRANCH_CAPACITY :: nat where "BRANCH_CAPACITY = capacity_loop 0"

definition branch_push :: "branch_cell list \<Rightarrow> branch_cell \<Rightarrow> branch_cell list option" where
  "branch_push cells c = (if length cells < BRANCH_CAPACITY then Some (cells @ [c]) else None)"

fun branch_write :: "page \<Rightarrow> nat \<Rightarrow> nat \<Rightarrow> branch_cell list \<Rightarrow> page" where
  "branch_write p i cursor [] = p"
| "branch_write p i cursor (c # cs) =
     (let p1 = put_bytes p cursor (to_le 8 (bkey c));
          p2 = put_bytes p1 (cursor + 8) (to_le 4 (bflags c));
          p3 = put_bytes p2 (cursor + 12) (to_le 4 (bchild c));
          at = PAGE_HEADER + i * CELL_INDEX_ENTRY;
          p4 = put_bytes p3 at (to_le 2 (of_nat cursor :: u16))
      in branch_write p4 (Suc i) (cursor + BRANCH_CELL) cs)"

definition branch_finish :: "(u8 list \<Rightarrow> u32) \<Rightarrow> branch_cell list \<Rightarrow> pgno \<Rightarrow> page" where
  "branch_finish crc cells n =
     (let count = length cells;
          p = set_header page_zeroed n PBranch (of_nat count)
      in page_seal crc (branch_write p 0 (align_up (PAGE_HEADER + count * CELL_INDEX_ENTRY)) cells))"

section \<open>Round trip\<close>

definition branch_bytes :: "branch_cell \<Rightarrow> u8 list" where
  "branch_bytes c = to_le 8 (bkey c) @ to_le 4 (bflags c) @ to_le 4 (bchild c)"

lemma length_branch_bytes [simp]: "length (branch_bytes c) = 16"
  by (simp add: branch_bytes_def)

lemma branch_write_eq:
  "page_ok p \<Longrightarrow> cursor mod 8 = 0 \<Longrightarrow> cursor + 16 * length cs \<le> PAGE_SIZE \<Longrightarrow>
   PAGE_HEADER + (i + length cs) * CELL_INDEX_ENTRY \<le> PAGE_SIZE \<Longrightarrow>
   branch_write p i cursor cs = lay_cells p i cursor (map branch_bytes cs)"
proof (induction cs arbitrary: p i cursor)
  case (Cons c cs)
  have "put_bytes (put_bytes (put_bytes p cursor (to_le 8 (bkey c))) (cursor + 8) (to_le 4 (bflags c)))
      (cursor + 12) (to_le 4 (bchild c)) = put_bytes p cursor (branch_bytes c)"
    using Cons.prems put_bytes_append [of cursor "to_le 8 (bkey c)" "to_le 4 (bflags c)" p]
      put_bytes_append [of cursor "to_le 8 (bkey c) @ to_le 4 (bflags c)" "to_le 4 (bchild c)" p]
    by (simp add: branch_bytes_def)
  moreover have "align_up (cursor + 16) = cursor + BRANCH_CELL"
    using Cons.prems align_up_add [of cursor 16] align_up_id [of 16] by (simp add: BRANCH_CELL_def)
  moreover have "branch_write (put_bytes (put_bytes p cursor (branch_bytes c)) (PAGE_HEADER + i * CELL_INDEX_ENTRY)
      (to_le 2 (of_nat cursor :: u16))) (Suc i) (cursor + BRANCH_CELL) cs
    = lay_cells (put_bytes (put_bytes p cursor (branch_bytes c)) (PAGE_HEADER + i * CELL_INDEX_ENTRY)
      (to_le 2 (of_nat cursor :: u16))) (Suc i) (cursor + BRANCH_CELL) (map branch_bytes cs)"
    using Cons.prems by (intro Cons.IH) (simp_all add: layout_defs mod_add_left_eq [symmetric])
  ultimately show ?case by (simp add: Let_def)
qed simp

lemma branch_cells_end:
  "cursor mod 8 = 0 \<Longrightarrow> cells_end cursor (map branch_bytes cs) = cursor + 16 * length cs"
proof (induction cs arbitrary: cursor)
  case (Cons c cs)
  have "align_up (cursor + 16) = cursor + 16"
    using Cons.prems align_up_add [of cursor 16] align_up_id [of 16] by simp
  with Cons.IH [of "cursor + 16"] Cons.prems show ?case by (cases cs) (simp_all add: mod_add_left_eq [symmetric])
qed simp

definition branch_fits :: "branch_cell list \<Rightarrow> bool" where
  "branch_fits cs \<longleftrightarrow> align_up (PAGE_HEADER + length cs * CELL_INDEX_ENTRY) + length cs * BRANCH_CELL \<le> PAGE_SIZE - PAGE_TRAILER"

lemma capacity_loop_spec:
  assumes "align_up (PAGE_HEADER + n * CELL_INDEX_ENTRY) + n * BRANCH_CELL \<le> PAGE_SIZE - PAGE_TRAILER"
  shows "n \<le> capacity_loop n"
    and "align_up (PAGE_HEADER + capacity_loop n * CELL_INDEX_ENTRY) + capacity_loop n * BRANCH_CELL \<le> PAGE_SIZE - PAGE_TRAILER"
    and "\<not> align_up (PAGE_HEADER + (capacity_loop n + 1) * CELL_INDEX_ENTRY) + (capacity_loop n + 1) * BRANCH_CELL \<le> PAGE_SIZE - PAGE_TRAILER"
proof -
  let ?P = "\<lambda>m. align_up (PAGE_HEADER + m * CELL_INDEX_ENTRY) + m * BRANCH_CELL \<le> PAGE_SIZE - PAGE_TRAILER"
  have "n \<le> capacity_loop n \<and> ?P (capacity_loop n) \<and> \<not> ?P (capacity_loop n + 1)"
    using assms
  proof (induction n rule: capacity_loop.induct)
    case (1 n)
    show ?case
    proof (cases "?P (n + 1)")
      case True
      with 1 show ?thesis by (simp only: capacity_loop.simps [of n] if_True) fastforce
    next
      case False
      with 1 show ?thesis by (simp only: capacity_loop.simps [of n] if_False) fastforce
    qed
  qed
  then show "n \<le> capacity_loop n" "?P (capacity_loop n)" "\<not> ?P (capacity_loop n + 1)" by auto
qed

lemma capacity_fits: "length cs \<le> BRANCH_CAPACITY \<longleftrightarrow> branch_fits cs"
proof -
  note cap = capacity_loop_spec [of 0, folded BRANCH_CAPACITY_def]
  have mono: "align_up (PAGE_HEADER + a * CELL_INDEX_ENTRY) + a * BRANCH_CELL
      \<le> align_up (PAGE_HEADER + b * CELL_INDEX_ENTRY) + b * BRANCH_CELL" if "a \<le> b" for a b
    using that by (intro add_mono align_up_mono) (simp_all add: layout_defs)
  have zero: "align_up (PAGE_HEADER + 0 * CELL_INDEX_ENTRY) + 0 * BRANCH_CELL \<le> PAGE_SIZE - PAGE_TRAILER"
    using align_up_simps(2) [of 12] by (simp add: layout_defs)
  show ?thesis
  proof (cases "length cs \<le> BRANCH_CAPACITY")
    case True
    with cap(2) [OF zero] mono [OF True] show ?thesis by (simp add: branch_fits_def)
  next
    case False
    then have "BRANCH_CAPACITY + 1 \<le> length cs" by simp
    from cap(3) [OF zero] mono [OF this] False show ?thesis by (simp add: branch_fits_def)
  qed
qed

lemma branch_finish_eq:
  assumes "branch_fits cs"
  shows "branch_finish crc cs n = cells_page crc n PBranch (map branch_bytes cs)"
    and "cells_end (cells_start (map branch_bytes cs)) (map branch_bytes cs) \<le> PAGE_SIZE - PAGE_TRAILER"
proof -
  have fit: "align_up (PAGE_HEADER + length cs * CELL_INDEX_ENTRY) + 16 * length cs \<le> PAGE_SIZE - PAGE_TRAILER"
    using assms by (simp add: branch_fits_def BRANCH_CELL_def mult.commute)
  then have "PAGE_HEADER + length cs * CELL_INDEX_ENTRY \<le> PAGE_SIZE"
    using align_up_simps(1) [of "PAGE_HEADER + length cs * CELL_INDEX_ENTRY"] by (simp add: PAGE_SIZE_def)
  with fit show "branch_finish crc cs n = cells_page crc n PBranch (map branch_bytes cs)"
    by (simp add: branch_finish_def cells_page_def Let_def branch_write_eq align_up_simps(3) PAGE_TRAILER_def)
  show "cells_end (cells_start (map branch_bytes cs)) (map branch_bytes cs) \<le> PAGE_SIZE - PAGE_TRAILER"
    using fit by (simp add: branch_cells_end align_up_simps(3))
qed

lemma branch_finish_spec:
  assumes "branch_fits cs"
  shows "\<exists>bp. branch_parse (branch_finish crc cs n) = Inr bp \<and> branch_iter bp = cs \<and> bcount bp = length cs"
    and "verify_checksum crc (branch_finish crc cs n) = Inr ()"
    and "page_ok (branch_finish crc cs n)" and "page_pgno (branch_finish crc cs n) = n"
proof -
  let ?cs = "map branch_bytes cs"
  note eq = branch_finish_eq [OF assms]
  note spec = cells_page_spec [OF eq(2)]
  show "verify_checksum crc (branch_finish crc cs n) = Inr ()" "page_ok (branch_finish crc cs n)"
    "page_pgno (branch_finish crc cs n) = n" using spec(1,2,3) by (simp_all add: eq(1))
  let ?p = "cells_page crc n PBranch ?cs"
  define bp where "bp = \<lparr>bpage = ?p, bcount = length cs\<rparr>"
  have parse: "branch_parse (branch_finish crc cs n) = Inr bp"
    using cells_page_valid [OF eq(2), of BRANCH_CELL crc n PBranch]
    by (simp add: branch_parse_def eq(1) bp_def BRANCH_CELL_def)
  have "branch_cell_at bp i = Some (cs ! i)" if i: "i < length cs" for i
  proof -
    let ?o = "cell_offset ?p i"
    have c: "get_bytes ?p ?o 16 = branch_bytes (cs ! i)" using spec(4,5) [of i] i by simp
    have "get_bytes ?p ?o 8 = to_le 8 (bkey (cs ! i))"
      "get_bytes ?p (?o + 8) 4 = to_le 4 (bflags (cs ! i))"
      "get_bytes ?p (?o + 12) 4 = to_le 4 (bchild (cs ! i))"
      using get_bytes_sub [OF c, of 0 8] get_bytes_sub [OF c, of 8 4] get_bytes_sub [OF c, of 12 4]
      by (simp_all add: branch_bytes_def get_bytes_def)
    then show ?thesis
      using i by (simp add: branch_cell_at_def bp_def Let_def rd64_def rd32_def)
  qed
  then have "branch_iter bp = cs" by (intro nth_equalityI) (simp_all add: branch_iter_def bp_def)
  with parse show "\<exists>bp. branch_parse (branch_finish crc cs n) = Inr bp \<and> branch_iter bp = cs \<and> bcount bp = length cs"
    by (auto simp: bp_def)
qed

section \<open>Routing\<close>

abbreviation keys_ascending :: "branch_cell list \<Rightarrow> bool" where
  "keys_ascending cs \<equiv> sorted_wrt (\<lambda>a b. bkey a < bkey b) cs"

lemma branch_iter_nth: "i < bcount bp \<Longrightarrow> the (branch_cell_at bp i) = branch_iter bp ! i"
  and length_branch_iter: "length (branch_iter bp) = bcount bp"
  by (simp_all add: branch_iter_def)

lemma child_loop_spec:
  "keys_ascending (branch_iter bp) \<Longrightarrow> lo \<le> hi \<Longrightarrow> hi \<le> bcount bp \<Longrightarrow>
    (\<forall>j < lo. bkey (branch_iter bp ! j) \<le> ckey) \<Longrightarrow>
    (\<forall>j < bcount bp. hi \<le> j \<longrightarrow> ckey < bkey (branch_iter bp ! j)) \<Longrightarrow>
    child_loop bp ckey lo hi \<le> bcount bp \<and>
    (\<forall>j < child_loop bp ckey lo hi. bkey (branch_iter bp ! j) \<le> ckey) \<and>
    (\<forall>j < bcount bp. child_loop bp ckey lo hi \<le> j \<longrightarrow> ckey < bkey (branch_iter bp ! j))"
proof (induction bp ckey lo hi rule: child_loop.induct)
  case (1 bp ckey lo hi)
  let ?k = "\<lambda>j. bkey (branch_iter bp ! j)" and ?mid = "(lo + hi) div 2"
  have asc: "?k i < ?k j" if "i < j" "j < bcount bp" for i j
    using that sorted_wrt_nth_less [OF "1.prems"(1)] by (simp add: length_branch_iter)
  show ?case
  proof (cases "lo < hi")
    case False
    then have "child_loop bp ckey lo hi = lo" by (simp add: child_loop.simps [of bp ckey lo hi])
    moreover have "lo = hi" using False "1.prems"(2) by simp
    ultimately show ?thesis using "1.prems" by simp
  next
    case True
    then have mid: "lo \<le> ?mid" "?mid < hi" "?mid < bcount bp" using "1.prems" by auto
    note nth = branch_iter_nth [OF mid(3)]
    show ?thesis
    proof (cases "?k ?mid \<le> ckey")
      case le: True
      have "?k j \<le> ckey" if "j < ?mid + 1" for j
        using le that asc [of j ?mid] mid(3) by (cases "j = ?mid") auto
      moreover have "child_loop bp ckey lo hi = child_loop bp ckey (?mid + 1) hi"
        using True le by (simp add: child_loop.simps [of bp ckey lo hi] nth)
      ultimately show ?thesis
        using "1.IH"(1) [OF True refl _ "1.prems"(1)] le mid "1.prems"(3,5) by (simp add: nth)
    next
      case gt: False
      have "ckey < ?k j" if "j < bcount bp" "?mid \<le> j" for j
        using gt that asc [of ?mid j] by (cases "j = ?mid") auto
      then have up: "\<forall>j < bcount bp. ?mid \<le> j \<longrightarrow> ckey < ?k j" by blast
      have eq: "child_loop bp ckey lo hi = child_loop bp ckey lo ?mid"
        using True gt by (simp add: child_loop.simps [of bp ckey lo hi] nth)
      have le: "?mid \<le> bcount bp" "\<not> bkey (the (branch_cell_at bp ?mid)) \<le> ckey" using mid gt nth by auto
      show ?thesis
        unfolding eq by (rule "1.IH"(2) [OF True refl le(2) "1.prems"(1) mid(1) le(1) "1.prems"(4) up])
    qed
  qed
qed

lemma child_for_spec:
  assumes "keys_ascending (branch_iter bp)"
  shows "child_for bp ckey =
    (case filter (\<lambda>c. bkey c \<le> ckey) (branch_iter bp) of [] \<Rightarrow> None | cs \<Rightarrow> Some (bchild (last cs)))"
proof -
  define m where "m = child_loop bp ckey 0 (bcount bp)"
  have m: "m \<le> bcount bp" "\<forall>j < m. bkey (branch_iter bp ! j) \<le> ckey"
    "\<forall>j < bcount bp. m \<le> j \<longrightarrow> ckey < bkey (branch_iter bp ! j)"
    using child_loop_spec [OF assms, of 0 "bcount bp" ckey] by (simp_all add: m_def)
  then have f: "filter (\<lambda>c. bkey c \<le> ckey) (branch_iter bp) = take m (branch_iter bp)"
    by (intro filter_take_prefix) (auto simp: length_branch_iter not_le)
  show ?thesis
  proof (cases "m = 0")
    case True
    then show ?thesis using f by (simp add: child_for_def m_def [symmetric])
  next
    case False
    then have ne: "take m (branch_iter bp) \<noteq> []" "length (take m (branch_iter bp)) = m"
      using m(1) length_branch_iter [of bp] by auto
    then have "last (take m (branch_iter bp)) = branch_iter bp ! (m - 1)"
      using False by (metis diff_less last_conv_nth less_numeral_extra(1) neq0_conv nth_take)
    with False ne f m(1) branch_iter_nth [of "m - 1" bp] show ?thesis
      by (auto simp: child_for_def m_def [symmetric] split: list.splits)
  qed
qed

section \<open>Properties\<close>

text \<open>
  C35. \<^verbatim>\<open>BranchBuilder\<close>: a push is refused exactly when one more cell would not fit between the
  page's header and its trailer; a page finished after an accepted push verifies its checksum,
  carries its page number, and parses back to the cells pushed, in order.
\<close>

theorem branch_roundtrip:
  "case branch_push cells c of
     None \<Rightarrow> \<not> branch_fits (cells @ [c])
   | Some cells' \<Rightarrow> branch_fits cells' \<and> verify_checksum crc (branch_finish crc cells' n) = Inr () \<and>
       page_pgno (branch_finish crc cells' n) = n \<and>
       (\<exists>bp. branch_parse (branch_finish crc cells' n) = Inr bp \<and> branch_iter bp = cells @ [c])"
proof (cases "length cells < BRANCH_CAPACITY")
  case True
  then have "branch_fits (cells @ [c])" using capacity_fits [of "cells @ [c]"] by simp
  with True branch_finish_spec [OF this, of crc n] show ?thesis by (auto simp: branch_push_def)
next
  case False
  then show ?thesis using capacity_fits [of "cells @ [c]"] by (simp add: branch_push_def)
qed

text \<open>
  \<^verbatim>\<open>BranchPage::child_for\<close> on a page the builder wrote with ascending keys: the binary search
  routes a key to the child of the last cell whose key is not above it, and finds no child exactly
  when every cell's key is above it.
\<close>

lemma child_for_correct:
  assumes "keys_ascending cs" "length cs \<le> BRANCH_CAPACITY"
  shows "\<exists>bp. branch_parse (branch_finish crc cs n) = Inr bp \<and>
    (\<forall>k. child_for bp k =
       (case filter (\<lambda>c. bkey c \<le> k) cs of [] \<Rightarrow> None | hits \<Rightarrow> Some (bchild (last hits))))"
proof -
  from assms(2) have "branch_fits cs" by (simp add: capacity_fits)
  from branch_finish_spec(1) [OF this, of crc n]
  obtain bp where "branch_parse (branch_finish crc cs n) = Inr bp" "branch_iter bp = cs" by auto
  with child_for_spec [of bp] assms(1) show ?thesis by auto
qed

end
