(* ===== verification/Big_Chain.thy ===== *)
theory Big_Chain
  imports Big_Page
begin

text \<open>
  Flat lists of fixed-size entries spread over a chain of pages:
  \<^verbatim>\<open>crates/big-page/src/chain.rs\<close> (the page and the writer), the pager boundary with its
  in-memory implementation \<^verbatim>\<open>crates/big-pager/src/{error,pager,mem}.rs\<close>, and the readers
  \<^verbatim>\<open>crates/big-pager/src/chainio.rs\<close>. What \<^verbatim>\<open>build_chain\<close> writes, \<^verbatim>\<open>load_chain\<close> reads; a
  reader of a chain does not depend on pages outside it; and a cyclic chain is an error,
  never an endless walk.
\<close>

section \<open>The chained page\<close>

definition CHAIN_NEXT :: nat where "CHAIN_NEXT = PAGE_HEADER"
definition CHAIN_DATA :: nat where "CHAIN_DATA = 16"

definition chain_capacity :: "nat \<Rightarrow> nat" where
  "chain_capacity stride = (PAGE_SIZE - PAGE_TRAILER - CHAIN_DATA) div stride"

record chain_page =
  chpage :: page
  chcount :: nat
  chstride :: nat

definition chain_parse :: "page \<Rightarrow> page_type \<Rightarrow> nat \<Rightarrow> page_error + chain_page" where
  "chain_parse p expected stride =
     (let found = ucast (page_flags p AND 0xFF) :: u8 in
      if found \<noteq> page_type_u8 expected then Inl (TypeMismatch (page_type_u8 expected) found)
      else let count = unat (page_cell_count p) in
        if CHAIN_DATA + count * stride > PAGE_SIZE - PAGE_TRAILER then Inl (CellCountOverflow (page_cell_count p))
        else Inr \<lparr>chpage = p, chcount = count, chstride = stride\<rparr>)"

definition chain_next :: "chain_page \<Rightarrow> pgno option" where
  "chain_next c = (let v = rd32 (chpage c) CHAIN_NEXT in if v \<noteq> 0 then Some v else None)"

definition chain_entry :: "chain_page \<Rightarrow> nat \<Rightarrow> u8 list option" where
  "chain_entry c i =
     (if i < chcount c then Some (get_bytes (chpage c) (CHAIN_DATA + i * chstride c) (chstride c)) else None)"

definition chain_entries :: "chain_page \<Rightarrow> u8 list list" where
  "chain_entries c = map (\<lambda>i. the (chain_entry c i)) [0..<chcount c]"

section \<open>Writing a chain\<close>

text \<open>\<^verbatim>\<open>slice::chunks\<close>, for a positive chunk size.\<close>

function chunks_of :: "nat \<Rightarrow> 'a list \<Rightarrow> 'a list list" where
  "chunks_of n xs = (if xs = [] \<or> n = 0 then [] else take n xs # chunks_of n (drop n xs))"
  by pat_completeness auto
termination
  by (relation "measure (\<lambda>(n, xs). length xs)") auto

declare chunks_of.simps [simp del]

fun write_entries :: "page \<Rightarrow> nat \<Rightarrow> nat \<Rightarrow> u8 list list \<Rightarrow> page" where
  "write_entries p stride j [] = p"
| "write_entries p stride j (e # es) =
     write_entries (put_bytes p (CHAIN_DATA + j * stride) e) stride (Suc j) es"

definition chain_build_page :: "(u8 list \<Rightarrow> u32) \<Rightarrow> page_type \<Rightarrow> nat \<Rightarrow> pgno \<Rightarrow> pgno \<Rightarrow> u8 list list \<Rightarrow> page" where
  "chain_build_page crc ty stride n nxt chunk =
     (let p = set_header page_zeroed n ty (of_nat (length chunk));
          p1 = put_bytes p CHAIN_NEXT (to_le 4 nxt)
      in page_seal crc (write_entries p1 stride 0 chunk))"

definition build_chain :: "(u8 list \<Rightarrow> u32) \<Rightarrow> page_type \<Rightarrow> nat \<Rightarrow> u8 list list \<Rightarrow> pgno list \<Rightarrow> (pgno \<times> page) list" where
  "build_chain crc ty stride entries pgnos =
     (if pgnos = [] then []
      else
        (let cap = chain_capacity stride;
             chunks0 = chunks_of cap entries;
             chunks = chunks0 @ replicate (length pgnos - length chunks0) []
         in map (\<lambda>i. (pgnos ! i, chain_build_page crc ty stride (pgnos ! i)
                       (if i + 1 < length pgnos then pgnos ! (i + 1) else 0) (chunks ! i)))
              [0..<length chunks]))"

text \<open>\<^verbatim>\<open>n.div_ceil(chain_capacity(stride))\<close>\<close>

definition chain_pages_needed :: "nat \<Rightarrow> nat \<Rightarrow> nat" where
  "chain_pages_needed stride n = (n + chain_capacity stride - 1) div chain_capacity stride"

section \<open>The pager\<close>

datatype store_error =
  SIo
| SPage page_error
| OutOfBounds pgno u64
| MapSizeExhausted u64 u64
| Locked
| NoValidMeta
| NotADatabase u64
| ChainCycle pgno
| SnapshotNotFound u64
| UnallocatedPage pgno
| ReadersActive
| Unsupported string

fun store_error_code :: "store_error \<Rightarrow> string" where
  "store_error_code SIo = ''io''"
| "store_error_code (SPage e) = page_error_code e"
| "store_error_code (OutOfBounds _ _) = ''page_out_of_bounds''"
| "store_error_code (MapSizeExhausted _ _) = ''mapsize_exhausted''"
| "store_error_code Locked = ''file_locked''"
| "store_error_code NoValidMeta = ''file_damaged''"
| "store_error_code (ChainCycle _) = ''file_damaged''"
| "store_error_code (SnapshotNotFound _) = ''snapshot_not_found''"
| "store_error_code (UnallocatedPage _) = ''unallocated_page''"
| "store_error_code (NotADatabase _) = ''not_a_database''"
| "store_error_code ReadersActive = ''readers_active''"
| "store_error_code (Unsupported _) = ''unsupported''"

text \<open>\<^verbatim>\<open>MemPager\<close>: the pages of the file, by number.\<close>

type_synonym mem_pager = "page list"

definition pager_read :: "mem_pager \<Rightarrow> pgno \<Rightarrow> store_error + page" where
  "pager_read ps n = (if unat n \<ge> length ps then Inl (OutOfBounds n (of_nat (length ps))) else Inr (ps ! unat n))"

definition pager_page_count :: "mem_pager \<Rightarrow> nat" where
  "pager_page_count ps = length ps"

definition pager_write :: "mem_pager \<Rightarrow> pgno \<Rightarrow> page \<Rightarrow> store_error + mem_pager" where
  "pager_write ps n p = (if unat n < length ps then Inr (ps[unat n := p]) else Inl (OutOfBounds n (of_nat (length ps))))"

definition pager_grow :: "mem_pager \<Rightarrow> nat \<Rightarrow> mem_pager" where
  "pager_grow ps n = (if n > length ps then ps @ replicate (n - length ps) page_zeroed else ps)"

definition pager_truncate :: "mem_pager \<Rightarrow> nat \<Rightarrow> mem_pager" where
  "pager_truncate ps n = (if n < length ps then take n ps else ps)"

text \<open>\<^verbatim>\<open>for (pgno, page) in out { pager.write(*pgno, page)?; }\<close>\<close>

primrec write_all :: "('s \<Rightarrow> pgno \<Rightarrow> page \<Rightarrow> store_error + 's) \<Rightarrow> 's \<Rightarrow> (pgno \<times> page) list \<Rightarrow> store_error + 's" where
  "write_all wr s [] = Inr s"
| "write_all wr s (x # xs) = (case wr s (fst x) (snd x) of Inl e \<Rightarrow> Inl e | Inr s' \<Rightarrow> write_all wr s' xs)"

text \<open>What the layers above rely on of a backend.\<close>

locale page_store =
  fixes rd :: "'s \<Rightarrow> pgno \<Rightarrow> store_error + page"
    and wr :: "'s \<Rightarrow> pgno \<Rightarrow> page \<Rightarrow> store_error + 's"
  assumes rd_wr_same: "wr s n p = Inr s' \<Longrightarrow> rd s' n = Inr p"
    and rd_wr_other: "wr s n p = Inr s' \<Longrightarrow> m \<noteq> n \<Longrightarrow> rd s' m = rd s m"
begin

lemma rd_wr_all_other: "write_all wr s xs = Inr s' \<Longrightarrow> m \<notin> fst ` set xs \<Longrightarrow> rd s' m = rd s m"
  by (induction xs arbitrary: s) (auto simp: rd_wr_other split: sum.splits)

lemma rd_wr_all_same:
  "write_all wr s xs = Inr s' \<Longrightarrow> distinct (map fst xs) \<Longrightarrow> (n, p) \<in> set xs \<Longrightarrow> rd s' n = Inr p"
proof (induction xs arbitrary: s)
  case (Cons x xs)
  then obtain s1 where s1: "wr s (fst x) (snd x) = Inr s1" "write_all wr s1 xs = Inr s'" by (auto split: sum.splits)
  show ?case
  proof (cases "x = (n, p)")
    case True
    with Cons.prems s1 rd_wr_all_other [OF s1(2), of n] rd_wr_same [OF s1(1)] show ?thesis by auto
  next
    case False
    with Cons s1 show ?thesis by auto
  qed
qed simp

end

interpretation mem: page_store pager_read pager_write
  by unfold_locales (auto simp: pager_read_def pager_write_def word_unat_eq_iff split: if_splits)

section \<open>Reading a chain\<close>

definition lift_page :: "page_error + 'a \<Rightarrow> store_error + 'a" where
  "lift_page r = (case r of Inl e \<Rightarrow> Inl (SPage e) | Inr x \<Rightarrow> Inr x)"

text \<open>
  \<^verbatim>\<open>load_chain\<close>: the hop counter may reach \<^verbatim>\<open>page_count + 1\<close>; the argument \<open>hops\<close> counts
  the hops that are left.
\<close>

fun load_chain_from :: "(u8 list \<Rightarrow> u32) \<Rightarrow> (pgno \<Rightarrow> store_error + page) \<Rightarrow> page_type \<Rightarrow> nat \<Rightarrow> pgno \<Rightarrow> nat \<Rightarrow>
    pgno option \<Rightarrow> u8 list list \<Rightarrow> store_error + u8 list list" where
  "load_chain_from crc rd ty stride root hops None out = Inr out"
| "load_chain_from crc rd ty stride root 0 (Some n) out = Inl (ChainCycle root)"
| "load_chain_from crc rd ty stride root (Suc hops) (Some n) out =
     (case rd n of Inl e \<Rightarrow> Inl e
      | Inr page \<Rightarrow>
          (case lift_page (verify_checksum crc page) of Inl e \<Rightarrow> Inl e
           | Inr _ \<Rightarrow>
               (case lift_page (chain_parse page ty stride) of Inl e \<Rightarrow> Inl e
                | Inr c \<Rightarrow> load_chain_from crc rd ty stride root hops (chain_next c) (out @ chain_entries c))))"

definition load_chain :: "(u8 list \<Rightarrow> u32) \<Rightarrow> (pgno \<Rightarrow> store_error + page) \<Rightarrow> nat \<Rightarrow> pgno option \<Rightarrow> page_type \<Rightarrow> nat \<Rightarrow>
    store_error + u8 list list" where
  "load_chain crc rd page_count root ty stride =
     load_chain_from crc rd ty stride (case root of Some r \<Rightarrow> r | None \<Rightarrow> 0) (page_count + 1) root []"

text \<open>
  \<^verbatim>\<open>chain_pgnos\<close> and \<^verbatim>\<open>chain_pgnos_checked\<close> test the length of what they have collected
  before they push, so they allow one page more.
\<close>

fun chain_pgnos_from :: "(page \<Rightarrow> page_error + unit) \<Rightarrow> (pgno \<Rightarrow> store_error + page) \<Rightarrow> page_type \<Rightarrow> nat \<Rightarrow> pgno \<Rightarrow> nat \<Rightarrow>
    pgno option \<Rightarrow> pgno list \<Rightarrow> store_error + pgno list" where
  "chain_pgnos_from chk rd ty stride root hops None out = Inr out"
| "chain_pgnos_from chk rd ty stride root 0 (Some n) out = Inl (ChainCycle root)"
| "chain_pgnos_from chk rd ty stride root (Suc hops) (Some n) out =
     (case rd n of Inl e \<Rightarrow> Inl e
      | Inr page \<Rightarrow>
          (case lift_page (chk page) of Inl e \<Rightarrow> Inl e
           | Inr _ \<Rightarrow>
               (case lift_page (chain_parse page ty stride) of Inl e \<Rightarrow> Inl e
                | Inr c \<Rightarrow> chain_pgnos_from chk rd ty stride root hops (chain_next c) (out @ [n]))))"

definition chain_pgnos :: "(pgno \<Rightarrow> store_error + page) \<Rightarrow> nat \<Rightarrow> pgno option \<Rightarrow> page_type \<Rightarrow> nat \<Rightarrow> store_error + pgno list" where
  "chain_pgnos rd page_count root ty stride =
     chain_pgnos_from (\<lambda>_. Inr ()) rd ty stride (case root of Some r \<Rightarrow> r | None \<Rightarrow> 0) (page_count + 2) root []"

definition chain_pgnos_checked :: "(u8 list \<Rightarrow> u32) \<Rightarrow> (pgno \<Rightarrow> store_error + page) \<Rightarrow> nat \<Rightarrow> pgno option \<Rightarrow> page_type \<Rightarrow> nat \<Rightarrow>
    store_error + pgno list" where
  "chain_pgnos_checked crc rd page_count root ty stride =
     chain_pgnos_from (verify_checksum crc) rd ty stride (case root of Some r \<Rightarrow> r | None \<Rightarrow> 0) (page_count + 2) root []"

section \<open>One page reads back\<close>

lemma write_entries_eq:
  "page_ok p \<Longrightarrow> \<forall>e \<in> set es. length e = stride \<Longrightarrow> CHAIN_DATA + (j + length es) * stride \<le> PAGE_SIZE \<Longrightarrow>
     write_entries p stride j es = put_bytes p (CHAIN_DATA + j * stride) (concat es)"
proof (induction es arbitrary: p j)
  case Nil
  then show ?case by (simp add: put_bytes_def)
next
  case (Cons e es)
  have e: "length e = stride" using Cons.prems by simp
  have len: "length (concat es) = stride * length es"
    using Cons.prems by (induction es) simp_all
  have "write_entries p stride j (e # es)
      = put_bytes (put_bytes p (CHAIN_DATA + j * stride) e) (CHAIN_DATA + Suc j * stride) (concat es)"
    unfolding write_entries.simps(2)
    by (rule Cons.IH) (use Cons.prems e in \<open>auto simp: algebra_simps\<close>)
  also have "\<dots> = put_bytes p (CHAIN_DATA + j * stride) (e @ concat es)"
    using put_bytes_append [of "CHAIN_DATA + j * stride" e "concat es" p] Cons.prems e len
    by (simp add: algebra_simps)
  finally show ?case by simp
qed

lemma concat_entry:
  "\<forall>e \<in> set es. length e = stride \<Longrightarrow> i < length es \<Longrightarrow> get_bytes (concat es) (i * stride) stride = es ! i"
proof (induction es arbitrary: i)
  case (Cons e es)
  then show ?case by (cases i) (auto simp: get_bytes_def)
qed simp

lemma chain_build_page_spec:
  fixes n nxt :: pgno and ty :: page_type and crc :: "u8 list \<Rightarrow> u32"
  assumes es: "\<forall>e \<in> set es. length e = stride" "length es \<le> chain_capacity stride" "0 < stride"
  defines "p \<equiv> chain_build_page crc ty stride n nxt es"
  shows "page_ok p" "verify_checksum crc p = Inr ()"
    and "\<exists>c. chain_parse p ty stride = Inr c \<and> chain_entries c = es \<and>
             chain_next c = (if nxt = 0 then None else Some nxt)"
proof -
  define h where "h = put_bytes (set_header page_zeroed n ty (of_nat (length es))) CHAIN_NEXT (to_le 4 nxt)"
  define q where "q = put_bytes h CHAIN_DATA (concat es)"
  have room: "CHAIN_DATA + length es * stride \<le> PAGE_SIZE - PAGE_TRAILER"
  proof -
    have "length es * stride \<le> chain_capacity stride * stride" using es(2) by simp
    also have "\<dots> \<le> PAGE_SIZE - PAGE_TRAILER - CHAIN_DATA" by (simp add: chain_capacity_def)
    finally show ?thesis by (simp add: layout_defs CHAIN_DATA_def)
  qed
  have len: "length (concat es) = length es * stride" using es(1) by (induction es) simp_all
  have h: "page_ok h" by (simp add: h_def CHAIN_NEXT_def layout_defs)
  have q: "page_ok q" using h room len by (simp add: q_def layout_defs)
  have p: "p = page_seal crc q"
    using write_entries_eq [of h es stride 0] h es(1) room
    by (simp add: p_def chain_build_page_def Let_def q_def h_def layout_defs)
  show "page_ok p" "verify_checksum crc p = Inr ()" using q by (simp_all add: p verify_seal)
  have hd: "get_bytes p a m = get_bytes h a m" if "a + m \<le> 16" for a m
    using that get_seal [OF q, of a m crc] get_put_other [of CHAIN_DATA "concat es" h a m] h len room
    by (simp add: p q_def layout_defs CHAIN_DATA_def)
  have hd': "get_bytes h a m = get_bytes (set_header page_zeroed n ty (of_nat (length es))) a m" if "a + m \<le> 12" for a m
    using that unfolding h_def by (intro get_put_other) (simp_all add: CHAIN_NEXT_def layout_defs)
  have fields: "page_flags p = ucast (page_type_u8 ty)" "page_cell_count p = of_nat (length es)"
    using header_fields [of page_zeroed n ty "of_nat (length es)"]
    by (simp_all add: page_flags_def page_cell_count_def rd32_def rd16_def hd hd')
  have "length es \<le> length es * stride" using es(3) by simp
  then have "length es < 65536" using room unfolding layout_defs by linarith
  then have count: "unat (page_cell_count p) = length es" using fields by (simp add: unat_of_nat)
  have nxt: "rd32 p CHAIN_NEXT = nxt"
    using get_put_same [of CHAIN_NEXT "to_le 4 nxt" "set_header page_zeroed n ty (of_nat (length es))" 4]
    by (simp add: rd32_def hd CHAIN_NEXT_def layout_defs flip: h_def [unfolded CHAIN_NEXT_def PAGE_HEADER_def])
  define c where "c = \<lparr>chpage = p, chcount = length es, chstride = stride\<rparr>"
  have "chain_parse p ty stride = Inr c"
    using fields count room by (simp add: chain_parse_def Let_def page_type_mask c_def)
  moreover have "get_bytes p (CHAIN_DATA + i * stride) stride = es ! i" if "i < length es" for i
  proof -
    have "(i + 1) * stride \<le> length es * stride" using that by (intro mult_right_mono) simp_all
    then have i: "i * stride + stride \<le> length es * stride" by simp
    have "get_bytes p (CHAIN_DATA + i * stride) stride = get_bytes q (CHAIN_DATA + i * stride) stride"
      unfolding p by (rule get_seal [OF q]) (use i room in simp)
    also have "\<dots> = get_bytes (concat es) (i * stride) stride"
      using get_put_inside [of CHAIN_DATA "concat es" h "CHAIN_DATA + i * stride" stride] i room len h
      by (simp add: q_def layout_defs)
    finally show ?thesis using concat_entry [OF es(1) that] by simp
  qed
  then have "chain_entries c = es"
    by (intro nth_equalityI) (simp_all add: chain_entries_def chain_entry_def c_def)
  ultimately show "\<exists>c. chain_parse p ty stride = Inr c \<and> chain_entries c = es \<and>
             chain_next c = (if nxt = 0 then None else Some nxt)"
    using nxt by (auto simp: chain_next_def Let_def c_def)
qed

section \<open>The whole chain reads back\<close>

lemma chunks_of_spec:
  assumes "0 < n"
  shows "concat (chunks_of n xs) = xs" "c \<in> set (chunks_of n xs) \<Longrightarrow> length c \<le> n \<and> set c \<subseteq> set xs"
    "length (chunks_of n xs) = (length xs + n - 1) div n"
proof -
  have "concat (chunks_of n xs) = xs \<and> (\<forall>c \<in> set (chunks_of n xs). length c \<le> n \<and> set c \<subseteq> set xs) \<and>
        length (chunks_of n xs) = (length xs + n - 1) div n"
    using assms
  proof (induction n xs rule: chunks_of.induct)
    case (1 n xs)
    show ?case
    proof (cases "xs = []")
      case True
      with 1 show ?thesis by (simp add: chunks_of.simps)
    next
      case False
      have step: "chunks_of n xs = take n xs # chunks_of n (drop n xs)"
        using False 1 by (simp add: chunks_of.simps [of n xs])
      have "(length xs + n - 1) div n = Suc ((length (drop n xs) + n - 1) div n)"
      proof (cases "length xs \<le> n")
        case True
        then have "length xs + n - 1 = n + (length xs - 1)" "length xs - 1 < n" using False by (cases xs; simp)+
        then have "(length xs + n - 1) div n = 1"
          using div_add_self1 [of n "length xs - 1"] "1.prems" by simp
        with True 1 show ?thesis by simp
      next
        case gt: False
        then have "length xs + n - 1 = n + (length (drop n xs) + n - 1)" by simp
        then show ?thesis using div_add_self1 [of n "length (drop n xs) + n - 1"] "1.prems" by (simp only:)
      qed
      with 1 False step show ?thesis
        by (auto dest: in_set_takeD in_set_dropD)
    qed
  qed
  then show "concat (chunks_of n xs) = xs" "c \<in> set (chunks_of n xs) \<Longrightarrow> length c \<le> n \<and> set c \<subseteq> set xs"
    "length (chunks_of n xs) = (length xs + n - 1) div n" by auto
qed

text \<open>A chain in a store: one page after the other, each with its entries.\<close>

fun chained :: "(u8 list \<Rightarrow> u32) \<Rightarrow> (pgno \<Rightarrow> store_error + page) \<Rightarrow> page_type \<Rightarrow> nat \<Rightarrow> pgno list \<Rightarrow> u8 list list list \<Rightarrow> bool" where
  "chained crc rd ty stride [] [] \<longleftrightarrow> True"
| "chained crc rd ty stride (n # ns) (es # ess) \<longleftrightarrow>
     (\<exists>p c. rd n = Inr p \<and> verify_checksum crc p = Inr () \<and> chain_parse p ty stride = Inr c \<and> chain_entries c = es \<and>
        chain_next c = (case ns of [] \<Rightarrow> None | m # _ \<Rightarrow> Some m)) \<and>
     chained crc rd ty stride ns ess"
| "chained crc rd ty stride _ _ \<longleftrightarrow> False"

definition chain_head :: "pgno list \<Rightarrow> pgno option" where
  "chain_head ns = (case ns of [] \<Rightarrow> None | n # _ \<Rightarrow> Some n)"

lemma load_chained:
  "chained crc rd ty stride ns ess \<Longrightarrow> length ns \<le> hops \<Longrightarrow>
     load_chain_from crc rd ty stride root hops (chain_head ns) out = Inr (out @ concat ess)"
proof (induction crc rd ty stride ns ess arbitrary: hops out rule: chained.induct)
  case (2 crc rd ty stride n ns es ess)
  then obtain h where h: "hops = Suc h" "length ns \<le> h" by (cases hops) auto
  with 2 show ?case by (auto simp: chain_head_def lift_page_def)
qed (simp_all add: chain_head_def)

lemma pgnos_chained:
  "chained crc rd ty stride ns ess \<Longrightarrow> length ns \<le> hops \<Longrightarrow> (\<And>p. verify_checksum crc p = Inr () \<Longrightarrow> chk p = Inr ()) \<Longrightarrow>
     chain_pgnos_from chk rd ty stride root hops (chain_head ns) out = Inr (out @ ns)"
proof (induction crc rd ty stride ns ess arbitrary: hops out rule: chained.induct)
  case (2 crc rd ty stride n ns es ess)
  then obtain h where h: "hops = Suc h" "length ns \<le> h" by (cases hops) auto
  with 2 show ?case by (auto simp: chain_head_def lift_page_def)
qed (simp_all add: chain_head_def)

lemma chained_cong: "(\<And>n. n \<in> set ns \<Longrightarrow> rd n = rd' n) \<Longrightarrow> chained crc rd ty stride ns ess \<Longrightarrow> chained crc rd' ty stride ns ess"
  by (induction crc rd ty stride ns ess rule: chained.induct) auto

lemma chained_length: "chained crc rd ty stride ns ess \<Longrightarrow> length ns = length ess"
  by (induction crc rd ty stride ns ess rule: chained.induct) auto

definition padded_chunks :: "nat \<Rightarrow> u8 list list \<Rightarrow> pgno list \<Rightarrow> u8 list list list" where
  "padded_chunks stride entries ns =
     (let c = chunks_of (chain_capacity stride) entries in c @ replicate (length ns - length c) [])"

lemma build_chain_eq:
  assumes "chain_pages_needed stride (length entries) \<le> length ns" "0 < chain_capacity stride"
  shows "build_chain crc ty stride entries ns =
    map (\<lambda>i. (ns ! i, chain_build_page crc ty stride (ns ! i) (if i + 1 < length ns then ns ! (i + 1) else 0)
                        (padded_chunks stride entries ns ! i))) [0..<length ns]"
    and "length (padded_chunks stride entries ns) = length ns"
    and "concat (padded_chunks stride entries ns) = entries"
    and "c \<in> set (padded_chunks stride entries ns) \<Longrightarrow> length c \<le> chain_capacity stride \<and> set c \<subseteq> set entries"
proof -
  note ch = chunks_of_spec [OF assms(2), where xs = entries]
  show len: "length (padded_chunks stride entries ns) = length ns"
    using assms(1) ch(3) by (simp add: padded_chunks_def Let_def chain_pages_needed_def)
  show "concat (padded_chunks stride entries ns) = entries"
    using ch(1) by (simp add: padded_chunks_def Let_def concat_replicate_trivial)
  show "c \<in> set (padded_chunks stride entries ns) \<Longrightarrow> length c \<le> chain_capacity stride \<and> set c \<subseteq> set entries"
    using ch(2) by (auto simp: padded_chunks_def Let_def)
  show "build_chain crc ty stride entries ns =
    map (\<lambda>i. (ns ! i, chain_build_page crc ty stride (ns ! i) (if i + 1 < length ns then ns ! (i + 1) else 0)
                        (padded_chunks stride entries ns ! i))) [0..<length ns]"
    using len by (auto simp: build_chain_def padded_chunks_def Let_def)
qed

lemma chained_nth:
  assumes "length ns = length ess"
    and "\<And>i. i < length ns \<Longrightarrow> \<exists>p c. rd (ns ! i) = Inr p \<and> verify_checksum crc p = Inr () \<and> chain_parse p ty stride = Inr c \<and>
          chain_entries c = ess ! i \<and> chain_next c = (if i + 1 < length ns then Some (ns ! (i + 1)) else None)"
  shows "chained crc rd ty stride ns ess"
  using assms
proof (induction ns ess rule: list_induct2')
  case (4 n ns es ess)
  have "chained crc rd ty stride ns ess"
  proof (rule "4.IH")
    fix i assume "i < length ns"
    with "4.prems"(2) [of "Suc i"] show "\<exists>p c. rd (ns ! i) = Inr p \<and> verify_checksum crc p = Inr () \<and>
        chain_parse p ty stride = Inr c \<and> chain_entries c = ess ! i \<and>
        chain_next c = (if i + 1 < length ns then Some (ns ! (i + 1)) else None)"
      by (cases "Suc i < length ns") simp_all
  qed (use 4 in simp)
  moreover have "(if 0 + 1 < length (n # ns) then Some ((n # ns) ! (0 + 1)) else None) = (case ns of [] \<Rightarrow> None | m # _ \<Rightarrow> Some m)"
    by (cases ns) auto
  ultimately show ?case using "4.prems"(2) [of 0] by simp
qed simp_all

lemma build_chain_chained:
  assumes stride: "0 < stride" "0 < chain_capacity stride"
    and es: "\<forall>e \<in> set entries. length e = stride"
    and ns: "chain_pages_needed stride (length entries) \<le> length ns" "0 \<notin> set ns"
    and rd: "\<And>n p. (n, p) \<in> set (build_chain crc ty stride entries ns) \<Longrightarrow> rd n = Inr p"
  shows "chained crc rd ty stride ns (padded_chunks stride entries ns)"
proof (rule chained_nth)
  note eq = build_chain_eq [OF ns(1) stride(2)]
  show "length ns = length (padded_chunks stride entries ns)" using eq(2) by simp
  fix i assume i: "i < length ns"
  let ?c = "padded_chunks stride entries ns ! i"
    and ?nxt = "if i + 1 < length ns then ns ! (i + 1) else 0"
  have "rd (ns ! i) = Inr (chain_build_page crc ty stride (ns ! i) ?nxt ?c)"
    using rd i eq(1) by auto
  moreover have "?c \<in> set (padded_chunks stride entries ns)" using i eq(2) by simp
  with eq(4) es have "\<forall>e \<in> set ?c. length e = stride" "length ?c \<le> chain_capacity stride" by blast+
  moreover have "i + 1 < length ns \<Longrightarrow> ns ! (i + 1) \<noteq> 0" using ns(2) nth_mem by metis
  ultimately show "\<exists>p c. rd (ns ! i) = Inr p \<and> verify_checksum crc p = Inr () \<and> chain_parse p ty stride = Inr c \<and>
      chain_entries c = ?c \<and> chain_next c = (if i + 1 < length ns then Some (ns ! (i + 1)) else None)"
    using chain_build_page_spec [of ?c stride crc ty "ns ! i" ?nxt] stride(1)
    by (cases "i + 1 < length ns") auto
qed

lemma load_build_chain:
  assumes "chained crc rd ty stride ns (padded_chunks stride entries ns)" "length ns \<le> page_count + 1"
    and "chain_pages_needed stride (length entries) \<le> length ns" "0 < chain_capacity stride"
  shows "load_chain crc rd page_count (chain_head ns) ty stride = Inr entries"
    and "chain_pgnos rd page_count (chain_head ns) ty stride = Inr ns"
  using load_chained [OF assms(1), of "page_count + 1" _ "[]"] pgnos_chained [OF assms(1), of "page_count + 2" _ _ "[]"]
    assms(2) build_chain_eq(3) [OF assms(3,4)]
  by (simp_all add: load_chain_def chain_pgnos_def)

section \<open>Readers always stop\<close>

text \<open>A chain that runs into itself is an error after at most one hop per page.\<close>

lemma load_chain_cycle:
  assumes "\<And>n. n \<in> N \<Longrightarrow> \<exists>p c m. rd n = Inr p \<and> verify_checksum crc p = Inr () \<and>
             chain_parse p ty stride = Inr c \<and> chain_next c = Some m \<and> m \<in> N"
    and "r \<in> N"
  shows "load_chain_from crc rd ty stride root hops (Some r) out = Inl (ChainCycle root)"
  using assms(2)
proof (induction hops arbitrary: r out)
  case (Suc hops)
  from assms(1) [OF Suc.prems] obtain p c m where
    "rd r = Inr p" "verify_checksum crc p = Inr ()" "chain_parse p ty stride = Inr c" "chain_next c = Some m" "m \<in> N"
    by blast
  with Suc.IH [of m] show ?case by (simp add: lift_page_def)
qed simp

section \<open>Properties\<close>

text \<open>
  C31. A chain that was built and written reads back: loading it from its first page gives every entry
  in order, and walking it gives the pages it was written to.
\<close>

theorem chain_roundtrip:
  assumes "0 < stride" "0 < chain_capacity stride" "\<forall>e \<in> set entries. length e = stride"
    and "chain_pages_needed stride (length entries) \<le> length ns" "distinct ns" "0 \<notin> set ns" "length ns \<le> length ps + 1"
    and "write_all pager_write ps (build_chain crc ty stride entries ns) = Inr ps'"
  shows "load_chain crc (pager_read ps') (length ps) (chain_head ns) ty stride = Inr entries \<and>
         chain_pgnos (pager_read ps') (length ps) (chain_head ns) ty stride = Inr ns"
proof -
  have "map fst (build_chain crc ty stride entries ns) = ns"
    unfolding build_chain_eq(1) [OF assms(4,2)] by (simp add: o_def map_nth)
  then have "distinct (map fst (build_chain crc ty stride entries ns))" using assms(5) by simp
  from mem.rd_wr_all_same [OF assms(8) this]
  have "chained crc (pager_read ps') ty stride ns (padded_chunks stride entries ns)"
    by (intro build_chain_chained [OF assms(1-4,6)])
  from load_build_chain [OF this assms(7,4,2)] show ?thesis by simp
qed

theorem chain_roundtrip_witness:
  "\<exists>ps'. write_all pager_write [page_zeroed, page_zeroed, page_zeroed] (build_chain (\<lambda>_. 7) PCatalog 128 [replicate 128 1] [2]) = Inr ps' \<and>
     load_chain (\<lambda>_. 7) (pager_read ps') 3 (Some 2) PCatalog 128 = Inr [replicate 128 1]"
proof -
  have cap: "0 < chain_capacity 128" "chain_pages_needed 128 (Suc 0) = 1"
    by (simp_all add: chain_capacity_def chain_pages_needed_def CHAIN_DATA_def layout_defs)
  have "map fst (build_chain (\<lambda>_. 7) PCatalog 128 [replicate 128 1] [2]) = [2 :: pgno]"
    using build_chain_eq(1) [of 128 "[replicate 128 1]" "[2]"] cap by simp
  then obtain p where b: "build_chain (\<lambda>_. 7) PCatalog 128 [replicate 128 1] [2] = [(2, p)]"
    by (cases "build_chain (\<lambda>_. 7) PCatalog 128 [replicate 128 1] [2 :: pgno]") auto
  then have w: "write_all pager_write [page_zeroed, page_zeroed, page_zeroed] (build_chain (\<lambda>_. 7) PCatalog 128 [replicate 128 1] [2]) =
      Inr [page_zeroed, page_zeroed, p]" by (simp add: pager_write_def)
  with chain_roundtrip [of 128 "[replicate 128 1]" "[2]", OF _ _ _ _ _ _ _ w] cap show ?thesis by (simp add: chain_head_def numeral_3_eq_3)
qed

text \<open>
  C32. A chain whose pages lead back into it is reported as a cycle: reading always stops, however the
  pages are linked.
\<close>

theorem chain_cycle_detected:
  assumes "\<And>n. n \<in> N \<Longrightarrow> \<exists>p c m. rd n = Inr p \<and> verify_checksum crc p = Inr () \<and>
             chain_parse p ty stride = Inr c \<and> chain_next c = Some m \<and> m \<in> N"
    and "r \<in> N"
  shows "load_chain crc rd page_count (Some r) ty stride = Inl (ChainCycle r)"
  unfolding load_chain_def option.case by (rule load_chain_cycle [OF assms])

theorem chain_cycle_detected_witness:
  "load_chain (\<lambda>_. 7) (\<lambda>_. Inr (chain_build_page (\<lambda>_. 7) PCatalog 128 5 5 [])) 3 (Some 5) PCatalog 128 = Inl (ChainCycle 5)"
proof (rule chain_cycle_detected [where N = "{5}"])
  fix n :: pgno assume "n \<in> {5}"
  have "\<exists>c. chain_parse (chain_build_page (\<lambda>_. 7) PCatalog 128 5 5 []) PCatalog 128 = Inr c \<and> chain_next c = Some 5"
    "verify_checksum (\<lambda>_. 7) (chain_build_page (\<lambda>_. 7) PCatalog 128 5 5 []) = Inr ()"
    using chain_build_page_spec [of "[]" 128 "\<lambda>_. 7" PCatalog 5 5] by auto
  then show "\<exists>p c m. (Inr (chain_build_page (\<lambda>_. 7) PCatalog 128 5 5 []) :: store_error + page) = Inr p \<and> verify_checksum (\<lambda>_. 7) p = Inr () \<and>
      chain_parse p PCatalog 128 = Inr c \<and> chain_next c = Some m \<and> m \<in> {5}" by auto
qed simp

end
