(* ===== verification/Big_Map.thy ===== *)
theory Big_Map
  imports Big_Prelude
begin

text \<open>
  \<^verbatim>\<open>std::collections::BTreeMap\<close> as the code uses it (root records, dirty pages, registered
  readers): an ascending association list. The contract its users rely on is the locale
  \<open>ordered_map\<close>.
\<close>

type_synonym ('k, 'v) btree_map = "('k \<times> 'v) list"

definition bt_get :: "('k, 'v) btree_map \<Rightarrow> 'k \<Rightarrow> 'v option" where
  "bt_get m k = map_of m k"

fun bt_insert :: "'k::linorder \<Rightarrow> 'v \<Rightarrow> ('k, 'v) btree_map \<Rightarrow> ('k, 'v) btree_map" where
  "bt_insert k v [] = [(k, v)]"
| "bt_insert k v ((k', v') # m) =
     (if k < k' then (k, v) # (k', v') # m
      else if k = k' then (k, v) # m
      else (k', v') # bt_insert k v m)"

fun bt_remove :: "'k::linorder \<Rightarrow> ('k, 'v) btree_map \<Rightarrow> ('k, 'v) btree_map" where
  "bt_remove k [] = []"
| "bt_remove k ((k', v') # m) = (if k = k' then m else (k', v') # bt_remove k m)"

definition bt_inv :: "('k::linorder, 'v) btree_map \<Rightarrow> bool" where
  "bt_inv m \<longleftrightarrow> ssorted (map fst m)"

lemma bt_inv_simps [simp]:
  "bt_inv []" "bt_inv ((k, v) # m) \<longleftrightarrow> (\<forall>x \<in> set m. k < fst x) \<and> bt_inv m"
  by (auto simp: bt_inv_def)

lemma set_bt_insert: "set (bt_insert k v m) \<subseteq> insert (k, v) (set m)"
  by (induction k v m rule: bt_insert.induct) auto

lemma set_bt_remove: "set (bt_remove k m) \<subseteq> set m"
  by (induction k m rule: bt_remove.induct) auto

lemma bt_inv_insert [simp]: "bt_inv m \<Longrightarrow> bt_inv (bt_insert k v m)"
proof (induction k v m rule: bt_insert.induct)
  case (2 k v k' v' m)
  then show ?case using set_bt_insert [of k v m] by fastforce
qed simp

lemma bt_inv_remove [simp]: "bt_inv m \<Longrightarrow> bt_inv (bt_remove k m)"
proof (induction k m rule: bt_remove.induct)
  case (2 k k' v' m)
  then show ?case using set_bt_remove [of k m] by fastforce
qed simp

lemma bt_get_Cons: "bt_get ((k', v') # m) k = (if k = k' then Some v' else bt_get m k)"
  by (simp add: bt_get_def)

lemma bt_get_insert: "bt_inv m \<Longrightarrow> bt_get (bt_insert k v m) j = (if j = k then Some v else bt_get m j)"
  by (induction k v m rule: bt_insert.induct) (auto simp: bt_get_def)

lemma bt_get_above: "\<forall>x \<in> set m. k < fst x \<Longrightarrow> bt_get m k = None" for k :: "'k::linorder"
  by (induction m) (auto simp: bt_get_def)

lemma bt_get_remove: "bt_inv m \<Longrightarrow> bt_get (bt_remove k m) j = (if j = k then None else bt_get m j)"
proof (induction k m rule: bt_remove.induct)
  case (2 k k' v' m)
  then show ?case by (auto simp: bt_get_Cons bt_get_above)
qed (simp add: bt_get_def)

section \<open>The contract\<close>

locale ordered_map =
  fixes get :: "'m \<Rightarrow> 'k::linorder \<Rightarrow> 'v option"
    and ins :: "'k \<Rightarrow> 'v \<Rightarrow> 'm \<Rightarrow> 'm"
    and del :: "'k \<Rightarrow> 'm \<Rightarrow> 'm"
    and ok :: "'m \<Rightarrow> bool"
  assumes get_ins: "ok m \<Longrightarrow> get (ins k v m) j = (if j = k then Some v else get m j)"
    and get_del: "ok m \<Longrightarrow> get (del k m) j = (if j = k then None else get m j)"
    and ok_ins: "ok m \<Longrightarrow> ok (ins k v m)"
    and ok_del: "ok m \<Longrightarrow> ok (del k m)"
begin

text \<open>Loading a list of pairs one insertion at a time: the last value of a key stays.\<close>

lemma load_pairs:
  assumes "ok m"
  shows "ok (foldl (\<lambda>m x. ins (fst x) (snd x) m) m xs)"
    and "get (foldl (\<lambda>m x. ins (fst x) (snd x) m) m xs) k = (case map_of (rev xs) k of Some v \<Rightarrow> Some v | None \<Rightarrow> get m k)"
proof -
  have "ok (foldl (\<lambda>m x. ins (fst x) (snd x) m) m xs) \<and>
    get (foldl (\<lambda>m x. ins (fst x) (snd x) m) m xs) k = (case map_of (rev xs) k of Some v \<Rightarrow> Some v | None \<Rightarrow> get m k)"
    using assms
  proof (induction xs rule: rev_induct)
    case (snoc x xs)
    then show ?case by (cases x) (simp add: get_ins ok_ins)
  qed simp
  then show "ok (foldl (\<lambda>m x. ins (fst x) (snd x) m) m xs)"
    "get (foldl (\<lambda>m x. ins (fst x) (snd x) m) m xs) k = (case map_of (rev xs) k of Some v \<Rightarrow> Some v | None \<Rightarrow> get m k)"
    by auto
qed

end

interpretation bt: ordered_map bt_get bt_insert bt_remove bt_inv
  by unfold_locales (simp_all add: bt_get_insert bt_get_remove)

text \<open>Two ascending lists that look up alike are the same list.\<close>

lemma bt_ext:
  assumes "bt_inv m" "bt_inv m'" "\<And>k. bt_get m k = bt_get m' k"
  shows "m = m'"
  using assms
proof (induction m arbitrary: m')
  case Nil
  then show ?case
  proof (cases m')
    case (Cons y m1)
    with Nil.prems(3) [of "fst y"] show ?thesis by (simp add: bt_get_def)
  qed simp
next
  case (Cons x m)
  obtain k v where x: "x = (k, v)" by fastforce
  have "m' \<noteq> []" using Cons.prems(3) [of k] x by (auto simp: bt_get_def)
  then obtain k' v' m1 where m': "m' = (k', v') # m1" by (metis list.exhaust surj_pair)
  have low: "bt_get m j = None" if "j \<le> k" for j
    using that Cons.prems(1) x by (intro bt_get_above) auto
  have low': "bt_get m1 j = None" if "j \<le> k'" for j
    using that Cons.prems(2) m' by (intro bt_get_above) auto
  have "k = k'"
    using Cons.prems(3) [of k] Cons.prems(3) [of k'] x m' low [of k'] low' [of k]
    by (cases k k' rule: linorder_cases) (auto simp: bt_get_Cons split: if_splits)
  moreover have "v = v'" using Cons.prems(3) [of k] x m' calculation by (simp add: bt_get_Cons)
  moreover have "m = m1"
  proof (rule Cons.IH)
    show "bt_inv m" "bt_inv m1" using Cons.prems x m' by simp_all
    show "bt_get m j = bt_get m1 j" for j
      using Cons.prems(3) [of j] x m' \<open>k = k'\<close> low [of k] low' [of k'] by (cases "j = k") (simp_all add: bt_get_Cons)
  qed
  ultimately show ?case by (simp add: x m')
qed

lemma map_of_rev_distinct: "distinct (map fst xs) \<Longrightarrow> map_of (rev xs) = map_of xs"
proof (induction xs)
  case (Cons x xs)
  then have "map_of xs (fst x) = None" by (simp add: map_of_eq_None_iff)
  with Cons show ?case by (auto simp: map_add_def split: option.splits)
qed simp

lemma bt_load:
  assumes "bt_inv m"
  shows "foldl (\<lambda>m x. bt_insert (fst x) (snd x) m) [] m = m"
proof (rule bt_ext)
  have d: "distinct (map fst m)" using assms by (simp add: bt_inv_def strict_sorted_iff)
  show "bt_inv (foldl (\<lambda>m x. bt_insert (fst x) (snd x) m) [] m)" by (rule bt.load_pairs) simp
  show "bt_get (foldl (\<lambda>m x. bt_insert (fst x) (snd x) m) [] m) k = bt_get m k" for k
    using bt.load_pairs(2) [of "[]" m k] d
    by (simp add: bt_get_def map_of_rev_distinct split: option.splits)
qed (rule assms)

end
