(* ===== verification/Big_Records.thy ===== *)
theory Big_Records
  imports Big_Chain Big_Map
begin

text \<open>
  The records the chains carry and the meta page that names the chains:
  \<^verbatim>\<open>crates/big-page/src/{key,meta}.rs\<close> and \<^verbatim>\<open>crates/big-pager/src/{roots,snapshot}.rs\<close>.
\<close>

section \<open>Fragment keys and root records\<close>

definition FRAGMENT_KEY_BYTES :: nat where "FRAGMENT_KEY_BYTES = 20"
definition ROOT_RECORD_BYTES :: nat where "ROOT_RECORD_BYTES = 24"

datatype fragment_key = FragmentKey (fk_table: u32) (fk_field: u32) (fk_view: u32) (fk_shard: u64)

text \<open>The derived \<^verbatim>\<open>Ord\<close>: field by field, in declaration order.\<close>

instantiation fragment_key :: linorder
begin

definition less_fragment_key :: "fragment_key \<Rightarrow> fragment_key \<Rightarrow> bool" where
  "less_fragment_key a b \<longleftrightarrow>
     fk_table a < fk_table b \<or> fk_table a = fk_table b \<and>
     (fk_field a < fk_field b \<or> fk_field a = fk_field b \<and>
      (fk_view a < fk_view b \<or> fk_view a = fk_view b \<and> fk_shard a < fk_shard b))"

definition less_eq_fragment_key :: "fragment_key \<Rightarrow> fragment_key \<Rightarrow> bool" where
  "less_eq_fragment_key a b \<longleftrightarrow> a < b \<or> a = (b :: fragment_key)"

instance
proof
  fix x y z :: fragment_key
  show "(x < y) = (x \<le> y \<and> \<not> y \<le> x)"
    by (auto simp: less_fragment_key_def less_eq_fragment_key_def)
  show "x \<le> x" by (simp add: less_eq_fragment_key_def)
  show "x \<le> y \<Longrightarrow> y \<le> z \<Longrightarrow> x \<le> z"
    by (auto simp: less_fragment_key_def less_eq_fragment_key_def)
  show "x \<le> y \<Longrightarrow> y \<le> x \<Longrightarrow> x = y"
    by (auto simp: less_fragment_key_def less_eq_fragment_key_def)
  show "x \<le> y \<or> y \<le> x"
    by (cases x; cases y) (auto simp: less_fragment_key_def less_eq_fragment_key_def)
qed

end

definition fragment_key_encode :: "fragment_key \<Rightarrow> u8 list" where
  "fragment_key_encode k =
     (let b0 = replicate FRAGMENT_KEY_BYTES 0;
          b1 = put_bytes b0 0 (to_le 4 (fk_table k));
          b2 = put_bytes b1 4 (to_le 4 (fk_field k));
          b3 = put_bytes b2 8 (to_le 4 (fk_view k))
      in put_bytes b3 12 (to_le 8 (fk_shard k)))"

definition fragment_key_decode :: "u8 list \<Rightarrow> fragment_key" where
  "fragment_key_decode b = FragmentKey (rd32 b 0) (rd32 b 4) (rd32 b 8) (rd64 b 12)"

definition root_record_encode :: "fragment_key \<times> pgno \<Rightarrow> u8 list" where
  "root_record_encode r =
     (let b0 = replicate ROOT_RECORD_BYTES 0;
          b1 = put_bytes b0 0 (fragment_key_encode (fst r))
      in put_bytes b1 FRAGMENT_KEY_BYTES (to_le 4 (snd r)))"

definition root_record_decode :: "u8 list \<Rightarrow> fragment_key \<times> pgno" where
  "root_record_decode b = (fragment_key_decode b, rd32 b FRAGMENT_KEY_BYTES)"

type_synonym root_records = "(fragment_key, pgno) btree_map"

definition roots_from_entries :: "u8 list list \<Rightarrow> root_records" where
  "roots_from_entries entries =
     foldl (\<lambda>m e. let r = root_record_decode e in bt_insert (fst r) (snd r) m) [] entries"

definition roots_get :: "root_records \<Rightarrow> fragment_key \<Rightarrow> pgno option" where
  "roots_get m k = bt_get m k"

definition roots_set :: "root_records \<Rightarrow> fragment_key \<Rightarrow> pgno \<Rightarrow> root_records" where
  "roots_set m k r = bt_insert k r m"

definition roots_remove :: "root_records \<Rightarrow> fragment_key \<Rightarrow> pgno option \<times> root_records" where
  "roots_remove m k = (bt_get m k, bt_remove k m)"

definition roots_range :: "root_records \<Rightarrow> fragment_key \<Rightarrow> fragment_key \<Rightarrow> (fragment_key \<times> pgno) list" where
  "roots_range m lo hi = filter (\<lambda>x. lo \<le> fst x \<and> fst x < hi) m"

definition roots_encode :: "root_records \<Rightarrow> u8 list list" where
  "roots_encode m = map root_record_encode m"

lemma put_bytes_zero: "length bs = n \<Longrightarrow> put_bytes (replicate n x) 0 bs = bs"
  by (simp add: put_bytes_def)

lemma length_fragment_key_encode [simp]: "length (fragment_key_encode k) = 20"
  by (simp add: fragment_key_encode_def Let_def FRAGMENT_KEY_BYTES_def)

lemma fragment_key_roundtrip: "fragment_key_decode (fragment_key_encode k) = k"
  by (simp add: fragment_key_decode_def fragment_key_encode_def Let_def rd32_def rd64_def FRAGMENT_KEY_BYTES_def
      get_put_same get_put_other)

lemma fragment_key_decode_prefix:
  assumes "get_bytes b 0 20 = fragment_key_encode k"
  shows "fragment_key_decode b = k"
proof -
  have "get_bytes b a n = get_bytes (fragment_key_encode k) a n" if "a + n \<le> 20" for a n
    using get_bytes_sub [OF assms, of a n] that by simp
  then have "fragment_key_decode b = fragment_key_decode (fragment_key_encode k)"
    by (simp add: fragment_key_decode_def rd32_def rd64_def)
  then show ?thesis by (simp add: fragment_key_roundtrip)
qed

lemma length_root_record_encode [simp]: "length (root_record_encode r) = 24"
  by (simp add: root_record_encode_def Let_def ROOT_RECORD_BYTES_def FRAGMENT_KEY_BYTES_def)

lemma root_record_roundtrip: "root_record_decode (root_record_encode r) = r"
proof -
  have "fragment_key_decode (root_record_encode r) = fst r"
    by (rule fragment_key_decode_prefix)
      (simp add: root_record_encode_def Let_def ROOT_RECORD_BYTES_def FRAGMENT_KEY_BYTES_def get_put_other get_put_same)
  moreover have "rd32 (root_record_encode r) FRAGMENT_KEY_BYTES = snd r"
    by (simp add: root_record_encode_def Let_def ROOT_RECORD_BYTES_def FRAGMENT_KEY_BYTES_def rd32_def get_put_same)
  ultimately show ?thesis by (simp add: root_record_decode_def)
qed

lemma roots_roundtrip:
  assumes "bt_inv m"
  shows "roots_from_entries (roots_encode m) = m"
proof -
  have "roots_from_entries (roots_encode m) = foldl (\<lambda>m x. bt_insert (fst x) (snd x) m) [] m"
    unfolding roots_from_entries_def roots_encode_def foldl_map by (simp add: root_record_roundtrip Let_def)
  with bt_load [OF assms] show ?thesis by simp
qed

section \<open>Snapshots\<close>

definition SNAPSHOT_ENTRY_BYTES :: nat where "SNAPSHOT_ENTRY_BYTES = 64"
definition SNAPSHOT_NAME_LEN :: nat where "SNAPSHOT_NAME_LEN = 32"
definition SNAP_PINNED :: u32 where "SNAP_PINNED = 1"
definition CATALOG_ENTRY_BYTES :: nat where "CATALOG_ENTRY_BYTES = 128"

record snapshot =
  snap_id :: u64
  snap_txn_id :: txn_id
  snap_root_records :: pgno
  snap_flags :: u32
  expires_at :: u64
  snap_name :: "u8 list"

definition is_pinned :: "snapshot \<Rightarrow> bool" where
  "is_pinned s \<longleftrightarrow> snap_flags s AND SNAP_PINNED \<noteq> 0"

definition is_expired :: "snapshot \<Rightarrow> u64 \<Rightarrow> bool" where
  "is_expired s now \<longleftrightarrow> \<not> is_pinned s \<and> expires_at s \<le> now"

definition make_name :: "u8 list \<Rightarrow> u8 list" where
  "make_name b = (let len = min (length b) SNAPSHOT_NAME_LEN
                  in put_bytes (replicate SNAPSHOT_NAME_LEN 0) 0 (take len b))"

definition snapshot_encode :: "snapshot \<Rightarrow> u8 list" where
  "snapshot_encode s =
     (let b0 = replicate SNAPSHOT_ENTRY_BYTES 0;
          b1 = put_bytes b0 0 (to_le 8 (snap_id s));
          b2 = put_bytes b1 8 (to_le 8 (snap_txn_id s));
          b3 = put_bytes b2 16 (to_le 4 (snap_root_records s));
          b4 = put_bytes b3 20 (to_le 4 (snap_flags s));
          b5 = put_bytes b4 24 (to_le 8 (expires_at s))
      in put_bytes b5 32 (snap_name s))"

definition snapshot_decode :: "u8 list \<Rightarrow> snapshot" where
  "snapshot_decode b =
     \<lparr>snap_id = rd64 b 0, snap_txn_id = rd64 b 8, snap_root_records = rd32 b 16, snap_flags = rd32 b 20,
      expires_at = rd64 b 24, snap_name = get_bytes b 32 32\<rparr>"

record snapshot_registry =
  snaps :: "snapshot list"
  next_id :: u64

definition registry_from_entries :: "u8 list list \<Rightarrow> snapshot_registry" where
  "registry_from_entries entries =
     (let ss = map snapshot_decode entries
      in \<lparr>snaps = ss, next_id = (if ss = [] then 1 else Max (set (map snap_id ss)) + 1)\<rparr>)"

definition registry_get :: "snapshot_registry \<Rightarrow> u64 \<Rightarrow> snapshot option" where
  "registry_get r i = find (\<lambda>s. snap_id s = i) (snaps r)"

definition registry_create :: "snapshot_registry \<Rightarrow> txn_id \<Rightarrow> pgno \<Rightarrow> u64 \<Rightarrow> u8 list \<Rightarrow> bool \<Rightarrow> snapshot \<times> snapshot_registry" where
  "registry_create r t root expires name pinned =
     (let snap = \<lparr>snap_id = next_id r, snap_txn_id = t, snap_root_records = root,
                  snap_flags = (if pinned then SNAP_PINNED else 0), expires_at = expires, snap_name = make_name name\<rparr>
      in (snap, \<lparr>snaps = snaps r @ [snap], next_id = next_id r + 1\<rparr>))"

fun remove_snap :: "u64 \<Rightarrow> snapshot list \<Rightarrow> snapshot option \<times> snapshot list" where
  "remove_snap i [] = (None, [])"
| "remove_snap i (s # ss) =
     (if snap_id s = i then (Some s, ss) else (let (x, ss') = remove_snap i ss in (x, s # ss')))"

definition registry_remove :: "snapshot_registry \<Rightarrow> u64 \<Rightarrow> snapshot option \<times> snapshot_registry" where
  "registry_remove r i = (let (x, ss) = remove_snap i (snaps r) in (x, r\<lparr>snaps := ss\<rparr>))"

definition registry_expire :: "snapshot_registry \<Rightarrow> u64 \<Rightarrow> snapshot list \<times> snapshot_registry" where
  "registry_expire r now =
     (filter (\<lambda>s. is_expired s now) (snaps r), r\<lparr>snaps := filter (\<lambda>s. \<not> is_expired s now) (snaps r)\<rparr>)"

definition oldest_txn_id :: "snapshot_registry \<Rightarrow> txn_id option" where
  "oldest_txn_id r = (if snaps r = [] then None else Some (Min (set (map snap_txn_id (snaps r)))))"

definition registry_encode :: "snapshot_registry \<Rightarrow> u8 list list" where
  "registry_encode r = map snapshot_encode (snaps r)"

lemma length_make_name [simp]: "length (make_name b) = 32"
  by (simp add: make_name_def Let_def SNAPSHOT_NAME_LEN_def)

lemma snapshot_roundtrip:
  assumes "length (snap_name s) = 32"
  shows "snapshot_decode (snapshot_encode s) = s" "length (snapshot_encode s) = 64"
  using assms
  by (simp_all add: snapshot_decode_def snapshot_encode_def Let_def rd32_def rd64_def SNAPSHOT_ENTRY_BYTES_def
      get_put_same get_put_other)

text \<open>Ids are unique and below the next one to be given out.\<close>

definition registry_inv :: "snapshot_registry \<Rightarrow> bool" where
  "registry_inv r \<longleftrightarrow> distinct (map snap_id (snaps r)) \<and> (\<forall>s \<in> set (snaps r). snap_id s < next_id r \<and> length (snap_name s) = 32)"

lemma registry_encode_roundtrip:
  assumes "registry_inv r"
  shows "snaps (registry_from_entries (registry_encode r)) = snaps r"
  using assms by (auto simp: registry_from_entries_def registry_encode_def Let_def registry_inv_def snapshot_roundtrip
      intro!: map_idI)

lemma remove_snap_set: "set (snd (remove_snap i ss)) \<subseteq> set ss"
  by (induction i ss rule: remove_snap.induct) (auto split: prod.splits)

lemma remove_snap_distinct:
  "distinct (map snap_id ss) \<Longrightarrow> distinct (map snap_id (snd (remove_snap i ss))) \<and> i \<notin> snap_id ` set (snd (remove_snap i ss))"
proof (induction i ss rule: remove_snap.induct)
  case (2 i s ss)
  have "snap_id s \<notin> snap_id ` set (snd (remove_snap i ss))"
    using 2(2) remove_snap_set [of i ss] by auto
  with 2 show ?case by (cases "remove_snap i ss") auto
qed simp

lemma oldest_txn_id_le: "s \<in> set (snaps r) \<Longrightarrow> oldest_txn_id r = Some t \<Longrightarrow> t \<le> snap_txn_id s"
  by (auto simp: oldest_txn_id_def split: if_splits)

section \<open>The meta page\<close>

definition MAGIC :: u32 where "MAGIC = 0x47494230"
definition VERSION :: u32 where "VERSION = 1"
definition META_PAGES :: nat where "META_PAGES = 2"

record meta_page =
  m_txn_id :: txn_id
  m_page_count :: u64
  m_root_records :: "pgno option"
  m_freelist :: "pgno option"
  m_snapshots :: "pgno option"
  m_catalog :: "pgno option"
  m_flags :: u32

definition meta_default :: meta_page where
  "meta_default = \<lparr>m_txn_id = 0, m_page_count = 0, m_root_records = None, m_freelist = None,
     m_snapshots = None, m_catalog = None, m_flags = 0\<rparr>"

definition dec_pgno :: "u32 \<Rightarrow> pgno option" where
  "dec_pgno v = (if v \<noteq> 0 then Some v else None)"

definition enc_pgno :: "pgno option \<Rightarrow> u32" where
  "enc_pgno p = (case p of None \<Rightarrow> 0 | Some v \<Rightarrow> v)"

definition meta_slot :: "meta_page \<Rightarrow> u64" where
  "meta_slot m = m_txn_id m mod of_nat META_PAGES"

definition meta_decode :: "(u8 list \<Rightarrow> u32) \<Rightarrow> page \<Rightarrow> page_error + meta_page" where
  "meta_decode crc p =
     (case verify_checksum crc p of Inl e \<Rightarrow> Inl e
      | Inr _ \<Rightarrow>
          (let magic = rd32 p 0; version = rd32 p 4; page_size = rd32 p 8 in
           if magic \<noteq> MAGIC then Inl (BadMagic magic)
           else if version \<noteq> VERSION then Inl (UnsupportedVersion version)
           else if unat page_size \<noteq> PAGE_SIZE then Inl (PageSizeMismatch (of_nat PAGE_SIZE) page_size)
           else Inr \<lparr>m_txn_id = rd64 p 16, m_page_count = rd64 p 24, m_root_records = dec_pgno (rd32 p 32),
                     m_freelist = dec_pgno (rd32 p 36), m_snapshots = dec_pgno (rd32 p 40),
                     m_catalog = dec_pgno (rd32 p 44), m_flags = rd32 p 12\<rparr>))"

definition meta_encode :: "(u8 list \<Rightarrow> u32) \<Rightarrow> meta_page \<Rightarrow> page" where
  "meta_encode crc m =
     (let p0 = set_header page_zeroed (ucast (meta_slot m)) PMeta 0;
          p1 = put_bytes p0 0 (to_le 4 MAGIC);
          p2 = put_bytes p1 4 (to_le 4 VERSION);
          p3 = put_bytes p2 8 (to_le 4 (of_nat PAGE_SIZE :: u32));
          p4 = put_bytes p3 12 (to_le 4 (m_flags m));
          p5 = put_bytes p4 16 (to_le 8 (m_txn_id m));
          p6 = put_bytes p5 24 (to_le 8 (m_page_count m));
          p7 = put_bytes p6 32 (to_le 4 (enc_pgno (m_root_records m)));
          p8 = put_bytes p7 36 (to_le 4 (enc_pgno (m_freelist m)));
          p9 = put_bytes p8 40 (to_le 4 (enc_pgno (m_snapshots m)));
          p10 = put_bytes p9 44 (to_le 4 (enc_pgno (m_catalog m)))
      in page_seal crc p10)"

fun pick_meta :: "page_error + meta_page \<Rightarrow> page_error + meta_page \<Rightarrow> page_error + meta_page" where
  "pick_meta (Inr x) (Inr y) = Inr (if m_txn_id y \<le> m_txn_id x then x else y)"
| "pick_meta (Inr x) (Inl _) = Inr x"
| "pick_meta (Inl _) (Inr y) = Inr y"
| "pick_meta (Inl e) (Inl _) = Inl e"

text \<open>Page 0 is a meta page, so no chain can start there.\<close>

definition meta_ok :: "meta_page \<Rightarrow> bool" where
  "meta_ok m \<longleftrightarrow> m_root_records m \<noteq> Some 0 \<and> m_freelist m \<noteq> Some 0 \<and> m_snapshots m \<noteq> Some 0 \<and> m_catalog m \<noteq> Some 0"

lemma dec_enc_pgno: "p \<noteq> Some 0 \<Longrightarrow> dec_pgno (enc_pgno p) = p"
  by (cases p) (auto simp: dec_pgno_def enc_pgno_def)

lemma meta_roundtrip:
  assumes "meta_ok m"
  shows "meta_decode crc (meta_encode crc m) = Inr m" and "page_ok (meta_encode crc m)"
proof -
  define q where "q = (let p0 = set_header page_zeroed (ucast (meta_slot m)) PMeta 0;
          p1 = put_bytes p0 0 (to_le 4 MAGIC);
          p2 = put_bytes p1 4 (to_le 4 VERSION);
          p3 = put_bytes p2 8 (to_le 4 (of_nat PAGE_SIZE :: u32));
          p4 = put_bytes p3 12 (to_le 4 (m_flags m));
          p5 = put_bytes p4 16 (to_le 8 (m_txn_id m));
          p6 = put_bytes p5 24 (to_le 8 (m_page_count m));
          p7 = put_bytes p6 32 (to_le 4 (enc_pgno (m_root_records m)));
          p8 = put_bytes p7 36 (to_le 4 (enc_pgno (m_freelist m)));
          p9 = put_bytes p8 40 (to_le 4 (enc_pgno (m_snapshots m)))
      in put_bytes p9 44 (to_le 4 (enc_pgno (m_catalog m))))"
  have len: "length (set_header page_zeroed (ucast (meta_slot m)) PMeta 0) = 8192"
    using page_ok_set_header [OF page_ok_zeroed] by (simp add: PAGE_SIZE_def)
  define bs where "bs = to_le 4 MAGIC @ to_le 4 VERSION @ to_le 4 (of_nat PAGE_SIZE :: u32) @ to_le 4 (m_flags m) @
    to_le 8 (m_txn_id m) @ to_le 8 (m_page_count m) @ to_le 4 (enc_pgno (m_root_records m)) @
    to_le 4 (enc_pgno (m_freelist m)) @ to_le 4 (enc_pgno (m_snapshots m)) @ to_le 4 (enc_pgno (m_catalog m))"
  have q_eq: "q = put_bytes (set_header page_zeroed (ucast (meta_slot m)) PMeta 0) 0 bs"
    using len by (simp add: q_def Let_def put_bytes_merge bs_def)
  have lbs: "length bs = 48" by (simp add: bs_def)
  have q: "page_ok q" using len lbs by (simp add: q_eq PAGE_SIZE_def)
  have sub: "get_bytes q a n = get_bytes bs a n" if "a + n \<le> 48" for a n
    using that len lbs get_put_inside [of 0 bs "set_header page_zeroed (ucast (meta_slot m)) PMeta 0" a n]
    by (simp add: q_eq)
  have f: "rd32 q 0 = MAGIC" "rd32 q 4 = VERSION" "rd32 q 8 = of_nat PAGE_SIZE" "rd32 q 12 = m_flags m"
    "rd64 q 16 = m_txn_id m" "rd64 q 24 = m_page_count m" "rd32 q 32 = enc_pgno (m_root_records m)"
    "rd32 q 36 = enc_pgno (m_freelist m)" "rd32 q 40 = enc_pgno (m_snapshots m)" "rd32 q 44 = enc_pgno (m_catalog m)"
    by (simp_all add: rd32_def rd64_def sub) (simp_all add: bs_def get_bytes_def)
  have e: "meta_encode crc m = page_seal crc q" by (simp add: meta_encode_def q_def Let_def)
  have lim: "PAGE_SIZE - PAGE_TRAILER = 8188" by (simp add: layout_defs)
  note s32 = rd_seal(2) [OF q, unfolded lim, of _ crc] and s64 = rd_seal(3) [OF q, unfolded lim, of _ crc]
  have g: "rd32 (page_seal crc q) 0 = rd32 q 0" "rd32 (page_seal crc q) 4 = rd32 q 4"
    "rd32 (page_seal crc q) 8 = rd32 q 8" "rd32 (page_seal crc q) 12 = rd32 q 12"
    "rd64 (page_seal crc q) 16 = rd64 q 16" "rd64 (page_seal crc q) 24 = rd64 q 24"
    "rd32 (page_seal crc q) 32 = rd32 q 32" "rd32 (page_seal crc q) 36 = rd32 q 36"
    "rd32 (page_seal crc q) 40 = rd32 q 40" "rd32 (page_seal crc q) 44 = rd32 q 44"
    by (simp_all add: s32 s64)
  have sz: "unat (of_nat PAGE_SIZE :: u32) = PAGE_SIZE" by (simp add: unat_of_nat PAGE_SIZE_def)
  show "page_ok (meta_encode crc m)" using q by (simp add: e)
  show "meta_decode crc (meta_encode crc m) = Inr m"
    unfolding meta_decode_def e verify_seal [OF q] Let_def g f using assms sz
    by (simp add: meta_ok_def dec_enc_pgno)
qed

section \<open>Properties\<close>

text \<open>
  C37. A meta page reads back as it was written, under any checksum function, and of two valid meta
  pages the one of the later transaction governs, whichever slot it is in.
\<close>

theorem meta_recovery:
  assumes "meta_ok m"
  shows "meta_decode crc (meta_encode crc m) = Inr m \<and>
         (\<forall>q. (\<exists>e. meta_decode crc q = Inl e) \<or> (\<exists>x. meta_decode crc q = Inr x \<and> m_txn_id x < m_txn_id m) \<longrightarrow>
            pick_meta (meta_decode crc (meta_encode crc m)) (meta_decode crc q) = Inr m \<and>
            pick_meta (meta_decode crc q) (meta_decode crc (meta_encode crc m)) = Inr m)"
  using meta_roundtrip(1) [OF assms, of crc] by auto

theorem meta_recovery_witness:
  "meta_decode (\<lambda>_. 7) (meta_encode (\<lambda>_. 7) (meta_default\<lparr>m_txn_id := 4, m_catalog := Some 9\<rparr>)) =
     Inr (meta_default\<lparr>m_txn_id := 4, m_catalog := Some 9\<rparr>)"
  using meta_recovery [of "meta_default\<lparr>m_txn_id := 4, m_catalog := Some 9\<rparr>" "\<lambda>_. 7"] by (simp add: meta_ok_def meta_default_def)

text \<open>
  The root records, written as chain entries and read back, are the same map: no fragment is lost,
  and a lookup answers as before.
\<close>

lemma roots_reload:
  assumes "bt_inv m"
  shows "roots_from_entries (roots_encode m) = m \<and> bt_inv (roots_set m k r) \<and> bt_inv (snd (roots_remove m k)) \<and>
         roots_get (roots_from_entries (roots_encode (roots_set m k r))) j = (if j = k then Some r else roots_get m j) \<and>
         roots_get (roots_from_entries (roots_encode (snd (roots_remove m k)))) j = (if j = k then None else roots_get m j)"
proof -
  have s: "bt_inv (roots_set m k r)" "bt_inv (snd (roots_remove m k))" using assms by (simp_all add: roots_set_def roots_remove_def)
  show ?thesis using assms s roots_roundtrip
    by (simp add: roots_get_def) (simp add: roots_set_def roots_remove_def bt_get_insert bt_get_remove)
qed

lemma find_append: "find P (xs @ ys) = (case find P xs of None \<Rightarrow> find P ys | Some x \<Rightarrow> Some x)"
  by (induction xs) auto

text \<open>
  Snapshot ids stay unique: creating, removing and expiring snapshots keeps the registry's
  invariant, a created snapshot is found under its id, and a removed one no longer is.
\<close>

lemma registry_ids_unique:
  assumes "registry_inv r"
  shows "(unat (next_id r) + 1 < 2 ^ 64 \<longrightarrow> registry_inv (snd (registry_create r t root e nm pin)) \<and>
            registry_get (snd (registry_create r t root e nm pin)) (next_id r) = Some (fst (registry_create r t root e nm pin))) \<and>
         registry_inv (snd (registry_remove r i)) \<and> registry_get (snd (registry_remove r i)) i = None \<and>
         registry_inv (snd (registry_expire r now)) \<and>
         snaps (registry_from_entries (registry_encode r)) = snaps r"
proof -
  have u: "distinct (map snap_id (snaps r))" and b: "\<forall>s \<in> set (snaps r). snap_id s < next_id r \<and> length (snap_name s) = 32"
    using assms by (auto simp: registry_inv_def)
  have c: "registry_inv (snd (registry_create r t root e nm pin)) \<and>
      registry_get (snd (registry_create r t root e nm pin)) (next_id r) = Some (fst (registry_create r t root e nm pin))"
    if "unat (next_id r) + 1 < 2 ^ 64"
  proof -
    have lt: "next_id r < next_id r + 1" using that by (simp add: word_less_nat_alt unat_word_ariths)
    have "\<forall>s \<in> set (snaps r). snap_id s < next_id r + 1" using b lt less_trans by blast
    moreover have "next_id r \<notin> snap_id ` set (snaps r)" using b by auto
    moreover have "find (\<lambda>s. snap_id s = next_id r) (snaps r) = None" using b by (fastforce simp: find_None_iff)
    ultimately show ?thesis using u b lt
      by (simp add: registry_inv_def registry_create_def registry_get_def Let_def find_append)
  qed
  have "set (snd (remove_snap i (snaps r))) \<subseteq> set (snaps r)" by (rule remove_snap_set)
  then have "registry_inv (snd (registry_remove r i)) \<and> registry_get (snd (registry_remove r i)) i = None"
    using remove_snap_distinct [OF u, of i] b
    by (auto simp: registry_inv_def registry_remove_def registry_get_def find_None_iff split: prod.splits)
  moreover have "registry_inv (snd (registry_expire r now))"
    using u b by (auto simp: registry_inv_def registry_expire_def distinct_map_filter)
  ultimately show ?thesis using c registry_encode_roundtrip [OF assms] by blast
qed

end
