(* ===== verification/Big_Freelist.thy ===== *)
theory Big_Freelist
  imports Big_Chain "HOL-Library.Multiset" "HOL-Library.Product_Lexorder"
begin

text \<open>
  \<^verbatim>\<open>crates/big-pager/src/freelist.rs\<close> and the page allocators of
  \<^verbatim>\<open>crates/big-pager/src/lib.rs\<close>: free pages as runs stamped with the transaction that freed
  them. A freelist denotes the multiset of its pages with their stamps; every operation is
  shown to change that multiset exactly as it should, and the allocator of the freelist's own
  pages to terminate.

  Page counts (\<^verbatim>\<open>u64\<close>) are natural numbers; page numbers are 32 bits wide, and the cast
  \<^verbatim>\<open>as Pgno\<close> wraps.
\<close>

section \<open>Runs\<close>

definition FREE_ENTRY_BYTES :: nat where "FREE_ENTRY_BYTES = 16"

record free_run =
  freed_at :: txn_id
  run_first :: pgno
  run_len :: u32

type_synonym freelist = "free_run list"

definition free_run_encode :: "free_run \<Rightarrow> u8 list" where
  "free_run_encode r =
     (let b0 = replicate FREE_ENTRY_BYTES 0;
          b1 = put_bytes b0 0 (to_le 8 (freed_at r));
          b2 = put_bytes b1 8 (to_le 4 (run_first r))
      in put_bytes b2 12 (to_le 4 (run_len r)))"

definition free_run_decode :: "u8 list \<Rightarrow> free_run" where
  "free_run_decode b = \<lparr>freed_at = rd64 b 0, run_first = rd32 b 8, run_len = rd32 b 12\<rparr>"

definition total_pages :: "freelist \<Rightarrow> nat" where
  "total_pages f = sum_list (map (\<lambda>r. unat (run_len r)) f)"

definition reusable_pages :: "freelist \<Rightarrow> txn_id \<Rightarrow> nat" where
  "reusable_pages f horizon = sum_list (map (\<lambda>r. unat (run_len r)) (filter (\<lambda>r. freed_at r \<le> horizon) f))"

definition pending_pages :: "freelist \<Rightarrow> txn_id \<Rightarrow> nat" where
  "pending_pages f horizon = total_pages f - reusable_pages f horizon"

definition freelist_push :: "freelist \<Rightarrow> pgno \<Rightarrow> txn_id \<Rightarrow> freelist" where
  "freelist_push f n t = f @ [\<lparr>freed_at = t, run_first = n, run_len = 1\<rparr>]"

text \<open>\<^verbatim>\<open>while scratch.last().is_some_and(|p| *p as u64 + 1 == next)\<close>\<close>

function give_back :: "pgno list \<Rightarrow> nat \<Rightarrow> pgno list \<times> nat" where
  "give_back scratch next =
     (if scratch \<noteq> [] \<and> unat (last scratch) + 1 = next then give_back (butlast scratch) (next - 1)
      else (scratch, next))"
  by pat_completeness auto
termination
  by (relation "measure (\<lambda>(scratch, next). length scratch)") auto

declare give_back.simps [simp del]

definition absorb_scratch :: "freelist \<Rightarrow> pgno list \<Rightarrow> nat \<Rightarrow> txn_id \<Rightarrow> freelist \<times> nat" where
  "absorb_scratch f scratch next_pgno t =
     (if scratch = [] then (f, next_pgno)
      else let (rest, next) = give_back (remdups_adj (sort scratch)) next_pgno
           in (foldl (\<lambda>f p. freelist_push f p t) f rest, next))"

definition merge_step :: "free_run list \<Rightarrow> free_run \<Rightarrow> free_run list" where
  "merge_step merged r =
     (if merged \<noteq> [] \<and> freed_at (last merged) = freed_at r \<and>
         unat (run_first (last merged)) + unat (run_len (last merged)) = unat (run_first r)
      then butlast merged @ [(last merged)\<lparr>run_len := run_len (last merged) + run_len r\<rparr>]
      else merged @ [r])"

definition freelist_compact :: "freelist \<Rightarrow> freelist" where
  "freelist_compact f =
     (if length f < 2 then f
      else foldl merge_step [] (sort_key (\<lambda>r. (run_first r, freed_at r)) f))"

definition freelist_from_entries :: "u8 list list \<Rightarrow> freelist" where
  "freelist_from_entries entries = freelist_compact (map free_run_decode entries)"

fun freelist_alloc :: "freelist \<Rightarrow> txn_id \<Rightarrow> (pgno \<times> freelist) option" where
  "freelist_alloc [] horizon = None"
| "freelist_alloc (r # f) horizon =
     (if freed_at r \<le> horizon then
        (let r' = r\<lparr>run_first := run_first r + 1, run_len := run_len r - 1\<rparr>
         in Some (run_first r, if run_len r' = 0 then f else r' # f))
      else map_option (\<lambda>(p, f'). (p, r # f')) (freelist_alloc f horizon))"

text \<open>The position of the run that ends at \<open>stop\<close>, taken out of the list.\<close>

fun take_tail_run :: "freelist \<Rightarrow> nat \<Rightarrow> txn_id \<Rightarrow> (free_run \<times> freelist) option" where
  "take_tail_run [] stop horizon = None"
| "take_tail_run (r # f) stop horizon =
     (if freed_at r \<le> horizon \<and> unat (run_first r) + unat (run_len r) = stop then Some (r, f)
      else map_option (\<lambda>(x, f'). (x, r # f')) (take_tail_run f stop horizon))"

lemma take_tail_run_length: "take_tail_run f stop h = Some (r, f') \<Longrightarrow> length f = Suc (length f')"
  by (induction f arbitrary: f') (auto split: if_splits)

function trim_loop :: "freelist \<Rightarrow> nat \<Rightarrow> txn_id \<Rightarrow> freelist \<times> nat" where
  "trim_loop f stop horizon =
     (case take_tail_run f stop horizon of
        Some (r, f') \<Rightarrow> trim_loop f' (stop - unat (run_len r)) horizon
      | None \<Rightarrow> (f, stop))"
  by pat_completeness auto
termination
  by (relation "measure (\<lambda>(f, stop, horizon). length f)") (auto dest: take_tail_run_length)

declare trim_loop.simps [simp del]

text \<open>The list that is left, and how many pages it gave up.\<close>

definition trim_tail :: "freelist \<Rightarrow> nat \<Rightarrow> txn_id \<Rightarrow> freelist \<times> nat" where
  "trim_tail f page_count horizon = (let (f', stop) = trim_loop f page_count horizon in (f', page_count - stop))"

definition freelist_encode :: "freelist \<Rightarrow> u8 list list" where
  "freelist_encode f = map free_run_encode f"

section \<open>The allocators\<close>

definition alloc_tail :: "nat \<Rightarrow> nat option \<Rightarrow> store_error + pgno \<times> nat" where
  "alloc_tail next_pgno cap =
     (case cap of
        Some c \<Rightarrow> if next_pgno \<ge> c then Inl (MapSizeExhausted (of_nat (next_pgno + 1)) (of_nat c))
                  else Inr (of_nat next_pgno, next_pgno + 1)
      | None \<Rightarrow> Inr (of_nat next_pgno, next_pgno + 1))"

definition alloc_one :: "freelist \<Rightarrow> txn_id \<Rightarrow> nat \<Rightarrow> nat option \<Rightarrow> store_error + pgno \<times> freelist \<times> nat" where
  "alloc_one f horizon next_pgno cap =
     (case freelist_alloc f horizon of
        Some (p, f') \<Rightarrow> Inr (p, f', next_pgno)
      | None \<Rightarrow> (case alloc_tail next_pgno cap of Inl e \<Rightarrow> Inl e | Inr (p, n) \<Rightarrow> Inr (p, f, n)))"

fun alloc_pages :: "nat \<Rightarrow> freelist \<Rightarrow> txn_id \<Rightarrow> nat \<Rightarrow> nat option \<Rightarrow> store_error + pgno list \<times> freelist \<times> nat" where
  "alloc_pages 0 f horizon next_pgno cap = Inr ([], f, next_pgno)"
| "alloc_pages (Suc n) f horizon next_pgno cap =
     (case alloc_one f horizon next_pgno cap of
        Inl e \<Rightarrow> Inl e
      | Inr (p, f', next') \<Rightarrow>
          (case alloc_pages n f' horizon next' cap of
             Inl e \<Rightarrow> Inl e
           | Inr (ps, f'', next'') \<Rightarrow> Inr (p # ps, f'', next'')))"

lemma freelist_alloc_length: "freelist_alloc f h = Some (p, f') \<Longrightarrow> length f' \<le> length f"
  by (induction f arbitrary: f') (auto simp: Let_def split: if_splits)

lemma alloc_one_length: "alloc_one f h n cap = Inr (p, f', n') \<Longrightarrow> length f' \<le> length f"
  by (auto simp: alloc_one_def freelist_alloc_length split: option.splits sum.splits)

lemma chain_pages_needed_mono: "m \<le> n \<Longrightarrow> chain_pages_needed s m \<le> chain_pages_needed s n"
  by (simp add: chain_pages_needed_def div_le_mono)

lemma alloc_one_needed:
  "alloc_one f h n cap = Inr (p, f', n') \<Longrightarrow> chain_pages_needed s (length f') \<le> chain_pages_needed s (length f)"
  by (intro chain_pages_needed_mono alloc_one_length)

text \<open>The loop of \<^verbatim>\<open>alloc_freelist_pages\<close>: taking a page changes how many pages are needed.\<close>

function freelist_pages_loop :: "freelist \<Rightarrow> txn_id \<Rightarrow> nat \<Rightarrow> nat option \<Rightarrow> pgno list \<Rightarrow>
    store_error + pgno list \<times> freelist \<times> nat" where
  "freelist_pages_loop f horizon next_pgno cap out =
     (if length out < chain_pages_needed FREE_ENTRY_BYTES (length f) then
        (case alloc_one f horizon next_pgno cap of
           Inl e \<Rightarrow> Inl e
         | Inr (p, f', next') \<Rightarrow> freelist_pages_loop f' horizon next' cap (out @ [p]))
      else Inr (out, f, next_pgno))"
  by pat_completeness auto
termination
  by (relation "measure (\<lambda>(f, h, n, cap, out). chain_pages_needed FREE_ENTRY_BYTES (length f) - length out)")
    (auto dest!: alloc_one_needed [where s = FREE_ENTRY_BYTES])

declare freelist_pages_loop.simps [simp del]

definition alloc_freelist_pages :: "freelist \<Rightarrow> txn_id \<Rightarrow> nat \<Rightarrow> nat option \<Rightarrow> store_error + pgno list \<times> freelist \<times> nat" where
  "alloc_freelist_pages f horizon next_pgno cap = freelist_pages_loop (freelist_compact f) horizon next_pgno cap []"

section \<open>What a freelist holds\<close>

definition run_pages :: "free_run \<Rightarrow> (nat \<times> txn_id) multiset" where
  "run_pages r = mset (map (\<lambda>i. (unat (run_first r) + i, freed_at r)) [0..<unat (run_len r)])"

definition free_pages :: "freelist \<Rightarrow> (nat \<times> txn_id) multiset" where
  "free_pages f = sum_mset (image_mset run_pages (mset f))"

lemma free_pages_simps [simp]:
  "free_pages [] = {#}" "free_pages (r # f) = run_pages r + free_pages f" "free_pages (f @ g) = free_pages f + free_pages g"
  by (simp_all add: free_pages_def)

text \<open>No run is empty, and none reaches past page \<open>N\<close>.\<close>

definition fl_ok :: "nat \<Rightarrow> freelist \<Rightarrow> bool" where
  "fl_ok N f \<longleftrightarrow> N < 2 ^ 32 \<and> (\<forall>r \<in> set f. 0 < run_len r \<and> unat (run_first r) + unat (run_len r) \<le> N)"

lemma fl_ok_Cons [simp]:
  "fl_ok N (r # f) \<longleftrightarrow> 0 < run_len r \<and> unat (run_first r) + unat (run_len r) \<le> N \<and> fl_ok N f"
  by (auto simp: fl_ok_def)

lemma fl_ok_mono: "fl_ok N f \<Longrightarrow> N \<le> M \<Longrightarrow> M < 2 ^ 32 \<Longrightarrow> fl_ok M f"
  by (fastforce simp: fl_ok_def)

lemma run_pages_fst: "x \<in># run_pages r \<longleftrightarrow> snd x = freed_at r \<and> unat (run_first r) \<le> fst x \<and> fst x < unat (run_first r) + unat (run_len r)"
proof
  assume "x \<in># run_pages r"
  then show "snd x = freed_at r \<and> unat (run_first r) \<le> fst x \<and> fst x < unat (run_first r) + unat (run_len r)"
    by (auto simp: run_pages_def)
next
  assume a: "snd x = freed_at r \<and> unat (run_first r) \<le> fst x \<and> fst x < unat (run_first r) + unat (run_len r)"
  then have "x = (unat (run_first r) + (fst x - unat (run_first r)), freed_at r)" by (cases x) auto
  moreover have "fst x - unat (run_first r) \<in> {0..<unat (run_len r)}" using a by auto
  ultimately show "x \<in># run_pages r" unfolding run_pages_def by (metis (mono_tags, lifting) image_eqI set_map set_mset_mset set_upt)
qed

lemma in_free_pages: "x \<in># free_pages f \<longleftrightarrow> (\<exists>r \<in> set f. x \<in># run_pages r)"
  by (induction f) auto

subsection \<open>Allocation\<close>

lemma run_pages_take:
  assumes "0 < run_len r" "unat (run_first r) + unat (run_len r) < 2 ^ 32"
  defines "r' \<equiv> r\<lparr>run_first := run_first r + 1, run_len := run_len r - 1\<rparr>"
  shows "run_pages r = add_mset (unat (run_first r), freed_at r) (run_pages r')"
    and "unat (run_first r') + unat (run_len r') = unat (run_first r) + unat (run_len r)"
    and "run_len r' = 0 \<Longrightarrow> run_pages r' = {#}"
proof -
  have len: "unat (run_len r - 1) = unat (run_len r) - 1" using assms(1) by (simp add: unat_minus_one word_gt_0)
  have pos: "0 < unat (run_len r)" using assms(1) by (simp add: word_less_nat_alt)
  have first: "unat (run_first r + 1) = unat (run_first r) + 1"
    using assms(2) pos by (simp add: unat_word_ariths)
  show "unat (run_first r') + unat (run_len r') = unat (run_first r) + unat (run_len r)"
    using len pos first by (simp add: r'_def)
  have "[0..<unat (run_len r)] = 0 # map Suc [0..<unat (run_len r) - 1]"
    using pos by (simp add: map_Suc_upt upt_conv_Cons)
  then show "run_pages r = add_mset (unat (run_first r), freed_at r) (run_pages r')"
    unfolding run_pages_def r'_def by (simp add: len first o_def)
  show "run_len r' = 0 \<Longrightarrow> run_pages r' = {#}" by (simp add: run_pages_def)
qed

lemma freelist_alloc_spec:
  assumes "fl_ok N f" "freelist_alloc f h = Some (p, f')"
  shows "\<exists>t \<le> h. free_pages f = add_mset (unat p, t) (free_pages f')" and "fl_ok N f'"
proof -
  have "(\<exists>t \<le> h. free_pages f = add_mset (unat p, t) (free_pages f')) \<and> fl_ok N f'"
    using assms
  proof (induction f arbitrary: f')
    case (Cons r f)
    show ?case
    proof (cases "freed_at r \<le> h")
      case True
      define r' where "r' = r\<lparr>run_first := run_first r + 1, run_len := run_len r - 1\<rparr>"
      have N: "N < 2 ^ 32" using Cons.prems(1) by (simp add: fl_ok_def)
      note take = run_pages_take [of r, folded r'_def]
      have p: "p = run_first r" "f' = (if run_len r' = 0 then f else r' # f)"
        using True Cons.prems(2) by (auto simp: Let_def r'_def)
      show ?thesis
      proof (cases "run_len r' = 0")
        case z: True
        with p take True Cons.prems(1) N show ?thesis by auto
      next
        case False
        with p take True Cons.prems(1) N show ?thesis by (auto simp: word_gt_0)
      qed
    next
      case False
      with Cons.prems(2) obtain g where g: "freelist_alloc f h = Some (p, g)" "f' = r # g" by auto
      with Cons.IH [of g] Cons.prems(1) show ?thesis by auto
    qed
  qed simp
  then show "\<exists>t \<le> h. free_pages f = add_mset (unat p, t) (free_pages f')" "fl_ok N f'" by auto
qed

lemma freelist_alloc_None: "freelist_alloc f h = None \<Longrightarrow> x \<in># free_pages f \<Longrightarrow> h < snd x"
  by (induction f) (auto simp: run_pages_fst Let_def split: if_splits)

text \<open>Runs in page order, each ending before the next begins.\<close>

abbreviation fl_sorted :: "freelist \<Rightarrow> bool" where
  "fl_sorted f \<equiv> sorted_wrt (\<lambda>a b. unat (run_first a) + unat (run_len a) \<le> unat (run_first b)) f"

lemma freelist_alloc_lowest:
  "fl_sorted f \<Longrightarrow> freelist_alloc f h = Some (p, f') \<Longrightarrow> (q, t) \<in># free_pages f \<Longrightarrow> t \<le> h \<Longrightarrow> unat p \<le> q"
proof (induction f arbitrary: f')
  case (Cons r f)
  show ?case
  proof (cases "freed_at r \<le> h")
    case True
    then have "p = run_first r" using Cons.prems(2) by (simp add: Let_def)
    then show ?thesis using Cons.prems(1,3) by (force simp: in_free_pages run_pages_fst)
  next
    case False
    then have "(q, t) \<in># free_pages f" using Cons.prems(3,4) by (auto simp: run_pages_fst)
    with False Cons show ?thesis by auto
  qed
qed simp

subsection \<open>Compaction\<close>

lemma merge_step_spec:
  assumes "fl_ok N m" "fl_ok N [r]"
  shows "free_pages (merge_step m r) = free_pages m + run_pages r" and "fl_ok N (merge_step m r)"
proof -
  have "free_pages (merge_step m r) = free_pages m + run_pages r \<and> fl_ok N (merge_step m r)"
  proof (cases "m \<noteq> [] \<and> freed_at (last m) = freed_at r \<and>
         unat (run_first (last m)) + unat (run_len (last m)) = unat (run_first r)")
    case True
    define l where "l = last m"
    have m: "m = butlast m @ [l]" using True by (simp add: l_def)
    have ok: "fl_ok N (butlast m)" "0 < run_len l" using assms(1) m by (auto simp: fl_ok_def in_set_butlastD l_def True)
    have sum: "unat (run_len l + run_len r) = unat (run_len l) + unat (run_len r)"
      using assms True by (simp add: fl_ok_def unat_word_ariths l_def)
    have "[0..<unat (run_len l) + unat (run_len r)] = [0..<unat (run_len l)] @ map (\<lambda>i. i + unat (run_len l)) [0..<unat (run_len r)]"
      using upt_add_eq_append [of 0 "unat (run_len l)" "unat (run_len r)"]
      by (simp add: map_add_upt add.commute [of "unat (run_len r)"])
    moreover have "unat (run_first r) = unat (run_first l) + unat (run_len l)"
      using True by (simp add: l_def)
    moreover have "freed_at l = freed_at r" using True by (simp add: l_def)
    ultimately have "run_pages (l\<lparr>run_len := run_len l + run_len r\<rparr>) = run_pages l + run_pages r"
      unfolding run_pages_def by (simp add: sum o_def ac_simps del: mset_map mset_upt)
    moreover have "fl_ok N [l\<lparr>run_len := run_len l + run_len r\<rparr>]"
      using assms True sum ok by (auto simp: fl_ok_def l_def word_less_nat_alt)
    moreover have "merge_step m r = butlast m @ [l\<lparr>run_len := run_len l + run_len r\<rparr>]"
      using True by (simp add: merge_step_def l_def)
    moreover have "free_pages m = free_pages (butlast m) + run_pages l" using m by (metis add.right_neutral free_pages_simps)
    ultimately show ?thesis using ok(1) by (simp add: fl_ok_def add.assoc ball_Un)
  next
    case False
    then have "merge_step m r = m @ [r]" by (auto simp: merge_step_def)
    then show ?thesis using assms by (auto simp: fl_ok_def)
  qed
  then show "free_pages (merge_step m r) = free_pages m + run_pages r" "fl_ok N (merge_step m r)" by auto
qed

lemma merge_all_spec:
  "fl_ok N m \<Longrightarrow> fl_ok N f \<Longrightarrow>
     free_pages (foldl merge_step m f) = free_pages m + free_pages f \<and> fl_ok N (foldl merge_step m f)"
proof (induction f arbitrary: m)
  case (Cons r f)
  have "fl_ok N [r]" using Cons.prems by (simp add: fl_ok_def)
  from merge_step_spec [OF Cons.prems(1) this] Cons show ?case by (simp add: add.assoc)
qed simp

lemma freelist_compact_spec:
  assumes "fl_ok N f"
  shows "free_pages (freelist_compact f) = free_pages f" and "fl_ok N (freelist_compact f)"
proof -
  let ?s = "sort_key (\<lambda>r. (run_first r, freed_at r)) f"
  have "fl_ok N ?s" "fl_ok N []" using assms by (auto simp: fl_ok_def)
  from merge_all_spec [OF this(2,1)] assms
  show "free_pages (freelist_compact f) = free_pages f" "fl_ok N (freelist_compact f)"
    by (simp_all add: freelist_compact_def) (simp_all add: free_pages_def)
qed

definition nodup :: "'a multiset \<Rightarrow> bool" where
  "nodup M \<longleftrightarrow> (\<forall>x. count M x \<le> 1)"

lemma nodup_mset [simp]: "nodup (mset xs) \<longleftrightarrow> distinct xs"
  by (auto simp: nodup_def distinct_count_atmost_1 le_Suc_eq count_eq_zero_iff)

lemma nodup_subset: "nodup M \<Longrightarrow> K \<subseteq># M \<Longrightarrow> nodup K"
  by (meson mset_subset_eq_count nodup_def order_trans)

lemma nodup_plus: "nodup (M + K) \<longleftrightarrow> nodup M \<and> nodup K \<and> set_mset M \<inter> set_mset K = {}"
proof
  assume nd: "nodup (M + K)"
  have "x \<notin># M \<or> x \<notin># K" for x
    using nd unfolding nodup_def count_union by (metis One_nat_def Suc_le_eq add_is_1 add_leD1 count_greater_zero_iff le_antisym add_gr_0 not_in_iff)
  then show "nodup M \<and> nodup K \<and> set_mset M \<inter> set_mset K = {}"
    using nd nodup_subset [of "M + K"] by auto
next
  assume a: "nodup M \<and> nodup K \<and> set_mset M \<inter> set_mset K = {}"
  then have "count M x = 0 \<or> count K x = 0" for x by (auto simp: count_eq_zero_iff)
  with a show "nodup (M + K)" unfolding nodup_def count_union by (metis add_0 add.right_neutral)
qed

lemma nodup_add_mset: "nodup (add_mset x M) \<longleftrightarrow> x \<notin># M \<and> nodup M"
  using nodup_plus [of "{#x#}" M] by (auto simp: nodup_def)

lemma nodup_empty [simp]: "nodup {#}"
  by (simp add: nodup_def)

abbreviation free_nos :: "freelist \<Rightarrow> nat multiset" where
  "free_nos f \<equiv> image_mset fst (free_pages f)"

lemma merge_step_sorted:
  assumes "sorted (map run_first (m @ r # f))"
  shows "sorted (map run_first (merge_step m r @ f))"
proof (cases "merge_step m r = m @ [r]")
  case False
  then have ne: "m \<noteq> []" and "merge_step m r = butlast m @ [(last m)\<lparr>run_len := run_len (last m) + run_len r\<rparr>]"
    by (auto simp: merge_step_def split: if_splits)
  then have "map run_first (merge_step m r @ f) = map run_first (m @ f)"
    by simp (metis append_butlast_last_id list.simps(8,9) map_append)
  then show ?thesis using assms by (simp add: sorted_append)
qed (use assms in simp)

lemma merge_all_sorted: "sorted (map run_first (m @ f)) \<Longrightarrow> sorted (map run_first (foldl merge_step m f))"
  by (induction f arbitrary: m) (use merge_step_sorted in \<open>auto simp del: map_append\<close>)

lemma compact_first_sorted: "sorted (map run_first (freelist_compact f))"
proof (cases "length f < 2")
  case True
  then show ?thesis by (cases f; cases "tl f") (auto simp: freelist_compact_def)
next
  case False
  have "sorted (map (\<lambda>r. (run_first r, freed_at r)) (sort_key (\<lambda>r. (run_first r, freed_at r)) f))" by simp
  then have "sorted (map run_first (sort_key (\<lambda>r. (run_first r, freed_at r)) f))"
    unfolding sorted_map by (rule sorted_wrt_mono_rel [rotated]) auto
  with False merge_all_sorted [of "[]"] show ?thesis by (simp add: freelist_compact_def)
qed

lemma sorted_disjoint:
  assumes "sorted (map run_first f)" "fl_ok N f" "nodup (free_nos f)"
  shows "fl_sorted f"
  using assms
proof (induction f)
  case (Cons a f)
  have "unat (run_first a) + unat (run_len a) \<le> unat (run_first b)" if b: "b \<in> set f" for b
  proof (rule ccontr)
    assume n: "\<not> ?thesis"
    have "0 < run_len b" using Cons.prems(2) b by (auto simp: fl_ok_def)
    then have "(unat (run_first b), freed_at b) \<in># run_pages b" by (simp add: run_pages_fst word_less_nat_alt)
    then have "(unat (run_first b), freed_at b) \<in># free_pages f" using b by (auto simp: in_free_pages)
    then have "unat (run_first b) \<in># free_nos f" by force
    moreover have "(unat (run_first b), freed_at a) \<in># run_pages a"
      using n Cons.prems(1) b by (auto simp: run_pages_fst word_le_nat_alt)
    then have "unat (run_first b) \<in># image_mset fst (run_pages a)" by force
    ultimately show False using Cons.prems(3) by (auto simp: nodup_plus)
  qed
  with Cons show ?case by (auto simp: nodup_plus)
qed simp

text \<open>After \<open>compact\<close> the list is in page order: no run begins before its predecessor has ended.\<close>

lemma freelist_compact_sorted:
  "fl_ok N f \<Longrightarrow> nodup (free_nos f) \<Longrightarrow> fl_sorted (freelist_compact f)"
  using sorted_disjoint [OF compact_first_sorted, of N f] freelist_compact_spec [of N f] by simp

lemma freelist_compact_length: "length (freelist_compact f) \<le> length f"
proof -
  have step: "length (merge_step m r) \<le> Suc (length m)" for m r by (simp add: merge_step_def)
  have "length (foldl merge_step m g) \<le> length m + length g" for m g
  proof (induction g arbitrary: m)
    case (Cons r g)
    from Cons [of "merge_step m r"] step [of m r] show ?case by simp
  qed simp
  from this [of "[]" "sort_key (\<lambda>r. (run_first r, freed_at r)) f"] show ?thesis by (simp add: freelist_compact_def)
qed

subsection \<open>Giving back the tail of the file\<close>

lemma take_tail_run_spec:
  "take_tail_run f stop h = Some (r, f') \<Longrightarrow>
     free_pages f = run_pages r + free_pages f' \<and> freed_at r \<le> h \<and> r \<in> set f \<and> set f' \<subseteq> set f \<and>
     unat (run_first r) + unat (run_len r) = stop"
  by (induction f arbitrary: f') (fastforce split: if_splits)+

lemma run_nos: "image_mset fst (run_pages r) = mset [unat (run_first r)..<unat (run_first r) + unat (run_len r)]"
proof -
  have "map fst (map (\<lambda>i. (unat (run_first r) + i, freed_at r)) [0..<unat (run_len r)])
      = [unat (run_first r)..<unat (run_first r) + unat (run_len r)]"
    using map_add_upt [of "unat (run_first r)" "unat (run_len r)"] by (simp add: o_def add.commute)
  then show ?thesis unfolding run_pages_def by (metis mset_map)
qed

lemma trim_loop_spec:
  assumes "trim_loop f stop h = (f', stop')"
  shows "stop' \<le> stop \<and> set f' \<subseteq> set f \<and> take_tail_run f' stop' h = None \<and>
     (\<exists>R. free_pages f = free_pages f' + R \<and> (\<forall>x \<in># R. snd x \<le> h) \<and> image_mset fst R = mset [stop'..<stop])"
  using assms
proof (induction f stop h arbitrary: f' rule: trim_loop.induct)
  case (1 f stop h)
  show ?case
  proof (cases "take_tail_run f stop h")
    case None
    with 1(2) have "f' = f" "stop' = stop" by (simp_all add: trim_loop.simps [of f])
    with None show ?thesis by (auto intro!: exI [of _ "{#}"])
  next
    case (Some a)
    obtain r g where a: "a = (r, g)" by (cases a)
    let ?s = "stop - unat (run_len r)"
    note tk = take_tail_run_spec [OF Some [unfolded a]]
    have "trim_loop g ?s h = (f', stop')" using 1(2) Some a by (simp add: trim_loop.simps [of f])
    from 1(1) [OF Some a [symmetric] this] obtain R where R: "stop' \<le> ?s" "set f' \<subseteq> set g"
      "take_tail_run f' stop' h = None" "free_pages g = free_pages f' + R" "\<forall>x \<in># R. snd x \<le> h"
      "image_mset fst R = mset [stop'..<?s]" by auto
    have "?s = unat (run_first r)" using tk by auto
    moreover have "[stop'..<stop] = [stop'..<?s] @ [?s..<stop]"
      using R(1) upt_add_eq_append [of stop' ?s "unat (run_len r)"] tk by auto
    ultimately have "image_mset fst (R + run_pages r) = mset [stop'..<stop]"
      using R(6) run_nos [of r] tk by simp
    moreover have "\<forall>x \<in># R + run_pages r. snd x \<le> h" using R(5) tk by (auto simp: run_pages_fst)
    moreover have "free_pages f = free_pages f' + (R + run_pages r)" using tk R(4) by (simp add: ac_simps)
    moreover have "stop' \<le> stop" "set f' \<subseteq> set f" using R tk by auto
    ultimately show ?thesis using R(3) by blast
  qed
qed

text \<open>In a list in page order the run at the end of the file is the last one, so what is left is a prefix.\<close>

lemma take_tail_run_last:
  "fl_sorted f \<Longrightarrow> fl_ok stop f \<Longrightarrow> take_tail_run f stop h = Some (r, f') \<Longrightarrow> f = f' @ [r]"
proof (induction f arbitrary: f')
  case (Cons a f)
  show ?case
  proof (cases "unat (run_first a) + unat (run_len a) = stop")
    case True
    have "f = []"
    proof (rule ccontr)
      assume "f \<noteq> []"
      then obtain b where b: "b \<in> set f" by (cases f) auto
      then have "stop \<le> unat (run_first b)" "0 < unat (run_len b)" "unat (run_first b) + unat (run_len b) \<le> stop"
        using Cons.prems(1,2) True by (auto simp: fl_ok_def word_less_nat_alt)
      then show False by simp
    qed
    with True Cons.prems(3) show ?thesis by (auto split: if_splits)
  qed (use Cons in auto)
qed simp

lemma trim_loop_prefix:
  "fl_sorted f \<Longrightarrow> fl_ok stop f \<Longrightarrow> trim_loop f stop h = (f', stop') \<Longrightarrow>
     \<exists>n. f' = take n f \<and> fl_ok stop' f'"
proof (induction f stop h arbitrary: f' rule: trim_loop.induct)
  case (1 f stop h)
  show ?case
  proof (cases "take_tail_run f stop h")
    case None
    with 1(4) have "f' = f" "stop' = stop" by (simp_all add: trim_loop.simps [of f])
    with 1(3) show ?thesis by (auto intro!: exI [of _ "length f"])
  next
    case (Some a)
    obtain r g where a: "a = (r, g)" by (cases a)
    let ?s = "stop - unat (run_len r)"
    have f: "f = g @ [r]" by (rule take_tail_run_last [OF 1(2,3) Some [unfolded a]])
    have s: "unat (run_first r) = ?s" using take_tail_run_spec [OF Some [unfolded a]] by auto
    have "fl_sorted g" "fl_ok ?s g" using 1(2,3) f s by (auto simp: sorted_wrt_append fl_ok_def)
    moreover have "trim_loop g ?s h = (f', stop')" using 1(4) Some a by (simp add: trim_loop.simps [of f])
    ultimately obtain n where "f' = take n g" "fl_ok stop' f'" using 1(1) [OF Some a [symmetric]] by blast
    then have "f' = take (min n (length g)) f" "fl_ok stop' f'" using f by (auto simp: min_def)
    then show ?thesis by blast
  qed
qed

lemma give_back_spec:
  "sorted s \<Longrightarrow> distinct s \<Longrightarrow> \<forall>p \<in> set s. unat p < next \<Longrightarrow> give_back s next = (rest, next') \<Longrightarrow>
     next' \<le> next \<and> map unat s = map unat rest @ [next'..<next] \<and> (\<forall>p \<in> set rest. unat p < next')"
proof (induction s arbitrary: "next" rule: rev_induct)
  case (snoc p s)
  show ?case
  proof (cases "unat p + 1 = next")
    case True
    have "\<forall>q \<in> set s. unat q < next - 1"
    proof
      fix q assume q: "q \<in> set s"
      then have "q \<le> p" "q \<noteq> p" using snoc.prems(1,2) by (auto simp: sorted_append)
      then have "unat q < unat p" by (simp add: word_less_nat_alt [symmetric])
      then show "unat q < next - 1" using True by simp
    qed
    moreover have "give_back s (next - 1) = (rest, next')" using snoc.prems(4) True by (simp add: give_back.simps [of "s @ [p]"])
    ultimately have "next' \<le> next - 1" "map unat s = map unat rest @ [next'..<next - 1]" "\<forall>p \<in> set rest. unat p < next'"
      using snoc.IH [of "next - 1"] snoc.prems(1,2) by (auto simp: sorted_append)
    with True show ?thesis by auto
  next
    case False
    with snoc.prems show ?thesis by (auto simp: give_back.simps [of "s @ [p]"])
  qed
qed (simp add: give_back.simps)

lemma push_all_pages:
  "free_pages (foldl (\<lambda>f p. freelist_push f p t) f ps) = free_pages f + mset (map (\<lambda>p. (unat p, t)) ps)"
proof (induction ps arbitrary: f)
  case (Cons p ps)
  have "run_pages \<lparr>freed_at = t, run_first = p, run_len = 1\<rparr> = {#(unat p, t)#}" by (simp add: run_pages_def)
  with Cons show ?case by (simp add: freelist_push_def)
qed simp

lemma push_ok: "fl_ok N f \<Longrightarrow> unat p < N \<Longrightarrow> fl_ok N (freelist_push f p t)"
  by (auto simp: fl_ok_def freelist_push_def)

lemma push_all_ok: "fl_ok N f \<Longrightarrow> \<forall>p \<in> set ps. unat p < N \<Longrightarrow> fl_ok N (foldl (\<lambda>f p. freelist_push f p t) f ps)"
  by (induction ps arbitrary: f) (simp_all add: push_ok)

text \<open>
  Every scratch page is accounted for: it is recorded as free, or it is past the new end of the file.
\<close>

lemma absorb_scratch_spec:
  assumes "distinct scratch" "\<forall>p \<in> set scratch. unat p < next" "absorb_scratch f scratch next t = (f', next')"
  shows "next' \<le> next" and "set [next'..<next] \<subseteq> unat ` set scratch"
    and "free_pages f' + mset (map (\<lambda>n. (n, t)) [next'..<next]) = free_pages f + mset (map (\<lambda>p. (unat p, t)) scratch)"
    and "fl_ok N f \<Longrightarrow> N \<le> next \<Longrightarrow> next < 2 ^ 32 \<Longrightarrow> (\<forall>r \<in> set f. unat (run_first r) + unat (run_len r) \<le> next') \<Longrightarrow> fl_ok next' f'"
proof -
  obtain rest where rest: "give_back (sort scratch) next = (rest, next')"
    "f' = foldl (\<lambda>f p. freelist_push f p t) f rest"
  proof (cases "scratch = []")
    case True
    with assms(3) that [of "[]"] show ?thesis by (simp add: absorb_scratch_def give_back.simps)
  next
    case False
    with assms(1,3) that show ?thesis
      by (auto simp: absorb_scratch_def remdups_adj_distinct split: prod.splits)
  qed
  note gb = give_back_spec [OF _ _ _ rest(1)]
  have g: "next' \<le> next" "map unat (sort scratch) = map unat rest @ [next'..<next]" "\<forall>p \<in> set rest. unat p < next'"
    using gb assms(1,2) by auto
  show "next' \<le> next" by (rule g)
  have "set [next'..<next] \<subseteq> set (map unat (sort scratch))" unfolding g(2) by simp
  then show "set [next'..<next] \<subseteq> unat ` set scratch" by simp
  have "mset (map (\<lambda>p. (unat p, t)) scratch) = image_mset (\<lambda>n. (n, t)) (mset (map unat (sort scratch)))"
    by (simp add: multiset.map_comp o_def)
  also have "\<dots> = mset (map (\<lambda>p. (unat p, t)) rest) + mset (map (\<lambda>n. (n, t)) [next'..<next])"
    unfolding g(2) by (simp add: multiset.map_comp o_def)
  finally show "free_pages f' + mset (map (\<lambda>n. (n, t)) [next'..<next]) = free_pages f + mset (map (\<lambda>p. (unat p, t)) scratch)"
    unfolding rest(2) push_all_pages by (simp add: ac_simps)
  assume "fl_ok N f" "N \<le> next" "next < 2 ^ 32" "\<forall>r \<in> set f. unat (run_first r) + unat (run_len r) \<le> next'"
  then have "fl_ok next' f" using g(1) by (auto simp: fl_ok_def)
  then show "fl_ok next' f'" unfolding rest(2) using g(3) by (rule push_all_ok)
qed

subsection \<open>On disk\<close>

lemma length_free_run_encode [simp]: "length (free_run_encode r) = FREE_ENTRY_BYTES"
  by (simp add: free_run_encode_def Let_def FREE_ENTRY_BYTES_def)

lemma free_run_roundtrip: "free_run_decode (free_run_encode r) = r"
  by (simp add: free_run_decode_def free_run_encode_def Let_def rd32_def rd64_def FREE_ENTRY_BYTES_def
      get_put_same get_put_other)

lemma freelist_roundtrip: "freelist_from_entries (freelist_encode f) = freelist_compact f"
  by (simp add: freelist_from_entries_def freelist_encode_def free_run_roundtrip o_def)

subsection \<open>The allocators\<close>

text \<open>
  What a run of allocations did: the pages it answered with are reusable pages of the old list and
  pages past the old end of the file, each once.
\<close>

definition took :: "freelist \<Rightarrow> txn_id \<Rightarrow> nat \<Rightarrow> pgno list \<Rightarrow> freelist \<Rightarrow> nat \<Rightarrow> bool" where
  "took f h next ps f' next' \<longleftrightarrow> next \<le> next' \<and>
     (\<exists>R. free_pages f = free_pages f' + R \<and> (\<forall>x \<in># R. snd x \<le> h) \<and>
        mset (map unat ps) = image_mset fst R + mset [next..<next'])"

lemma took_refl: "took f h n [] f n"
  by (simp add: took_def exI [of _ "{#}"])

lemma took_trans:
  assumes "took f h n ps f' n'" "took f' h n' qs f'' n''"
  shows "took f h n (ps @ qs) f'' n''"
proof -
  obtain R Q where R: "n \<le> n'" "free_pages f = free_pages f' + R" "\<forall>x \<in># R. snd x \<le> h"
      "mset (map unat ps) = image_mset fst R + mset [n..<n']"
    and Q: "n' \<le> n''" "free_pages f' = free_pages f'' + Q" "\<forall>x \<in># Q. snd x \<le> h"
      "mset (map unat qs) = image_mset fst Q + mset [n'..<n'']"
    using assms unfolding took_def by blast
  have "[n..<n''] = [n..<n'] @ [n'..<n'']" using R(1) Q(1) by (metis le_add_diff_inverse upt_add_eq_append)
  then have "mset (map unat (ps @ qs)) = image_mset fst (R + Q) + mset [n..<n'']" using R(4) Q(4) by (simp add: ac_simps)
  moreover have "free_pages f = free_pages f'' + (R + Q)" using R(2) Q(2) by (simp add: ac_simps)
  moreover have "\<forall>x \<in># R + Q. snd x \<le> h" using R(3) Q(3) by auto
  ultimately show ?thesis using R(1) Q(1) unfolding took_def by (meson order_trans)
qed

lemma alloc_one_took:
  assumes "fl_ok N f" "alloc_one f h n cap = Inr (p, f', n')" "n' \<le> 2 ^ 32"
  shows "took f h n [p] f' n'" and "fl_ok N f'"
proof -
  have "took f h n [p] f' n' \<and> fl_ok N f'"
  proof (cases "freelist_alloc f h")
    case None
    then have "f' = f" "p = of_nat n" "n' = Suc n"
      using assms(2) by (auto simp: alloc_one_def alloc_tail_def split: option.splits if_splits)
    then show ?thesis using assms(1,3) by (auto simp: took_def unat_of_nat intro!: exI [of _ "{#}"])
  next
    case (Some x)
    then have x: "x = (p, f')" "n' = n" using assms(2) by (auto simp: alloc_one_def split: prod.splits)
    with freelist_alloc_spec [OF assms(1), of h p f'] Some obtain t where
      "t \<le> h" "free_pages f = add_mset (unat p, t) (free_pages f')" "fl_ok N f'" by auto
    with x show ?thesis by (auto simp: took_def intro!: exI [of _ "{#(unat p, t)#}"])
  qed
  then show "took f h n [p] f' n'" "fl_ok N f'" by auto
qed

lemma alloc_one_cap: "alloc_one f h n (Some c) = Inr (p, f', n') \<Longrightarrow> n \<le> c \<Longrightarrow> n' \<le> c"
  by (auto simp: alloc_one_def alloc_tail_def split: option.splits if_splits prod.splits)

lemma alloc_one_mono: "alloc_one f h n cap = Inr (p, f', n') \<Longrightarrow> n \<le> n'"
  by (auto simp: alloc_one_def alloc_tail_def split: option.splits if_splits prod.splits)

lemma alloc_pages_cap: "alloc_pages k f h n (Some c) = Inr (ps, f', n') \<Longrightarrow> n \<le> c \<Longrightarrow> n' \<le> c"
  by (induction k arbitrary: f n ps) (auto split: sum.splits prod.splits dest: alloc_one_cap)

lemma alloc_pages_mono: "alloc_pages k f h n cap = Inr (ps, f', n') \<Longrightarrow> n \<le> n'"
  by (induction k arbitrary: f n ps) (auto split: sum.splits prod.splits dest!: alloc_one_mono intro: order_trans)

lemma alloc_pages_took:
  "fl_ok N f \<Longrightarrow> alloc_pages k f h n cap = Inr (ps, f', n') \<Longrightarrow> n' \<le> 2 ^ 32 \<Longrightarrow>
     took f h n ps f' n' \<and> fl_ok N f' \<and> length ps = k"
proof (induction k arbitrary: f n ps)
  case (Suc k)
  from Suc.prems(2) obtain p f1 n1 qs where one: "alloc_one f h n cap = Inr (p, f1, n1)"
    and rest: "alloc_pages k f1 h n1 cap = Inr (qs, f', n')" and ps: "ps = p # qs"
    by (auto split: sum.splits prod.splits)
  have "n1 \<le> 2 ^ 32" using alloc_pages_mono [OF rest] Suc.prems(3) by simp
  from alloc_one_took [OF Suc.prems(1) one this] Suc.IH [OF _ rest Suc.prems(3)]
  show ?case using took_trans [of f h n "[p]" f1 n1 qs f' n'] ps by simp
qed (simp add: took_refl)

lemma freelist_pages_loop_mono: "freelist_pages_loop f h n cap out = Inr (ps, f', n') \<Longrightarrow> n \<le> n'"
proof (induction f h n cap out rule: freelist_pages_loop.induct)
  case (1 f h n cap out)
  show ?case
  proof (cases "length out < chain_pages_needed FREE_ENTRY_BYTES (length f)")
    case True
    with 1(2) obtain p f1 n1 where one: "alloc_one f h n cap = Inr (p, f1, n1)"
      and rest: "freelist_pages_loop f1 h n1 cap (out @ [p]) = Inr (ps, f', n')"
      by (auto simp: freelist_pages_loop.simps [of f] split: sum.splits prod.splits)
    from 1(1) [OF True one refl refl rest] alloc_one_mono [OF one] show ?thesis by simp
  qed (use 1(2) in \<open>simp add: freelist_pages_loop.simps [of f]\<close>)
qed

lemma freelist_pages_loop_took:
  assumes "fl_ok N f" "freelist_pages_loop f h n cap out = Inr (ps, f', n')" "n' \<le> 2 ^ 32"
  shows "\<exists>qs. ps = out @ qs \<and> took f h n qs f' n' \<and> fl_ok N f' \<and>
           chain_pages_needed FREE_ENTRY_BYTES (length f') \<le> length ps"
  using assms
proof (induction f h n cap out rule: freelist_pages_loop.induct)
  case (1 f h n cap out)
  show ?case
  proof (cases "length out < chain_pages_needed FREE_ENTRY_BYTES (length f)")
    case True
    with 1(3) obtain p f1 n1 where one: "alloc_one f h n cap = Inr (p, f1, n1)"
      and rest: "freelist_pages_loop f1 h n1 cap (out @ [p]) = Inr (ps, f', n')"
      by (auto simp: freelist_pages_loop.simps [of f] split: sum.splits prod.splits)
    have "n1 \<le> 2 ^ 32" using freelist_pages_loop_mono [OF rest] 1(4) by simp
    note one' = alloc_one_took [OF 1(2) one this]
    from 1(1) [OF True one refl refl one'(2) rest 1(4)] obtain qs where
      "ps = (out @ [p]) @ qs" "took f1 h n1 qs f' n'" "fl_ok N f'"
      "chain_pages_needed FREE_ENTRY_BYTES (length f') \<le> length ps" by blast
    with took_trans [OF one'(1), of qs f' n'] show ?thesis by auto
  next
    case False
    with 1(2,3) show ?thesis by (auto simp: freelist_pages_loop.simps [of f] took_refl)
  qed
qed

text \<open>The pages found are enough for the list that is left once they are out of it.\<close>

lemma alloc_freelist_pages_took:
  assumes "fl_ok N f" "alloc_freelist_pages f h n cap = Inr (ps, f', n')" "n' \<le> 2 ^ 32"
  shows "took f h n ps f' n'" "fl_ok N f'" "chain_pages_needed FREE_ENTRY_BYTES (length f') \<le> length ps"
proof -
  note c = freelist_compact_spec [OF assms(1)]
  from freelist_pages_loop_took [OF c(2), of h n cap "[]" ps f' n'] assms(2,3)
  have t: "took (freelist_compact f) h n ps f' n' \<and> fl_ok N f' \<and> chain_pages_needed FREE_ENTRY_BYTES (length f') \<le> length ps"
    by (simp add: alloc_freelist_pages_def)
  then show "took f h n ps f' n'" using c(1) by (simp add: took_def)
  show "fl_ok N f'" "chain_pages_needed FREE_ENTRY_BYTES (length f') \<le> length ps" using t by auto
qed

text \<open>Without a ceiling on the file an allocation never fails, and the loop ends.\<close>

lemma alloc_one_total: "\<exists>x. alloc_one f h n None = Inr x"
  by (auto simp: alloc_one_def alloc_tail_def split: option.splits)

lemma alloc_pages_total: "\<exists>x. alloc_pages k f h n None = Inr x"
proof (induction k arbitrary: f n)
  case (Suc k)
  obtain p f1 n1 where one: "alloc_one f h n None = Inr (p, f1, n1)" using alloc_one_total [of f h n] by auto
  obtain ps f2 n2 where "alloc_pages k f1 h n1 None = Inr (ps, f2, n2)" using Suc.IH [of f1 n1] by auto
  with one show ?case by simp
qed simp

lemma freelist_pages_total: "cap = None \<Longrightarrow> \<exists>x. freelist_pages_loop f h n cap out = Inr x"
proof (induction f h n cap out rule: freelist_pages_loop.induct)
  case (1 f h n cap out)
  obtain p f1 n1 where one: "alloc_one f h n cap = Inr (p, f1, n1)" using alloc_one_total [of f h n] "1.prems" by auto
  show ?case
  proof (cases "length out < chain_pages_needed FREE_ENTRY_BYTES (length f)")
    case True
    from "1.IH" [OF True one refl refl "1.prems"] show ?thesis by (simp add: freelist_pages_loop.simps [of f] True one)
  qed (simp add: freelist_pages_loop.simps [of f])
qed

section \<open>Properties\<close>

text \<open>
  Compacting a freelist keeps every free page with the transaction that freed it, leaves the
  runs in page order without overlap, never leaves more of them, and keeps the freelist well formed.
\<close>

lemma freelist_compact_correct:
  assumes "fl_ok N f" "nodup (free_nos f)"
  shows "free_pages (freelist_compact f) = free_pages f \<and> fl_ok N (freelist_compact f) \<and>
         fl_sorted (freelist_compact f) \<and> length (freelist_compact f) \<le> length f"
  using freelist_compact_spec [OF assms(1)] freelist_compact_sorted [OF assms] freelist_compact_length by blast

text \<open>
  C36. Allocating from a freelist in page order gives the lowest page that the horizon allows, and takes
  out exactly that page; it fails only when no free page may be reused.
\<close>

theorem freelist_alloc_correct:
  assumes "fl_ok N f" "fl_sorted f"
  shows "case freelist_alloc f h of
           None \<Rightarrow> (\<forall>x \<in># free_pages f. h < snd x)
         | Some (p, f') \<Rightarrow> (\<exists>t \<le> h. free_pages f = add_mset (unat p, t) (free_pages f')) \<and> fl_ok N f' \<and>
             (\<forall>x \<in># free_pages f. snd x \<le> h \<longrightarrow> unat p \<le> fst x) \<and> length f' \<le> length f"
proof (cases "freelist_alloc f h")
  case None
  then show ?thesis using freelist_alloc_None by auto
next
  case (Some a)
  obtain p f' where a: "a = (p, f')" by (cases a)
  have "\<forall>x \<in># free_pages f. snd x \<le> h \<longrightarrow> unat p \<le> fst x"
    using freelist_alloc_lowest [OF assms(2) Some [unfolded a]] by auto
  then show ?thesis
    using Some a freelist_alloc_spec [OF assms(1) Some [unfolded a]] freelist_alloc_length [OF Some [unfolded a]] by simp
qed

theorem freelist_alloc_correct_witness:
  "freelist_alloc [\<lparr>freed_at = 9, run_first = 2, run_len = 1\<rparr>, \<lparr>freed_at = 3, run_first = 5, run_len = 2\<rparr>] 4 = Some (5, [\<lparr>freed_at = 9, run_first = 2, run_len = 1\<rparr>, \<lparr>freed_at = 3, run_first = 6, run_len = 1\<rparr>]) \<and>
   (\<exists>t \<le> 4. free_pages [\<lparr>freed_at = 9, run_first = 2, run_len = 1\<rparr>, \<lparr>freed_at = 3, run_first = 5, run_len = 2\<rparr>]
      = add_mset (5, t) (free_pages [\<lparr>freed_at = 9, run_first = 2, run_len = 1\<rparr>, \<lparr>freed_at = 3, run_first = 6, run_len = 1\<rparr>]))"
proof -
  let ?f = "[\<lparr>freed_at = 9, run_first = 2, run_len = 1\<rparr>, \<lparr>freed_at = 3, run_first = 5, run_len = 2\<rparr>]"
  have "fl_ok 10 ?f" "fl_sorted ?f" by (simp_all add: fl_ok_def)
  moreover have "freelist_alloc ?f 4 = Some (5, [\<lparr>freed_at = 9, run_first = 2, run_len = 1\<rparr>, \<lparr>freed_at = 3, run_first = 6, run_len = 1\<rparr>])"
    by (simp)
  ultimately show ?thesis using freelist_alloc_correct [of 10 ?f 4] by (simp del: freelist_alloc.simps)
qed

text \<open>
  Trimming gives up exactly the reusable pages that end the file: what is left is a prefix of the
  list, no run of it reaches past the new end, and no reusable run of it ends there.
\<close>

lemma trim_tail_correct:
  assumes "fl_ok N f" "fl_sorted f" "trim_tail f N h = (f', freed)"
  shows "freed \<le> N \<and> (\<exists>n. f' = take n f) \<and> fl_ok (N - freed) f' \<and>
         (\<exists>R. free_pages f = free_pages f' + R \<and> (\<forall>x \<in># R. snd x \<le> h) \<and> image_mset fst R = mset [N - freed..<N]) \<and>
         take_tail_run f' (N - freed) h = None"
proof -
  obtain stop where t: "trim_loop f N h = (f', stop)" "freed = N - stop" using assms(3) by (auto simp: trim_tail_def split: prod.splits)
  note sp = trim_loop_spec [OF t(1)]
  then have "N - freed = stop" using t(2) by simp
  with sp trim_loop_prefix [OF assms(2,1) t(1)] t(2) show ?thesis by auto
qed

text \<open>
  C22. A transaction's scratch pages are never lost: each is given back by ending the file before it, or
  recorded as free at the committing transaction, and nothing else changes.
\<close>

theorem absorb_scratch_keeps_every_page:
  assumes "distinct scratch" "\<forall>p \<in> set scratch. unat p < next" "absorb_scratch f scratch next t = (f', next')"
  shows "next' \<le> next \<and> set [next'..<next] \<subseteq> unat ` set scratch \<and>
         free_pages f' + mset (map (\<lambda>n. (n, t)) [next'..<next]) = free_pages f + mset (map (\<lambda>p. (unat p, t)) scratch)"
  using absorb_scratch_spec(1-3) [OF assms] by blast

theorem absorb_scratch_keeps_every_page_witness:
  "absorb_scratch [] [9, 4, 8] 10 7 = ([\<lparr>freed_at = 7, run_first = 4, run_len = 1\<rparr>], 8) \<and> set [8..<10::nat] \<subseteq> unat ` set [9, 4, 8 :: pgno]"
proof -
  have "absorb_scratch [] [9, 4, 8] 10 7 = ([\<lparr>freed_at = 7, run_first = 4, run_len = 1\<rparr>], 8)"
    by (simp add: absorb_scratch_def give_back.simps freelist_push_def)
  with absorb_scratch_keeps_every_page [of "[9, 4, 8]" 10 "[]" 7 "[\<lparr>freed_at = 7, run_first = 4, run_len = 1\<rparr>]" 8] show ?thesis by simp
qed

text \<open>
  C23. Finding pages for the freelist's own chain ends, although every page taken from the freelist
  changes how many are needed; the pages found are enough for the list that is left, and each of them
  was reusable or is new.
\<close>

theorem freelist_pages_suffice:
  assumes "fl_ok N f"
  shows "\<exists>ps f' n'. alloc_freelist_pages f h n None = Inr (ps, f', n') \<and>
           (n' \<le> 2 ^ 32 \<longrightarrow> took f h n ps f' n' \<and> chain_pages_needed FREE_ENTRY_BYTES (length f') \<le> length ps)"
proof -
  obtain x where "alloc_freelist_pages f h n None = Inr x"
    using freelist_pages_total [OF refl] unfolding alloc_freelist_pages_def by blast
  then show ?thesis using alloc_freelist_pages_took [OF assms, of h n None] by (cases x) blast
qed

theorem freelist_pages_suffice_witness:
  "\<exists>ps f' n'. alloc_freelist_pages [\<lparr>freed_at = 3, run_first = 5, run_len = 2\<rparr>] 4 10 None = Inr (ps, f', n')"
proof -
  have "fl_ok 10 [\<lparr>freed_at = 3, run_first = 5, run_len = 2\<rparr>]" by (simp add: fl_ok_def)
  from freelist_pages_suffice [OF this, of 4 10] show ?thesis by blast
qed

end
