(* ===== verification/Big_Txn.thy ===== *)
theory Big_Txn
  imports Big_Records Big_Freelist
begin

text \<open>
  \<^verbatim>\<open>big-pager/src/txn.rs\<close>: a write transaction. It owns copies of the freelist, the root
  records, the snapshot registry and the catalog, and a map of the pages it has written; the file is
  not touched before the commit. The second half states who may own a page while a transaction runs:
  \<open>txn_step\<close> are the calls a caller may make, \<open>txn_inv\<close> is what they keep.
\<close>

section \<open>The transaction\<close>

record dirty_chains =
  dc_roots :: bool
  dc_catalog :: bool
  dc_snapshots :: bool

record write_txn =
  w_txn_id :: txn_id
  w_horizon :: txn_id
  w_base :: meta_page
  w_dirty :: "(pgno, page) btree_map"
  w_freelist :: freelist
  w_roots :: root_records
  w_snapshots :: snapshot_registry
  w_catalog :: "u8 list list"
  w_next_pgno :: nat
  w_scratch :: "pgno list"
  w_dirty_chains :: dirty_chains
  w_tail_floor :: nat

definition txn_new :: "nat \<Rightarrow> meta_page \<Rightarrow> txn_id \<Rightarrow> freelist \<Rightarrow> root_records \<Rightarrow> snapshot_registry \<Rightarrow> u8 list list \<Rightarrow> write_txn" where
  "txn_new page_count base horizon f roots snapshots catalog =
     \<lparr>w_txn_id = m_txn_id base + 1, w_horizon = horizon, w_base = base, w_dirty = [], w_freelist = f,
      w_roots = roots, w_snapshots = snapshots, w_catalog = catalog, w_next_pgno = page_count,
      w_scratch = [], w_dirty_chains = \<lparr>dc_roots = False, dc_catalog = False, dc_snapshots = False\<rparr>,
      w_tail_floor = page_count\<rparr>"

definition txn_read :: "mem_pager \<Rightarrow> write_txn \<Rightarrow> pgno \<Rightarrow> store_error + page" where
  "txn_read ps w n = (case bt_get (w_dirty w) n of Some p \<Rightarrow> Inr p | None \<Rightarrow> pager_read ps n)"

definition txn_alloc_tail :: "nat option \<Rightarrow> write_txn \<Rightarrow> store_error + pgno \<times> write_txn" where
  "txn_alloc_tail cap w =
     (case cap of
        Some c \<Rightarrow>
          if w_next_pgno w \<ge> c then Inl (MapSizeExhausted (of_nat (w_next_pgno w + 1)) (of_nat c))
          else Inr (of_nat (w_next_pgno w), w\<lparr>w_next_pgno := w_next_pgno w + 1\<rparr>)
      | None \<Rightarrow> Inr (of_nat (w_next_pgno w), w\<lparr>w_next_pgno := w_next_pgno w + 1\<rparr>))"

definition txn_alloc :: "nat option \<Rightarrow> write_txn \<Rightarrow> store_error + pgno \<times> write_txn" where
  "txn_alloc cap w =
     (if w_scratch w \<noteq> [] then
        (let p = last (w_scratch w)
         in Inr (p, w\<lparr>w_scratch := butlast (w_scratch w), w_dirty := bt_remove p (w_dirty w)\<rparr>))
      else
        (case freelist_alloc (w_freelist w) (w_horizon w) of
           Some (p, f) \<Rightarrow> Inr (p, w\<lparr>w_freelist := f\<rparr>)
         | None \<Rightarrow> txn_alloc_tail cap w))"

definition txn_free :: "pgno \<Rightarrow> write_txn \<Rightarrow> write_txn" where
  "txn_free n w =
     (if unat n \<ge> w_tail_floor w
      then w\<lparr>w_dirty := bt_remove n (w_dirty w), w_scratch := w_scratch w @ [n]\<rparr>
      else w\<lparr>w_freelist := freelist_push (w_freelist w) n (w_txn_id w)\<rparr>)"

definition txn_cow :: "mem_pager \<Rightarrow> nat option \<Rightarrow> pgno \<Rightarrow> write_txn \<Rightarrow> store_error + pgno \<times> write_txn" where
  "txn_cow ps cap n w =
     (case txn_read ps w n of Inl e \<Rightarrow> Inl e
      | Inr content \<Rightarrow>
          (case txn_alloc cap w of Inl e \<Rightarrow> Inl e
           | Inr (new, w1) \<Rightarrow> Inr (new, txn_free n (w1\<lparr>w_dirty := bt_insert new content (w_dirty w1)\<rparr>))))"

definition txn_write :: "write_txn \<Rightarrow> pgno \<Rightarrow> page \<Rightarrow> store_error + write_txn" where
  "txn_write w n p =
     (if unat n \<ge> w_next_pgno w then Inl (UnallocatedPage n)
      else Inr (w\<lparr>w_dirty := bt_insert n p (w_dirty w)\<rparr>))"

definition txn_root :: "write_txn \<Rightarrow> fragment_key \<Rightarrow> pgno option" where
  "txn_root w k = roots_get (w_roots w) k"

definition txn_set_root :: "fragment_key \<Rightarrow> pgno \<Rightarrow> write_txn \<Rightarrow> write_txn" where
  "txn_set_root k r w =
     w\<lparr>w_dirty_chains := (w_dirty_chains w)\<lparr>dc_roots := True\<rparr>, w_roots := roots_set (w_roots w) k r\<rparr>"

definition txn_remove_root :: "fragment_key \<Rightarrow> write_txn \<Rightarrow> pgno option \<times> write_txn" where
  "txn_remove_root k w =
     (let (old, rs) = roots_remove (w_roots w) k
      in (old, w\<lparr>w_dirty_chains := (w_dirty_chains w)\<lparr>dc_roots := True\<rparr>, w_roots := rs\<rparr>))"

definition txn_create_snapshot :: "u64 \<Rightarrow> u8 list \<Rightarrow> bool \<Rightarrow> write_txn \<Rightarrow> snapshot \<times> write_txn" where
  "txn_create_snapshot expires name pinned w =
     (let root = (case m_root_records (w_base w) of Some r \<Rightarrow> r | None \<Rightarrow> 0);
          (s, reg) = registry_create (w_snapshots w) (m_txn_id (w_base w)) root expires name pinned
      in (s, w\<lparr>w_dirty_chains := (w_dirty_chains w)\<lparr>dc_snapshots := True\<rparr>, w_snapshots := reg\<rparr>))"

definition txn_drop_snapshot :: "u64 \<Rightarrow> write_txn \<Rightarrow> snapshot option \<times> write_txn" where
  "txn_drop_snapshot i w =
     (let (s, reg) = registry_remove (w_snapshots w) i
      in (s, w\<lparr>w_dirty_chains := (w_dirty_chains w)\<lparr>dc_snapshots := True\<rparr>, w_snapshots := reg\<rparr>))"

definition txn_expire_snapshots :: "u64 \<Rightarrow> write_txn \<Rightarrow> snapshot list \<times> write_txn" where
  "txn_expire_snapshots now w =
     (let (ss, reg) = registry_expire (w_snapshots w) now
      in (ss, w\<lparr>w_dirty_chains := (w_dirty_chains w)\<lparr>dc_snapshots := True\<rparr>, w_snapshots := reg\<rparr>))"

definition txn_set_catalog :: "u8 list list \<Rightarrow> write_txn \<Rightarrow> write_txn" where
  "txn_set_catalog entries w =
     (if entries \<noteq> w_catalog w
      then w\<lparr>w_dirty_chains := (w_dirty_chains w)\<lparr>dc_catalog := True\<rparr>, w_catalog := entries\<rparr>
      else w)"

text \<open>The first half of \<^verbatim>\<open>commit\<close>, which gives the scratch pages back.\<close>

definition txn_absorb :: "write_txn \<Rightarrow> write_txn" where
  "txn_absorb w =
     (let (f, n) = absorb_scratch (w_freelist w) (w_scratch w) (w_next_pgno w) (w_txn_id w)
      in w\<lparr>w_scratch := [], w_freelist := f, w_next_pgno := n\<rparr>)"

lemma bt_get_insert_any: "bt_get (bt_insert k v m) j = (if j = k then Some v else bt_get m j)"
  by (induction k v m rule: bt_insert.induct) (auto simp: bt_get_def)

text \<open>A transaction is itself a store of pages: its own pages over those of the file.\<close>

interpretation txn: page_store "txn_read ps" txn_write for ps
  by unfold_locales (auto simp: txn_read_def txn_write_def bt_get_insert_any split: if_splits)

section \<open>Who owns a page\<close>

text \<open>
  \<open>owned\<close> are the pages the transaction has been given and has not freed, \<open>released\<close> the pages of the
  committed state it has freed. A caller writes only pages it owns, and frees a page it owns or a
  page of the committed state, once. \<open>K\<close> are the pages the store keeps for itself, the meta pages and
  the metadata chains; a caller does not free those.
\<close>

record txn_ghost =
  owned :: "pgno list"
  released :: "pgno list"

definition live_page :: "pgno set \<Rightarrow> freelist \<Rightarrow> nat \<Rightarrow> pgno \<Rightarrow> bool" where
  "live_page K f0 n0 p \<longleftrightarrow> p \<notin> K \<and> unat p < n0 \<and> unat p \<notin># free_nos f0"

inductive txn_step :: "mem_pager \<Rightarrow> nat option \<Rightarrow> pgno set \<Rightarrow> freelist \<Rightarrow> write_txn \<times> txn_ghost \<Rightarrow> write_txn \<times> txn_ghost \<Rightarrow> bool"
  for ps :: mem_pager and cap :: "nat option" and K :: "pgno set" and f0 :: freelist where
  step_alloc: "txn_alloc cap w = Inr (p, w') \<Longrightarrow> w_next_pgno w' < 2 ^ 32 \<Longrightarrow>
    txn_step ps cap K f0 (w, g) (w', g\<lparr>owned := p # owned g\<rparr>)"
| step_alloc_tail: "txn_alloc_tail cap w = Inr (p, w') \<Longrightarrow> w_next_pgno w' < 2 ^ 32 \<Longrightarrow>
    txn_step ps cap K f0 (w, g) (w', g\<lparr>owned := p # owned g\<rparr>)"
| step_write: "p \<in> set (owned g) \<Longrightarrow> txn_write w p c = Inr w' \<Longrightarrow> txn_step ps cap K f0 (w, g) (w', g)"
| step_free_owned: "p \<in> set (owned g) \<Longrightarrow> txn_step ps cap K f0 (w, g) (txn_free p w, g\<lparr>owned := remove1 p (owned g)\<rparr>)"
| step_free_live: "live_page K f0 (w_tail_floor w) p \<Longrightarrow> p \<notin> set (released g) \<Longrightarrow>
    txn_step ps cap K f0 (w, g) (txn_free p w, g\<lparr>released := p # released g\<rparr>)"
| step_cow: "live_page K f0 (w_tail_floor w) p \<Longrightarrow> p \<notin> set (released g) \<Longrightarrow> txn_cow ps cap p w = Inr (q, w') \<Longrightarrow>
    w_next_pgno w' < 2 ^ 32 \<Longrightarrow> txn_step ps cap K f0 (w, g) (w', g\<lparr>owned := q # owned g, released := p # released g\<rparr>)"
| step_cow_owned: "p \<in> set (owned g) \<Longrightarrow> txn_cow ps cap p w = Inr (q, w') \<Longrightarrow> w_next_pgno w' < 2 ^ 32 \<Longrightarrow>
    txn_step ps cap K f0 (w, g) (w', g\<lparr>owned := remove1 p (q # owned g)\<rparr>)"
| step_set_root: "txn_step ps cap K f0 (w, g) (txn_set_root k r w, g)"
| step_remove_root: "txn_step ps cap K f0 (w, g) (snd (txn_remove_root k w), g)"
| step_create_snapshot: "txn_step ps cap K f0 (w, g) (snd (txn_create_snapshot e nm pin w), g)"
| step_drop_snapshot: "txn_step ps cap K f0 (w, g) (snd (txn_drop_snapshot i w), g)"
| step_expire_snapshots: "txn_step ps cap K f0 (w, g) (snd (txn_expire_snapshots now w), g)"
| step_set_catalog: "\<forall>e \<in> set es. length e = CATALOG_ENTRY_BYTES \<Longrightarrow> txn_step ps cap K f0 (w, g) (txn_set_catalog es w, g)"

text \<open>
  The balance: the free pages, the scratch pages and the owned pages are together the free pages at
  the start, the pages the file has grown by, and the pages released.
\<close>

definition txn_balance :: "freelist \<Rightarrow> write_txn \<times> txn_ghost \<Rightarrow> bool" where
  "txn_balance f0 = (\<lambda>(w, g).
     free_nos (w_freelist w) + mset (map unat (w_scratch w)) + mset (map unat (owned g))
       = free_nos f0 + mset [w_tail_floor w..<w_next_pgno w] + mset (map unat (released g)))"

text \<open>A page nobody in the committed state, no snapshot and no reader can see.\<close>

definition fresh_page :: "freelist \<Rightarrow> write_txn \<Rightarrow> nat \<Rightarrow> bool" where
  "fresh_page f0 w n \<longleftrightarrow> w_tail_floor w \<le> n \<or> (\<exists>t \<le> w_horizon w. (n, t) \<in># free_pages f0)"

definition txn_inv :: "pgno set \<Rightarrow> freelist \<Rightarrow> write_txn \<times> txn_ghost \<Rightarrow> bool" where
  "txn_inv K f0 = (\<lambda>(w, g).
     w_horizon w < w_txn_id w \<and> w_tail_floor w \<le> w_next_pgno w \<and> w_next_pgno w < 2 ^ 32 \<and>
     fl_ok (w_tail_floor w) f0 \<and> nodup (free_nos f0) \<and>
     fl_ok (w_tail_floor w) (w_freelist w) \<and>
     distinct (released g) \<and> (\<forall>p \<in> set (released g). live_page K f0 (w_tail_floor w) p) \<and>
     txn_balance f0 (w, g) \<and>
     (\<forall>x \<in># free_pages (w_freelist w). snd x = w_txn_id w \<or> x \<in># free_pages f0) \<and>
     (\<forall>p \<in> set (owned g). fresh_page f0 w (unat p)) \<and>
     (\<forall>p \<in> set (w_scratch w). w_tail_floor w \<le> unat p) \<and>
     bt_inv (w_dirty w) \<and>
     (\<forall>p c. bt_get (w_dirty w) p = Some c \<longrightarrow> fresh_page f0 w (unat p) \<and>
        (p \<in> set (owned g) \<or> (unat p, w_txn_id w) \<in># free_pages (w_freelist w))))"

lemma live_not_fresh: "live_page K f0 (w_tail_floor w) p \<Longrightarrow> \<not> fresh_page f0 w (unat p)"
  by (force simp: live_page_def fresh_page_def)

lemma free_pages_bound: "fl_ok N f \<Longrightarrow> n \<in># free_nos f \<Longrightarrow> n < N"
  by (fastforce simp: in_free_pages run_pages_fst fl_ok_def)

lemma distinct_map_unat [simp]: "distinct (map unat (ps :: pgno list)) \<longleftrightarrow> distinct ps"
  by (auto simp: distinct_map inj_on_def word_unat_eq_iff)

lemma txn_nodup:
  assumes "txn_inv K f0 (w, g)"
  shows "nodup (free_nos (w_freelist w) + mset (map unat (w_scratch w)) + mset (map unat (owned g)))"
proof -
  have i: "fl_ok (w_tail_floor w) f0" "nodup (free_nos f0)" "distinct (released g)"
    "\<forall>p \<in> set (released g). live_page K f0 (w_tail_floor w) p" "txn_balance f0 (w, g)"
    using assms by (auto simp: txn_inv_def)
  have "nodup (free_nos f0 + mset [w_tail_floor w..<w_next_pgno w] + mset (map unat (released g)))"
    unfolding nodup_plus nodup_mset using i free_pages_bound [OF i(1)]
    by (fastforce simp: live_page_def)
  then show ?thesis using i(5) by (simp add: txn_balance_def del: mset_map)
qed

lemma nodup_owned:
  assumes "txn_inv K f0 (w, g)"
  shows "distinct (owned g)" "distinct (w_scratch w)" "nodup (free_nos (w_freelist w))"
    "p \<in> set (owned g) \<Longrightarrow> p \<notin> set (w_scratch w)"
    "p \<in> set (owned g) \<Longrightarrow> unat p \<notin># free_nos (w_freelist w)"
    "p \<in> set (w_scratch w) \<Longrightarrow> unat p \<notin># free_nos (w_freelist w)"
  using txn_nodup [OF assms] unfolding nodup_plus nodup_mset by auto

lemma balance_bound:
  assumes "txn_inv K f0 (w, g)"
  shows "p \<in> set (owned g) \<Longrightarrow> unat p < w_next_pgno w" "p \<in> set (w_scratch w) \<Longrightarrow> unat p < w_next_pgno w"
proof -
  have i: "fl_ok (w_tail_floor w) f0" "w_tail_floor w \<le> w_next_pgno w"
    "\<forall>p \<in> set (released g). live_page K f0 (w_tail_floor w) p" "txn_balance f0 (w, g)"
    using assms by (auto simp: txn_inv_def)
  have b: "n < w_next_pgno w"
    if "n \<in># free_nos f0 + mset [w_tail_floor w..<w_next_pgno w] + mset (map unat (released g))" for n
    using that i(2,3) free_pages_bound [OF i(1), of n] by (fastforce simp: live_page_def)
  have "unat p \<in># free_nos (w_freelist w) + mset (map unat (w_scratch w)) + mset (map unat (owned g))"
    if "p \<in> set (owned g) \<or> p \<in> set (w_scratch w)" for p using that by auto
  with b [of "unat p"] i(4) show "p \<in> set (owned g) \<Longrightarrow> unat p < w_next_pgno w"
      "p \<in> set (w_scratch w) \<Longrightarrow> unat p < w_next_pgno w"
    unfolding txn_balance_def prod.case by metis+
qed

lemma txn_alloc_tail_inv:
  assumes "txn_inv K f0 (w, g)" "txn_alloc_tail cap w = Inr (p, w')" "w_next_pgno w' < 2 ^ 32"
  shows "txn_inv K f0 (w', g\<lparr>owned := p # owned g\<rparr>)" "unat p < w_next_pgno w'" "w_tail_floor w' = w_tail_floor w" "w_dirty w' = w_dirty w"
proof -
  have w': "w' = w\<lparr>w_next_pgno := w_next_pgno w + 1\<rparr>" "p = of_nat (w_next_pgno w)"
    using assms(2) by (auto simp: txn_alloc_tail_def split: option.splits if_splits)
  have p: "unat p = w_next_pgno w" using assms(1) by (simp add: w' txn_inv_def unat_of_nat)
  show "unat p < w_next_pgno w'" "w_tail_floor w' = w_tail_floor w" "w_dirty w' = w_dirty w" using p by (simp_all add: w')
  have "txn_balance f0 (w', g\<lparr>owned := p # owned g\<rparr>)"
    using assms(1) p by (simp add: txn_inv_def txn_balance_def w'(1) del: mset_upt)
  then show "txn_inv K f0 (w', g\<lparr>owned := p # owned g\<rparr>)"
    using assms(1,3) p unfolding txn_inv_def by (auto simp: w'(1) fresh_page_def)
qed

lemma txn_alloc_frame:
  "txn_alloc cap w = Inr (p, w') \<Longrightarrow> w_tail_floor w' = w_tail_floor w \<and> w_txn_id w' = w_txn_id w \<and> w_horizon w' = w_horizon w"
  by (auto simp: txn_alloc_def txn_alloc_tail_def Let_def split: if_splits option.splits prod.splits)

lemma txn_free_frame: "w_next_pgno (txn_free p w) = w_next_pgno w"
  by (simp add: txn_free_def)

lemma txn_alloc_inv:
  assumes inv: "txn_inv K f0 (w, g)" and al: "txn_alloc cap w = Inr (p, w')" and n: "w_next_pgno w' < 2 ^ 32"
  shows "txn_inv K f0 (w', g\<lparr>owned := p # owned g\<rparr>)"
proof (cases "w_scratch w = []")
  case False
  then obtain s where s: "w_scratch w = s @ [p]" and w': "w' = w\<lparr>w_scratch := s, w_dirty := bt_remove p (w_dirty w)\<rparr>"
    using al by (cases "w_scratch w" rule: rev_cases) (auto simp: txn_alloc_def)
  have "txn_balance f0 (w', g\<lparr>owned := p # owned g\<rparr>)"
    using inv s by (simp add: txn_inv_def txn_balance_def w' del: mset_upt)
  then show ?thesis
    using inv s unfolding txn_inv_def by (auto simp: w' fresh_page_def bt_get_remove split: if_splits)
next
  case True
  show ?thesis
  proof (cases "freelist_alloc (w_freelist w) (w_horizon w)")
    case None
    with True al have "txn_alloc_tail cap w = Inr (p, w')" by (simp add: txn_alloc_def)
    with txn_alloc_tail_inv(1) inv n show ?thesis by blast
  next
    case (Some a)
    with True al obtain f where f: "freelist_alloc (w_freelist w) (w_horizon w) = Some (p, f)" "w' = w\<lparr>w_freelist := f\<rparr>"
      by (auto simp: txn_alloc_def split: prod.splits)
    have ok: "fl_ok (w_tail_floor w) (w_freelist w)" using inv by (simp add: txn_inv_def)
    from freelist_alloc_spec [OF ok f(1)] obtain t where t: "t \<le> w_horizon w"
      "free_pages (w_freelist w) = add_mset (unat p, t) (free_pages f)" "fl_ok (w_tail_floor w) f" by blast
    have lt: "w_horizon w < w_txn_id w" using inv by (simp add: txn_inv_def)
    then have "(unat p, t) \<in># free_pages f0" using inv t(1,2) by (auto simp: txn_inv_def)
    then have fr: "fresh_page f0 w' (unat p)" using t(1) by (auto simp: fresh_page_def f(2))
    from lt have keep: "(q, w_txn_id w) \<in># free_pages (w_freelist w) \<longleftrightarrow> (q, w_txn_id w) \<in># free_pages f" for q
      using t(1,2) by auto
    have "txn_balance f0 (w', g\<lparr>owned := p # owned g\<rparr>)"
      using inv t(2) by (simp add: txn_inv_def txn_balance_def f(2) del: mset_upt)
    then show ?thesis using inv t fr keep unfolding txn_inv_def by (auto simp: f(2) fresh_page_def)
  qed
qed

lemma txn_write_inv:
  assumes "txn_inv K f0 (w, g)" "p \<in> set (owned g)"
  shows "txn_inv K f0 (w\<lparr>w_dirty := bt_insert p c (w_dirty w)\<rparr>, g)"
  using assms unfolding txn_inv_def by (auto simp: txn_balance_def fresh_page_def bt_get_insert_any split: if_splits)

lemma push_pages: "free_pages (freelist_push f p t) = add_mset (unat p, t) (free_pages f)"
  using push_all_pages [of t f "[p]"] by simp

lemma txn_free_push:
  assumes inv: "txn_inv K f0 (w, g)" and p: "unat p < w_tail_floor w"
    and bal: "txn_balance f0 (txn_free p w, g')"
    and owned: "set (owned g') \<subseteq> set (owned g)" "set (owned g) \<subseteq> insert p (set (owned g'))"
    and rel: "distinct (released g')" "\<forall>p \<in> set (released g'). live_page K f0 (w_tail_floor w) p"
  shows "txn_inv K f0 (txn_free p w, g')"
proof -
  have w': "txn_free p w = w\<lparr>w_freelist := freelist_push (w_freelist w) p (w_txn_id w)\<rparr>"
    using p by (simp add: txn_free_def)
  have "fl_ok (w_tail_floor w) (freelist_push (w_freelist w) p (w_txn_id w))"
    using inv p by (intro push_ok) (auto simp: txn_inv_def)
  then show ?thesis using inv bal owned rel unfolding txn_inv_def w'
    by (auto simp: push_pages fresh_page_def subset_iff)
qed

lemma txn_free_owned_inv:
  assumes inv: "txn_inv K f0 (w, g)" and p: "p \<in> set (owned g)"
  shows "txn_inv K f0 (txn_free p w, g\<lparr>owned := remove1 p (owned g)\<rparr>)"
proof (cases "w_tail_floor w \<le> unat p")
  case True
  then have w': "txn_free p w = w\<lparr>w_dirty := bt_remove p (w_dirty w), w_scratch := w_scratch w @ [p]\<rparr>"
    by (simp add: txn_free_def)
  have "mset (map unat (owned g)) = add_mset (unat p) (mset (map unat (remove1 p (owned g))))"
    using p by (metis image_mset_add_mset insert_DiffM mset_map mset_remove1 set_mset_mset)
  then have "txn_balance f0 (txn_free p w, g\<lparr>owned := remove1 p (owned g)\<rparr>)"
    using inv by (simp add: txn_inv_def txn_balance_def w' del: mset_map mset_upt)
  then show ?thesis using inv True unfolding txn_inv_def w'
    by (auto simp: fresh_page_def bt_get_remove split: if_splits dest: notin_set_remove1)
next
  case False
  have "mset (map unat (owned g)) = add_mset (unat p) (mset (map unat (remove1 p (owned g))))"
    using p by (metis image_mset_add_mset insert_DiffM mset_map mset_remove1 set_mset_mset)
  then have "txn_balance f0 (txn_free p w, g\<lparr>owned := remove1 p (owned g)\<rparr>)"
    using inv False by (simp add: txn_inv_def txn_balance_def txn_free_def push_pages del: mset_map mset_upt)
  moreover have "set (owned g) \<subseteq> insert p (set (remove1 p (owned g)))" by (metis in_set_remove1 insertCI subsetI)
  moreover have "distinct (released g)" "\<forall>p \<in> set (released g). live_page K f0 (w_tail_floor w) p"
    using inv by (simp_all add: txn_inv_def)
  ultimately show ?thesis using False set_remove1_subset [of p "owned g"] by (intro txn_free_push [OF inv]) auto
qed

lemma txn_free_live_inv:
  assumes inv: "txn_inv K f0 (w, g)" and p: "live_page K f0 (w_tail_floor w) p" "p \<notin> set (released g)"
  shows "txn_inv K f0 (txn_free p w, g\<lparr>released := p # released g\<rparr>)"
proof (rule txn_free_push [OF inv])
  show "unat p < w_tail_floor w" using p by (simp add: live_page_def)
  then show "txn_balance f0 (txn_free p w, g\<lparr>released := p # released g\<rparr>)"
    using inv by (simp add: txn_inv_def txn_balance_def txn_free_def push_pages del: mset_upt)
qed (use inv p in \<open>auto simp: txn_inv_def\<close>)

lemma txn_same_inv:
  assumes "txn_inv K f0 (w, g)" "w_txn_id w' = w_txn_id w" "w_horizon w' = w_horizon w" "w_tail_floor w' = w_tail_floor w"
    "w_next_pgno w' = w_next_pgno w" "w_freelist w' = w_freelist w" "w_scratch w' = w_scratch w" "w_dirty w' = w_dirty w"
  shows "txn_inv K f0 (w', g)"
  using assms unfolding txn_inv_def txn_balance_def fresh_page_def by simp

lemma txn_step_inv:
  assumes "txn_step ps cap K f0 x y" "txn_inv K f0 x"
  shows "txn_inv K f0 y"
  using assms
proof (induction rule: txn_step.induct)
  case (step_write p g w c w')
  then show ?case using txn_write_inv [of K f0 w g p c] by (auto simp: txn_write_def split: if_splits)
next
  case (step_cow w p g q w')
  then obtain c w1 where w1: "txn_alloc cap w = Inr (q, w1)"
    and w': "w' = txn_free p (w1\<lparr>w_dirty := bt_insert q c (w_dirty w1)\<rparr>)"
    by (auto simp: txn_cow_def split: sum.splits)
  let ?g = "g\<lparr>owned := q # owned g\<rparr>"
  have n: "w_next_pgno w1 < 2 ^ 32" "w_tail_floor w1 = w_tail_floor w"
    using w' step_cow.hyps(4) txn_alloc_frame [OF w1] by (simp_all add: txn_free_frame)
  have "txn_inv K f0 (w1\<lparr>w_dirty := bt_insert q c (w_dirty w1)\<rparr>, ?g)"
    by (rule txn_write_inv [OF txn_alloc_inv [OF step_cow.prems w1 n(1)]]) simp
  from txn_free_live_inv [OF this, of p] step_cow.hyps(1,2) n(2) show ?case by (simp add: w')
next
  case (step_cow_owned p g w q w')
  then obtain c w1 where w1: "txn_alloc cap w = Inr (q, w1)"
    and w': "w' = txn_free p (w1\<lparr>w_dirty := bt_insert q c (w_dirty w1)\<rparr>)"
    by (auto simp: txn_cow_def split: sum.splits)
  let ?g = "g\<lparr>owned := q # owned g\<rparr>"
  have n: "w_next_pgno w1 < 2 ^ 32" "w_tail_floor w1 = w_tail_floor w"
    using w' step_cow_owned.hyps(3) txn_alloc_frame [OF w1] by (simp_all add: txn_free_frame)
  have "txn_inv K f0 (w1\<lparr>w_dirty := bt_insert q c (w_dirty w1)\<rparr>, ?g)"
    by (rule txn_write_inv [OF txn_alloc_inv [OF step_cow_owned.prems w1 n(1)]]) simp
  from txn_free_owned_inv [OF this, of p] step_cow_owned.hyps(1) show ?case by (simp add: w')
qed (auto intro: txn_alloc_inv txn_alloc_tail_inv txn_free_owned_inv txn_free_live_inv elim!: txn_same_inv
    simp: txn_set_root_def txn_remove_root_def txn_create_snapshot_def txn_drop_snapshot_def
      txn_expire_snapshots_def txn_set_catalog_def Let_def split: if_splits prod.splits)

section \<open>Every execution of a transaction\<close>

abbreviation ghost0 :: txn_ghost where
  "ghost0 \<equiv> \<lparr>owned = [], released = []\<rparr>"

definition txn_reach :: "mem_pager \<Rightarrow> nat option \<Rightarrow> pgno set \<Rightarrow> write_txn \<Rightarrow> write_txn \<times> txn_ghost \<Rightarrow> bool" where
  "txn_reach ps cap K w0 x \<longleftrightarrow> (txn_step ps cap K (w_freelist w0))\<^sup>*\<^sup>* (w0, ghost0) x"

lemma txn_new_inv:
  assumes "horizon \<le> m_txn_id base" "unat (m_txn_id base) + 1 < 2 ^ 64" "n < 2 ^ 32" "fl_ok n f" "nodup (free_nos f)"
  shows "txn_inv K f (txn_new n base horizon f roots registry cat, ghost0)"
proof -
  have "m_txn_id base < m_txn_id base + 1"
    using assms(2) by (simp add: word_less_nat_alt unat_word_ariths)
  then show ?thesis using assms by (simp add: txn_inv_def txn_new_def txn_balance_def bt_get_def)
qed

lemma txn_reach_inv:
  assumes "txn_inv K (w_freelist w0) (w0, ghost0)" "txn_reach ps cap K w0 x"
  shows "txn_inv K (w_freelist w0) x"
  using assms(2) unfolding txn_reach_def
  by (induction rule: rtranclp_induct) (use assms(1) txn_step_inv in blast)+

end
