(* ===== verification/Big_Store.thy ===== *)
theory Big_Store
  imports Big_Txn
begin

text \<open>
  \<^verbatim>\<open>big-pager/src/lib.rs\<close> and \<^verbatim>\<open>durability.rs\<close>: the store. Loading and creating a file, the
  registered readers, the reclaim horizon, and the commit: which pages the metadata chains get, which
  pages are written, and the order in which they reach the disk.
\<close>

section \<open>Durability\<close>

datatype durability = Full | Barrier | NoFlush

definition durability_label :: "durability \<Rightarrow> string" where
  "durability_label d = (case d of Full \<Rightarrow> ''full'' | Barrier \<Rightarrow> ''barrier'' | NoFlush \<Rightarrow> ''none'')"

definition durability_parse :: "string \<Rightarrow> durability option" where
  "durability_parse s =
     (if s = ''full'' then Some Full else if s = ''barrier'' then Some Barrier
      else if s = ''none'' then Some NoFlush else None)"

definition durability_rank :: "durability \<Rightarrow> u8" where
  "durability_rank d = (case d of NoFlush \<Rightarrow> 0 | Barrier \<Rightarrow> 1 | Full \<Rightarrow> 2)"

definition at_least :: "durability \<Rightarrow> durability \<Rightarrow> bool" where
  "at_least a b \<longleftrightarrow> durability_rank b \<le> durability_rank a"

definition durability_from_u8 :: "u8 \<Rightarrow> durability" where
  "durability_from_u8 v = (if v = 0 then NoFlush else if v = 1 then Barrier else Full)"

section \<open>The store\<close>

record store_state =
  s_meta :: meta_page
  s_roots :: root_records
  s_snapshots :: snapshot_registry
  s_catalog :: "u8 list list"
  s_freelist :: freelist

text \<open>\<open>s_capacity\<close> is what the backend answers to \<^verbatim>\<open>capacity()\<close>.\<close>

record store =
  s_pager :: mem_pager
  s_capacity :: "nat option"
  s_state :: store_state
  s_readers :: "(txn_id, u32) btree_map"
  s_durability :: durability

definition read_meta :: "(u8 list \<Rightarrow> u32) \<Rightarrow> mem_pager \<Rightarrow> pgno \<Rightarrow> store_error + meta_page" where
  "read_meta crc ps slot = (case pager_read ps slot of Inl e \<Rightarrow> Inl e | Inr p \<Rightarrow> lift_page (meta_decode crc p))"

fun is_version :: "store_error \<Rightarrow> bool" where
  "is_version (SPage (UnsupportedVersion _)) = True"
| "is_version _ = False"

definition worse_of :: "store_error \<Rightarrow> store_error \<Rightarrow> store_error" where
  "worse_of a b = (if is_version a then a else if is_version b then b else NoValidMeta)"

text \<open>The choice of the meta page in \<^verbatim>\<open>load\<close>.\<close>

definition load_meta :: "(u8 list \<Rightarrow> u32) \<Rightarrow> mem_pager \<Rightarrow> store_error + meta_page" where
  "load_meta crc ps =
     (case read_meta crc ps 0 of
        Inr x \<Rightarrow>
          (case read_meta crc ps 1 of
             Inr y \<Rightarrow> (case pick_meta (Inr x) (Inr y) of Inl _ \<Rightarrow> Inl NoValidMeta | Inr m \<Rightarrow> Inr m)
           | Inl _ \<Rightarrow> Inr x)
      | Inl ea \<Rightarrow>
          (case read_meta crc ps 1 of Inr y \<Rightarrow> Inr y | Inl eb \<Rightarrow> Inl (worse_of ea eb)))"

definition load_state :: "(u8 list \<Rightarrow> u32) \<Rightarrow> mem_pager \<Rightarrow> store_error + store_state" where
  "load_state crc ps =
     (if pager_page_count ps < META_PAGES then Inl NoValidMeta
      else
       (case load_meta crc ps of Inl e \<Rightarrow> Inl e
        | Inr meta \<Rightarrow>
       (case load_chain crc (pager_read ps) (pager_page_count ps) (m_root_records meta) PRootRecords ROOT_RECORD_BYTES of
          Inl e \<Rightarrow> Inl e
        | Inr roots \<Rightarrow>
       (case load_chain crc (pager_read ps) (pager_page_count ps) (m_snapshots meta) PSnapshots SNAPSHOT_ENTRY_BYTES of
          Inl e \<Rightarrow> Inl e
        | Inr sns \<Rightarrow>
       (case load_chain crc (pager_read ps) (pager_page_count ps) (m_catalog meta) PCatalog CATALOG_ENTRY_BYTES of
          Inl e \<Rightarrow> Inl e
        | Inr catalog \<Rightarrow>
       (case load_chain crc (pager_read ps) (pager_page_count ps) (m_freelist meta) PFreelist FREE_ENTRY_BYTES of
          Inl e \<Rightarrow> Inl e
        | Inr free \<Rightarrow>
            Inr \<lparr>s_meta = meta, s_roots = roots_from_entries roots, s_snapshots = registry_from_entries sns,
                 s_catalog = catalog, s_freelist = freelist_from_entries free\<rparr>))))))"

definition store_load :: "(u8 list \<Rightarrow> u32) \<Rightarrow> nat option \<Rightarrow> mem_pager \<Rightarrow> store_error + store" where
  "store_load crc cap ps =
     (case load_state crc ps of Inl e \<Rightarrow> Inl e
      | Inr st \<Rightarrow> Inr \<lparr>s_pager = ps, s_capacity = cap, s_state = st, s_readers = [], s_durability = Full\<rparr>)"

definition store_init :: "(u8 list \<Rightarrow> u32) \<Rightarrow> nat option \<Rightarrow> mem_pager \<Rightarrow> store_error + store" where
  "store_init crc cap ps =
     (let ps1 = pager_grow ps META_PAGES;
          meta = meta_default\<lparr>m_page_count := of_nat META_PAGES\<rparr>
      in case pager_write ps1 (ucast (meta_slot meta)) (meta_encode crc meta) of
           Inl e \<Rightarrow> Inl e
         | Inr ps2 \<Rightarrow> store_load crc cap ps2)"

definition open_or_init :: "(u8 list \<Rightarrow> u32) \<Rightarrow> nat option \<Rightarrow> mem_pager \<Rightarrow> store_error + store" where
  "open_or_init crc cap ps =
     (if pager_page_count ps = 0 then store_init crc cap ps
      else if META_PAGES \<le> pager_page_count ps then store_load crc cap ps
      else Inl (NotADatabase (of_nat (pager_page_count ps * PAGE_SIZE))))"

section \<open>Readers\<close>

definition register_reader :: "txn_id \<Rightarrow> (txn_id, u32) btree_map \<Rightarrow> (txn_id, u32) btree_map" where
  "register_reader t r = bt_insert t ((case bt_get r t of Some n \<Rightarrow> n | None \<Rightarrow> 0) + 1) r"

definition release_reader :: "txn_id \<Rightarrow> (txn_id, u32) btree_map \<Rightarrow> (txn_id, u32) btree_map" where
  "release_reader t r =
     (case bt_get r t of
        Some n \<Rightarrow> if n - 1 = 0 then bt_remove t r else bt_insert t (n - 1) r
      | None \<Rightarrow> r)"

definition oldest_reader :: "(txn_id, u32) btree_map \<Rightarrow> txn_id option" where
  "oldest_reader r = (case r of [] \<Rightarrow> None | x # _ \<Rightarrow> Some (fst x))"

record read_txn =
  r_txn_id :: txn_id
  r_roots :: root_records
  r_catalog :: "u8 list list"

definition begin_read :: "store \<Rightarrow> read_txn \<times> store" where
  "begin_read s =
     (let st = s_state s
      in (\<lparr>r_txn_id = m_txn_id (s_meta st), r_roots = s_roots st, r_catalog = s_catalog st\<rparr>,
          s\<lparr>s_readers := register_reader (m_txn_id (s_meta st)) (s_readers s)\<rparr>))"

definition begin_read_at :: "(u8 list \<Rightarrow> u32) \<Rightarrow> u64 \<Rightarrow> store \<Rightarrow> store_error + read_txn \<times> store" where
  "begin_read_at crc i s =
     (case registry_get (s_snapshots (s_state s)) i of
        None \<Rightarrow> Inl (SnapshotNotFound i)
      | Some snap \<Rightarrow>
          (let root = (if snap_root_records snap \<noteq> 0 then Some (snap_root_records snap) else None)
           in case load_chain crc (pager_read (s_pager s)) (pager_page_count (s_pager s)) root PRootRecords ROOT_RECORD_BYTES of
                Inl e \<Rightarrow> Inl e
              | Inr es \<Rightarrow>
                  Inr (\<lparr>r_txn_id = snap_txn_id snap, r_roots = roots_from_entries es, r_catalog = s_catalog (s_state s)\<rparr>,
                       s\<lparr>s_readers := register_reader (snap_txn_id snap) (s_readers s)\<rparr>)))"

definition end_read :: "read_txn \<Rightarrow> store \<Rightarrow> store" where
  "end_read r s = s\<lparr>s_readers := release_reader (r_txn_id r) (s_readers s)\<rparr>"

text \<open>
  The oldest transaction anything can still be reading. \<^verbatim>\<open>begin_write\<close> and \<^verbatim>\<open>commit_txn\<close>
  compute it the same way, the second from the snapshots the transaction is about to commit.
\<close>

definition reclaim_horizon :: "(txn_id, u32) btree_map \<Rightarrow> snapshot_registry \<Rightarrow> meta_page \<Rightarrow> txn_id" where
  "reclaim_horizon readers snapshots base =
     (let reader_h = (case oldest_reader readers of Some t \<Rightarrow> t | None \<Rightarrow> m_txn_id base);
          snap_h = (case oldest_txn_id snapshots of Some t \<Rightarrow> t | None \<Rightarrow> m_txn_id base)
      in min (min reader_h snap_h) (m_txn_id base))"

definition begin_write :: "store \<Rightarrow> write_txn" where
  "begin_write s =
     (let st = s_state s
      in txn_new (pager_page_count (s_pager s)) (s_meta st)
           (reclaim_horizon (s_readers s) (s_snapshots st) (s_meta st))
           (s_freelist st) (s_roots st) (s_snapshots st) (s_catalog st))"

section \<open>The operations a commit asks of the disk\<close>

datatype io = Grow nat | WritePage pgno page | Sync | SyncData

definition flush_ops :: "durability \<Rightarrow> io list" where
  "flush_ops d = (case d of Full \<Rightarrow> [Sync] | Barrier \<Rightarrow> [SyncData] | NoFlush \<Rightarrow> [])"

definition flip_ops :: "(u8 list \<Rightarrow> u32) \<Rightarrow> durability \<Rightarrow> (pgno \<times> page) list \<Rightarrow> nat \<Rightarrow> meta_page \<Rightarrow> io list" where
  "flip_ops crc d out next_pgno next_meta =
     [Grow next_pgno] @ map (\<lambda>(n, p). WritePage n p) out @ flush_ops d @
     [WritePage (ucast (meta_slot next_meta)) (meta_encode crc next_meta)] @ flush_ops d"

fun io_step :: "mem_pager \<Rightarrow> io \<Rightarrow> store_error + mem_pager" where
  "io_step ps (Grow n) = Inr (pager_grow ps n)"
| "io_step ps (WritePage n p) = pager_write ps n p"
| "io_step ps Sync = Inr ps"
| "io_step ps SyncData = Inr ps"

primrec run_io :: "mem_pager \<Rightarrow> io list \<Rightarrow> store_error + mem_pager" where
  "run_io ps [] = Inr ps"
| "run_io ps (x # xs) = (case io_step ps x of Inl e \<Rightarrow> Inl e | Inr ps' \<Rightarrow> run_io ps' xs)"

definition write_and_flip :: "(u8 list \<Rightarrow> u32) \<Rightarrow> durability \<Rightarrow> mem_pager \<Rightarrow> (pgno \<times> page) list \<Rightarrow> nat \<Rightarrow> meta_page \<Rightarrow>
    store_error + mem_pager" where
  "write_and_flip crc d ps out next_pgno next_meta = run_io ps (flip_ops crc d out next_pgno next_meta)"

section \<open>Commit\<close>

datatype placed = Fresh "pgno list" | Kept "pgno option"

fun placed_head :: "placed \<Rightarrow> pgno option" where
  "placed_head (Fresh p) = (case p of [] \<Rightarrow> None | n # _ \<Rightarrow> Some n)"
| "placed_head (Kept p) = p"

fun placed_pages :: "(u8 list \<Rightarrow> u32) \<Rightarrow> placed \<Rightarrow> page_type \<Rightarrow> nat \<Rightarrow> u8 list list \<Rightarrow> (pgno \<times> page) list" where
  "placed_pages crc (Fresh p) ty stride entries = build_chain crc ty stride entries p"
| "placed_pages crc (Kept _) ty stride entries = []"

definition recycle_chain :: "mem_pager \<Rightarrow> pgno option \<Rightarrow> page_type \<Rightarrow> nat \<Rightarrow> freelist \<Rightarrow> txn_id \<Rightarrow> store_error + freelist" where
  "recycle_chain ps head ty stride f t =
     (case chain_pgnos (pager_read ps) (pager_page_count ps) head ty stride of
        Inl e \<Rightarrow> Inl e
      | Inr ns \<Rightarrow> Inr (foldl (\<lambda>f p. freelist_push f p t) f ns))"

text \<open>A changed chain is recycled and given new pages; an unchanged one keeps the pages it has.\<close>

definition place_chain :: "mem_pager \<Rightarrow> nat option \<Rightarrow> txn_id \<Rightarrow> txn_id \<Rightarrow> bool \<Rightarrow> pgno option \<Rightarrow> page_type \<Rightarrow> nat \<Rightarrow> nat \<Rightarrow>
    freelist \<Rightarrow> nat \<Rightarrow> store_error + placed \<times> freelist \<times> nat" where
  "place_chain ps cap horizon t dirty head ty stride len f next_pgno =
     (if dirty then
        (case recycle_chain ps head ty stride f t of Inl e \<Rightarrow> Inl e
         | Inr f1 \<Rightarrow>
             (case alloc_pages (chain_pages_needed stride len) f1 horizon next_pgno cap of Inl e \<Rightarrow> Inl e
              | Inr (ns, f2, n2) \<Rightarrow> Inr (Fresh ns, f2, n2)))
      else Inr (Kept head, f, next_pgno))"

record commit_plan =
  c_out :: "(pgno \<times> page) list"
  c_next_pgno :: nat
  c_meta :: meta_page
  c_freelist :: freelist

text \<open>Everything \<^verbatim>\<open>commit_txn\<close> decides before the first write.\<close>

definition plan_commit :: "(u8 list \<Rightarrow> u32) \<Rightarrow> store \<Rightarrow> write_txn \<Rightarrow> store_error + commit_plan" where
  "plan_commit crc s w =
     (let ps = s_pager s; cap = s_capacity s; base = w_base w; t = w_txn_id w; dirty = w_dirty_chains w;
          horizon = reclaim_horizon (s_readers s) (w_snapshots w) base;
          root_entries = roots_encode (w_roots w); snap_entries = registry_encode (w_snapshots w)
      in
      case place_chain ps cap horizon t (dc_roots dirty) (m_root_records base) PRootRecords ROOT_RECORD_BYTES
             (length root_entries) (w_freelist w) (w_next_pgno w) of
        Inl e \<Rightarrow> Inl e
      | Inr (roots, f1, n1) \<Rightarrow>
      (case place_chain ps cap horizon t (dc_snapshots dirty) (m_snapshots base) PSnapshots SNAPSHOT_ENTRY_BYTES
              (length snap_entries) f1 n1 of
        Inl e \<Rightarrow> Inl e
      | Inr (sns, f2, n2) \<Rightarrow>
      (case place_chain ps cap horizon t (dc_catalog dirty) (m_catalog base) PCatalog CATALOG_ENTRY_BYTES
              (length (w_catalog w)) f2 n2 of
        Inl e \<Rightarrow> Inl e
      | Inr (cat, f3, n3) \<Rightarrow>
      (case recycle_chain ps (m_freelist base) PFreelist FREE_ENTRY_BYTES f3 t of
        Inl e \<Rightarrow> Inl e
      | Inr f4 \<Rightarrow>
      (case alloc_freelist_pages f4 horizon n3 cap of
        Inl e \<Rightarrow> Inl e
      | Inr (free_pgnos, f5, n5) \<Rightarrow>
          Inr \<lparr>c_out = w_dirty w @ placed_pages crc roots PRootRecords ROOT_RECORD_BYTES root_entries
                        @ placed_pages crc sns PSnapshots SNAPSHOT_ENTRY_BYTES snap_entries
                        @ placed_pages crc cat PCatalog CATALOG_ENTRY_BYTES (w_catalog w)
                        @ build_chain crc PFreelist FREE_ENTRY_BYTES (freelist_encode f5) free_pgnos,
               c_next_pgno = n5,
               c_meta = \<lparr>m_txn_id = t, m_page_count = of_nat n5, m_root_records = placed_head roots,
                         m_freelist = chain_head free_pgnos, m_snapshots = placed_head sns,
                         m_catalog = placed_head cat, m_flags = m_flags base\<rparr>,
               c_freelist = f5\<rparr>)))))"

definition commit_txn :: "(u8 list \<Rightarrow> u32) \<Rightarrow> store \<Rightarrow> write_txn \<Rightarrow> store_error + txn_id \<times> store" where
  "commit_txn crc s w =
     (case plan_commit crc s w of Inl e \<Rightarrow> Inl e
      | Inr c \<Rightarrow>
          (case write_and_flip crc (s_durability s) (s_pager s) (c_out c) (c_next_pgno c) (c_meta c) of
             Inl e \<Rightarrow> Inl e
           | Inr ps \<Rightarrow>
               Inr (w_txn_id w,
                    s\<lparr>s_pager := ps,
                      s_state := \<lparr>s_meta = c_meta c, s_roots = w_roots w, s_snapshots = w_snapshots w,
                        s_catalog = (if dc_catalog (w_dirty_chains w) then w_catalog w else s_catalog (s_state s)),
                        s_freelist = c_freelist c\<rparr>\<rparr>)))"

definition txn_commit :: "(u8 list \<Rightarrow> u32) \<Rightarrow> store \<Rightarrow> write_txn \<Rightarrow> store_error + txn_id \<times> store" where
  "txn_commit crc s w = commit_txn crc s (txn_absorb w)"

section \<open>Giving back the end of the file\<close>

definition truncate_tail :: "(u8 list \<Rightarrow> u32) \<Rightarrow> store \<Rightarrow> store_error + nat \<times> store" where
  "truncate_tail crc s =
     (if s_readers s \<noteq> [] then Inl ReadersActive
      else
       (let st = s_state s; meta = s_meta st;
            snap_h = (case oldest_txn_id (s_snapshots st) of Some t \<Rightarrow> t | None \<Rightarrow> m_txn_id meta);
            horizon = min snap_h (m_txn_id meta);
            (f, released) = trim_tail (s_freelist st) (unat (m_page_count meta)) horizon
        in
        if released = 0 then Inr (0, s)
        else
         (let new_count = unat (m_page_count meta) - released;
              next_meta = meta\<lparr>m_txn_id := m_txn_id meta + 1, m_page_count := of_nat new_count\<rparr>
          in
          case chain_pgnos (pager_read (s_pager s)) (pager_page_count (s_pager s)) (m_freelist meta) PFreelist FREE_ENTRY_BYTES of
            Inl e \<Rightarrow> Inl e
          | Inr chain \<Rightarrow>
             (case write_all pager_write (s_pager s) (build_chain crc PFreelist FREE_ENTRY_BYTES (freelist_encode f) chain) of
                Inl e \<Rightarrow> Inl e
              | Inr ps1 \<Rightarrow>
                 (case pager_write ps1 (ucast (meta_slot next_meta)) (meta_encode crc next_meta) of
                    Inl e \<Rightarrow> Inl e
                  | Inr ps2 \<Rightarrow>
                      Inr (released, s\<lparr>s_pager := pager_truncate ps2 new_count,
                                        s_state := st\<lparr>s_meta := next_meta, s_freelist := f\<rparr>\<rparr>))))))"

text \<open>Setting the level answers with the operations it asks of the disk.\<close>

definition set_durability :: "durability \<Rightarrow> store \<Rightarrow> io list \<times> store" where
  "set_durability d s =
     (if d = s_durability s then ([], s)
      else (if at_least d (s_durability s) then [Sync] else [], s\<lparr>s_durability := d\<rparr>))"

end
