(* ===== verification/Big_Commit.thy ===== *)
theory Big_Commit
  imports Big_Store
begin

text \<open>
  What the store promises: a file that satisfies \<open>store_inv\<close> loads, a commit keeps \<open>store_inv\<close> and
  touches no page that the committed state, a snapshot or a reader can see, and at every moment of a
  commit the file holds the old state or the new one.
\<close>

section \<open>A consistent file\<close>

definition chain_on :: "(u8 list \<Rightarrow> u32) \<Rightarrow> mem_pager \<Rightarrow> page_type \<Rightarrow> nat \<Rightarrow> pgno option \<Rightarrow> pgno list \<Rightarrow> u8 list list \<Rightarrow> bool" where
  "chain_on crc ps ty stride head ns es \<longleftrightarrow>
     head = chain_head ns \<and> distinct ns \<and> (\<forall>n \<in> set ns. 2 \<le> unat n \<and> unat n < length ps) \<and>
     (\<exists>ess. chained crc (pager_read ps) ty stride ns ess \<and> concat ess = es)"

lemma distinct_pgnos_length:
  assumes "distinct ns" "\<forall>n \<in> set ns. unat (n :: pgno) < N"
  shows "length ns \<le> N"
proof -
  have "unat ` set ns \<subseteq> {..<N}" using assms(2) by auto
  then have "card (unat ` set ns) \<le> N" using card_mono [of "{..<N}"] by fastforce
  moreover have "inj_on unat (set ns)" by (auto simp: inj_on_def word_unat_eq_iff)
  ultimately show ?thesis using assms(1) by (simp add: card_image distinct_card)
qed

lemma chain_on_reads:
  assumes "chain_on crc ps ty stride head ns es"
  shows "load_chain crc (pager_read ps) (pager_page_count ps) head ty stride = Inr es"
    and "chain_pgnos (pager_read ps) (pager_page_count ps) head ty stride = Inr ns"
proof -
  obtain ess where ess: "chained crc (pager_read ps) ty stride ns ess" "concat ess = es" and head: "head = chain_head ns"
    using assms by (auto simp: chain_on_def)
  have len: "length ns \<le> length ps" using assms distinct_pgnos_length by (auto simp: chain_on_def)
  show "load_chain crc (pager_read ps) (pager_page_count ps) head ty stride = Inr es"
    using load_chained [OF ess(1), of "length ps + 1" _ "[]"] len ess(2) by (simp add: load_chain_def head pager_page_count_def)
  show "chain_pgnos (pager_read ps) (pager_page_count ps) head ty stride = Inr ns"
    using pgnos_chained [OF ess(1), of "length ps + 2" _ _ "[]"] len by (simp add: chain_pgnos_def head pager_page_count_def)
qed

lemma chain_on_cong:
  assumes "chain_on crc ps ty stride head ns es" "length ps \<le> length c" "\<forall>n \<in> set ns. pager_read c n = pager_read ps n"
  shows "chain_on crc c ty stride head ns es"
  using assms chained_cong [of ns "pager_read ps" "pager_read c" crc ty stride] by (fastforce simp: chain_on_def)

lemma chain_on_build:
  assumes "0 < stride" "0 < chain_capacity stride" "\<forall>e \<in> set es. length e = stride"
    and "chain_pages_needed stride (length es) \<le> length ns"
    and "distinct ns" "\<forall>n \<in> set ns. 2 \<le> unat n \<and> unat n < length ps"
    and "\<And>n p. (n, p) \<in> set (build_chain crc ty stride es ns) \<Longrightarrow> pager_read ps n = Inr p"
  shows "chain_on crc ps ty stride (chain_head ns) ns es"
proof -
  have "0 \<notin> set ns" using assms(6) by fastforce
  from build_chain_chained [OF assms(1-4) this assms(7)]
  have "chained crc (pager_read ps) ty stride ns (padded_chunks stride es ns)" .
  moreover have "concat (padded_chunks stride es ns) = es" by (rule build_chain_eq(3) [OF assms(4,2)])
  ultimately show ?thesis using assms(5,6) by (auto simp: chain_on_def)
qed

record chain_pages =
  ch_roots :: "pgno list"
  ch_snaps :: "pgno list"
  ch_cat :: "pgno list"
  ch_free :: "pgno list"

definition all_chain_pages :: "chain_pages \<Rightarrow> pgno list" where
  "all_chain_pages ch = ch_roots ch @ ch_snaps ch @ ch_cat ch @ ch_free ch"

definition kept_pages :: "chain_pages \<Rightarrow> pgno set" where
  "kept_pages ch = {0, 1} \<union> set (all_chain_pages ch)"

definition slot_of :: "meta_page \<Rightarrow> pgno" where
  "slot_of m = ucast (meta_slot m)"

definition meta_at :: "(u8 list \<Rightarrow> u32) \<Rightarrow> mem_pager \<Rightarrow> meta_page \<Rightarrow> bool" where
  "meta_at crc ps m \<longleftrightarrow> read_meta crc ps (slot_of m) = Inr m \<and>
     (\<forall>m'. read_meta crc ps (1 - slot_of m) = Inr m' \<longrightarrow> m_txn_id m' < m_txn_id m)"

definition registry_names :: "snapshot_registry \<Rightarrow> bool" where
  "registry_names r \<longleftrightarrow> (\<forall>s \<in> set (snaps r). length (snap_name s) = 32)"

definition store_inv :: "(u8 list \<Rightarrow> u32) \<Rightarrow> mem_pager \<Rightarrow> store_state \<Rightarrow> chain_pages \<Rightarrow> bool" where
  "store_inv crc ps st ch \<longleftrightarrow>
     2 \<le> length ps \<and> length ps < 2 ^ 32 \<and>
     chain_on crc ps PRootRecords ROOT_RECORD_BYTES (m_root_records (s_meta st)) (ch_roots ch) (roots_encode (s_roots st)) \<and>
     chain_on crc ps PSnapshots SNAPSHOT_ENTRY_BYTES (m_snapshots (s_meta st)) (ch_snaps ch) (registry_encode (s_snapshots st)) \<and>
     chain_on crc ps PCatalog CATALOG_ENTRY_BYTES (m_catalog (s_meta st)) (ch_cat ch) (s_catalog st) \<and>
     (\<exists>fd. chain_on crc ps PFreelist FREE_ENTRY_BYTES (m_freelist (s_meta st)) (ch_free ch) (freelist_encode fd) \<and>
        free_pages fd = free_pages (s_freelist st) \<and> fl_ok (length ps) fd) \<and>
     distinct (all_chain_pages ch) \<and>
     (\<forall>n \<in># free_nos (s_freelist st). 2 \<le> n \<and> n \<notin> unat ` set (all_chain_pages ch)) \<and>
     fl_ok (length ps) (s_freelist st) \<and> nodup (free_nos (s_freelist st)) \<and>
     (\<forall>x \<in># free_pages (s_freelist st). snd x \<le> m_txn_id (s_meta st)) \<and>
     meta_ok (s_meta st) \<and> meta_at crc ps (s_meta st) \<and>
     bt_inv (s_roots st) \<and> registry_names (s_snapshots st) \<and> (\<forall>e \<in> set (s_catalog st). length e = CATALOG_ENTRY_BYTES)"

text \<open>
  Two states of a store a client cannot tell apart: the freelist may have its runs merged, and the
  registry may have another next id.
\<close>

definition state_equiv :: "store_state \<Rightarrow> store_state \<Rightarrow> bool" where
  "state_equiv a b \<longleftrightarrow> s_meta a = s_meta b \<and> s_roots a = s_roots b \<and> snaps (s_snapshots a) = snaps (s_snapshots b) \<and>
     s_catalog a = s_catalog b \<and> free_pages (s_freelist a) = free_pages (s_freelist b)"

lemma meta_slot_cases: "slot_of m = 0 \<or> slot_of m = 1"
proof -
  have "unat (meta_slot m) < 2" by (simp add: meta_slot_def META_PAGES_def unat_mod)
  then have "meta_slot m = 0 \<or> meta_slot m = 1" by (auto simp: less_2_cases_iff word_unat_eq_iff)
  then show ?thesis by (auto simp: slot_of_def)
qed

lemma load_meta_at: "meta_at crc ps m \<Longrightarrow> load_meta crc ps = Inr m"
  using meta_slot_cases [of m] by (fastforce simp: meta_at_def load_meta_def split: sum.splits)

lemma registry_encode_names: "registry_names r \<Longrightarrow> snaps (registry_from_entries (registry_encode r)) = snaps r"
  by (auto simp: registry_from_entries_def registry_encode_def Let_def registry_names_def snapshot_roundtrip intro!: map_idI)

lemma store_inv_loads:
  assumes "store_inv crc ps st ch"
  shows "\<exists>st'. load_state crc ps = Inr st' \<and> state_equiv st' st"
proof -
  from assms obtain fd where fd: "chain_on crc ps PFreelist FREE_ENTRY_BYTES (m_freelist (s_meta st)) (ch_free ch) (freelist_encode fd)"
    "free_pages fd = free_pages (s_freelist st)" "fl_ok (length ps) fd" by (auto simp: store_inv_def)
  have i: "chain_on crc ps PRootRecords ROOT_RECORD_BYTES (m_root_records (s_meta st)) (ch_roots ch) (roots_encode (s_roots st))"
     "chain_on crc ps PSnapshots SNAPSHOT_ENTRY_BYTES (m_snapshots (s_meta st)) (ch_snaps ch) (registry_encode (s_snapshots st))"
     "chain_on crc ps PCatalog CATALOG_ENTRY_BYTES (m_catalog (s_meta st)) (ch_cat ch) (s_catalog st)"
     "2 \<le> length ps" "meta_at crc ps (s_meta st)" "bt_inv (s_roots st)" "registry_names (s_snapshots st)"
    using assms by (auto simp: store_inv_def)
  have "free_pages (freelist_from_entries (freelist_encode fd)) = free_pages (s_freelist st)"
    using fd(2) freelist_compact_spec(1) [OF fd(3)] by (simp add: freelist_roundtrip)
  with chain_on_reads(1) [OF fd(1)] chain_on_reads(1) [OF i(1)] chain_on_reads(1) [OF i(2)] chain_on_reads(1) [OF i(3)]
    load_meta_at [OF i(5)] roots_roundtrip [OF i(6)] registry_encode_names [OF i(7)] i(4)
  show ?thesis by (simp add: load_state_def pager_page_count_def META_PAGES_def state_equiv_def)
qed

section \<open>What a commit takes and gives back\<close>

text \<open>
  \<open>shift t h f n rec ps f' n'\<close>: the pages \<open>rec\<close> were put on the freelist at \<open>t\<close>, and the pages \<open>ps\<close> came
  off it (freed at \<open>h\<close> or before) or from the end of the file.
\<close>

definition shift :: "txn_id \<Rightarrow> txn_id \<Rightarrow> freelist \<Rightarrow> nat \<Rightarrow> pgno list \<Rightarrow> pgno list \<Rightarrow> freelist \<Rightarrow> nat \<Rightarrow> bool" where
  "shift t h f n rec ps f' n' \<longleftrightarrow> n \<le> n' \<and>
     (\<exists>R. free_pages f + mset (map (\<lambda>p. (unat p, t)) rec) = free_pages f' + R \<and> (\<forall>x \<in># R. snd x \<le> h) \<and>
        mset (map unat ps) = image_mset fst R + mset [n..<n'])"

lemma took_shift: "took f h n ps f' n' \<Longrightarrow> shift t h f n [] ps f' n'"
  by (simp add: took_def shift_def)

lemma push_shift: "shift t h f n rec [] (foldl (\<lambda>f p. freelist_push f p t) f rec) n"
  by (simp add: shift_def push_all_pages exI [of _ "{#}"])

lemma shift_refl: "shift t h f n [] [] f n"
  using push_shift [of t h f n "[]"] by simp

lemma shift_trans:
  assumes "shift t h f n r1 ps f' n'" "shift t h f' n' r2 qs f'' n''"
  shows "shift t h f n (r1 @ r2) (ps @ qs) f'' n''"
proof -
  let ?m = "\<lambda>r. mset (map (\<lambda>p. (unat p, t)) r)"
  obtain R Q where R: "n \<le> n'" "free_pages f + ?m r1 = free_pages f' + R" "\<forall>x \<in># R. snd x \<le> h"
      "mset (map unat ps) = image_mset fst R + mset [n..<n']"
    and Q: "n' \<le> n''" "free_pages f' + ?m r2 = free_pages f'' + Q" "\<forall>x \<in># Q. snd x \<le> h"
      "mset (map unat qs) = image_mset fst Q + mset [n'..<n'']"
    using assms unfolding shift_def by blast
  have "[n..<n''] = [n..<n'] @ [n'..<n'']" using R(1) Q(1) by (metis le_add_diff_inverse upt_add_eq_append)
  then have "mset (map unat (ps @ qs)) = image_mset fst (R + Q) + mset [n..<n'']"
    using R(4) Q(4) by (simp add: ac_simps del: mset_upt mset_map)
  moreover have "free_pages f + ?m (r1 @ r2) = free_pages f'' + (R + Q)"
  proof -
    have "free_pages f + ?m (r1 @ r2) = (free_pages f + ?m r1) + ?m r2" by (simp add: ac_simps del: mset_map)
    also have "\<dots> = (free_pages f' + ?m r2) + R" unfolding R(2) by (simp add: ac_simps)
    finally show ?thesis unfolding Q(2) by (simp add: ac_simps)
  qed
  moreover have "\<forall>x \<in># R + Q. snd x \<le> h" using R(3) Q(3) by auto
  ultimately show ?thesis using R(1) Q(1) unfolding shift_def by (meson order_trans)
qed

lemma recycle_chain_on:
  assumes "chain_on crc ps ty stride head ns es"
  shows "recycle_chain ps head ty stride f t = Inr (foldl (\<lambda>f p. freelist_push f p t) f ns)"
  by (simp add: recycle_chain_def chain_on_reads(2) [OF assms])

lemma place_chain_shift:
  assumes "chain_on crc ps ty stride head ns es" "fl_ok N f" "\<forall>p \<in> set ns. unat p < N"
    and "place_chain ps cap h t d head ty stride len f n = Inr (pl, f', n')" "n' \<le> 2 ^ 32"
  shows "\<exists>new. placed_head pl = chain_head new \<and>
           (\<forall>es'. placed_pages crc pl ty stride es' = (if d then build_chain crc ty stride es' new else [])) \<and>
           (if d then chain_pages_needed stride len \<le> length new else new = ns) \<and>
           shift t h f n (if d then ns else []) (if d then new else []) f' n' \<and> fl_ok N f'"
proof (cases d)
  case False
  with assms(1,2,4) have "pl = Kept (chain_head ns)" "f' = f" "n' = n" by (auto simp: place_chain_def chain_on_def)
  with False assms(2) shift_refl show ?thesis by (intro exI [of _ ns]) simp
next
  case True
  let ?f = "foldl (\<lambda>f p. freelist_push f p t) f ns"
  from True assms(4) obtain new where al: "alloc_pages (chain_pages_needed stride len) ?f h n cap = Inr (new, f', n')"
    and pl: "pl = Fresh new"
    by (auto simp: place_chain_def recycle_chain_on [OF assms(1)] split: sum.splits prod.splits)
  have ok: "fl_ok N ?f" using assms(2,3) by (rule push_all_ok)
  note tk = alloc_pages_took [OF ok al assms(5)]
  from shift_trans [OF push_shift took_shift] tk have "shift t h f n (ns @ []) ([] @ new) f' n'" by blast
  with tk pl True show ?thesis by (intro exI [of _ new]) (simp add: chain_head_def)
qed

lemma place_chain_mono:
  "place_chain ps cap h t d head ty stride len f n = Inr (pl, f', n') \<Longrightarrow> n \<le> n'"
  by (auto simp: place_chain_def dest: alloc_pages_mono split: if_splits sum.splits prod.splits)

text \<open>The pages a commit recycles (of the old chains), and those it writes (of the new ones).\<close>

definition changed_chains :: "dirty_chains \<Rightarrow> chain_pages \<Rightarrow> pgno list" where
  "changed_chains d ch = (if dc_roots d then ch_roots ch else []) @ (if dc_snapshots d then ch_snaps ch else []) @
     (if dc_catalog d then ch_cat ch else []) @ ch_free ch"

definition chain_writes :: "(u8 list \<Rightarrow> u32) \<Rightarrow> write_txn \<Rightarrow> freelist \<Rightarrow> chain_pages \<Rightarrow> (pgno \<times> page) list" where
  "chain_writes crc w f ch =
     (if dc_roots (w_dirty_chains w) then build_chain crc PRootRecords ROOT_RECORD_BYTES (roots_encode (w_roots w)) (ch_roots ch) else []) @
     (if dc_snapshots (w_dirty_chains w) then build_chain crc PSnapshots SNAPSHOT_ENTRY_BYTES (registry_encode (w_snapshots w)) (ch_snaps ch) else []) @
     (if dc_catalog (w_dirty_chains w) then build_chain crc PCatalog CATALOG_ENTRY_BYTES (w_catalog w) (ch_cat ch) else []) @
     build_chain crc PFreelist FREE_ENTRY_BYTES (freelist_encode f) (ch_free ch)"

definition chain_step :: "write_txn \<Rightarrow> freelist \<Rightarrow> chain_pages \<Rightarrow> chain_pages \<Rightarrow> bool" where
  "chain_step w f ch ch' \<longleftrightarrow>
     (if dc_roots (w_dirty_chains w) then chain_pages_needed ROOT_RECORD_BYTES (length (w_roots w)) \<le> length (ch_roots ch')
      else ch_roots ch' = ch_roots ch) \<and>
     (if dc_snapshots (w_dirty_chains w) then chain_pages_needed SNAPSHOT_ENTRY_BYTES (length (snaps (w_snapshots w))) \<le> length (ch_snaps ch')
      else ch_snaps ch' = ch_snaps ch) \<and>
     (if dc_catalog (w_dirty_chains w) then chain_pages_needed CATALOG_ENTRY_BYTES (length (w_catalog w)) \<le> length (ch_cat ch')
      else ch_cat ch' = ch_cat ch) \<and>
     chain_pages_needed FREE_ENTRY_BYTES (length f) \<le> length (ch_free ch')"

definition new_meta :: "write_txn \<Rightarrow> nat \<Rightarrow> chain_pages \<Rightarrow> meta_page" where
  "new_meta w n ch = \<lparr>m_txn_id = w_txn_id w, m_page_count = of_nat n, m_root_records = chain_head (ch_roots ch),
     m_freelist = chain_head (ch_free ch), m_snapshots = chain_head (ch_snaps ch), m_catalog = chain_head (ch_cat ch),
     m_flags = m_flags (w_base w)\<rparr>"

lemma length_encodes [simp]: "length (roots_encode m) = length m" "length (registry_encode r) = length (snaps r)"
  "length (freelist_encode f) = length f"
  by (simp_all add: roots_encode_def registry_encode_def freelist_encode_def)

lemma plan_commit_shape:
  assumes inv: "store_inv crc (s_pager s) st ch" and base: "w_base w = s_meta st"
    and plan: "plan_commit crc s w = Inr c" and n: "c_next_pgno c \<le> 2 ^ 32"
    and ok: "fl_ok N (w_freelist w)" "length (s_pager s) \<le> N"
  shows "\<exists>ch'. c_out c = w_dirty w @ chain_writes crc w (c_freelist c) ch' \<and>
           c_meta c = new_meta w (c_next_pgno c) ch' \<and> chain_step w (c_freelist c) ch ch' \<and> fl_ok N (c_freelist c) \<and>
           shift (w_txn_id w) (reclaim_horizon (s_readers s) (w_snapshots w) (s_meta st)) (w_freelist w) (w_next_pgno w)
             (changed_chains (w_dirty_chains w) ch) (changed_chains (w_dirty_chains w) ch') (c_freelist c) (c_next_pgno c)"
proof -
  let ?t = "w_txn_id w" and ?h = "reclaim_horizon (s_readers s) (w_snapshots w) (s_meta st)" and ?d = "w_dirty_chains w"
    and ?m = "s_meta st" and ?ps = "s_pager s" and ?cap = "s_capacity s"
  obtain fd where on: "chain_on crc ?ps PRootRecords ROOT_RECORD_BYTES (m_root_records ?m) (ch_roots ch) (roots_encode (s_roots st))"
     "chain_on crc ?ps PSnapshots SNAPSHOT_ENTRY_BYTES (m_snapshots ?m) (ch_snaps ch) (registry_encode (s_snapshots st))"
     "chain_on crc ?ps PCatalog CATALOG_ENTRY_BYTES (m_catalog ?m) (ch_cat ch) (s_catalog st)"
     "chain_on crc ?ps PFreelist FREE_ENTRY_BYTES (m_freelist ?m) (ch_free ch) (freelist_encode fd)"
    using inv by (auto simp: store_inv_def)
  have lt: "\<forall>p \<in> set (ch_roots ch). unat p < N" "\<forall>p \<in> set (ch_snaps ch). unat p < N"
    "\<forall>p \<in> set (ch_cat ch). unat p < N" "\<forall>p \<in> set (ch_free ch). unat p < N"
    using on ok(2) by (auto simp: chain_on_def)
  from plan obtain pr f1 n1 psn f2 n2 pc f3 n3 nf where
    p1: "place_chain ?ps ?cap ?h ?t (dc_roots ?d) (m_root_records ?m) PRootRecords ROOT_RECORD_BYTES
           (length (w_roots w)) (w_freelist w) (w_next_pgno w) = Inr (pr, f1, n1)"
    and p2: "place_chain ?ps ?cap ?h ?t (dc_snapshots ?d) (m_snapshots ?m) PSnapshots SNAPSHOT_ENTRY_BYTES
           (length (snaps (w_snapshots w))) f1 n1 = Inr (psn, f2, n2)"
    and p3: "place_chain ?ps ?cap ?h ?t (dc_catalog ?d) (m_catalog ?m) PCatalog CATALOG_ENTRY_BYTES
           (length (w_catalog w)) f2 n2 = Inr (pc, f3, n3)"
    and p4: "alloc_freelist_pages (foldl (\<lambda>f p. freelist_push f p ?t) f3 (ch_free ch)) ?h n3 ?cap = Inr (nf, c_freelist c, c_next_pgno c)"
    and out: "c_out c = w_dirty w @ placed_pages crc pr PRootRecords ROOT_RECORD_BYTES (roots_encode (w_roots w)) @
       placed_pages crc psn PSnapshots SNAPSHOT_ENTRY_BYTES (registry_encode (w_snapshots w)) @
       placed_pages crc pc PCatalog CATALOG_ENTRY_BYTES (w_catalog w) @
       build_chain crc PFreelist FREE_ENTRY_BYTES (freelist_encode (c_freelist c)) nf"
    and meta: "c_meta c = \<lparr>m_txn_id = ?t, m_page_count = of_nat (c_next_pgno c), m_root_records = placed_head pr,
       m_freelist = chain_head nf, m_snapshots = placed_head psn, m_catalog = placed_head pc, m_flags = m_flags (w_base w)\<rparr>"
    unfolding plan_commit_def Let_def base
    by (auto simp: recycle_chain_on [OF on(4)] base split: sum.splits prod.splits)
  have n3: "n3 \<le> 2 ^ 32" using p4 n freelist_pages_loop_mono by (fastforce simp: alloc_freelist_pages_def)
  have n2: "n2 \<le> 2 ^ 32" and n1: "n1 \<le> 2 ^ 32" using place_chain_mono [OF p3] place_chain_mono [OF p2] n3 by auto
  from place_chain_shift [OF on(1) ok(1) lt(1) p1 n1] obtain nr where r: "placed_head pr = chain_head nr"
    "\<forall>es'. placed_pages crc pr PRootRecords ROOT_RECORD_BYTES es' = (if dc_roots ?d then build_chain crc PRootRecords ROOT_RECORD_BYTES es' nr else [])"
    "if dc_roots ?d then chain_pages_needed ROOT_RECORD_BYTES (length (w_roots w)) \<le> length nr else nr = ch_roots ch"
    "shift ?t ?h (w_freelist w) (w_next_pgno w) (if dc_roots ?d then ch_roots ch else []) (if dc_roots ?d then nr else []) f1 n1"
    "fl_ok N f1" by blast
  from place_chain_shift [OF on(2) r(5) lt(2) p2 n2] obtain nsn where sn: "placed_head psn = chain_head nsn"
    "\<forall>es'. placed_pages crc psn PSnapshots SNAPSHOT_ENTRY_BYTES es' = (if dc_snapshots ?d then build_chain crc PSnapshots SNAPSHOT_ENTRY_BYTES es' nsn else [])"
    "if dc_snapshots ?d then chain_pages_needed SNAPSHOT_ENTRY_BYTES (length (snaps (w_snapshots w))) \<le> length nsn else nsn = ch_snaps ch"
    "shift ?t ?h f1 n1 (if dc_snapshots ?d then ch_snaps ch else []) (if dc_snapshots ?d then nsn else []) f2 n2"
    "fl_ok N f2" by blast
  from place_chain_shift [OF on(3) sn(5) lt(3) p3 n3] obtain nc where ct: "placed_head pc = chain_head nc"
    "\<forall>es'. placed_pages crc pc PCatalog CATALOG_ENTRY_BYTES es' = (if dc_catalog ?d then build_chain crc PCatalog CATALOG_ENTRY_BYTES es' nc else [])"
    "if dc_catalog ?d then chain_pages_needed CATALOG_ENTRY_BYTES (length (w_catalog w)) \<le> length nc else nc = ch_cat ch"
    "shift ?t ?h f2 n2 (if dc_catalog ?d then ch_cat ch else []) (if dc_catalog ?d then nc else []) f3 n3"
    "fl_ok N f3" by blast
  note fr = alloc_freelist_pages_took [OF push_all_ok [OF ct(5) lt(4)] p4 n]
  from shift_trans [OF push_shift took_shift [OF fr(1)]] have
    "shift ?t ?h f3 n3 (ch_free ch @ []) ([] @ nf) (c_freelist c) (c_next_pgno c)" .
  from shift_trans [OF r(4) shift_trans [OF sn(4) shift_trans [OF ct(4) this]]]
  have sh: "shift ?t ?h (w_freelist w) (w_next_pgno w) (changed_chains ?d ch)
     (changed_chains ?d \<lparr>ch_roots = nr, ch_snaps = nsn, ch_cat = nc, ch_free = nf\<rparr>) (c_freelist c) (c_next_pgno c)"
    by (simp only: changed_chains_def chain_pages.simps append.simps append_Nil2)
  show ?thesis
  proof (intro exI [of _ "\<lparr>ch_roots = nr, ch_snaps = nsn, ch_cat = nc, ch_free = nf\<rparr>"] conjI)
    show "chain_step w (c_freelist c) ch \<lparr>ch_roots = nr, ch_snaps = nsn, ch_cat = nc, ch_free = nf\<rparr>"
      using r(3) sn(3) ct(3) fr(3) by (simp add: chain_step_def)
  qed (use out meta r sn ct fr sh in \<open>simp_all add: chain_writes_def new_meta_def\<close>)
qed

section \<open>Who owns the pages of a commit\<close>

lemma balance_algebra:
  fixes A :: "'a multiset"
  assumes "A + D = W + S" "W + S + P = F0 + (B + D) + Rel" "A + Rc = F' + R" "Nw = R + E"
  shows "F' + Nw + P = F0 + (B + E) + Rel + Rc"
proof -
  have "A + P + D = (W + S) + P" unfolding assms(1) [symmetric] by (simp add: ac_simps)
  also have "\<dots> = F0 + B + Rel + D" unfolding assms(2) by (simp add: ac_simps)
  finally have a: "A + P = F0 + B + Rel" by simp
  have "F' + Nw + P = (F' + R) + (E + P)" unfolding assms(4) by (simp add: ac_simps)
  also have "\<dots> = (A + P) + (Rc + E)" unfolding assms(3) [symmetric] by (simp add: ac_simps)
  finally show ?thesis unfolding a by (simp add: ac_simps)
qed

lemma image_fst_stamp: "image_mset fst (mset (map (\<lambda>p. (g p, t)) xs)) = mset (map g xs)"
  by (simp add: multiset.map_comp o_def)

text \<open>What the first half of \<^verbatim>\<open>commit\<close> leaves for the second.\<close>

lemma txn_absorb_spec:
  assumes inv: "txn_inv K f0 (w, g)"
  defines "w' \<equiv> txn_absorb w"
  shows "w_tail_floor w \<le> w_next_pgno w'" and "w_next_pgno w' \<le> w_next_pgno w"
    and "free_nos (w_freelist w') + mset [w_next_pgno w'..<w_next_pgno w] = free_nos (w_freelist w) + mset (map unat (w_scratch w))"
    and "fl_ok (w_next_pgno w') (w_freelist w')"
    and "\<forall>x \<in># free_pages (w_freelist w'). snd x = w_txn_id w \<or> x \<in># free_pages f0"
    and "\<forall>x \<in># free_pages (w_freelist w). x \<in># free_pages (w_freelist w')"
proof -
  obtain f n where fn: "absorb_scratch (w_freelist w) (w_scratch w) (w_next_pgno w) (w_txn_id w) = (f, n)" by (meson surj_pair)
  then have w': "w_freelist w' = f" "w_next_pgno w' = n" by (simp_all add: w'_def txn_absorb_def)
  have i: "\<forall>p \<in> set (w_scratch w). w_tail_floor w \<le> unat p" "fl_ok (w_tail_floor w) (w_freelist w)"
    "w_tail_floor w \<le> w_next_pgno w" "w_next_pgno w < 2 ^ 32" using inv by (auto simp: txn_inv_def)
  note ab = absorb_scratch_spec [OF nodup_owned(2) [OF inv] _ fn]
  have bd: "\<forall>p \<in> set (w_scratch w). unat p < w_next_pgno w" using balance_bound(2) [OF inv] by blast
  show le: "w_next_pgno w' \<le> w_next_pgno w" using ab(1) [OF bd] by (simp add: w')
  show fl: "w_tail_floor w \<le> w_next_pgno w'"
  proof (cases "n = w_next_pgno w")
    case False
    then have "n \<in> set [n..<w_next_pgno w]" using ab(1) [OF bd] by simp
    then show ?thesis using ab(2) [OF bd] i(1) w'(2) by auto
  qed (use i(3) w' in simp)
  note eq = ab(3) [OF bd]
  from arg_cong [OF eq, of "image_mset fst"]
  show "free_nos (w_freelist w') + mset [w_next_pgno w'..<w_next_pgno w] = free_nos (w_freelist w) + mset (map unat (w_scratch w))"
    unfolding image_mset_union image_fst_stamp w' by simp
  show "fl_ok (w_next_pgno w') (w_freelist w')"
    unfolding w' using ab(4) [OF bd i(2,3,4)] i(2) fl unfolding w' fl_ok_def by fastforce
  have sub: "x \<in># free_pages f \<Longrightarrow> x \<in># free_pages (w_freelist w) \<or> snd x = w_txn_id w" for x
    using arg_cong [OF eq, of "\<lambda>M. x \<in># M"] by auto
  then show "\<forall>x \<in># free_pages (w_freelist w'). snd x = w_txn_id w \<or> x \<in># free_pages f0"
    using inv unfolding w' by (auto simp: txn_inv_def)
  have "x \<in># free_pages (w_freelist w) \<Longrightarrow> x \<notin># mset (map (\<lambda>n. (n, w_txn_id w)) [n..<w_next_pgno w])" for x
    using free_pages_bound [OF i(2), of "fst x"] fl w'(2) by auto
  with arg_cong [OF eq, of "\<lambda>M. _ \<in># M"]
  show "\<forall>x \<in># free_pages (w_freelist w). x \<in># free_pages (w_freelist w')"
    unfolding w' by (metis union_iff)
qed

text \<open>
  A transaction in flight over a store, and the state it will publish.
\<close>

definition txn_data :: "store_state \<Rightarrow> write_txn \<Rightarrow> bool" where
  "txn_data st w \<longleftrightarrow> w_base w = s_meta st \<and> w_txn_id w = m_txn_id (s_meta st) + 1 \<and>
     m_txn_id (s_meta st) < m_txn_id (s_meta st) + 1 \<and>
     (dc_roots (w_dirty_chains w) \<or> w_roots w = s_roots st) \<and>
     (dc_snapshots (w_dirty_chains w) \<or> w_snapshots w = s_snapshots st) \<and>
     (dc_catalog (w_dirty_chains w) \<or> w_catalog w = s_catalog st) \<and>
     bt_inv (w_roots w) \<and> registry_names (w_snapshots w) \<and> (\<forall>e \<in> set (w_catalog w). length e = CATALOG_ENTRY_BYTES)"

definition in_flight :: "(u8 list \<Rightarrow> u32) \<Rightarrow> store \<Rightarrow> chain_pages \<Rightarrow> write_txn \<Rightarrow> txn_ghost \<Rightarrow> bool" where
  "in_flight crc s ch w g \<longleftrightarrow>
     store_inv crc (s_pager s) (s_state s) ch \<and> txn_inv (kept_pages ch) (s_freelist (s_state s)) (w, g) \<and>
     w_tail_floor w = length (s_pager s) \<and> txn_data (s_state s) w"

lemma reclaim_horizon_le: "reclaim_horizon r sn m \<le> m_txn_id m"
  by (simp add: reclaim_horizon_def Let_def)

lemma txn_absorb_frame:
  "w_txn_id (txn_absorb w) = w_txn_id w" "w_base (txn_absorb w) = w_base w" "w_dirty (txn_absorb w) = w_dirty w"
  "w_dirty_chains (txn_absorb w) = w_dirty_chains w" "w_roots (txn_absorb w) = w_roots w"
  "w_snapshots (txn_absorb w) = w_snapshots w" "w_catalog (txn_absorb w) = w_catalog w"
  by (simp_all add: txn_absorb_def split: prod.splits)

text \<open>The pages a commit accounts for are the pages that were there, each once.\<close>

definition commit_balance :: "freelist \<Rightarrow> nat \<Rightarrow> txn_ghost \<Rightarrow> dirty_chains \<Rightarrow> chain_pages \<Rightarrow> chain_pages \<Rightarrow> freelist \<Rightarrow> nat \<Rightarrow> bool" where
  "commit_balance f0 n0 g d ch ch' f' n' \<longleftrightarrow>
     free_nos f' + mset (map unat (changed_chains d ch')) + mset (map unat (owned g))
       = free_nos f0 + mset [n0..<n'] + mset (map unat (released g)) + mset (map unat (changed_chains d ch))"

definition unchanged_chains :: "dirty_chains \<Rightarrow> chain_pages \<Rightarrow> pgno list" where
  "unchanged_chains d ch = (if dc_roots d then [] else ch_roots ch) @ (if dc_snapshots d then [] else ch_snaps ch) @
     (if dc_catalog d then [] else ch_cat ch)"

lemma mset_chains: "mset (changed_chains d ch) + mset (unchanged_chains d ch) = mset (all_chain_pages ch)"
  by (auto simp: changed_chains_def unchanged_chains_def all_chain_pages_def)

lemma mset_chain_nos:
  "mset (map unat (changed_chains d ch)) + mset (map unat (unchanged_chains d ch)) = mset (map unat (all_chain_pages ch))"
  using arg_cong [OF mset_chains, of "image_mset unat"] by simp

lemma set_chains: "set (all_chain_pages ch) = set (changed_chains d ch) \<union> set (unchanged_chains d ch)"
  using arg_cong [OF mset_chains, of set_mset] by auto

lemma chain_page_bounds:
  assumes "store_inv crc ps st ch" "p \<in> set (all_chain_pages ch)"
  shows "2 \<le> unat p \<and> unat p < length ps"
  using assms by (auto simp: store_inv_def chain_on_def all_chain_pages_def)

lemma commit_accounts:
  assumes fly: "in_flight crc s ch w g" and plan: "plan_commit crc s (txn_absorb w) = Inr c" and n: "c_next_pgno c \<le> 2 ^ 32"
    and sh: "shift (w_txn_id w) h (w_freelist (txn_absorb w)) (w_next_pgno (txn_absorb w))
             (changed_chains d ch) (changed_chains d ch') (c_freelist c) (c_next_pgno c)"
  shows "commit_balance (s_freelist (s_state s)) (length (s_pager s)) g d ch ch' (c_freelist c) (c_next_pgno c)"
    and "nodup (free_nos (c_freelist c) + mset (map unat (changed_chains d ch')) + mset (map unat (owned g)) +
      mset (map unat (unchanged_chains d ch)))"
proof -
  let ?w = "txn_absorb w" and ?f0 = "s_freelist (s_state s)" and ?tf = "length (s_pager s)"
  have fl: "store_inv crc (s_pager s) (s_state s) ch" "txn_inv (kept_pages ch) ?f0 (w, g)" "w_tail_floor w = ?tf"
    using fly by (auto simp: in_flight_def)
  note ab = txn_absorb_spec [OF fl(2), unfolded fl(3)]
  obtain R where R: "w_next_pgno ?w \<le> c_next_pgno c"
    "free_pages (w_freelist ?w) + mset (map (\<lambda>p. (unat p, w_txn_id w)) (changed_chains d ch)) = free_pages (c_freelist c) + R"
    "mset (map unat (changed_chains d ch')) = image_mset fst R + mset [w_next_pgno ?w..<c_next_pgno c]"
    using sh unfolding shift_def by blast
  have e3: "free_nos (w_freelist ?w) + mset (map unat (changed_chains d ch)) = free_nos (c_freelist c) + image_mset fst R"
    using arg_cong [OF R(2), of "image_mset fst"] by (simp only: image_mset_union image_fst_stamp)
  have sp: "mset [?tf..<w_next_pgno w] = mset [?tf..<w_next_pgno ?w] + mset [w_next_pgno ?w..<w_next_pgno w]"
    "mset [?tf..<c_next_pgno c] = mset [?tf..<w_next_pgno ?w] + mset [w_next_pgno ?w..<c_next_pgno c]"
    using ab(1,2) R(1) by (metis le_add_diff_inverse mset_append upt_add_eq_append)+
  have e2: "free_nos (w_freelist w) + mset (map unat (w_scratch w)) + mset (map unat (owned g))
     = free_nos ?f0 + (mset [?tf..<w_next_pgno ?w] + mset [w_next_pgno ?w..<w_next_pgno w]) + mset (map unat (released g))"
    using fl(2) unfolding txn_inv_def prod.case txn_balance_def fl(3) sp(1) by blast
  note alg = balance_algebra [OF ab(3) e2 e3 R(3)]
  show bal: "commit_balance ?f0 ?tf g d ch ch' (c_freelist c) (c_next_pgno c)"
    unfolding commit_balance_def sp(2) by (rule alg)
  have st: "fl_ok ?tf ?f0" "nodup (free_nos ?f0)" "distinct (all_chain_pages ch)"
    "\<forall>n \<in># free_nos ?f0. 2 \<le> n \<and> n \<notin> unat ` set (all_chain_pages ch)" using fl(1) by (auto simp: store_inv_def)
  have rel: "distinct (released g)" "\<forall>p \<in> set (released g). live_page (kept_pages ch) ?f0 ?tf p"
    using fl(2) by (auto simp: txn_inv_def fl(3))
  have "nodup (free_nos ?f0 + mset [?tf..<c_next_pgno c] + mset (map unat (released g)) + mset (map unat (all_chain_pages ch)))"
    unfolding nodup_plus nodup_mset
  proof (intro conjI)
    show "(set_mset (free_nos ?f0) \<inter> set_mset (mset [?tf..<c_next_pgno c])) = {}"
      using free_pages_bound [OF st(1)] by fastforce
    show "set_mset (free_nos ?f0 + mset [?tf..<c_next_pgno c]) \<inter> set_mset (mset (map unat (released g))) = {}"
      using rel(2) by (auto simp: live_page_def)
    show "set_mset (free_nos ?f0 + mset [?tf..<c_next_pgno c] + mset (map unat (released g))) \<inter>
        set_mset (mset (map unat (all_chain_pages ch))) = {}"
      using st(4) chain_page_bounds [OF fl(1)] rel(2)
      by (fastforce simp: live_page_def kept_pages_def word_unat_eq_iff [symmetric])
  qed (use st rel in \<open>auto\<close>)
  then show "nodup (free_nos (c_freelist c) + mset (map unat (changed_chains d ch')) + mset (map unat (owned g)) +
      mset (map unat (unchanged_chains d ch)))"
    unfolding bal [unfolded commit_balance_def] mset_chain_nos [of d, symmetric] by (simp only: add.assoc)
qed

text \<open>What \<open>plan_commit\<close> decides, as one fact about the pages it writes and the freelist it leaves.\<close>

definition fresh_at :: "freelist \<Rightarrow> nat \<Rightarrow> txn_id \<Rightarrow> nat \<Rightarrow> bool" where
  "fresh_at f0 n0 h n \<longleftrightarrow> n0 \<le> n \<or> (\<exists>t \<le> h. (n, t) \<in># free_pages f0)"

lemma commit_pages:
  assumes fly: "in_flight crc s ch w g" and plan: "plan_commit crc s (txn_absorb w) = Inr c" and n: "c_next_pgno c \<le> 2 ^ 32"
    and sh: "shift (w_txn_id w) h (w_freelist (txn_absorb w)) (w_next_pgno (txn_absorb w))
             (changed_chains d ch) (changed_chains d ch') (c_freelist c) (c_next_pgno c)"
    and h: "h < w_txn_id w"
  shows "length (s_pager s) \<le> c_next_pgno c"
    and "\<forall>p \<in> set (changed_chains d ch'). fresh_at (s_freelist (s_state s)) (length (s_pager s)) h (unat p) \<and> unat p < c_next_pgno c"
    and "\<forall>p \<in> set (changed_chains d ch'). bt_get (w_dirty w) p = None"
    and "\<forall>x \<in># free_pages (c_freelist c). snd x = w_txn_id w \<or> x \<in># free_pages (s_freelist (s_state s))"
    and "\<forall>n \<in># free_nos (c_freelist c). 2 \<le> n"
proof -
  let ?w = "txn_absorb w" and ?f0 = "s_freelist (s_state s)" and ?tf = "length (s_pager s)" and ?t = "w_txn_id w"
  have fl: "store_inv crc (s_pager s) (s_state s) ch" "txn_inv (kept_pages ch) ?f0 (w, g)" "w_tail_floor w = ?tf"
    "txn_data (s_state s) w" using fly by (auto simp: in_flight_def)
  note ab = txn_absorb_spec [OF fl(2), unfolded fl(3)]
  note acc = commit_accounts [OF fly plan n sh]
  obtain R where R: "w_next_pgno ?w \<le> c_next_pgno c"
    "free_pages (w_freelist ?w) + mset (map (\<lambda>p. (unat p, ?t)) (changed_chains d ch)) = free_pages (c_freelist c) + R"
    "\<forall>x \<in># R. snd x \<le> h"
    "mset (map unat (changed_chains d ch')) = image_mset fst R + mset [w_next_pgno ?w..<c_next_pgno c]"
    using sh unfolding shift_def by blast
  show le: "?tf \<le> c_next_pgno c" using ab(1) R(1) by simp
  have f0: "fl_ok ?tf ?f0" "\<forall>x \<in># free_pages ?f0. snd x \<le> m_txn_id (s_meta (s_state s))" "2 \<le> ?tf"
    "\<forall>n \<in># free_nos ?f0. 2 \<le> n" using fl(1) by (auto simp: store_inv_def)
  have mem: "x \<in># free_pages (w_freelist ?w) \<or> snd x = ?t" if "x \<in># free_pages (c_freelist c) + R" for x
    using that unfolding R(2) [symmetric] by auto
  have old: "x \<in># free_pages ?f0" if "x \<in># R" for x
    using mem [of x] that R(3) h ab(5) by fastforce
  show "\<forall>p \<in> set (changed_chains d ch'). fresh_at ?f0 ?tf h (unat p) \<and> unat p < c_next_pgno c"
  proof
    fix p assume "p \<in> set (changed_chains d ch')"
    then have "unat p \<in># image_mset fst R + mset [w_next_pgno ?w..<c_next_pgno c]" unfolding R(4) [symmetric] by simp
    then consider x where "x \<in># R" "unat p = fst x" | "w_next_pgno ?w \<le> unat p" "unat p < c_next_pgno c" by auto
    then show "fresh_at ?f0 ?tf h (unat p) \<and> unat p < c_next_pgno c"
    proof cases
      case 1
      then have "fresh_at ?f0 ?tf h (unat p)" "unat p < ?tf"
        using old [OF 1(1)] R(3) free_pages_bound [OF f0(1), of "fst x"] by (auto simp: fresh_at_def intro!: exI [of _ "snd x"])
      then show ?thesis using le by simp
    qed (use ab(1) in \<open>auto simp: fresh_at_def\<close>)
  qed
  show "\<forall>p \<in> set (changed_chains d ch'). bt_get (w_dirty w) p = None"
  proof (rule ballI, rule ccontr)
    fix p assume p: "p \<in> set (changed_chains d ch')" and "bt_get (w_dirty w) p \<noteq> None"
    then have "p \<in> set (owned g) \<or> (unat p, ?t) \<in># free_pages (w_freelist w)" using fl(2) by (auto simp: txn_inv_def)
    moreover have "unat p \<notin># free_nos (c_freelist c)" "p \<notin> set (owned g)"
      using acc(2) p unfolding nodup_plus by (auto simp: word_unat_eq_iff [symmetric])
    moreover have "(unat p, ?t) \<in># free_pages (w_freelist w) \<Longrightarrow> (unat p, ?t) \<in># free_pages (c_freelist c) + R"
      using ab(6) unfolding R(2) [symmetric] by auto
    moreover have "(unat p, ?t) \<notin># R" using R(3) h by fastforce
    ultimately show False by force
  qed
  show "\<forall>x \<in># free_pages (c_freelist c). snd x = ?t \<or> x \<in># free_pages ?f0"
    using mem ab(5) by auto
  have "2 \<le> n" if "n \<in># free_nos (c_freelist c)" for n
  proof -
    have "n \<in># free_nos ?f0 + mset [?tf..<c_next_pgno c] + mset (map unat (released g)) + mset (map unat (changed_chains d ch))"
      using acc(1) that unfolding commit_balance_def by (metis union_iff)
    moreover have "2 \<le> unat p" if "p \<in> set (released g)" for p
    proof -
      have "p \<noteq> 0" "p \<noteq> 1" using fl(2) that by (auto simp: txn_inv_def live_page_def kept_pages_def)
      then have "unat p \<noteq> 0" "unat p \<noteq> 1" by (auto simp: word_unat_eq_iff)
      then show ?thesis by simp
    qed
    moreover have "2 \<le> unat p" if "p \<in> set (changed_chains d ch)" for p
      using that chain_page_bounds [OF fl(1), of p] set_chains [of ch d] by auto
    ultimately show ?thesis using f0(3,4) by auto
  qed
  then show "\<forall>n \<in># free_nos (c_freelist c). 2 \<le> n" by blast
qed

section \<open>The writes\<close>

lemma run_io_append: "run_io ps (xs @ ys) = (case run_io ps xs of Inl e \<Rightarrow> Inl e | Inr ps' \<Rightarrow> run_io ps' ys)"
  by (induction xs arbitrary: ps) (auto split: sum.splits)

lemma run_io_writes: "run_io ps (map (\<lambda>(n, p). WritePage n p) out) = write_all pager_write ps out"
  by (induction out arbitrary: ps) (auto split: sum.splits)

lemma run_io_flush: "run_io ps (flush_ops d) = Inr ps"
  by (cases d) (simp_all add: flush_ops_def)

lemma write_all_ok:
  "\<forall>x \<in> set out. unat (fst x) < length ps \<Longrightarrow> \<exists>ps'. write_all pager_write ps out = Inr ps' \<and> length ps' = length ps"
proof (induction out arbitrary: ps)
  case (Cons x out)
  then show ?case using Cons.IH [of "ps[unat (fst x) := snd x]"] by (simp add: pager_write_def)
qed simp

lemma read_grow: "unat k < length ps \<Longrightarrow> pager_read (pager_grow ps n) k = pager_read ps k"
  by (auto simp: pager_read_def pager_grow_def nth_append)

lemma write_and_flip_ok:
  assumes "length ps \<le> n" "2 \<le> length ps" "distinct (map fst out)" "\<forall>x \<in> set out. 2 \<le> unat (fst x) \<and> unat (fst x) < n"
  shows "\<exists>ps'. write_and_flip crc d ps out n m = Inr ps' \<and> length ps' = n \<and>
           (\<forall>x \<in> set out. pager_read ps' (fst x) = Inr (snd x)) \<and> pager_read ps' (slot_of m) = Inr (meta_encode crc m) \<and>
           (\<forall>k. k \<notin> fst ` set out \<longrightarrow> k \<noteq> slot_of m \<longrightarrow> unat k < length ps \<longrightarrow> pager_read ps' k = pager_read ps k)"
proof -
  let ?g = "pager_grow ps n"
  have g: "length ?g = n" using assms(1) by (simp add: pager_grow_def)
  obtain p1 where p1: "write_all pager_write ?g out = Inr p1" "length p1 = n" using write_all_ok [of out ?g] assms(4) g by auto
  have slot: "unat (slot_of m) < 2" using meta_slot_cases [of m] by auto
  then obtain p2 where p2: "pager_write p1 (slot_of m) (meta_encode crc m) = Inr p2" "length p2 = n"
    using p1(2) assms(1,2) by (auto simp: pager_write_def)
  have "write_and_flip crc d ps out n m = Inr p2"
    using p1 p2 by (simp add: write_and_flip_def flip_ops_def run_io_append run_io_writes run_io_flush slot_of_def [symmetric])
  moreover have "\<forall>x \<in> set out. pager_read p2 (fst x) = Inr (snd x)"
  proof
    fix x assume x: "x \<in> set out"
    then have "fst x \<noteq> slot_of m" using assms(4) slot by auto
    then show "pager_read p2 (fst x) = Inr (snd x)"
      using mem.rd_wr_all_same [OF p1(1) assms(3), of "fst x" "snd x"] mem.rd_wr_other [OF p2(1)] x by simp
  qed
  moreover have "\<forall>k. k \<notin> fst ` set out \<longrightarrow> k \<noteq> slot_of m \<longrightarrow> unat k < length ps \<longrightarrow> pager_read p2 k = pager_read ps k"
    using mem.rd_wr_all_other [OF p1(1)] mem.rd_wr_other [OF p2(1)] read_grow by simp
  ultimately show ?thesis using p2(2) mem.rd_wr_same [OF p2(1)] by blast
qed

lemma build_chain_nos:
  assumes "chain_pages_needed stride (length es) \<le> length ns" "0 < chain_capacity stride"
  shows "map fst (build_chain crc ty stride es ns) = ns"
  unfolding build_chain_eq(1) [OF assms] by (simp add: o_def map_nth)

lemma capacities [simp]: "0 < chain_capacity ROOT_RECORD_BYTES" "0 < chain_capacity SNAPSHOT_ENTRY_BYTES"
  "0 < chain_capacity CATALOG_ENTRY_BYTES" "0 < chain_capacity FREE_ENTRY_BYTES"
  by (simp_all add: chain_capacity_def ROOT_RECORD_BYTES_def SNAPSHOT_ENTRY_BYTES_def CATALOG_ENTRY_BYTES_def
      FREE_ENTRY_BYTES_def CHAIN_DATA_def layout_defs)

lemma chain_writes_nos:
  assumes "chain_step w f ch ch'"
  shows "map fst (chain_writes crc w f ch') = changed_chains (w_dirty_chains w) ch'"
  using assms by (simp add: chain_step_def chain_writes_def changed_chains_def build_chain_nos)

lemma slot_of_next:
  assumes "m_txn_id m' = m_txn_id m + 1" "m_txn_id m < m_txn_id m'"
  shows "slot_of m' = 1 - slot_of m"
proof -
  have "unat (m_txn_id m + 1) = unat (m_txn_id m) + 1"
    using assms by (metis unat_1 unat_add_lem unat_plus_simple less_imp_le olen_add_eqv)
  then have "unat (meta_slot m') = (unat (m_txn_id m) + 1) mod 2" "unat (meta_slot m) = unat (m_txn_id m) mod 2"
    using assms(1) by (simp_all add: meta_slot_def META_PAGES_def unat_mod)
  then have "unat (meta_slot m) = 0 \<and> unat (meta_slot m') = 1 \<or> unat (meta_slot m) = 1 \<and> unat (meta_slot m') = 0"
    by presburger
  then have "meta_slot m = 0 \<and> meta_slot m' = 1 \<or> meta_slot m = 1 \<and> meta_slot m' = 0"
    by (simp add: word_unat_eq_iff)
  then show ?thesis by (auto simp: slot_of_def)
qed

section \<open>A commit keeps the file consistent\<close>

lemma bt_inv_mem: "bt_inv m \<Longrightarrow> x \<in> set m \<Longrightarrow> bt_get m (fst x) = Some (snd x)"
  by (simp add: bt_inv_def bt_get_def strict_sorted_iff)

lemma bt_inv_distinct: "bt_inv m \<Longrightarrow> distinct (map fst m)"
  by (simp add: bt_inv_def strict_sorted_iff)

lemma unchanged_chains_step: "chain_step w f ch ch' \<Longrightarrow> unchanged_chains (w_dirty_chains w) ch' = unchanged_chains (w_dirty_chains w) ch"
  by (auto simp: chain_step_def unchanged_chains_def split: if_splits)

abbreviation commit_horizon :: "store \<Rightarrow> write_txn \<Rightarrow> txn_id" where
  "commit_horizon s w \<equiv> reclaim_horizon (s_readers s) (w_snapshots w) (s_meta (s_state s))"

text \<open>What the second half of a commit has in hand.\<close>

definition planned :: "(u8 list \<Rightarrow> u32) \<Rightarrow> store \<Rightarrow> chain_pages \<Rightarrow> write_txn \<Rightarrow> txn_ghost \<Rightarrow> commit_plan \<Rightarrow> chain_pages \<Rightarrow> bool" where
  "planned crc s ch w g c ch' \<longleftrightarrow>
     c_out c = w_dirty w @ chain_writes crc w (c_freelist c) ch' \<and> c_meta c = new_meta w (c_next_pgno c) ch' \<and>
     chain_step w (c_freelist c) ch ch' \<and> fl_ok (c_next_pgno c) (c_freelist c) \<and> length (s_pager s) \<le> c_next_pgno c \<and>
     commit_balance (s_freelist (s_state s)) (length (s_pager s)) g (w_dirty_chains w) ch ch' (c_freelist c) (c_next_pgno c) \<and>
     nodup (free_nos (c_freelist c) + mset (map unat (all_chain_pages ch')) + mset (map unat (owned g))) \<and>
     distinct (map fst (c_out c)) \<and>
     (\<forall>x \<in> set (c_out c). 2 \<le> unat (fst x) \<and> unat (fst x) < c_next_pgno c \<and>
        fresh_at (s_freelist (s_state s)) (length (s_pager s)) (max (w_horizon w) (commit_horizon s w)) (unat (fst x))) \<and>
     (\<forall>x \<in># free_pages (c_freelist c). snd x = w_txn_id w \<or> x \<in># free_pages (s_freelist (s_state s))) \<and> (\<forall>n \<in># free_nos (c_freelist c). 2 \<le> n)"

lemma fresh_at_mono: "fresh_at f n h k \<Longrightarrow> h \<le> h' \<Longrightarrow> fresh_at f n h' k"
  by (meson fresh_at_def order_trans)

lemma fresh_at_ge2:
  assumes "store_inv crc ps st ch" "fresh_at (s_freelist st) (length ps) h n"
  shows "2 \<le> n"
  using assms by (force simp: store_inv_def fresh_at_def)

lemma chain_writes_absorb: "chain_writes crc (txn_absorb w) f ch = chain_writes crc w f ch"
  "new_meta (txn_absorb w) n ch = new_meta w n ch" "chain_step (txn_absorb w) f ch ch' = chain_step w f ch ch'"
  by (simp_all add: chain_writes_def new_meta_def chain_step_def txn_absorb_frame)

lemma commit_planned:
  assumes fly: "in_flight crc s ch w g" and plan: "plan_commit crc s (txn_absorb w) = Inr c" and n: "c_next_pgno c < 2 ^ 32"
  shows "\<exists>ch'. planned crc s ch w g c ch'"
proof -
  let ?wa = "txn_absorb w" and ?f0 = "s_freelist (s_state s)" and ?tf = "length (s_pager s)" and ?h = "commit_horizon s w"
    and ?d = "w_dirty_chains w"
  have fl: "store_inv crc (s_pager s) (s_state s) ch" "txn_inv (kept_pages ch) ?f0 (w, g)" "w_tail_floor w = ?tf"
    "txn_data (s_state s) w" using fly by (auto simp: in_flight_def)
  note ab = txn_absorb_spec [OF fl(2), unfolded fl(3)]
  have base: "w_base ?wa = s_meta (s_state s)" "?h < w_txn_id w"
    using fl(4) reclaim_horizon_le [of "s_readers s" "w_snapshots w" "s_meta (s_state s)"]
    by (auto simp: txn_absorb_frame txn_data_def)
  have n32: "c_next_pgno c \<le> 2 ^ 32" using n by simp
  from plan_commit_shape [OF fl(1) base(1) plan n32 ab(4,1)] obtain ch' where
    sh: "c_out c = w_dirty w @ chain_writes crc w (c_freelist c) ch'" "c_meta c = new_meta w (c_next_pgno c) ch'"
      "chain_step w (c_freelist c) ch ch'" "fl_ok (w_next_pgno ?wa) (c_freelist c)"
      "shift (w_txn_id w) ?h (w_freelist ?wa) (w_next_pgno ?wa) (changed_chains ?d ch) (changed_chains ?d ch') (c_freelist c) (c_next_pgno c)"
    by (auto simp: txn_absorb_frame chain_writes_absorb)
  note acc = commit_accounts [OF fly plan n32 sh(5)] and pg = commit_pages [OF fly plan n32 sh(5) base(2)]
  have "w_next_pgno ?wa \<le> c_next_pgno c" using sh(5) by (simp add: shift_def)
  then have ok: "fl_ok (c_next_pgno c) (c_freelist c)" using fl_ok_mono sh(4) n by blast
  have nd: "nodup (free_nos (c_freelist c) + mset (map unat (all_chain_pages ch')) + mset (map unat (owned g)))"
    using acc(2) unfolding mset_chain_nos [of ?d ch', symmetric] unchanged_chains_step [OF sh(3)] by (simp only: ac_simps)
  have nos: "map fst (c_out c) = map fst (w_dirty w) @ changed_chains ?d ch'"
    unfolding sh(1) by (simp add: chain_writes_nos [OF sh(3)])
  have bd: "bt_inv (w_dirty w)" using fl(2) by (simp add: txn_inv_def)
  have "distinct (changed_chains ?d ch')" using acc(2) by (auto simp: nodup_plus simp del: mset_map)
  moreover have "set (map fst (w_dirty w)) \<inter> set (changed_chains ?d ch') = {}"
    using pg(3) bt_inv_mem [OF bd] by fastforce
  ultimately have dist: "distinct (map fst (c_out c))" using bt_inv_distinct [OF bd] unfolding nos by simp
  have each: "unat p < c_next_pgno c \<and> fresh_at ?f0 ?tf (max (w_horizon w) ?h) (unat p)" if mem: "p \<in> set (map fst (c_out c))" for p
  proof (cases "p \<in> set (changed_chains ?d ch')")
    case True
    then show ?thesis using pg(2) fresh_at_mono [of ?f0 ?tf ?h "unat p" "max (w_horizon w) ?h"] by simp
  next
    case False
    then have "p \<in> set (map fst (w_dirty w))" using mem unfolding nos by simp
    then obtain b where b: "bt_get (w_dirty w) p = Some b" using bt_inv_mem [OF bd] by fastforce
    then have "fresh_at ?f0 ?tf (w_horizon w) (unat p)" using fl(2,3) by (auto simp: txn_inv_def fresh_page_def fresh_at_def)
    moreover have "unat p < c_next_pgno c"
    proof -
      from b fl(2) consider "p \<in> set (owned g)" | "(unat p, w_txn_id w) \<in># free_pages (w_freelist w)" by (auto simp: txn_inv_def)
      then show ?thesis
      proof cases
        case 1
        then have "unat p \<in># free_nos ?f0 + mset [?tf..<c_next_pgno c] + mset (map unat (released g)) + mset (map unat (changed_chains ?d ch))"
          unfolding acc(1) [unfolded commit_balance_def, symmetric] by simp
        moreover have "fl_ok ?tf ?f0" using fl(1) by (simp add: store_inv_def)
        moreover have "\<forall>q \<in> set (released g). unat q < ?tf" using fl(2,3) by (auto simp: txn_inv_def live_page_def)
        moreover have "\<forall>q \<in> set (changed_chains ?d ch). unat q < ?tf" using chain_page_bounds [OF fl(1)] set_chains [of ch ?d] by auto
        ultimately show ?thesis using free_pages_bound [of ?tf ?f0 "unat p"] pg(1) by fastforce
      next
        case 2
        then have "unat p \<in># free_nos (w_freelist w)" by force
        moreover have "fl_ok ?tf (w_freelist w)" using fl(2,3) by (simp add: txn_inv_def)
        ultimately show ?thesis using free_pages_bound pg(1) by fastforce
      qed
    qed
    ultimately show ?thesis using fresh_at_mono by (metis max.cobounded1)
  qed
  then have "\<forall>x \<in> set (c_out c). 2 \<le> unat (fst x) \<and> unat (fst x) < c_next_pgno c \<and>
        fresh_at ?f0 ?tf (max (w_horizon w) ?h) (unat (fst x))"
    using fresh_at_ge2 [OF fl(1)] by auto
  with sh(1-3) ok acc(1) nd dist pg(1,4,5) show ?thesis unfolding planned_def by blast
qed

definition committed_state :: "store \<Rightarrow> write_txn \<Rightarrow> commit_plan \<Rightarrow> store_state" where
  "committed_state s w c = \<lparr>s_meta = c_meta c, s_roots = w_roots w, s_snapshots = w_snapshots w,
     s_catalog = (if dc_catalog (w_dirty_chains w) then w_catalog w else s_catalog (s_state s)), s_freelist = c_freelist c\<rparr>"

text \<open>A file that holds every write of the plan, the meta page included.\<close>

definition holds_plan :: "(u8 list \<Rightarrow> u32) \<Rightarrow> mem_pager \<Rightarrow> commit_plan \<Rightarrow> mem_pager \<Rightarrow> bool" where
  "holds_plan crc ps c ps' \<longleftrightarrow> length ps' = c_next_pgno c \<and> (\<forall>x \<in> set (c_out c). pager_read ps' (fst x) = Inr (snd x)) \<and>
     pager_read ps' (slot_of (c_meta c)) = Inr (meta_encode crc (c_meta c)) \<and>
     (\<forall>k. k \<notin> fst ` set (c_out c) \<longrightarrow> k \<noteq> slot_of (c_meta c) \<longrightarrow> unat k < length ps \<longrightarrow> pager_read ps' k = pager_read ps k)"

lemma planned_out:
  assumes "planned crc s ch w g c ch'" "k \<in> fst ` set (c_out c)"
  shows "2 \<le> unat k \<and> unat k < c_next_pgno c \<and>
    fresh_at (s_freelist (s_state s)) (length (s_pager s)) (max (w_horizon w) (commit_horizon s w)) (unat k)"
  using assms unfolding planned_def by blast

lemma slot_less: "unat (slot_of m) < 2"
  using meta_slot_cases [of m] by auto

lemma slot_not_out: "planned crc s ch w g c ch' \<Longrightarrow> slot_of m \<notin> fst ` set (c_out c)"
  using planned_out [of crc s ch w g c ch' "slot_of m"] slot_less [of m] by linarith

lemma unchanged_read:
  assumes inv: "store_inv crc (s_pager s) (s_state s) ch" and pl: "planned crc s ch w g c ch'"
    and holds: "holds_plan crc (s_pager s) c ps'" and p: "p \<in> set (unchanged_chains (w_dirty_chains w) ch)"
  shows "pager_read ps' p = pager_read (s_pager s) p"
proof -
  have pin: "p \<in> set (all_chain_pages ch)" using p set_chains [of ch "w_dirty_chains w"] by simp
  note b = chain_page_bounds [OF inv pin]
  have "unat p \<notin># free_nos (s_freelist (s_state s))" using inv pin unfolding store_inv_def by blast
  then have "\<not> fresh_at (s_freelist (s_state s)) (length (s_pager s)) h (unat p)" for h
    using b by (force simp: fresh_at_def)
  then have "p \<notin> fst ` set (c_out c)" using planned_out [OF pl] by blast
  moreover have "p \<noteq> slot_of (c_meta c)" using b meta_slot_cases [of "c_meta c"] by auto
  ultimately show ?thesis using holds b by (simp add: holds_plan_def)
qed

lemma encoded_lengths:
  "e \<in> set (roots_encode m) \<Longrightarrow> length e = ROOT_RECORD_BYTES"
  "registry_names r \<Longrightarrow> e \<in> set (registry_encode r) \<Longrightarrow> length e = SNAPSHOT_ENTRY_BYTES"
  "e \<in> set (freelist_encode f) \<Longrightarrow> length e = FREE_ENTRY_BYTES"
  by (auto simp: roots_encode_def registry_encode_def freelist_encode_def ROOT_RECORD_BYTES_def SNAPSHOT_ENTRY_BYTES_def
      FRAGMENT_KEY_BYTES_def registry_names_def snapshot_roundtrip)

lemma chain_after:
  assumes inv: "store_inv crc (s_pager s) (s_state s) ch" and pl: "planned crc s ch w g c ch'"
    and holds: "holds_plan crc (s_pager s) c ps'"
    and old: "\<not> d \<Longrightarrow> ns' = ns \<and> es = es0 \<and> set ns \<subseteq> set (unchanged_chains (w_dirty_chains w) ch) \<and>
        chain_on crc (s_pager s) ty stride (chain_head ns) ns es0"
    and new: "d \<Longrightarrow> set (build_chain crc ty stride es ns') \<subseteq> set (c_out c) \<and> chain_pages_needed stride (length es) \<le> length ns' \<and>
        (\<forall>e \<in> set es. length e = stride)"
    and ns: "distinct ns'" and stride: "0 < stride" "0 < chain_capacity stride"
  shows "chain_on crc ps' ty stride (chain_head ns') ns' es"
proof (cases d)
  case True
  note nw = new [OF True]
  have "fst ` set (build_chain crc ty stride es ns') = set ns'"
    using build_chain_nos [OF _ stride(2), of es ns' crc ty] nw by (metis list.set_map)
  then have sub: "set ns' \<subseteq> fst ` set (c_out c)" using nw by (metis image_mono)
  have "\<forall>n \<in> set ns'. 2 \<le> unat n \<and> unat n < length ps'"
  proof
    fix n assume "n \<in> set ns'"
    with sub obtain x where "x \<in> set (c_out c)" "n = fst x" by auto
    then show "2 \<le> unat n \<and> unat n < length ps'" using pl holds by (auto simp: planned_def holds_plan_def)
  qed
  moreover have "pager_read ps' n = Inr p" if "(n, p) \<in> set (build_chain crc ty stride es ns')" for n p
    using that nw holds by (fastforce simp: holds_plan_def)
  ultimately show ?thesis using nw ns stride by (intro chain_on_build) auto
next
  case False
  note o = old [OF False]
  have "length (s_pager s) \<le> length ps'" using pl holds by (simp add: planned_def holds_plan_def)
  with o unchanged_read [OF inv pl holds] chain_on_cong [of crc "s_pager s" ty stride "chain_head ns" ns es0 ps']
  show ?thesis by auto
qed

lemma planned_store_inv:
  assumes fly: "in_flight crc s ch w g" and pl: "planned crc s ch w g c ch'" and n: "c_next_pgno c < 2 ^ 32"
    and holds: "holds_plan crc (s_pager s) c ps'"
  shows "store_inv crc ps' (committed_state s w c) ch'"
proof -
  let ?st = "s_state s" and ?d = "w_dirty_chains w" and ?m = "c_meta c"
  have inv: "store_inv crc (s_pager s) ?st ch" and dat: "txn_data ?st w" using fly by (auto simp: in_flight_def)
  have m: "?m = new_meta w (c_next_pgno c) ch'" and step: "chain_step w (c_freelist c) ch ch'"
    and out: "c_out c = w_dirty w @ chain_writes crc w (c_freelist c) ch'"
    and nd: "nodup (free_nos (c_freelist c) + mset (map unat (all_chain_pages ch')) + mset (map unat (owned g)))"
    and ok: "fl_ok (c_next_pgno c) (c_freelist c)" using pl by (auto simp: planned_def)
  have len: "length ps' = c_next_pgno c" using holds by (simp add: holds_plan_def)
  have dist: "distinct (all_chain_pages ch')" using nd by (auto simp: nodup_plus simp del: mset_map)
  then have dists: "distinct (ch_roots ch')" "distinct (ch_snaps ch')" "distinct (ch_cat ch')" "distinct (ch_free ch')"
    by (auto simp: all_chain_pages_def)
  have old: "m_root_records (s_meta ?st) = chain_head (ch_roots ch)" "m_snapshots (s_meta ?st) = chain_head (ch_snaps ch)"
    "m_catalog (s_meta ?st) = chain_head (ch_cat ch)" using inv by (auto simp: store_inv_def chain_on_def)
  have strides: "0 < ROOT_RECORD_BYTES" "0 < SNAPSHOT_ENTRY_BYTES" "0 < CATALOG_ENTRY_BYTES" "0 < FREE_ENTRY_BYTES"
    by (simp_all add: ROOT_RECORD_BYTES_def SNAPSHOT_ENTRY_BYTES_def CATALOG_ENTRY_BYTES_def FREE_ENTRY_BYTES_def)
  note after = chain_after [OF inv pl holds]
  have c1: "chain_on crc ps' PRootRecords ROOT_RECORD_BYTES (chain_head (ch_roots ch')) (ch_roots ch') (roots_encode (w_roots w))"
    by (rule after [where d = "dc_roots ?d" and ns = "ch_roots ch" and ?es0.0 = "roots_encode (s_roots ?st)"])
      (use inv dat step dists strides old encoded_lengths in
        \<open>auto simp: store_inv_def txn_data_def chain_step_def unchanged_chains_def out chain_writes_def\<close>)
  have c2: "chain_on crc ps' PSnapshots SNAPSHOT_ENTRY_BYTES (chain_head (ch_snaps ch')) (ch_snaps ch') (registry_encode (w_snapshots w))"
    by (rule after [where d = "dc_snapshots ?d" and ns = "ch_snaps ch" and ?es0.0 = "registry_encode (s_snapshots ?st)"])
      (use inv dat step dists strides old encoded_lengths in
        \<open>auto simp: store_inv_def txn_data_def chain_step_def unchanged_chains_def out chain_writes_def\<close>)
  have c3: "chain_on crc ps' PCatalog CATALOG_ENTRY_BYTES (chain_head (ch_cat ch')) (ch_cat ch') (w_catalog w)"
    by (rule after [where d = "dc_catalog ?d" and ns = "ch_cat ch" and ?es0.0 = "s_catalog ?st"])
      (use inv dat step dists strides old in
        \<open>auto simp: store_inv_def txn_data_def chain_step_def unchanged_chains_def out chain_writes_def\<close>)
  have c4: "chain_on crc ps' PFreelist FREE_ENTRY_BYTES (chain_head (ch_free ch')) (ch_free ch') (freelist_encode (c_freelist c))"
    by (rule after [where d = True and ns = "[]" and ?es0.0 = "[]"])
      (use step dists strides encoded_lengths in \<open>auto simp: chain_step_def out chain_writes_def\<close>)
  have head0: "chain_head ns \<noteq> Some 0" if "chain_on crc ps' ty stride (chain_head ns) ns es" for ty stride ns es
    using that by (cases ns) (auto simp: chain_on_def chain_head_def)
  have mok: "meta_ok ?m" using head0 [OF c1] head0 [OF c2] head0 [OF c3] head0 [OF c4] by (simp add: meta_ok_def m new_meta_def)
  have txn: "m_txn_id ?m = m_txn_id (s_meta ?st) + 1" "m_txn_id (s_meta ?st) < m_txn_id ?m"
    using dat unfolding txn_data_def by (auto simp: m new_meta_def)
  have slot: "slot_of ?m = 1 - slot_of (s_meta ?st)" by (rule slot_of_next [OF txn])
  then have oslot: "1 - slot_of ?m = slot_of (s_meta ?st)" by simp
  have "slot_of (s_meta ?st) \<notin> fst ` set (c_out c)"
    by (rule slot_not_out [OF pl])
  moreover have "slot_of (s_meta ?st) \<noteq> slot_of ?m" "unat (slot_of (s_meta ?st)) < length (s_pager s)"
    using slot meta_slot_cases [of "s_meta ?st"] inv by (auto simp: store_inv_def)
  ultimately have "pager_read ps' (slot_of (s_meta ?st)) = pager_read (s_pager s) (slot_of (s_meta ?st))"
    using holds by (simp add: holds_plan_def)
  moreover have "read_meta crc (s_pager s) (slot_of (s_meta ?st)) = Inr (s_meta ?st)" using inv by (auto simp: store_inv_def meta_at_def)
  ultimately have "read_meta crc ps' (1 - slot_of ?m) = Inr (s_meta ?st)" unfolding oslot by (simp add: read_meta_def)
  moreover have "read_meta crc ps' (slot_of ?m) = Inr ?m"
    using holds meta_roundtrip(1) [OF mok] by (simp add: read_meta_def holds_plan_def lift_page_def)
  ultimately have mat: "meta_at crc ps' ?m" using txn(2) by (simp add: meta_at_def)
  have "2 \<le> length ps'" using inv pl len by (auto simp: store_inv_def planned_def)
  moreover have "\<forall>k \<in># free_nos (c_freelist c). 2 \<le> k \<and> k \<notin> unat ` set (all_chain_pages ch')"
    using nd pl unfolding nodup_plus planned_def by auto
  moreover have "nodup (free_nos (c_freelist c))" using nd by (simp add: nodup_plus)
  moreover have "\<forall>x \<in># free_pages (c_freelist c). snd x \<le> m_txn_id ?m"
  proof
    fix x assume "x \<in># free_pages (c_freelist c)"
    then have "snd x = m_txn_id ?m \<or> x \<in># free_pages (s_freelist ?st)" using pl by (simp add: planned_def m new_meta_def)
    moreover have "x \<in># free_pages (s_freelist ?st) \<Longrightarrow> snd x \<le> m_txn_id (s_meta ?st)" using inv unfolding store_inv_def by blast
    ultimately show "snd x \<le> m_txn_id ?m" using txn(2) by auto
  qed
  moreover have "s_catalog (committed_state s w c) = w_catalog w" using dat by (auto simp: committed_state_def txn_data_def)
  ultimately show ?thesis unfolding store_inv_def using c1 c2 c3 c4 n len dist ok mok mat dat
    by (auto simp: committed_state_def m new_meta_def txn_data_def)
qed

end
