(* ===== verification/Big_Truncate.thy ===== *)
theory Big_Truncate
  imports Big_Commit
begin

text \<open>
  The operations of the store beside transactions: opening the file again (\<^verbatim>\<open>load\<close> on a file that was
  closed between two operations) and giving back the free pages at its end (\<^verbatim>\<open>truncate_tail\<close>), which
  rewrites the freelist chain in place and flips the meta page.
\<close>

section \<open>Room for the freelist\<close>

text \<open>
  What \<^verbatim>\<open>truncate_tail\<close> relies on and \<open>store_inv\<close> does not say: the list in memory has no more runs
  than the one on disk, whose chain has pages enough for it.
\<close>

definition free_room :: "(u8 list \<Rightarrow> u32) \<Rightarrow> mem_pager \<Rightarrow> store_state \<Rightarrow> chain_pages \<Rightarrow> bool" where
  "free_room crc ps st ch \<longleftrightarrow> (\<exists>fd. chain_on crc ps PFreelist FREE_ENTRY_BYTES (m_freelist (s_meta st)) (ch_free ch) (freelist_encode fd) \<and>
     free_pages fd = free_pages (s_freelist st) \<and> fl_ok (length ps) fd \<and> length (s_freelist st) \<le> length fd \<and>
     chain_pages_needed FREE_ENTRY_BYTES (length fd) \<le> length (ch_free ch))"

lemma commit_free_room:
  assumes fly: "in_flight crc s ch w g" and pl: "planned crc s ch w g c ch'" and holds: "holds_plan crc (s_pager s) c ps'"
  shows "free_room crc ps' (committed_state s w c) ch'"
proof -
  have inv: "store_inv crc (s_pager s) (s_state s) ch" using fly by (simp add: in_flight_def)
  have m: "c_meta c = new_meta w (c_next_pgno c) ch'" and step: "chain_step w (c_freelist c) ch ch'"
    and out: "c_out c = w_dirty w @ chain_writes crc w (c_freelist c) ch'" and ok: "fl_ok (c_next_pgno c) (c_freelist c)"
    and nd: "nodup (free_nos (c_freelist c) + mset (map unat (all_chain_pages ch')) + mset (map unat (owned g)))"
    using pl by (auto simp: planned_def)
  have "0 < FREE_ENTRY_BYTES" by (simp add: FREE_ENTRY_BYTES_def)
  moreover have "distinct (ch_free ch')" using nd by (auto simp: nodup_plus all_chain_pages_def simp del: mset_map)
  ultimately have "chain_on crc ps' PFreelist FREE_ENTRY_BYTES (chain_head (ch_free ch')) (ch_free ch') (freelist_encode (c_freelist c))"
    by (intro chain_after [OF inv pl holds, where d = True and ns = "[]" and ?es0.0 = "[]"])
      (use step encoded_lengths in \<open>auto simp: chain_step_def out chain_writes_def\<close>)
  moreover have "length ps' = c_next_pgno c" using holds by (simp add: holds_plan_def)
  ultimately show ?thesis using step ok
    by (auto simp: free_room_def committed_state_def m new_meta_def chain_step_def)
qed

section \<open>Opening the file again\<close>

lemma store_inv_reload:
  assumes inv: "store_inv crc ps st ch" and room: "free_room crc ps st ch" and load: "load_state crc ps = Inr st'"
  shows "state_equiv st' st" "store_inv crc ps st' ch" "free_room crc ps st' ch"
proof -
  show eq: "state_equiv st' st" using store_inv_loads [OF inv] load by auto
  obtain fd where fd: "chain_on crc ps PFreelist FREE_ENTRY_BYTES (m_freelist (s_meta st)) (ch_free ch) (freelist_encode fd)"
    "free_pages fd = free_pages (s_freelist st)" "fl_ok (length ps) fd"
    "chain_pages_needed FREE_ENTRY_BYTES (length fd) \<le> length (ch_free ch)" using room by (auto simp: free_room_def)
  have meta: "load_meta crc ps = Inr (s_meta st)" using inv by (intro load_meta_at) (simp add: store_inv_def)
  have free: "s_freelist st' = freelist_compact fd"
    using load chain_on_reads(1) [OF fd(1)] by (auto simp: load_state_def meta freelist_roundtrip split: if_splits sum.splits)
  have f: "fl_ok (length ps) (s_freelist st')" "length (s_freelist st') \<le> length fd"
    using freelist_compact_spec(2) [OF fd(3)] freelist_compact_correct [OF fd(3)] inv by (auto simp: free fd(2) store_inv_def)
  have e: "s_meta st' = s_meta st" "s_roots st' = s_roots st" "snaps (s_snapshots st') = snaps (s_snapshots st)" "s_catalog st' = s_catalog st"
    "free_pages (s_freelist st') = free_pages (s_freelist st)" using eq by (simp_all add: state_equiv_def)
  have r: "registry_encode (s_snapshots st') = registry_encode (s_snapshots st)" "registry_names (s_snapshots st') = registry_names (s_snapshots st)"
    using e(3) by (simp_all add: registry_encode_def registry_names_def)
  show "store_inv crc ps st' ch" using inv f(1) unfolding store_inv_def e r by blast
  show "free_room crc ps st' ch" unfolding free_room_def e using fd f(2) by blast
qed

section \<open>Giving back the end of the file\<close>

lemma chain_on_keep:
  assumes "chain_on crc ps ty stride head ns es" "\<forall>n \<in> set ns. unat n < length c \<and> pager_read c n = pager_read ps n"
  shows "chain_on crc c ty stride head ns es"
  using assms chained_cong [of ns "pager_read ps" "pager_read c" crc ty stride] by (fastforce simp: chain_on_def)

lemma trim_loop_length: "trim_loop f stop h = (f', stop') \<Longrightarrow> length f' \<le> length f"
proof (induction f stop h arbitrary: f' rule: trim_loop.induct)
  case (1 f stop h)
  show ?case
  proof (cases "take_tail_run f stop h")
    case (Some a)
    obtain r g where a: "a = (r, g)" by (cases a)
    have "length f' \<le> length g"
      using 1(1) [OF Some a [symmetric]] 1(2) Some a by (simp add: trim_loop.simps [of f])
    then show ?thesis using take_tail_run_length [OF Some [unfolded a]] by simp
  qed (use 1(2) in \<open>simp add: trim_loop.simps [of f]\<close>)
qed

lemma trim_tail_spec:
  assumes ok: "fl_ok N f" and nd: "nodup (free_nos f)" and t: "trim_tail f N h = (f', r)"
  shows "r \<le> N" "length f' \<le> length f" "fl_ok (N - r) f'"
    "\<exists>R. free_pages f = free_pages f' + R \<and> (\<forall>x \<in># R. snd x \<le> h) \<and> image_mset fst R = mset [N - r..<N]"
proof -
  obtain stop where l: "trim_loop f N h = (f', stop)" "r = N - stop" using t by (auto simp: trim_tail_def split: prod.splits)
  note sp = trim_loop_spec [OF l(1)]
  have stop: "N - r = stop" using sp l(2) by simp
  show "r \<le> N" using l(2) by simp
  show "length f' \<le> length f" by (rule trim_loop_length [OF l(1)])
  obtain R where R: "free_pages f = free_pages f' + R" "\<forall>x \<in># R. snd x \<le> h" "image_mset fst R = mset [stop..<N]" using sp by blast
  then show "\<exists>R. free_pages f = free_pages f' + R \<and> (\<forall>x \<in># R. snd x \<le> h) \<and> image_mset fst R = mset [N - r..<N]" unfolding stop by blast
  have disj: "n \<notin># mset [stop..<N]" if "n \<in># free_nos f'" for n
    using nd that unfolding R(1) image_mset_union R(3) nodup_plus by blast
  have "unat (run_first x) + unat (run_len x) \<le> stop" if "x \<in> set f'" for x
  proof -
    have x: "0 < run_len x" "unat (run_first x) + unat (run_len x) \<le> N" using ok sp that by (auto simp: fl_ok_def)
    let ?l = "unat (run_first x) + unat (run_len x) - 1"
    have len: "0 < unat (run_len x)" using x(1) by (simp add: word_less_nat_alt)
    then have "?l \<in># image_mset fst (run_pages x)" unfolding run_nos by simp
    then have "?l \<in># free_nos f'" using that by (force simp: free_pages_def)
    from disj [OF this] have "\<not> (stop \<le> ?l \<and> ?l < N)" by simp
    then show ?thesis using x(2) len by linarith
  qed
  then show "fl_ok (N - r) f'" using ok sp unfolding stop fl_ok_def by (auto simp: subset_iff)
qed

text \<open>What is left of the file: every page below the new end but the freelist chain and the meta pages.\<close>

lemma truncate_writes:
  assumes ch: "distinct ns" "\<forall>n \<in> set ns. 2 \<le> unat n \<and> unat n < k" and k: "2 \<le> k" "k \<le> length ps"
    and room: "chain_pages_needed stride (length es) \<le> length ns" "0 < chain_capacity stride"
  obtains ps1 ps2 where "write_all pager_write ps (build_chain crc ty stride es ns) = Inr ps1"
    "pager_write ps1 (slot_of m) (meta_encode crc m) = Inr ps2" "length (pager_truncate ps2 k) = k"
    "\<And>n p. (n, p) \<in> set (build_chain crc ty stride es ns) \<Longrightarrow> pager_read (pager_truncate ps2 k) n = Inr p"
    "pager_read (pager_truncate ps2 k) (slot_of m) = Inr (meta_encode crc m)"
    "\<And>n. unat n < k \<Longrightarrow> n \<notin> set ns \<Longrightarrow> n \<noteq> slot_of m \<Longrightarrow> pager_read (pager_truncate ps2 k) n = pager_read ps n"
proof -
  have nos: "map fst (build_chain crc ty stride es ns) = ns" using room by (rule build_chain_nos)
  have slot: "unat (slot_of m) < 2" by (rule slot_less)
  have in_ns: "fst x \<in> set ns" if "x \<in> set (build_chain crc ty stride es ns)" for x using that nos by (metis image_eqI list.set_map)
  then have "\<forall>x \<in> set (build_chain crc ty stride es ns). unat (fst x) < length ps" using ch(2) k(2) by fastforce
  from write_all_ok [OF this] obtain ps1 where ps1: "write_all pager_write ps (build_chain crc ty stride es ns) = Inr ps1" "length ps1 = length ps" by blast
  then obtain ps2 where ps2: "pager_write ps1 (slot_of m) (meta_encode crc m) = Inr ps2" "length ps2 = length ps"
    using slot k by (auto simp: pager_write_def)
  have len: "length (pager_truncate ps2 k) = k" using ps2(2) k(2) by (simp add: pager_truncate_def)
  have cut: "pager_read (pager_truncate ps2 k) n = pager_read ps2 n" if "unat n < k" for n
    using that ps2(2) k(2) by (auto simp: pager_read_def pager_truncate_def)
  have "pager_read (pager_truncate ps2 k) n = Inr p" if np: "(n, p) \<in> set (build_chain crc ty stride es ns)" for n p
  proof -
    have n: "2 \<le> unat n" "unat n < k" using in_ns [OF np] ch(2) by auto
    then have "n \<noteq> slot_of m" using slot by auto
    then show ?thesis using cut [OF n(2)] mem.rd_wr_all_same [OF ps1(1) _ np] mem.rd_wr_other [OF ps2(1)] nos ch(1) by simp
  qed
  moreover have "pager_read (pager_truncate ps2 k) (slot_of m) = Inr (meta_encode crc m)"
    using cut [of "slot_of m"] slot k mem.rd_wr_same [OF ps2(1)] by simp
  moreover have "pager_read (pager_truncate ps2 k) n = pager_read ps n" if "unat n < k" "n \<notin> set ns" "n \<noteq> slot_of m" for n
  proof -
    have "n \<notin> fst ` set (build_chain crc ty stride es ns)" using that(2) in_ns by blast
    then show ?thesis using cut [OF that(1)] that(3) mem.rd_wr_all_other [OF ps1(1)] mem.rd_wr_other [OF ps2(1)] by simp
  qed
  ultimately show thesis using that ps1(1) ps2(1) len by blast
qed

text \<open>The state \<^verbatim>\<open>truncate_tail\<close> publishes when it gives back \<open>r\<close> pages.\<close>

definition truncated_state :: "store_state \<Rightarrow> freelist \<Rightarrow> nat \<Rightarrow> store_state" where
  "truncated_state st f r = st\<lparr>s_meta := (s_meta st)\<lparr>m_txn_id := m_txn_id (s_meta st) + 1,
     m_page_count := of_nat (unat (m_page_count (s_meta st)) - r)\<rparr>, s_freelist := f\<rparr>"

text \<open>
  On a file without readers, \<^verbatim>\<open>truncate_tail\<close> succeeds. When it gives pages back, they were free and
  reusable, the file ends before them, and the other pages are as they were.
\<close>

definition truncated :: "(u8 list \<Rightarrow> u32) \<Rightarrow> store \<Rightarrow> chain_pages \<Rightarrow> nat \<Rightarrow> store \<Rightarrow> bool" where
  "truncated crc s ch r s' \<longleftrightarrow> (\<exists>ps' f R. s' = s\<lparr>s_pager := ps', s_state := truncated_state (s_state s) f r\<rparr> \<and>
     length ps' + r = length (s_pager s) \<and> free_pages (s_freelist (s_state s)) = free_pages f + R \<and>
     (\<forall>x \<in># R. snd x \<le> reclaim_horizon [] (s_snapshots (s_state s)) (s_meta (s_state s))) \<and> image_mset fst R = mset [length ps'..<length (s_pager s)] \<and>
     (\<forall>p. 2 \<le> unat p \<longrightarrow> unat p < length ps' \<longrightarrow> p \<notin> set (ch_free ch) \<longrightarrow> pager_read ps' p = pager_read (s_pager s) p) \<and>
     store_inv crc ps' (s_state s') ch \<and> free_room crc ps' (s_state s') ch \<and> unat (m_page_count (s_meta (s_state s'))) = length ps')"

lemma truncate_tail_ok:
  assumes inv: "store_inv crc (s_pager s) (s_state s) ch" and room: "free_room crc (s_pager s) (s_state s) ch"
    and count: "unat (m_page_count (s_meta (s_state s))) = length (s_pager s)" and readers: "s_readers s = []"
    and txn: "unat (m_txn_id (s_meta (s_state s))) + 1 < 2 ^ 64"
  shows "\<exists>r s'. truncate_tail crc s = Inr (r, s') \<and> (if r = 0 then s' = s else truncated crc s ch r s')"
proof -
  let ?st = "s_state s" and ?m = "s_meta (s_state s)" and ?ps = "s_pager s"
  let ?h = "reclaim_horizon [] (s_snapshots ?st) ?m"
  have h: "min (case oldest_txn_id (s_snapshots ?st) of Some t \<Rightarrow> t | None \<Rightarrow> m_txn_id ?m) (m_txn_id ?m) = ?h"
    by (auto simp: reclaim_horizon_def oldest_reader_def Let_def min_def split: option.split)
  obtain f r where tr: "trim_tail (s_freelist ?st) (length ?ps) ?h = (f, r)" by (cases "trim_tail (s_freelist ?st) (length ?ps) ?h")
  have i: "fl_ok (length ?ps) (s_freelist ?st)" "nodup (free_nos (s_freelist ?st))" "2 \<le> length ?ps" "length ?ps < 2 ^ 32"
    "\<forall>n \<in># free_nos (s_freelist ?st). 2 \<le> n \<and> n \<notin> unat ` set (all_chain_pages ch)" "distinct (all_chain_pages ch)"
    "\<forall>x \<in># free_pages (s_freelist ?st). snd x \<le> m_txn_id ?m" "meta_ok ?m" "meta_at crc ?ps ?m"
    using inv by (simp_all add: store_inv_def)
  note tt = trim_tail_spec [OF i(1,2) tr]
  show ?thesis
  proof (cases "r = 0")
    case True
    then have "truncate_tail crc s = Inr (0, s)" using tr h count readers by (simp add: truncate_tail_def Let_def)
    then show ?thesis by auto
  next
    case False
    let ?k = "length ?ps - r"
    let ?m' = "?m\<lparr>m_txn_id := m_txn_id ?m + 1, m_page_count := of_nat ?k\<rparr>"
    obtain R where R: "free_pages (s_freelist ?st) = free_pages f + R" "\<forall>x \<in># R. snd x \<le> ?h" "image_mset fst R = mset [?k..<length ?ps]"
      using tt(4) by blast
    have cut: "n \<in># free_nos (s_freelist ?st)" if "?k \<le> n" "n < length ?ps" for n
      using that R(3) unfolding R(1) by simp
    have k2: "2 \<le> ?k"
    proof (rule ccontr)
      assume "\<not> 2 \<le> ?k"
      then have "1 \<in># free_nos (s_freelist ?st)" using i(3) by (intro cut) auto
      then show False using i(5) by auto
    qed
    have kept: "2 \<le> unat p \<and> unat p < ?k" if "p \<in> set (all_chain_pages ch)" for p
      using chain_page_bounds [OF inv that] cut [of "unat p"] i(5) that by (meson image_eqI not_le)
    obtain fd where fd: "chain_on crc ?ps PFreelist FREE_ENTRY_BYTES (m_freelist ?m) (ch_free ch) (freelist_encode fd)"
      "length (s_freelist ?st) \<le> length fd" "chain_pages_needed FREE_ENTRY_BYTES (length fd) \<le> length (ch_free ch)"
      using room by (auto simp: free_room_def)
    have "chain_pages_needed FREE_ENTRY_BYTES (length f) \<le> length (ch_free ch)"
      using chain_pages_needed_mono [of "length f" "length fd" FREE_ENTRY_BYTES] tt(2) fd(2,3) by linarith
    then have need: "chain_pages_needed FREE_ENTRY_BYTES (length (freelist_encode f)) \<le> length (ch_free ch)" by simp
    have chf: "distinct (ch_free ch)" "\<forall>n \<in> set (ch_free ch). 2 \<le> unat n \<and> unat n < ?k"
      using i(6) kept by (auto simp: all_chain_pages_def)
    obtain ps1 ps2 where w: "write_all pager_write ?ps (build_chain crc PFreelist FREE_ENTRY_BYTES (freelist_encode f) (ch_free ch)) = Inr ps1"
      "pager_write ps1 (slot_of ?m') (meta_encode crc ?m') = Inr ps2" "length (pager_truncate ps2 ?k) = ?k"
      "\<And>n p. (n, p) \<in> set (build_chain crc PFreelist FREE_ENTRY_BYTES (freelist_encode f) (ch_free ch)) \<Longrightarrow> pager_read (pager_truncate ps2 ?k) n = Inr p"
      "pager_read (pager_truncate ps2 ?k) (slot_of ?m') = Inr (meta_encode crc ?m')"
      "\<And>n. unat n < ?k \<Longrightarrow> n \<notin> set (ch_free ch) \<Longrightarrow> n \<noteq> slot_of ?m' \<Longrightarrow> pager_read (pager_truncate ps2 ?k) n = pager_read ?ps n"
      using truncate_writes [OF chf k2 _ need capacities(4), of ?ps crc PFreelist ?m'] by auto
    let ?q = "pager_truncate ps2 ?k" and ?s = "s\<lparr>s_pager := pager_truncate ps2 ?k, s_state := truncated_state ?st f r\<rparr>"
    have st': "truncated_state ?st f r = ?st\<lparr>s_meta := ?m', s_freelist := f\<rparr>" by (simp add: truncated_state_def count)
    have run: "truncate_tail crc s = Inr (r, ?s)"
      using tr h count readers False chain_on_reads(2) [OF fd(1)] w(1,2)
      by (simp add: truncate_tail_def Let_def slot_of_def st')
    have same: "pager_read ?q p = pager_read ?ps p" if "2 \<le> unat p" "unat p < ?k" "p \<notin> set (ch_free ch)" for p
    proof (rule w(6) [OF that(2,3)])
      show "p \<noteq> slot_of ?m'" using that(1) slot_less [of ?m'] by (metis not_le)
    qed
    have keep: "chain_on crc ?q ty stride head ns es" if "chain_on crc ?ps ty stride head ns es"
      "set ns \<subseteq> set (all_chain_pages ch)" "set ns \<inter> set (ch_free ch) = {}" for ty stride head ns es
      using that(2,3) kept w(3) same by (intro chain_on_keep [OF that(1)]) auto
    have cs: "chain_on crc ?q PRootRecords ROOT_RECORD_BYTES (m_root_records ?m) (ch_roots ch) (roots_encode (s_roots ?st))"
      "chain_on crc ?q PSnapshots SNAPSHOT_ENTRY_BYTES (m_snapshots ?m) (ch_snaps ch) (registry_encode (s_snapshots ?st))"
      "chain_on crc ?q PCatalog CATALOG_ENTRY_BYTES (m_catalog ?m) (ch_cat ch) (s_catalog ?st)"
      using inv i(6) by (auto simp: store_inv_def all_chain_pages_def intro!: keep)
    have head: "m_freelist ?m = chain_head (ch_free ch)" using fd(1) by (simp add: chain_on_def)
    have cf: "chain_on crc ?q PFreelist FREE_ENTRY_BYTES (m_freelist ?m) (ch_free ch) (freelist_encode f)"
      unfolding head using need chf w(3,4) encoded_lengths(3) [of _ f]
      by (intro chain_on_build) (simp_all add: FREE_ENTRY_BYTES_def capacities(4) [unfolded FREE_ENTRY_BYTES_def])
    have lt: "m_txn_id ?m < m_txn_id ?m + 1" using txn by (simp add: word_less_nat_alt unat_word_ariths)
    have slot: "slot_of ?m' = 1 - slot_of ?m" by (rule slot_of_next) (use lt in simp_all)
    have os: "slot_of ?m \<noteq> slot_of ?m'" "1 - slot_of ?m' = slot_of ?m" using slot meta_slot_cases [of ?m] by auto
    have "slot_of ?m \<notin> set (ch_free ch)" "unat (slot_of ?m) < ?k" using chf(2) slot_less [of ?m] k2 by auto
    then have "pager_read ?q (slot_of ?m) = pager_read ?ps (slot_of ?m)" using w(6) [of "slot_of ?m"] os(1) by simp
    then have "read_meta crc ?q (1 - slot_of ?m') = Inr ?m" using i(9) unfolding os(2) by (simp add: read_meta_def meta_at_def)
    moreover have mok: "meta_ok ?m'" using i(8) by (simp add: meta_ok_def)
    moreover have "read_meta crc ?q (slot_of ?m') = Inr ?m'" using w(5) meta_roundtrip(1) [OF mok] by (simp add: read_meta_def lift_page_def)
    ultimately have mat: "meta_at crc ?q ?m'" using lt by (simp add: meta_at_def)
    have "\<forall>n \<in># free_nos f. 2 \<le> n \<and> n \<notin> unat ` set (all_chain_pages ch)" using i(5) unfolding R(1) by simp
    moreover have "nodup (free_nos f)" using i(2) unfolding R(1) image_mset_union nodup_plus by blast
    moreover have "\<forall>x \<in># free_pages f. snd x \<le> m_txn_id ?m + 1"
    proof
      fix x assume "x \<in># free_pages f"
      then have "snd x \<le> m_txn_id ?m" using i(7) unfolding R(1) by simp
      then show "snd x \<le> m_txn_id ?m + 1" using lt by simp
    qed
    ultimately have inv': "store_inv crc ?q (truncated_state ?st f r) ch"
      unfolding store_inv_def st' using cs cf k2 w(3) i(4,6) tt(3) mok mat inv
      by (auto simp: store_inv_def)
    have "free_room crc ?q (truncated_state ?st f r) ch"
      unfolding free_room_def st' using cf tt(3) w(3) need by auto
    moreover have "unat (of_nat ?k :: u64) = ?k" using i(4) by (simp add: unat_of_nat)
    ultimately have "truncated crc s ch r ?s"
      unfolding truncated_def using inv' R w(3) same tt(1) st' by (intro exI [of _ ?q] exI [of _ f] exI [of _ R]) auto
    then show ?thesis using run False by auto
  qed
qed

end
