(* ===== verification/Big_Isolation.thy ===== *)
theory Big_Isolation
  imports Big_Truncate
begin

text \<open>
  The store as its callers see it: \<^verbatim>\<open>init\<close>, readers and snapshots, \<^verbatim>\<open>begin_write\<close> and any sequence of
  calls on the transaction, \<^verbatim>\<open>commit\<close>, \<^verbatim>\<open>set_durability\<close>, \<^verbatim>\<open>truncate_tail\<close>, and closing the file and
  loading it again. Every transaction ends in a file that loads as what was committed, and no page that
  a reader or a snapshot can see changes under it.
\<close>

section \<open>A transaction in flight\<close>

lemma txn_step_frame:
  assumes "txn_step ps cap K f0 x y"
  shows "w_tail_floor (fst y) = w_tail_floor (fst x)" "w_horizon (fst y) = w_horizon (fst x)" "w_base (fst y) = w_base (fst x)"
    "w_txn_id (fst y) = w_txn_id (fst x)"
  using assms
  by (induction rule: txn_step.induct)
    (auto simp: txn_alloc_def txn_alloc_tail_def txn_write_def txn_free_def txn_cow_def txn_set_root_def txn_remove_root_def
      txn_create_snapshot_def txn_drop_snapshot_def txn_expire_snapshots_def txn_set_catalog_def Let_def
      split: if_splits option.splits sum.splits prod.splits)

text \<open>The calls that only move pages leave the metadata alone.\<close>

definition same_data :: "write_txn \<Rightarrow> write_txn \<Rightarrow> bool" where
  "same_data w w' \<longleftrightarrow> w_base w' = w_base w \<and> w_txn_id w' = w_txn_id w \<and> w_dirty_chains w' = w_dirty_chains w \<and>
     w_roots w' = w_roots w \<and> w_snapshots w' = w_snapshots w \<and> w_catalog w' = w_catalog w"

lemma same_data_ops:
  "txn_alloc_tail cap w = Inr (p, w') \<Longrightarrow> same_data w w'"
  "txn_alloc cap w = Inr (p, w') \<Longrightarrow> same_data w w'"
  "txn_write w p c = Inr w' \<Longrightarrow> same_data w w'"
  "same_data w (txn_free p w)"
  "txn_cow ps cap p w = Inr (q, w') \<Longrightarrow> same_data w w'"
  by (auto simp: same_data_def txn_alloc_def txn_alloc_tail_def txn_write_def txn_free_def txn_cow_def Let_def
      split: if_splits option.splits sum.splits prod.splits)

lemma same_data_txn_data: "same_data w w' \<Longrightarrow> txn_data st w \<Longrightarrow> txn_data st w'"
  by (simp add: same_data_def txn_data_def)

lemma registry_names_ops:
  "registry_names r \<Longrightarrow> registry_names (snd (registry_create r t root e nm pin))"
  "registry_names r \<Longrightarrow> registry_names (snd (registry_remove r i))"
  "registry_names r \<Longrightarrow> registry_names (snd (registry_expire r now))"
  using remove_snap_set [of i "snaps r"]
  by (auto simp: registry_names_def registry_create_def registry_remove_def registry_expire_def Let_def split: prod.splits)

lemma txn_step_data:
  assumes "txn_step ps cap K f0 x y" "txn_data st (fst x)"
  shows "txn_data st (fst y)"
  using assms
proof (induction rule: txn_step.induct)
  case (step_set_root w g k r)
  then show ?case by (simp add: txn_data_def txn_set_root_def roots_set_def)
next
  case (step_remove_root w g k)
  then show ?case by (simp add: txn_data_def txn_remove_root_def roots_remove_def)
next
  case (step_create_snapshot w g e nm pin)
  then show ?case
    using registry_names_ops(1) [of "w_snapshots w" "m_txn_id (w_base w)" "case m_root_records (w_base w) of None \<Rightarrow> 0 | Some r \<Rightarrow> r" e nm pin]
    by (auto simp: txn_data_def txn_create_snapshot_def Let_def split: prod.splits)
next
  case (step_drop_snapshot w g i)
  then show ?case using registry_names_ops(2) [of "w_snapshots w" i]
    by (auto simp: txn_data_def txn_drop_snapshot_def split: prod.splits)
next
  case (step_expire_snapshots w g now)
  then show ?case using registry_names_ops(3) [of "w_snapshots w" now]
    by (auto simp: txn_data_def txn_expire_snapshots_def split: prod.splits)
next
  case (step_set_catalog es w g)
  then show ?case by (auto simp: txn_data_def txn_set_catalog_def)
qed (auto dest: same_data_ops(1,2,3,5) same_data_txn_data intro: same_data_txn_data [OF same_data_ops(4)])

lemma in_flight_step:
  assumes "in_flight crc s ch w g" "txn_step (s_pager s) (s_capacity s) (kept_pages ch) (s_freelist (s_state s)) (w, g) (w', g')"
  shows "in_flight crc s ch w' g'"
  using assms txn_step_inv [OF assms(2)] txn_step_data [OF assms(2), of "s_state s"] txn_step_frame(1) [OF assms(2)]
  by (simp add: in_flight_def)

lemma begin_write_in_flight:
  assumes "store_inv crc (s_pager s) (s_state s) ch" "unat (m_txn_id (s_meta (s_state s))) + 1 < 2 ^ 64"
  shows "in_flight crc s ch (begin_write s) ghost0"
proof -
  let ?st = "s_state s"
  have lt: "m_txn_id (s_meta ?st) < m_txn_id (s_meta ?st) + 1"
    using assms(2) by (simp add: word_less_nat_alt unat_word_ariths)
  have "txn_inv (kept_pages ch) (s_freelist ?st) (begin_write s, ghost0)"
    unfolding begin_write_def Let_def using assms
    by (intro txn_new_inv reclaim_horizon_le) (auto simp: store_inv_def pager_page_count_def)
  moreover have "txn_data ?st (begin_write s)" using assms(1) lt
    by (auto simp: txn_data_def begin_write_def Let_def txn_new_def store_inv_def)
  ultimately show ?thesis using assms(1)
    by (simp add: in_flight_def begin_write_def Let_def txn_new_def pager_page_count_def)
qed

text \<open>A transaction that is open on \<open>s\<close>: any number of calls after \<^verbatim>\<open>begin_write\<close>.\<close>

definition open_txn :: "store \<Rightarrow> chain_pages \<Rightarrow> write_txn \<Rightarrow> txn_ghost \<Rightarrow> bool" where
  "open_txn s ch w g \<longleftrightarrow>
     (txn_step (s_pager s) (s_capacity s) (kept_pages ch) (s_freelist (s_state s)))\<^sup>*\<^sup>* (begin_write s, ghost0) (w, g)"

lemma open_txn_in_flight:
  assumes "store_inv crc (s_pager s) (s_state s) ch" "unat (m_txn_id (s_meta (s_state s))) + 1 < 2 ^ 64" "open_txn s ch w g"
  shows "in_flight crc s ch w g"
proof -
  have "in_flight crc s ch (fst x) (snd x)" if
    "(txn_step (s_pager s) (s_capacity s) (kept_pages ch) (s_freelist (s_state s)))\<^sup>*\<^sup>* (begin_write s, ghost0) x" for x
    using that
  proof (induction rule: rtranclp_induct)
    case base
    show ?case using begin_write_in_flight [OF assms(1,2)] by simp
  next
    case (step y z)
    then show ?case using in_flight_step [of crc s ch "fst y" "snd y" "fst z" "snd z"] by simp
  qed
  from this [of "(w, g)"] assms(3) show ?thesis by (simp add: open_txn_def)
qed

section \<open>Commit\<close>

text \<open>Without a ceiling on the file, planning never fails: every chain is there and every page can be had.\<close>

lemma place_chain_total:
  assumes "chain_on crc ps ty stride head ns es"
  shows "\<exists>pl f' n'. place_chain ps None h t d head ty stride len f n = Inr (pl, f', n')"
proof -
  obtain x where "alloc_pages (chain_pages_needed stride len) (foldl (\<lambda>f p. freelist_push f p t) f ns) h n None = Inr x"
    using alloc_pages_total by blast
  then show ?thesis by (cases x) (simp add: place_chain_def recycle_chain_on [OF assms])
qed

lemma plan_commit_total:
  assumes inv: "store_inv crc (s_pager s) st ch" and base: "w_base w = s_meta st" and cap: "s_capacity s = None"
  shows "\<exists>c. plan_commit crc s w = Inr c"
proof -
  obtain fd where on: "chain_on crc (s_pager s) PRootRecords ROOT_RECORD_BYTES (m_root_records (s_meta st)) (ch_roots ch) (roots_encode (s_roots st))"
     "chain_on crc (s_pager s) PSnapshots SNAPSHOT_ENTRY_BYTES (m_snapshots (s_meta st)) (ch_snaps ch) (registry_encode (s_snapshots st))"
     "chain_on crc (s_pager s) PCatalog CATALOG_ENTRY_BYTES (m_catalog (s_meta st)) (ch_cat ch) (s_catalog st)"
     "chain_on crc (s_pager s) PFreelist FREE_ENTRY_BYTES (m_freelist (s_meta st)) (ch_free ch) (freelist_encode fd)"
    using inv by (auto simp: store_inv_def)
  let ?h = "reclaim_horizon (s_readers s) (w_snapshots w) (s_meta st)" and ?t = "w_txn_id w" and ?d = "w_dirty_chains w"
  obtain p1 f1 n1 where 1: "place_chain (s_pager s) None ?h ?t (dc_roots ?d) (m_root_records (s_meta st)) PRootRecords ROOT_RECORD_BYTES
     (length (w_roots w)) (w_freelist w) (w_next_pgno w) = Inr (p1, f1, n1)" using place_chain_total [OF on(1)] by meson
  obtain p2 f2 n2 where 2: "place_chain (s_pager s) None ?h ?t (dc_snapshots ?d) (m_snapshots (s_meta st)) PSnapshots SNAPSHOT_ENTRY_BYTES
     (length (snaps (w_snapshots w))) f1 n1 = Inr (p2, f2, n2)" using place_chain_total [OF on(2)] by meson
  obtain p3 f3 n3 where 3: "place_chain (s_pager s) None ?h ?t (dc_catalog ?d) (m_catalog (s_meta st)) PCatalog CATALOG_ENTRY_BYTES
     (length (w_catalog w)) f2 n2 = Inr (p3, f3, n3)" using place_chain_total [OF on(3)] by meson
  obtain x where "alloc_freelist_pages (foldl (\<lambda>f p. freelist_push f p ?t) f3 (ch_free ch)) ?h n3 None = Inr x"
    using freelist_pages_total [OF refl] unfolding alloc_freelist_pages_def by blast
  with 1 2 3 show ?thesis by (cases x) (simp add: plan_commit_def base cap recycle_chain_on [OF on(4)])
qed

lemma commit_txn_absorb_state:
  "committed_state s (txn_absorb w) c = committed_state s w c"
  by (simp add: committed_state_def txn_absorb_frame)

lemma commit_spec:
  assumes fly: "in_flight crc s ch w g" and plan: "plan_commit crc s (txn_absorb w) = Inr c" and n: "c_next_pgno c < 2 ^ 32"
  shows "\<exists>ps' ch'. txn_commit crc s w = Inr (w_txn_id w, s\<lparr>s_pager := ps', s_state := committed_state s w c\<rparr>) \<and>
           store_inv crc ps' (committed_state s w c) ch' \<and> planned crc s ch w g c ch' \<and> holds_plan crc (s_pager s) c ps'"
proof -
  obtain ch' where pl: "planned crc s ch w g c ch'" using commit_planned [OF fly plan n] by blast
  have len: "2 \<le> length (s_pager s)" using fly by (simp add: in_flight_def store_inv_def)
  obtain ps' where ps': "write_and_flip crc (s_durability s) (s_pager s) (c_out c) (c_next_pgno c) (c_meta c) = Inr ps'"
    and holds: "holds_plan crc (s_pager s) c ps'"
    using write_and_flip_ok [OF _ len, of "c_next_pgno c" "c_out c" crc "s_durability s" "c_meta c"] pl
    unfolding planned_def holds_plan_def by blast
  have "txn_commit crc s w = Inr (w_txn_id w, s\<lparr>s_pager := ps', s_state := committed_state s w c\<rparr>)"
    using ps' plan by (simp add: txn_commit_def commit_txn_def txn_absorb_frame committed_state_def)
  with planned_store_inv [OF fly pl n holds] pl holds show ?thesis by blast
qed

section \<open>Registered readers\<close>

text \<open>The refcounts stand for the multiset of the transactions that live readers are at.\<close>

definition readers_of :: "txn_id multiset \<Rightarrow> (txn_id, u32) btree_map \<Rightarrow> bool" where
  "readers_of M r \<longleftrightarrow> bt_inv r \<and>
     (\<forall>t. count M t < 2 ^ 32 \<and> bt_get r t = (if count M t = 0 then None else Some (of_nat (count M t))))"

lemma register_reader_spec:
  assumes "readers_of M r" "count M t + 1 < 2 ^ 32"
  shows "readers_of (add_mset t M) (register_reader t r)"
  using assms by (auto simp: readers_of_def register_reader_def bt_get_insert count_eq_zero_iff)
    (simp add: not_in_iff)

lemma release_reader_spec:
  assumes "readers_of M r" "t \<in># M"
  shows "readers_of (M - {#t#}) (release_reader t r)"
proof -
  obtain k where k: "count M t = Suc k" using assms(2) by (metis count_greater_zero_iff gr0_implies_Suc)
  have lt: "Suc k < 2 ^ 32" and get: "bt_get r t = Some (of_nat (Suc k))" and inv: "bt_inv r"
    using assms(1) k unfolding readers_of_def by (metis, metis nat.simps(3), blast)
  have z: "(of_nat k :: u32) = 0 \<longleftrightarrow> k = 0" using lt by (simp add: word_unat_eq_iff unat_of_nat)
  have rel: "release_reader t r = (if k = 0 then bt_remove t r else bt_insert t (of_nat k) r)"
    using get z by (simp add: release_reader_def)
  have "count (M - {#t#}) u < 2 ^ 32" for u
    using assms(1) unfolding readers_of_def by (metis count_diff diff_le_self le_less_trans)
  with assms(1) k rel inv show ?thesis
    by (cases "k = 0") (auto simp: readers_of_def bt_get_insert bt_get_remove count_eq_zero_iff)
qed

lemma oldest_reader_le:
  assumes "bt_inv r" "t \<in> fst ` set r"
  shows "\<exists>u. oldest_reader r = Some u \<and> u \<le> t"
  using assms by (cases r) (force simp: oldest_reader_def intro: less_imp_le)+

lemma reclaim_horizon_reader: "bt_inv r \<Longrightarrow> t \<in> fst ` set r \<Longrightarrow> reclaim_horizon r sn m \<le> t"
  using oldest_reader_le [of r t] by (auto simp: reclaim_horizon_def Let_def min_le_iff_disj)

lemma reclaim_horizon_snapshot: "x \<in> set (snaps sn) \<Longrightarrow> reclaim_horizon r sn m \<le> snap_txn_id x"
  using oldest_txn_id_le [of x sn] by (auto simp: reclaim_horizon_def Let_def min_le_iff_disj oldest_txn_id_def)

section \<open>The store over time\<close>

text \<open>
  What a version of the store looked like when it was committed: the pages of its trees, the chain of
  its root records, and the bytes of all of them.
\<close>

record version =
  v_tree :: "pgno set"
  v_chain :: "pgno list"
  v_roots :: root_records
  v_page :: "pgno \<Rightarrow> store_error + page"

definition visible :: "version \<Rightarrow> pgno set" where
  "visible v = v_tree v \<union> set (v_chain v)"

record sys =
  y_store :: store
  y_chains :: chain_pages
  y_hist :: "txn_id \<Rightarrow> version"
  y_txn :: "(write_txn \<times> txn_ghost) option"

abbreviation cur_txn :: "sys \<Rightarrow> txn_id" where
  "cur_txn y \<equiv> m_txn_id (s_meta (s_state (y_store y)))"

text \<open>The versions somebody may still read: the current one, those of live readers and of snapshots.\<close>

definition active :: "sys \<Rightarrow> txn_id \<Rightarrow> bool" where
  "active y t \<longleftrightarrow> t = cur_txn y \<or> t \<in> fst ` set (s_readers (y_store y)) \<or>
     t \<in> snap_txn_id ` set (snaps (s_snapshots (s_state (y_store y))))"

definition next_version :: "sys \<Rightarrow> txn_ghost \<Rightarrow> write_txn \<Rightarrow> chain_pages \<Rightarrow> mem_pager \<Rightarrow> version" where
  "next_version y g w ch ps =
     \<lparr>v_tree = v_tree (y_hist y (cur_txn y)) - set (released g) \<union> set (owned g), v_chain = ch_roots ch,
      v_roots = w_roots w, v_page = pager_read ps\<rparr>"

inductive sys_step :: "(u8 list \<Rightarrow> u32) \<Rightarrow> sys \<Rightarrow> sys \<Rightarrow> bool" for crc :: "u8 list \<Rightarrow> u32" where
  sys_begin_read: "begin_read (y_store y) = (r, s') \<Longrightarrow> sys_step crc y (y\<lparr>y_store := s'\<rparr>)"
| sys_begin_read_at: "begin_read_at crc i (y_store y) = Inr (r, s') \<Longrightarrow> sys_step crc y (y\<lparr>y_store := s'\<rparr>)"
| sys_end_read: "sys_step crc y (y\<lparr>y_store := end_read r (y_store y)\<rparr>)"
| sys_begin_write: "y_txn y = None \<Longrightarrow> unat (cur_txn y) + 1 < 2 ^ 64 \<Longrightarrow>
    sys_step crc y (y\<lparr>y_txn := Some (begin_write (y_store y), ghost0)\<rparr>)"
| sys_txn: "y_txn y = Some (w, g) \<Longrightarrow>
    txn_step (s_pager (y_store y)) (s_capacity (y_store y)) (kept_pages (y_chains y)) (s_freelist (s_state (y_store y))) (w, g) (w', g') \<Longrightarrow>
    sys_step crc y (y\<lparr>y_txn := Some (w', g')\<rparr>)"
| sys_rollback: "sys_step crc y (y\<lparr>y_txn := None\<rparr>)"
| sys_commit: "y_txn y = Some (w, g) \<Longrightarrow> plan_commit crc (y_store y) (txn_absorb w) = Inr c \<Longrightarrow> c_next_pgno c < 2 ^ 32 \<Longrightarrow>
    txn_commit crc (y_store y) w = Inr (t, s') \<Longrightarrow> planned crc (y_store y) (y_chains y) w g c ch' \<Longrightarrow>
    sys_step crc y (y\<lparr>y_store := s', y_chains := ch', y_hist := (y_hist y)(t := next_version y g w ch' (s_pager s')), y_txn := None\<rparr>)"
| sys_commit_error: "y_txn y = Some (w, g) \<Longrightarrow> plan_commit crc (y_store y) (txn_absorb w) = Inl e \<Longrightarrow>
    sys_step crc y (y\<lparr>y_txn := None\<rparr>)"
| sys_set_durability: "y_txn y = None \<Longrightarrow> sys_step crc y (y\<lparr>y_store := snd (set_durability d (y_store y))\<rparr>)"
| sys_truncate: "y_txn y = None \<Longrightarrow> unat (cur_txn y) + 1 < 2 ^ 64 \<Longrightarrow> truncate_tail crc (y_store y) = Inr (n, s') \<Longrightarrow>
    sys_step crc y (y\<lparr>y_store := s', y_hist := (y_hist y)(m_txn_id (s_meta (s_state s')) := y_hist y (cur_txn y))\<rparr>)"
| sys_reopen: "store_load crc (s_capacity (y_store y)) (s_pager (y_store y)) = Inr s' \<Longrightarrow>
    sys_step crc y (y\<lparr>y_store := s', y_txn := None\<rparr>)"

definition root_field :: "version \<Rightarrow> pgno" where
  "root_field v = (case chain_head (v_chain v) of Some r \<Rightarrow> r | None \<Rightarrow> 0)"

definition snaps_ok :: "(txn_id \<Rightarrow> version) \<Rightarrow> snapshot list \<Rightarrow> bool" where
  "snaps_ok hist ss \<longleftrightarrow> (\<forall>x \<in> set ss. snap_root_records x = root_field (hist (snap_txn_id x)))"

text \<open>A free page is not visible in any version since it was freed.\<close>

definition free_unseen :: "freelist \<Rightarrow> (txn_id \<Rightarrow> version) \<Rightarrow> txn_id \<Rightarrow> bool" where
  "free_unseen f hist cur \<longleftrightarrow> (\<forall>n t. (n, t) \<in># free_pages f \<longrightarrow> (\<forall>v p. t \<le> v \<longrightarrow> v \<le> cur \<longrightarrow> p \<in> visible (hist v) \<longrightarrow> unat p \<noteq> n))"

definition intact :: "(u8 list \<Rightarrow> u32) \<Rightarrow> mem_pager \<Rightarrow> version \<Rightarrow> bool" where
  "intact crc ps v \<longleftrightarrow> (\<forall>p \<in> visible v. 2 \<le> unat p \<and> unat p < length ps \<and> pager_read ps p = v_page v p) \<and>
     bt_inv (v_roots v) \<and>
     chain_on crc ps PRootRecords ROOT_RECORD_BYTES (chain_head (v_chain v)) (v_chain v) (roots_encode (v_roots v))"

definition sys_inv :: "(u8 list \<Rightarrow> u32) \<Rightarrow> sys \<Rightarrow> bool" where
  "sys_inv crc y \<longleftrightarrow>
     store_inv crc (s_pager (y_store y)) (s_state (y_store y)) (y_chains y) \<and> bt_inv (s_readers (y_store y)) \<and>
     (\<forall>t. active y t \<longrightarrow> t \<le> cur_txn y \<and> intact crc (s_pager (y_store y)) (y_hist y t)) \<and>
     free_unseen (s_freelist (s_state (y_store y))) (y_hist y) (cur_txn y) \<and>
     v_tree (y_hist y (cur_txn y)) \<inter> kept_pages (y_chains y) = {} \<and>
     v_chain (y_hist y (cur_txn y)) = ch_roots (y_chains y) \<and> v_roots (y_hist y (cur_txn y)) = s_roots (s_state (y_store y)) \<and>
     snaps_ok (y_hist y) (snaps (s_snapshots (s_state (y_store y)))) \<and>
     free_room crc (s_pager (y_store y)) (s_state (y_store y)) (y_chains y) \<and>
     unat (m_page_count (s_meta (s_state (y_store y)))) = length (s_pager (y_store y)) \<and>
     (\<forall>t. active y t \<longrightarrow> visible (y_hist y t) \<inter> set (ch_free (y_chains y)) = {}) \<and>
     (\<forall>w g. y_txn y = Some (w, g) \<longrightarrow> in_flight crc (y_store y) (y_chains y) w g \<and> (\<forall>t. active y t \<longrightarrow> w_horizon w \<le> t) \<and>
        snaps_ok (y_hist y) (snaps (w_snapshots w)) \<and>
        snap_txn_id ` set (snaps (w_snapshots w)) \<subseteq> insert (cur_txn y) (snap_txn_id ` set (snaps (s_snapshots (s_state (y_store y))))))"

subsection \<open>Readers come and go\<close>

lemma in_flight_readers: "in_flight crc (s\<lparr>s_readers := r\<rparr>) ch w g = in_flight crc s ch w g"
  by (simp add: in_flight_def)

lemma readers_step_inv:
  assumes inv: "sys_inv crc y" and r: "bt_inv r" "fst ` set r \<subseteq> insert v (fst ` set (s_readers (y_store y)))" "active y v"
  shows "sys_inv crc (y\<lparr>y_store := (y_store y)\<lparr>s_readers := r\<rparr>\<rparr>)"
proof -
  have act: "active (y\<lparr>y_store := (y_store y)\<lparr>s_readers := r\<rparr>\<rparr>) t \<Longrightarrow> active y t" for t
    using r(2,3) by (auto simp: active_def)
  show ?thesis using inv r(1) act by (simp add: sys_inv_def in_flight_readers)
qed

lemma release_keys: "fst ` set (release_reader t r) \<subseteq> fst ` set r"
proof (cases "bt_get r t")
  case (Some n)
  then have "t \<in> fst ` set r" by (metis bt_get_def map_of_eq_None_iff option.simps(3))
  then show ?thesis using Some set_bt_remove [of t r] set_bt_insert [of t "n - 1" r]
    by (auto simp: release_reader_def) (metis (no_types) fst_conv image_eqI insertE subsetD)+
qed (simp add: release_reader_def)

lemma register_keys: "fst ` set (register_reader t r) \<subseteq> insert t (fst ` set r)"
  using set_bt_insert [of t "(case bt_get r t of Some n \<Rightarrow> n | None \<Rightarrow> 0) + 1" r] by (force simp: register_reader_def)

lemma release_inv: "bt_inv r \<Longrightarrow> bt_inv (release_reader t r)"
  by (auto simp: release_reader_def split: option.splits)

subsection \<open>Inside a transaction\<close>

lemma txn_step_snaps:
  assumes "txn_step ps cap K f0 x y"
  shows "set (snaps (w_snapshots (fst y))) \<subseteq> set (snaps (w_snapshots (fst x))) \<union>
    {s. snap_txn_id s = m_txn_id (w_base (fst x)) \<and>
        snap_root_records s = (case m_root_records (w_base (fst x)) of Some r \<Rightarrow> r | None \<Rightarrow> 0)}"
  using assms
proof (induction rule: txn_step.induct)
  case (step_drop_snapshot w g i)
  then show ?case using remove_snap_set [of i "snaps (w_snapshots w)"]
    by (auto simp: txn_drop_snapshot_def registry_remove_def split: prod.splits)
next
  case (step_create_snapshot w g e nm pin)
  then show ?case by (auto simp: txn_create_snapshot_def registry_create_def Let_def)
next
  case (step_expire_snapshots w g now)
  then show ?case by (auto simp: txn_expire_snapshots_def registry_expire_def)
qed (auto simp: txn_set_root_def txn_remove_root_def txn_set_catalog_def same_data_def same_data_ops(4) [unfolded same_data_def]
    split: prod.splits dest!: same_data_ops(1,2,3,5))

lemma txn_step_sys_inv:
  assumes inv: "sys_inv crc y" and txn: "y_txn y = Some (w, g)"
    and step: "txn_step (s_pager (y_store y)) (s_capacity (y_store y)) (kept_pages (y_chains y)) (s_freelist (s_state (y_store y))) (w, g) (w', g')"
  shows "sys_inv crc (y\<lparr>y_txn := Some (w', g')\<rparr>)"
proof -
  have i: "in_flight crc (y_store y) (y_chains y) w g" "snaps_ok (y_hist y) (snaps (w_snapshots w))"
    "\<forall>t. active y t \<longrightarrow> w_horizon w \<le> t"
    "snap_txn_id ` set (snaps (w_snapshots w)) \<subseteq> insert (cur_txn y) (snap_txn_id ` set (snaps (s_snapshots (s_state (y_store y)))))"
    using inv txn by (auto simp: sys_inv_def)
  have base: "w_base w = s_meta (s_state (y_store y))" using i(1) by (simp add: in_flight_def txn_data_def)
  have "m_root_records (s_meta (s_state (y_store y))) = chain_head (v_chain (y_hist y (cur_txn y)))"
    using inv by (auto simp: sys_inv_def store_inv_def chain_on_def)
  then have root: "(case m_root_records (w_base w) of Some r \<Rightarrow> r | None \<Rightarrow> 0) = root_field (y_hist y (cur_txn y))"
    by (simp add: base root_field_def)
  note sub = txn_step_snaps [OF step, unfolded fst_conv root, unfolded base]
  have "snaps_ok (y_hist y) (snaps (w_snapshots w'))" using sub i(2) by (fastforce simp: snaps_ok_def)
  moreover have "snap_txn_id ` set (snaps (w_snapshots w')) \<subseteq>
      insert (cur_txn y) (snap_txn_id ` set (snaps (s_snapshots (s_state (y_store y)))))"
    using sub i(4) by fastforce
  moreover have "w_horizon w' = w_horizon w" using txn_step_frame(2) [OF step] by simp
  moreover have "active (y\<lparr>y_txn := Some (w', g')\<rparr>) t = active y t" for t by (simp add: active_def)
  ultimately show ?thesis using inv in_flight_step [OF i(1) step] i(3) by (simp add: sys_inv_def)
qed

lemma begin_write_sys_inv:
  assumes inv: "sys_inv crc y" and "unat (cur_txn y) + 1 < 2 ^ 64"
  shows "sys_inv crc (y\<lparr>y_txn := Some (begin_write (y_store y), ghost0)\<rparr>)"
proof -
  let ?s = "y_store y"
  have i: "store_inv crc (s_pager ?s) (s_state ?s) (y_chains y)" "bt_inv (s_readers ?s)" using inv by (auto simp: sys_inv_def)
  have w: "w_horizon (begin_write ?s) = reclaim_horizon (s_readers ?s) (s_snapshots (s_state ?s)) (s_meta (s_state ?s))"
    "w_snapshots (begin_write ?s) = s_snapshots (s_state ?s)" by (simp_all add: begin_write_def Let_def txn_new_def)
  have "active y t \<Longrightarrow> w_horizon (begin_write ?s) \<le> t" for t
    unfolding w active_def using reclaim_horizon_le reclaim_horizon_reader [OF i(2)] reclaim_horizon_snapshot by blast
  moreover have "active (y\<lparr>y_txn := Some (begin_write ?s, ghost0)\<rparr>) t = active y t" for t by (simp add: active_def)
  ultimately show ?thesis using inv begin_write_in_flight [OF i(1) assms(2)] w(2) by (auto simp: sys_inv_def)
qed

subsection \<open>Commit\<close>

text \<open>The pages of a version somebody can still read are not among those a commit writes.\<close>

lemma visible_not_out:
  assumes pl: "planned crc s ch w g c ch'" and unseen: "free_unseen (s_freelist (s_state s)) hist cur"
    and int: "intact crc (s_pager s) (hist v)" and v: "w_horizon w \<le> v" "commit_horizon s w \<le> v" "v \<le> cur"
    and p: "p \<in> visible (hist v)"
  shows "p \<notin> fst ` set (c_out c)" and "p \<noteq> slot_of m"
proof -
  have b: "2 \<le> unat p" "unat p < length (s_pager s)" using int p by (auto simp: intact_def)
  show "p \<noteq> slot_of m" using b slot_less [of m] by auto
  show "p \<notin> fst ` set (c_out c)"
  proof
    assume "p \<in> fst ` set (c_out c)"
    from planned_out [OF pl this] b obtain t where t: "t \<le> max (w_horizon w) (commit_horizon s w)"
      "(unat p, t) \<in># free_pages (s_freelist (s_state s))" by (auto simp: fresh_at_def)
    then have "t \<le> v" using v max.boundedI order_trans by blast
    with t(2) unseen v(3) p show False by (auto simp: free_unseen_def)
  qed
qed

lemma planned_free_out:
  assumes "planned crc s ch w g c ch'"
  shows "set (ch_free ch') \<subseteq> fst ` set (c_out c)"
proof -
  have step: "chain_step w (c_freelist c) ch ch'" and out: "c_out c = w_dirty w @ chain_writes crc w (c_freelist c) ch'"
    using assms by (auto simp: planned_def)
  have "set (changed_chains (w_dirty_chains w) ch') \<subseteq> fst ` set (c_out c)"
    unfolding chain_writes_nos [OF step, of crc, symmetric] out by auto
  then show ?thesis by (auto simp: changed_chains_def)
qed

lemma intact_commit:
  assumes pl: "planned crc s ch w g c ch'" and unseen: "free_unseen (s_freelist (s_state s)) hist cur"
    and int: "intact crc (s_pager s) (hist v)" and v: "w_horizon w \<le> v" "commit_horizon s w \<le> v" "v \<le> cur"
    and holds: "holds_plan crc (s_pager s) c ps'"
  shows "intact crc ps' (hist v)"
proof -
  have same: "pager_read ps' p = pager_read (s_pager s) p" if "p \<in> visible (hist v)" for p
    using visible_not_out [OF pl unseen int v that] holds int that by (auto simp: holds_plan_def intact_def)
  have len: "length (s_pager s) \<le> length ps'" using pl holds by (simp add: planned_def holds_plan_def)
  have "chain_on crc ps' PRootRecords ROOT_RECORD_BYTES (chain_head (v_chain (hist v))) (v_chain (hist v)) (roots_encode (v_roots (hist v)))"
  proof (rule chain_on_cong [OF _ len])
    show "\<forall>n \<in> set (v_chain (hist v)). pager_read ps' n = pager_read (s_pager s) n" using same by (simp add: visible_def)
  qed (use int in \<open>simp add: intact_def\<close>)
  moreover have "\<forall>p \<in> visible (hist v). 2 \<le> unat p \<and> unat p < length ps' \<and> pager_read ps' p = v_page (hist v) p"
    using int len same unfolding intact_def by (metis less_le_trans)
  ultimately show ?thesis using int by (simp add: intact_def)
qed

lemma planned_balance_cases:
  assumes fly: "in_flight crc s ch w g" and pl: "planned crc s ch w g c ch'"
    and n: "n \<in># free_nos (c_freelist c) + mset (map unat (changed_chains (w_dirty_chains w) ch')) + mset (map unat (owned g))"
  shows "n \<in># free_nos (s_freelist (s_state s)) \<or> length (s_pager s) \<le> n \<and> n < c_next_pgno c \<or>
         (\<exists>p \<in> set (released g). n = unat p) \<or> (\<exists>p \<in> set (all_chain_pages ch). n = unat p)"
proof -
  have "n \<in># free_nos (s_freelist (s_state s)) + mset [length (s_pager s)..<c_next_pgno c] + mset (map unat (released g)) +
      mset (map unat (changed_chains (w_dirty_chains w) ch))"
    using pl n unfolding planned_def commit_balance_def by metis
  then show ?thesis using set_chains [of ch "w_dirty_chains w"] by auto
qed

lemma owned_bounds:
  assumes fly: "in_flight crc s ch w g" and pl: "planned crc s ch w g c ch'" and p: "p \<in> set (owned g)"
  shows "2 \<le> unat p" "unat p < c_next_pgno c"
proof -
  have i: "store_inv crc (s_pager s) (s_state s) ch" "txn_inv (kept_pages ch) (s_freelist (s_state s)) (w, g)"
    "w_tail_floor w = length (s_pager s)" using fly by (auto simp: in_flight_def)
  have "fresh_at (s_freelist (s_state s)) (length (s_pager s)) (w_horizon w) (unat p)"
    using i(2,3) p by (auto simp: txn_inv_def fresh_page_def fresh_at_def)
  then show "2 \<le> unat p" by (rule fresh_at_ge2 [OF i(1)])
  have le: "length (s_pager s) \<le> c_next_pgno c" using pl by (simp add: planned_def)
  from planned_balance_cases [OF fly pl, of "unat p"] p
  consider "unat p \<in># free_nos (s_freelist (s_state s))" | "unat p < c_next_pgno c"
    | q where "q \<in> set (released g)" "unat p = unat q" | q where "q \<in> set (all_chain_pages ch)" "unat p = unat q" by auto
  then show "unat p < c_next_pgno c"
  proof cases
    case 1
    have "fl_ok (length (s_pager s)) (s_freelist (s_state s))" using i(1) by (simp add: store_inv_def)
    from free_pages_bound [OF this 1] le show ?thesis by simp
  next
    case 3
    then show ?thesis using i(2,3) le by (auto simp: txn_inv_def live_page_def)
  next
    case 4
    then show ?thesis using chain_page_bounds [OF i(1), of q] le by simp
  qed
qed

lemma free_unseen_commit:
  assumes fly: "in_flight crc s ch w g" and pl: "planned crc s ch w g c ch'"
    and unseen: "free_unseen (s_freelist (s_state s)) hist cur" and cur: "cur = m_txn_id (s_meta (s_state s))" "cur < w_txn_id w"
    and succ: "\<And>v. v \<le> w_txn_id w \<Longrightarrow> v \<le> cur \<or> v = w_txn_id w"
    and int: "intact crc (s_pager s) (hist cur)" and tree: "v_tree (hist cur) \<inter> kept_pages ch = {}"
    and ver: "v_tree new = v_tree (hist cur) - set (released g) \<union> set (owned g)" "v_chain new = ch_roots ch'"
  shows "free_unseen (c_freelist c) (hist(w_txn_id w := new)) (w_txn_id w)"
  unfolding free_unseen_def
proof (intro allI impI notI)
  fix n t v p
  assume x: "(n, t) \<in># free_pages (c_freelist c)" and v: "t \<le> v" "v \<le> w_txn_id w"
    and p: "p \<in> visible ((hist(w_txn_id w := new)) v)" and n: "unat p = n"
  have fn: "n \<in># free_nos (c_freelist c)" using x by force
  have orig: "t = w_txn_id w \<or> (n, t) \<in># free_pages (s_freelist (s_state s))" using x pl by (fastforce simp: planned_def)
  have nd: "nodup (free_nos (c_freelist c) + mset (map unat (all_chain_pages ch')) + mset (map unat (owned g)))"
    using pl by (simp add: planned_def)
  have st: "store_inv crc (s_pager s) (s_state s) ch" using fly by (simp add: in_flight_def)
  show False
  proof (cases "v = w_txn_id w")
    case False
    then have "v \<le> cur" using succ v(2) by blast
    then have "t \<noteq> w_txn_id w" using v(1) cur(2) by auto
    with orig have "(n, t) \<in># free_pages (s_freelist (s_state s))" by simp
    then show False using unseen v(1) \<open>v \<le> cur\<close> p n False by (auto simp: free_unseen_def)
  next
    case True
    then have "p \<in> v_tree (hist cur) - set (released g) \<or> p \<in> set (owned g) \<or> p \<in> set (ch_roots ch')"
      using p ver by (auto simp: visible_def)
    moreover have "p \<notin> set (owned g)" "p \<notin> set (ch_roots ch')"
      using nd fn n unfolding nodup_plus by (auto simp: all_chain_pages_def)
    ultimately have pt: "p \<in> v_tree (hist cur)" "p \<notin> set (released g)" by auto
    have "n < length (s_pager s)" using int pt n by (auto simp: intact_def visible_def)
    moreover have "p \<notin> set (all_chain_pages ch)" using tree pt(1) by (auto simp: kept_pages_def)
    ultimately have "n \<in># free_nos (s_freelist (s_state s))"
      using planned_balance_cases [OF fly pl, of n] fn pt(2) n by (auto simp: word_unat_eq_iff [symmetric])
    then obtain u where u: "(n, u) \<in># free_pages (s_freelist (s_state s))" by auto
    have "\<forall>x \<in># free_pages (s_freelist (s_state s)). snd x \<le> cur" using st cur(1) unfolding store_inv_def by blast
    then have "u \<le> cur" using u by auto
    moreover have "p \<in> visible (hist cur)" using pt(1) by (simp add: visible_def)
    ultimately show False using unseen u n unfolding free_unseen_def by blast
  qed
qed

lemma tree_kept_commit:
  assumes fly: "in_flight crc s ch w g" and pl: "planned crc s ch w g c ch'"
    and unseen: "free_unseen (s_freelist (s_state s)) hist cur"
    and int: "intact crc (s_pager s) (hist cur)" and tree: "v_tree (hist cur) \<inter> kept_pages ch = {}"
    and v: "w_horizon w \<le> cur" "commit_horizon s w \<le> cur"
  shows "(v_tree (hist cur) - set (released g) \<union> set (owned g)) \<inter> kept_pages ch' = {}"
proof -
  have step: "chain_step w (c_freelist c) ch ch'" and out: "c_out c = w_dirty w @ chain_writes crc w (c_freelist c) ch'"
    and nd: "nodup (free_nos (c_freelist c) + mset (map unat (all_chain_pages ch')) + mset (map unat (owned g)))"
    using pl by (auto simp: planned_def)
  have "p \<notin> kept_pages ch'" if p: "p \<in> set (owned g)" for p
  proof -
    have "p \<noteq> 0" "p \<noteq> 1" using owned_bounds(1) [OF fly pl p] by auto
    moreover have "p \<notin> set (all_chain_pages ch')" using nd p unfolding nodup_plus by auto
    ultimately show ?thesis by (simp add: kept_pages_def)
  qed
  moreover have "p \<notin> kept_pages ch'" if p: "p \<in> v_tree (hist cur)" for p
  proof -
    have vis: "p \<in> visible (hist cur)" using p by (simp add: visible_def)
    then have "2 \<le> unat p" using int by (simp add: intact_def)
    then have "p \<noteq> 0" "p \<noteq> 1" by auto
    moreover have "set (changed_chains (w_dirty_chains w) ch') \<subseteq> fst ` set (c_out c)"
      unfolding chain_writes_nos [OF step, of crc, symmetric] out by auto
    then have "p \<notin> set (changed_chains (w_dirty_chains w) ch')" using visible_not_out(1) [OF pl unseen int v order.refl vis] by blast
    moreover have "p \<notin> set (unchanged_chains (w_dirty_chains w) ch')"
      unfolding unchanged_chains_step [OF step] using tree p set_chains [of ch "w_dirty_chains w"] by (auto simp: kept_pages_def)
    ultimately show ?thesis using set_chains [of ch' "w_dirty_chains w"] by (simp add: kept_pages_def)
  qed
  ultimately show ?thesis by blast
qed

lemma commit_sys_inv:
  assumes inv: "sys_inv crc y" and txn: "y_txn y = Some (w, g)"
    and plan: "plan_commit crc (y_store y) (txn_absorb w) = Inr c" and n: "c_next_pgno c < 2 ^ 32"
    and com: "txn_commit crc (y_store y) w = Inr (t, s')" and pl: "planned crc (y_store y) (y_chains y) w g c ch'"
  shows "sys_inv crc (y\<lparr>y_store := s', y_chains := ch', y_hist := (y_hist y)(t := next_version y g w ch' (s_pager s')), y_txn := None\<rparr>)"
proof -
  let ?s = "y_store y" and ?st = "s_state (y_store y)" and ?cur = "cur_txn y" and ?t = "w_txn_id w" and ?h = "y_hist y"
  have fly: "in_flight crc ?s (y_chains y) w g" and hor: "\<forall>v. active y v \<longrightarrow> w_horizon w \<le> v"
    and sok: "snaps_ok ?h (snaps (w_snapshots w))"
    and sub: "snap_txn_id ` set (snaps (w_snapshots w)) \<subseteq> insert ?cur (snap_txn_id ` set (snaps (s_snapshots ?st)))"
    using inv txn by (auto simp: sys_inv_def)
  have rd: "bt_inv (s_readers ?s)" and act: "\<forall>v. active y v \<longrightarrow> v \<le> ?cur \<and> intact crc (s_pager ?s) (?h v)"
    and unseen: "free_unseen (s_freelist ?st) ?h ?cur" and tree: "v_tree (?h ?cur) \<inter> kept_pages (y_chains y) = {}"
    using inv by (auto simp: sys_inv_def)
  have acur: "active y ?cur" by (simp add: active_def)
  have tt: "?t = ?cur + 1" "?cur < ?t" using fly by (auto simp: in_flight_def txn_data_def)
  have succ: "v \<le> ?cur \<or> v = ?t" if "v \<le> ?t" for v
    using that tt by (metis inc_le leD leI order_le_imp_less_or_eq)
  obtain ps' where s': "s' = ?s\<lparr>s_pager := ps', s_state := committed_state ?s w c\<rparr>" "t = ?t" and holds: "holds_plan crc (s_pager ?s) c ps'"
    using commit_spec [OF fly plan n] com by auto
  note st' = planned_store_inv [OF fly pl n holds]
  have meta: "s_meta (committed_state ?s w c) = c_meta c" "m_txn_id (c_meta c) = ?t" "m_root_records (c_meta c) = chain_head (ch_roots ch')"
    using pl by (simp_all add: committed_state_def planned_def new_meta_def)
  let ?y = "y\<lparr>y_store := s', y_chains := ch', y_hist := ?h(t := next_version y g w ch' (s_pager s')), y_txn := None\<rparr>"
  let ?new = "next_version y g w ch' ps'"
  have H: "commit_horizon ?s w \<le> ?cur" by (rule reclaim_horizon_le)
  have new_int: "intact crc ps' ?new"
  proof -
    have "2 \<le> unat p \<and> unat p < length ps'" if vis: "p \<in> visible ?new" for p
    proof -
      consider "p \<in> v_tree (?h ?cur)" | "p \<in> set (owned g)" | "p \<in> set (ch_roots ch')"
        using vis by (auto simp: visible_def next_version_def)
      then show ?thesis
      proof cases
        case 1
        have "intact crc (s_pager ?s) (?h ?cur)" using act acur by blast
        with 1 have "2 \<le> unat p" "unat p < length (s_pager ?s)" by (auto simp: intact_def visible_def)
        moreover have "length (s_pager ?s) \<le> length ps'" using pl holds by (simp add: planned_def holds_plan_def)
        ultimately show ?thesis by simp
      next
        case 2
        then show ?thesis using owned_bounds [OF fly pl] holds by (simp add: holds_plan_def)
      next
        case 3
        then show ?thesis using chain_page_bounds [OF st', of p] by (simp add: all_chain_pages_def)
      qed
    qed
    then show ?thesis using st' meta by (auto simp: intact_def next_version_def store_inv_def committed_state_def)
  qed
  have old_int: "v \<le> ?cur \<and> intact crc ps' (?h v)" if "active y v" "commit_horizon ?s w \<le> v" for v
    using intact_commit [OF pl unseen _ _ that(2) _ holds] act hor that(1) by blast
  have cases: "v = ?t \<or> active y v \<and> commit_horizon ?s w \<le> v" if av: "active ?y v" for v
  proof -
    consider "v = ?t" | "v \<in> fst ` set (s_readers ?s)" | x where "x \<in> set (snaps (w_snapshots w))" "v = snap_txn_id x"
      using av by (auto simp: active_def s' committed_state_def meta)
    then show ?thesis
    proof cases
      case 2
      then show ?thesis using reclaim_horizon_reader [OF rd 2] by (simp add: active_def)
    next
      case 3
      then have "active y v" using sub by (auto simp: active_def)
      then show ?thesis using reclaim_horizon_snapshot [OF 3(1)] 3(2) by simp
    qed simp
  qed
  have cur_int: "intact crc (s_pager ?s) (?h ?cur)" using act acur by blast
  have "free_unseen (c_freelist c) (?h(?t := ?new)) ?t"
    by (rule free_unseen_commit [OF fly pl unseen refl tt(2) succ cur_int tree]) (simp_all add: next_version_def)
  moreover have "v_tree ?new \<inter> kept_pages ch' = {}"
    using tree_kept_commit [OF fly pl unseen cur_int tree _ H] acur hor by (simp add: next_version_def)
  moreover have "snaps_ok (?h(?t := ?new)) (snaps (w_snapshots w))"
  proof -
    have "snap_txn_id x \<noteq> ?t" if "x \<in> set (snaps (w_snapshots w))" for x
    proof -
      have "active y (snap_txn_id x)" using sub that by (auto simp: active_def)
      then show ?thesis using act tt(2) by fastforce
    qed
    then show ?thesis using sok by (simp add: snaps_ok_def)
  qed
  moreover have "v \<le> ?t \<and> intact crc ps' ((?h(?t := ?new)) v)" if "active ?y v" for v
    using cases [OF that] old_int [of v] new_int tt(2) by auto
  moreover have "visible ((?h(?t := ?new)) v) \<inter> set (ch_free ch') = {}" if "active ?y v" for v
  proof (cases "v = ?t")
    case True
    have "set (ch_roots ch') \<inter> set (ch_free ch') = {}" using st' by (auto simp: store_inv_def all_chain_pages_def)
    then show ?thesis using True \<open>v_tree ?new \<inter> kept_pages ch' = {}\<close>
      by (auto simp: visible_def kept_pages_def all_chain_pages_def next_version_def)
  next
    case False
    then have v: "active y v" "commit_horizon ?s w \<le> v" using cases [OF that] by auto
    have "set (ch_free ch') \<subseteq> fst ` set (c_out c)" by (rule planned_free_out [OF pl])
    moreover have "p \<notin> fst ` set (c_out c)" if "p \<in> visible (?h v)" for p
      by (rule visible_not_out(1) [OF pl unseen _ _ v(2) _ that]) (use act hor v(1) in blast)+
    ultimately show ?thesis using False by auto
  qed
  moreover have "free_room crc ps' (committed_state ?s w c) ch'" by (rule commit_free_room [OF fly pl holds])
  moreover have "unat (m_page_count (c_meta c)) = length ps'"
    using pl holds n by (simp add: planned_def new_meta_def holds_plan_def unat_of_nat)
  moreover have "v_chain ?new = ch_roots ch'" "v_roots ?new = s_roots (committed_state ?s w c)"
    by (simp_all add: next_version_def committed_state_def)
  ultimately show ?thesis using st' rd unfolding sys_inv_def
    by (simp add: s' meta) (simp add: committed_state_def)
qed

subsection \<open>Between transactions\<close>

lemma set_durability_inv:
  assumes "sys_inv crc y" "y_txn y = None"
  shows "sys_inv crc (y\<lparr>y_store := snd (set_durability d (y_store y))\<rparr>)"
  using assms by (simp add: sys_inv_def set_durability_def active_def)

lemma reopen_sys_inv:
  assumes inv: "sys_inv crc y" and load: "store_load crc (s_capacity (y_store y)) (s_pager (y_store y)) = Inr s'"
  shows "sys_inv crc (y\<lparr>y_store := s', y_txn := None\<rparr>)"
proof -
  obtain st' where st': "load_state crc (s_pager (y_store y)) = Inr st'"
    "s' = \<lparr>s_pager = s_pager (y_store y), s_capacity = s_capacity (y_store y), s_state = st', s_readers = [], s_durability = Full\<rparr>"
    using load by (auto simp: store_load_def split: sum.splits)
  have i: "store_inv crc (s_pager (y_store y)) (s_state (y_store y)) (y_chains y)"
    "free_room crc (s_pager (y_store y)) (s_state (y_store y)) (y_chains y)" using inv by (simp_all add: sys_inv_def)
  note r = store_inv_reload [OF i st'(1)]
  have e: "s_meta st' = s_meta (s_state (y_store y))" "s_roots st' = s_roots (s_state (y_store y))"
    "snaps (s_snapshots st') = snaps (s_snapshots (s_state (y_store y)))" "free_pages (s_freelist st') = free_pages (s_freelist (s_state (y_store y)))"
    using r(1) by (simp_all add: state_equiv_def)
  have act: "active (y\<lparr>y_store := s', y_txn := None\<rparr>) t \<Longrightarrow> active y t" for t by (auto simp: active_def st'(2) e)
  show ?thesis using inv r(2,3) act unfolding sys_inv_def free_unseen_def by (simp add: st'(2) e)
qed

lemma truncate_sys_inv:
  assumes inv: "sys_inv crc y" and txn: "y_txn y = None" and lt: "unat (cur_txn y) + 1 < 2 ^ 64"
    and tr: "truncate_tail crc (y_store y) = Inr (n, s')"
  shows "sys_inv crc (y\<lparr>y_store := s', y_hist := (y_hist y)(m_txn_id (s_meta (s_state s')) := y_hist y (cur_txn y))\<rparr>)"
proof -
  let ?s = "y_store y" and ?st = "s_state (y_store y)" and ?cur = "cur_txn y" and ?h = "y_hist y"
  have i: "store_inv crc (s_pager ?s) ?st (y_chains y)" "free_room crc (s_pager ?s) ?st (y_chains y)"
    "unat (m_page_count (s_meta ?st)) = length (s_pager ?s)" and act: "\<forall>v. active y v \<longrightarrow> v \<le> ?cur \<and> intact crc (s_pager ?s) (?h v)"
    and unseen: "free_unseen (s_freelist ?st) ?h ?cur" and clear: "\<forall>v. active y v \<longrightarrow> visible (?h v) \<inter> set (ch_free (y_chains y)) = {}"
    and sok: "snaps_ok ?h (snaps (s_snapshots ?st))"
    using inv by (auto simp: sys_inv_def)
  have rd: "s_readers ?s = []" using tr by (auto simp: truncate_tail_def split: if_splits)
  have acur: "active y ?cur" by (simp add: active_def)
  obtain r s1 where r: "truncate_tail crc ?s = Inr (r, s1)" "if r = 0 then s1 = ?s else truncated crc ?s (y_chains y) r s1"
    using truncate_tail_ok [OF i rd lt] by blast
  have eq: "s1 = s'" "r = n" using r(1) tr by simp_all
  show ?thesis
  proof (cases "n = 0")
    case True
    then have "y\<lparr>y_store := s', y_hist := ?h(m_txn_id (s_meta (s_state s')) := ?h ?cur)\<rparr> = y" using r(2) eq by simp
    then show ?thesis using inv by simp
  next
    case False
    then obtain ps' f R where t: "s' = ?s\<lparr>s_pager := ps', s_state := truncated_state ?st f n\<rparr>" "length ps' + n = length (s_pager ?s)"
      "free_pages (s_freelist ?st) = free_pages f + R" "\<forall>x \<in># R. snd x \<le> reclaim_horizon [] (s_snapshots ?st) (s_meta ?st)"
      "image_mset fst R = mset [length ps'..<length (s_pager ?s)]"
      "\<forall>p. 2 \<le> unat p \<longrightarrow> unat p < length ps' \<longrightarrow> p \<notin> set (ch_free (y_chains y)) \<longrightarrow> pager_read ps' p = pager_read (s_pager ?s) p"
      "store_inv crc ps' (truncated_state ?st f n) (y_chains y)" "free_room crc ps' (truncated_state ?st f n) (y_chains y)"
      "unat (m_page_count (s_meta (truncated_state ?st f n))) = length ps'"
      using r(2) eq unfolding truncated_def by auto
    let ?t = "?cur + 1" and ?y = "y\<lparr>y_store := s', y_hist := ?h(m_txn_id (s_meta (s_state s')) := ?h ?cur)\<rparr>"
    have f: "m_txn_id (s_meta (truncated_state ?st f n)) = ?t" "s_freelist (truncated_state ?st f n) = f"
      "s_roots (truncated_state ?st f n) = s_roots ?st" "s_snapshots (truncated_state ?st f n) = s_snapshots ?st"
      by (simp_all add: truncated_state_def)
    have less: "?cur < ?t" using lt by (simp add: word_less_nat_alt unat_word_ariths)
    have succ: "v \<le> ?cur \<or> v = ?t" if "v \<le> ?t" for v using that less by (metis inc_le leD leI order_le_imp_less_or_eq)
    have horizon: "reclaim_horizon [] (s_snapshots ?st) (s_meta ?st) \<le> v" if "active y v" for v
      using that rd reclaim_horizon_le reclaim_horizon_snapshot by (auto simp: active_def)
    have int: "intact crc ps' (?h v)" if v: "active y v" for v
    proof -
      have old: "intact crc (s_pager ?s) (?h v)" "v \<le> ?cur" using act v by blast+
      have p: "2 \<le> unat p" "unat p < length ps'" "pager_read ps' p = pager_read (s_pager ?s) p" if vis: "p \<in> visible (?h v)" for p
      proof -
        show p2: "2 \<le> unat p" using old(1) vis by (simp add: intact_def)
        show pl: "unat p < length ps'"
        proof (rule ccontr)
          assume "\<not> unat p < length ps'"
          moreover have "unat p < length (s_pager ?s)" using old(1) vis by (simp add: intact_def)
          ultimately have "unat p \<in># image_mset fst R" unfolding t(5) by simp
          then obtain u where u: "(unat p, u) \<in># R" by auto
          then have "u \<le> v" using t(4) horizon [OF v] by fastforce
          moreover have "(unat p, u) \<in># free_pages (s_freelist ?st)" using u t(3) by simp
          ultimately show False using unseen old(2) vis unfolding free_unseen_def by blast
        qed
        have "p \<notin> set (ch_free (y_chains y))" using clear v vis by blast
        then show "pager_read ps' p = pager_read (s_pager ?s) p" using t(6) p2 pl by blast
      qed
      have "chain_on crc ps' PRootRecords ROOT_RECORD_BYTES (chain_head (v_chain (?h v))) (v_chain (?h v)) (roots_encode (v_roots (?h v)))"
        by (rule chain_on_keep [of _ "s_pager ?s"]) (use old(1) p in \<open>auto simp: intact_def visible_def\<close>)
      then show ?thesis using old(1) p by (simp add: intact_def)
    qed
    have cases: "v = ?t \<or> active y v" if "active ?y v" for v using that rd by (auto simp: active_def t(1) f)
    have "v \<le> ?t \<and> intact crc ps' ((?h(?t := ?h ?cur)) v) \<and> visible ((?h(?t := ?h ?cur)) v) \<inter> set (ch_free (y_chains y)) = {}" if "active ?y v" for v
      using cases [OF that] int [of v] int [OF acur] act clear acur less by (cases "v = ?t") auto
    moreover have "free_unseen f (?h(?t := ?h ?cur)) ?t"
      unfolding free_unseen_def
    proof (intro allI impI)
      fix m u v p
      assume x: "(m, u) \<in># free_pages f" "u \<le> v" "v \<le> ?t" "p \<in> visible ((?h(?t := ?h ?cur)) v)"
      have x1: "(m, u) \<in># free_pages (s_freelist ?st)" using x(1) t(3) by simp
      have "\<forall>x \<in># free_pages (s_freelist ?st). snd x \<le> ?cur" using i(1) unfolding store_inv_def by blast
      then have "u \<le> ?cur" using x1 by fastforce
      then show "unat p \<noteq> m" using unseen x1 x(2,4) succ [OF x(3)] unfolding free_unseen_def by (cases "v = ?t") auto
    qed
    moreover have "snaps_ok (?h(?t := ?h ?cur)) (snaps (s_snapshots ?st))"
    proof -
      have "snap_txn_id x \<noteq> ?t" if "x \<in> set (snaps (s_snapshots ?st))" for x
      proof -
        have "active y (snap_txn_id x)" using that by (simp add: active_def)
        then have "snap_txn_id x \<le> ?cur" using act by blast
        then show ?thesis using less by auto
      qed
      then show ?thesis using sok by (simp add: snaps_ok_def)
    qed
    ultimately show ?thesis using inv t(7,8,9) txn rd unfolding sys_inv_def by (simp add: t(1) f)
  qed
qed

subsection \<open>Every step\<close>

lemma sys_step_inv:
  assumes "sys_step crc y y'" "sys_inv crc y"
  shows "sys_inv crc y'"
  using assms
proof (induction rule: sys_step.induct)
  case (sys_begin_read y r s')
  have "s' = (y_store y)\<lparr>s_readers := register_reader (cur_txn y) (s_readers (y_store y))\<rparr>"
    using sys_begin_read.hyps by (auto simp: begin_read_def Let_def)
  moreover have "bt_inv (register_reader (cur_txn y) (s_readers (y_store y)))"
    using sys_begin_read.prems by (simp add: register_reader_def sys_inv_def)
  ultimately show ?case using readers_step_inv [OF sys_begin_read.prems _ register_keys, of "cur_txn y"] by (simp add: active_def)
next
  case (sys_begin_read_at i y r s')
  then obtain x where x: "registry_get (s_snapshots (s_state (y_store y))) i = Some x"
    "s' = (y_store y)\<lparr>s_readers := register_reader (snap_txn_id x) (s_readers (y_store y))\<rparr>"
    by (auto simp: begin_read_at_def Let_def split: option.splits sum.splits)
  have "x \<in> set (snaps (s_snapshots (s_state (y_store y))))" using x(1) by (auto simp: registry_get_def find_Some_iff)
  then have "active y (snap_txn_id x)" by (simp add: active_def)
  moreover have "bt_inv (register_reader (snap_txn_id x) (s_readers (y_store y)))"
    using sys_begin_read_at.prems by (simp add: register_reader_def sys_inv_def)
  ultimately show ?case using readers_step_inv [OF sys_begin_read_at.prems _ register_keys] x(2) by simp
next
  case (sys_end_read y r)
  have "bt_inv (release_reader (r_txn_id r) (s_readers (y_store y)))"
    using sys_end_read.prems by (intro release_inv) (simp add: sys_inv_def)
  from readers_step_inv [OF sys_end_read.prems this, of "cur_txn y"] release_keys [of "r_txn_id r" "s_readers (y_store y)"]
  show ?case by (auto simp: end_read_def active_def)
next
  case (sys_begin_write y)
  then show ?case by (intro begin_write_sys_inv) auto
next
  case (sys_txn y w g w' g')
  then show ?case by (intro txn_step_sys_inv [where w = w and g = g]) auto
next
  case (sys_commit y w g c t s' ch')
  then show ?case by (intro commit_sys_inv [where w = w and g = g and c = c]) auto
next
  case (sys_set_durability y d)
  then show ?case by (intro set_durability_inv) auto
next
  case (sys_truncate y n s')
  then show ?case by (intro truncate_sys_inv) auto
next
  case (sys_reopen y s')
  then show ?case by (intro reopen_sys_inv) auto
qed (auto simp: sys_inv_def active_def)

section \<open>A new file\<close>

definition empty_chains :: chain_pages where
  "empty_chains = \<lparr>ch_roots = [], ch_snaps = [], ch_cat = [], ch_free = []\<rparr>"

definition sys_of :: "store \<Rightarrow> sys" where
  "sys_of s = \<lparr>y_store = s, y_chains = empty_chains,
     y_hist = (\<lambda>_. \<lparr>v_tree = {}, v_chain = [], v_roots = [], v_page = pager_read (s_pager s)\<rparr>), y_txn = None\<rparr>"

lemma chain_on_empty [simp]: "chain_on crc ps ty stride None [] []" "chain_head [] = None"
  by (auto simp: chain_on_def chain_head_def intro!: exI [of _ "[]"])

lemma zero_page_not_meta: "\<exists>e. meta_decode crc page_zeroed = Inl e"
proof -
  have "get_bytes page_zeroed 0 4 = replicate 4 0" by (simp add: page_zeroed_def get_bytes_def PAGE_SIZE_def)
  then have "rd32 page_zeroed 0 = 0" by (simp add: rd32_def from_le_def numeral_eq_Suc)
  then show ?thesis by (auto simp: meta_decode_def Let_def MAGIC_def split: sum.splits)
qed

lemma store_init_spec:
  "\<exists>s. store_init crc cap [] = Inr s \<and> store_inv crc (s_pager s) (s_state s) empty_chains \<and> s_readers s = [] \<and>
     s_roots (s_state s) = [] \<and> s_snapshots (s_state s) = \<lparr>snaps = [], next_id = 1\<rparr> \<and> m_txn_id (s_meta (s_state s)) = 0 \<and>
     s_freelist (s_state s) = [] \<and> length (s_pager s) = 2 \<and> s_capacity s = cap \<and>
     s_meta (s_state s) = meta_default\<lparr>m_page_count := of_nat META_PAGES\<rparr>"
proof -
  let ?m = "meta_default\<lparr>m_page_count := of_nat META_PAGES\<rparr>" and ?z = page_zeroed
  let ?ps = "[meta_encode crc ?m, ?z]"
  have slot: "slot_of ?m = 0" "ucast (meta_slot ?m) = (0 :: pgno)" by (simp_all add: slot_of_def meta_slot_def meta_default_def META_PAGES_def)
  have mok: "meta_ok ?m" by (simp add: meta_ok_def meta_default_def)
  have r: "read_meta crc ?ps 0 = Inr ?m" "\<exists>e. read_meta crc ?ps 1 = Inl e"
    using meta_roundtrip(1) [OF mok] zero_page_not_meta [of crc] by (auto simp: read_meta_def pager_read_def lift_page_def)
  then have mat: "meta_at crc ?ps ?m" unfolding meta_at_def slot by auto
  have w: "pager_write (pager_grow [] META_PAGES) (ucast (meta_slot ?m)) (meta_encode crc ?m) = Inr ?ps"
    unfolding slot(2) by (simp add: pager_write_def pager_grow_def META_PAGES_def numeral_eq_Suc)
  have l: "load_state crc ?ps = Inr \<lparr>s_meta = ?m, s_roots = [], s_snapshots = \<lparr>snaps = [], next_id = 1\<rparr>, s_catalog = [], s_freelist = []\<rparr>"
    using load_meta_at [OF mat]
    by (simp add: load_state_def pager_page_count_def META_PAGES_def meta_default_def load_chain_def roots_from_entries_def
        registry_from_entries_def freelist_from_entries_def freelist_compact_def)
  have "store_inv crc ?ps \<lparr>s_meta = ?m, s_roots = [], s_snapshots = \<lparr>snaps = [], next_id = 1\<rparr>, s_catalog = [], s_freelist = []\<rparr> empty_chains"
    using mok mat by (auto simp: store_inv_def empty_chains_def all_chain_pages_def roots_encode_def registry_encode_def
        meta_default_def registry_names_def fl_ok_def nodup_def freelist_encode_def intro!: exI [of _ "[]"])
  with w l show ?thesis by (simp add: store_init_def Let_def store_load_def meta_default_def)
qed

lemma sys_init_inv:
  assumes "store_init crc cap [] = Inr s"
  shows "sys_inv crc (sys_of s)"
proof -
  obtain s0 where s0: "store_init crc cap [] = Inr s0" "store_inv crc (s_pager s0) (s_state s0) empty_chains" "s_readers s0 = []"
     "s_roots (s_state s0) = []" "snaps (s_snapshots (s_state s0)) = []" "m_txn_id (s_meta (s_state s0)) = 0" "s_freelist (s_state s0) = []"
     and m: "length (s_pager s0) = 2" "s_meta (s_state s0) = meta_default\<lparr>m_page_count := of_nat META_PAGES\<rparr>"
    using store_init_spec [of crc cap] by auto
  have "chain_pages_needed FREE_ENTRY_BYTES 0 = 0" using capacities(4) by (simp add: chain_pages_needed_def)
  then have "free_room crc (s_pager s0) (s_state s0) empty_chains"
    using s0(7) m by (auto simp: free_room_def meta_default_def empty_chains_def freelist_encode_def fl_ok_def intro!: exI [of _ "[]"])
  moreover have "unat (m_page_count (s_meta (s_state s0))) = length (s_pager s0)" using m by (simp add: META_PAGES_def)
  moreover have "s = s0" using assms s0(1) by simp
  ultimately show ?thesis using s0
    by (simp add: sys_inv_def sys_of_def active_def intact_def visible_def free_unseen_def snaps_ok_def empty_chains_def
        roots_encode_def)
qed

definition sys_reach :: "(u8 list \<Rightarrow> u32) \<Rightarrow> nat option \<Rightarrow> sys \<Rightarrow> bool" where
  "sys_reach crc cap y \<longleftrightarrow> (\<exists>s. store_init crc cap [] = Inr s \<and> (sys_step crc)\<^sup>*\<^sup>* (sys_of s) y)"

lemma sys_reach_inv: "sys_reach crc cap y \<Longrightarrow> sys_inv crc y"
proof -
  assume "sys_reach crc cap y"
  then obtain s where s: "store_init crc cap [] = Inr s" "(sys_step crc)\<^sup>*\<^sup>* (sys_of s) y" by (auto simp: sys_reach_def)
  from s(2) show ?thesis by (induction rule: rtranclp_induct) (use sys_init_inv [OF s(1)] sys_step_inv in blast)+
qed

lemma sys_capacity: "sys_reach crc cap y \<Longrightarrow> s_capacity (y_store y) = cap"
proof -
  assume "sys_reach crc cap y"
  then obtain s where s: "store_init crc cap [] = Inr s" "(sys_step crc)\<^sup>*\<^sup>* (sys_of s) y" by (auto simp: sys_reach_def)
  have s0: "s_capacity s = cap" using s(1) by (auto simp: store_init_def store_load_def Let_def split: sum.splits)
  from s(2) show ?thesis
  proof (induction rule: rtranclp_induct)
    case base
    show ?case using s0 by (simp add: sys_of_def)
  next
    case (step x y)
    from step(2,3) show ?case
      by (auto elim!: sys_step.cases simp: begin_read_def begin_read_at_def end_read_def txn_commit_def commit_txn_def Let_def
          set_durability_def truncate_tail_def store_load_def split: option.splits sum.splits if_splits prod.splits)
  qed
qed

lemma fresh_unseen:
  assumes "sys_inv crc y" "y_txn y = Some (w, g)" "fresh_page (s_freelist (s_state (y_store y))) w (unat p)" "active y t"
  shows "p \<notin> visible (y_hist y t)"
proof
  assume vis: "p \<in> visible (y_hist y t)"
  have i: "in_flight crc (y_store y) (y_chains y) w g" "w_horizon w \<le> t" "t \<le> cur_txn y"
    "intact crc (s_pager (y_store y)) (y_hist y t)" "free_unseen (s_freelist (s_state (y_store y))) (y_hist y) (cur_txn y)"
    using assms by (auto simp: sys_inv_def)
  have "unat p < w_tail_floor w" using i(1,4) vis by (auto simp: in_flight_def intact_def)
  with assms(3) obtain u where "u \<le> w_horizon w" "(unat p, u) \<in># free_pages (s_freelist (s_state (y_store y)))"
    by (auto simp: fresh_page_def)
  moreover from this i(2) have "u \<le> t" by (meson order_trans)
  ultimately show False using i(3,5) vis unfolding free_unseen_def by blast
qed

section \<open>A run of the store\<close>

text \<open>
  One transaction on a new file: it takes a page, registers a snapshot of the empty version and
  commits. The properties below are applied to the state it leaves.
\<close>

definition demo_crc :: "u8 list \<Rightarrow> u32" where
  "demo_crc bs = 0"

definition demo_txn :: "store \<Rightarrow> write_txn" where
  "demo_txn s = snd (txn_create_snapshot 0 [] False ((begin_write s)\<lparr>w_next_pgno := 3\<rparr>))"

abbreviation demo_ghost :: txn_ghost where
  "demo_ghost \<equiv> \<lparr>owned = [2], released = []\<rparr>"

lemma demo_start:
  "\<exists>s. store_init demo_crc None [] = Inr s \<and> store_inv demo_crc (s_pager s) (s_state s) empty_chains \<and>
     m_txn_id (s_meta (s_state s)) = 0 \<and> length (s_pager s) = 2 \<and> s_capacity s = None \<and> s_freelist (s_state s) = [] \<and>
     s_readers s = [] \<and> s_snapshots (s_state s) = \<lparr>snaps = [], next_id = 1\<rparr> \<and> s_meta (s_state s) = meta_default\<lparr>m_page_count := 2\<rparr> \<and>
     sys_reach demo_crc None ((sys_of s)\<lparr>y_txn := Some (demo_txn s, demo_ghost)\<rparr>)"
proof -
  obtain s where s: "store_init demo_crc None [] = Inr s" "store_inv demo_crc (s_pager s) (s_state s) empty_chains"
     "m_txn_id (s_meta (s_state s)) = 0" "s_freelist (s_state s) = []" "s_readers s = []" "s_snapshots (s_state s) = \<lparr>snaps = [], next_id = 1\<rparr>"
     and len: "length (s_pager s) = 2" "s_capacity s = None" and meta: "s_meta (s_state s) = meta_default\<lparr>m_page_count := 2\<rparr>"
    using store_init_spec [of demo_crc None] by (auto simp: META_PAGES_def)
  let ?y0 = "sys_of s" and ?w0 = "begin_write s" and ?w1 = "(begin_write s)\<lparr>w_next_pgno := 3\<rparr>"
  have w: "w_scratch ?w0 = []" "w_freelist ?w0 = []" "w_next_pgno ?w0 = 2"
    using s(4) len by (simp_all add: begin_write_def Let_def txn_new_def pager_page_count_def)
  then have al: "txn_alloc (s_capacity s) ?w0 = Inr (2, ?w1)" using len by (simp add: txn_alloc_def txn_alloc_tail_def)
  have "sys_step demo_crc ?y0 (?y0\<lparr>y_txn := Some (?w0, ghost0)\<rparr>)"
    using sys_begin_write [of ?y0 demo_crc] s(3) by (simp add: sys_of_def)
  moreover have "sys_step demo_crc (?y0\<lparr>y_txn := Some (?w0, ghost0)\<rparr>) (?y0\<lparr>y_txn := Some (?w1, demo_ghost)\<rparr>)"
    using sys_txn [of "?y0\<lparr>y_txn := Some (?w0, ghost0)\<rparr>" ?w0 ghost0 ?w1 demo_ghost] step_alloc [OF al, of "s_pager s" "kept_pages empty_chains" "[]" ghost0] s(4)
    by (simp add: sys_of_def)
  moreover have "sys_step demo_crc (?y0\<lparr>y_txn := Some (?w1, demo_ghost)\<rparr>) (?y0\<lparr>y_txn := Some (demo_txn s, demo_ghost)\<rparr>)"
    using sys_txn [of "?y0\<lparr>y_txn := Some (?w1, demo_ghost)\<rparr>" ?w1 demo_ghost "demo_txn s" demo_ghost]
      step_create_snapshot [of "s_pager s" "s_capacity s" "kept_pages empty_chains" "[]" ?w1 demo_ghost 0 "[]" False] s(4)
    by (simp add: sys_of_def demo_txn_def)
  ultimately have "(sys_step demo_crc)\<^sup>*\<^sup>* ?y0 (?y0\<lparr>y_txn := Some (demo_txn s, demo_ghost)\<rparr>)"
    by (meson converse_rtranclp_into_rtranclp rtranclp.rtrancl_refl)
  with s len meta show ?thesis unfolding sys_reach_def by blast
qed

lemma demo_plan:
  assumes "s_meta (s_state s) = meta_default\<lparr>m_page_count := 2\<rparr>" "snaps (s_snapshots (s_state s)) = []" "s_freelist (s_state s) = []"
    "s_capacity s = None" "length (s_pager s) = 2"
  shows "\<exists>c. plan_commit crc s (txn_absorb (demo_txn s)) = Inr c \<and> c_next_pgno c = 4"
proof -
  have one: "chain_pages_needed SNAPSHOT_ENTRY_BYTES (Suc 0) = 1" "chain_pages_needed FREE_ENTRY_BYTES 0 = 0"
    using capacities by (simp_all add: chain_pages_needed_def)
  have none: "chain_pgnos rd n None ty stride = Inr []" for rd n ty stride by (simp add: chain_pgnos_def)
  have w: "txn_absorb (demo_txn s) = demo_txn s" using assms
    by (simp add: txn_absorb_def absorb_scratch_def demo_txn_def txn_create_snapshot_def registry_create_def begin_write_def txn_new_def Let_def)
  have f: "w_base (demo_txn s) = meta_default\<lparr>m_page_count := 2\<rparr>" "w_freelist (demo_txn s) = []" "w_next_pgno (demo_txn s) = 3"
     "dc_roots (w_dirty_chains (demo_txn s)) = False" "dc_catalog (w_dirty_chains (demo_txn s)) = False"
     "dc_snapshots (w_dirty_chains (demo_txn s)) = True" "length (snaps (w_snapshots (demo_txn s))) = Suc 0"
    using assms by (simp_all add: demo_txn_def txn_create_snapshot_def registry_create_def begin_write_def txn_new_def Let_def)
  show ?thesis unfolding w using assms one
    by (simp add: plan_commit_def f Let_def place_chain_def recycle_chain_def none meta_default_def alloc_one_def alloc_tail_def
        alloc_freelist_pages_def freelist_compact_def freelist_pages_loop.simps)
qed

lemma demo_state:
  "\<exists>y. sys_reach demo_crc None y \<and> cur_txn y = 1 \<and> 2 \<in> visible (y_hist y 1) \<and> active y 0 \<and>
     (\<exists>x. registry_get (s_snapshots (s_state (y_store y))) 1 = Some x \<and> snap_txn_id x = 0)"
proof -
  obtain s where s: "store_init demo_crc None [] = Inr s" "store_inv demo_crc (s_pager s) (s_state s) empty_chains"
     "m_txn_id (s_meta (s_state s)) = 0" "s_freelist (s_state s) = []" "s_snapshots (s_state s) = \<lparr>snaps = [], next_id = 1\<rparr>"
    and len: "length (s_pager s) = 2" "s_capacity s = None" and meta: "s_meta (s_state s) = meta_default\<lparr>m_page_count := 2\<rparr>"
    and reach: "sys_reach demo_crc None ((sys_of s)\<lparr>y_txn := Some (demo_txn s, demo_ghost)\<rparr>)"
    using demo_start by blast
  let ?y = "(sys_of s)\<lparr>y_txn := Some (demo_txn s, demo_ghost)\<rparr>" and ?w = "demo_txn s"
  obtain c where c: "plan_commit demo_crc s (txn_absorb ?w) = Inr c" "c_next_pgno c = 4"
    using demo_plan [OF meta _ s(4) len(2,1)] s(5) by auto
  have fly: "in_flight demo_crc s empty_chains ?w demo_ghost" using sys_reach_inv [OF reach] by (simp add: sys_inv_def sys_of_def)
  obtain ps' ch' where com: "txn_commit demo_crc s ?w = Inr (w_txn_id ?w, s\<lparr>s_pager := ps', s_state := committed_state s ?w c\<rparr>)"
    and pl: "planned demo_crc s empty_chains ?w demo_ghost c ch'" using commit_spec [OF fly c(1)] c(2) by auto
  let ?z = "?y\<lparr>y_store := s\<lparr>s_pager := ps', s_state := committed_state s ?w c\<rparr>, y_chains := ch',
     y_hist := (y_hist ?y)(w_txn_id ?w := next_version ?y demo_ghost ?w ch' ps'), y_txn := None\<rparr>"
  have "sys_step demo_crc ?y ?z"
    using sys_commit [of ?y ?w demo_ghost demo_crc c, OF _ _ _ _ , of _ _ ch'] c com pl by (simp add: sys_of_def)
  then have rz: "sys_reach demo_crc None ?z" using reach unfolding sys_reach_def by (meson rtranclp.rtrancl_into_rtrancl)
  have w: "w_txn_id ?w = 1" "snaps (w_snapshots ?w) = [fst (registry_create (s_snapshots (s_state s)) 0 0 0 [] False)]"
    using s(3,5) meta by (simp_all add: demo_txn_def txn_create_snapshot_def registry_create_def begin_write_def txn_new_def Let_def meta_default_def)
  have "m_txn_id (c_meta c) = 1" using pl w(1) by (simp add: planned_def new_meta_def)
  then show ?thesis using rz w s(5)
    by (intro exI [of _ ?z]) (simp add: committed_state_def visible_def next_version_def active_def registry_get_def registry_create_def Let_def)
qed

section \<open>Properties\<close>

text \<open>
  C2. Snapshot isolation. In every state the store can get into - readers and snapshots coming and
  going between the calls of a write transaction, and any number of commits - every page a live reader,
  a registered snapshot or a new reader can reach holds the bytes it held when that version was
  committed.
\<close>

theorem reader_isolation:
  assumes "sys_reach crc cap y" "active y t" "p \<in> visible (y_hist y t)"
  shows "pager_read (s_pager (y_store y)) p = v_page (y_hist y t) p"
  using sys_reach_inv [OF assms(1)] assms(2,3) by (auto simp: sys_inv_def intact_def)

theorem reader_isolation_witness:
  "\<exists>y. sys_reach demo_crc None y \<and> active y 1 \<and> 2 \<in> visible (y_hist y 1) \<and>
     pager_read (s_pager (y_store y)) 2 = v_page (y_hist y 1) 2"
proof -
  obtain y where y: "sys_reach demo_crc None y" "cur_txn y = 1" "2 \<in> visible (y_hist y 1)" using demo_state by blast
  then have "active y 1" by (simp add: active_def)
  with y reader_isolation [OF y(1) this y(3)] show ?thesis by blast
qed

text \<open>
  C24. Opening a registered snapshot never fails, and gives the root records of the version it pinned.
\<close>

theorem snapshot_reads_its_version:
  assumes "sys_reach crc cap y" "registry_get (s_snapshots (s_state (y_store y))) i = Some x"
  shows "\<exists>r s'. begin_read_at crc i (y_store y) = Inr (r, s') \<and> r_txn_id r = snap_txn_id x \<and>
           r_roots r = v_roots (y_hist y (snap_txn_id x))"
proof -
  let ?v = "y_hist y (snap_txn_id x)"
  have inv: "sys_inv crc y" by (rule sys_reach_inv [OF assms(1)])
  have x: "x \<in> set (snaps (s_snapshots (s_state (y_store y))))" using assms(2) by (auto simp: registry_get_def find_Some_iff)
  then have int: "intact crc (s_pager (y_store y)) ?v" using inv by (auto simp: sys_inv_def active_def)
  have "snap_root_records x = root_field ?v" using inv x by (auto simp: sys_inv_def snaps_ok_def)
  moreover have "chain_head (v_chain ?v) \<noteq> Some 0" using int by (cases "v_chain ?v") (auto simp: intact_def visible_def chain_head_def)
  ultimately have root: "(if snap_root_records x \<noteq> 0 then Some (snap_root_records x) else None) = chain_head (v_chain ?v)"
    by (auto simp: root_field_def split: option.splits)
  have "chain_on crc (s_pager (y_store y)) PRootRecords ROOT_RECORD_BYTES (chain_head (v_chain ?v)) (v_chain ?v) (roots_encode (v_roots ?v))"
    "bt_inv (v_roots ?v)" using int by (auto simp: intact_def)
  from chain_on_reads(1) [OF this(1)] roots_roundtrip [OF this(2)] show ?thesis
    using assms(2) by (simp add: begin_read_at_def root)
qed

theorem snapshot_reads_its_version_witness:
  "\<exists>y x r s'. sys_reach demo_crc None y \<and> registry_get (s_snapshots (s_state (y_store y))) 1 = Some x \<and>
     begin_read_at demo_crc 1 (y_store y) = Inr (r, s') \<and> r_roots r = v_roots (y_hist y (snap_txn_id x))"
proof -
  obtain y x where y: "sys_reach demo_crc None y" "registry_get (s_snapshots (s_state (y_store y))) 1 = Some x" using demo_state by blast
  with snapshot_reads_its_version [OF y] show ?thesis by blast
qed

text \<open>
  C5. A commit that is planned succeeds, and opening the file afterwards gives the root records, the
  snapshots and the catalog of the transaction, the new meta page, and every page that is free.
\<close>

theorem commit_then_load:
  assumes "sys_reach crc cap y" "y_txn y = Some (w, g)" "plan_commit crc (y_store y) (txn_absorb w) = Inr c" "c_next_pgno c < 2 ^ 32"
  shows "\<exists>s' st'. txn_commit crc (y_store y) w = Inr (w_txn_id w, s') \<and> load_state crc (s_pager s') = Inr st' \<and>
           s_meta st' = c_meta c \<and> s_roots st' = w_roots w \<and> snaps (s_snapshots st') = snaps (w_snapshots w) \<and>
           s_catalog st' = w_catalog w \<and> free_pages (s_freelist st') = free_pages (c_freelist c)"
proof -
  have fly: "in_flight crc (y_store y) (y_chains y) w g" using sys_reach_inv [OF assms(1)] assms(2) by (simp add: sys_inv_def)
  obtain ps' ch' where com: "txn_commit crc (y_store y) w =
       Inr (w_txn_id w, (y_store y)\<lparr>s_pager := ps', s_state := committed_state (y_store y) w c\<rparr>)"
    and inv: "store_inv crc ps' (committed_state (y_store y) w c) ch'" using commit_spec [OF fly assms(3,4)] by blast
  obtain st' where "load_state crc ps' = Inr st'" "state_equiv st' (committed_state (y_store y) w c)"
    using store_inv_loads [OF inv] by blast
  moreover have "s_catalog (committed_state (y_store y) w c) = w_catalog w"
    using fly by (auto simp: in_flight_def txn_data_def committed_state_def)
  ultimately show ?thesis using com by (auto simp: state_equiv_def committed_state_def)
qed

theorem commit_then_load_witness:
  "\<exists>y w g c s' st'. sys_reach demo_crc None y \<and> y_txn y = Some (w, g) \<and> plan_commit demo_crc (y_store y) (txn_absorb w) = Inr c \<and>
     c_next_pgno c < 2 ^ 32 \<and> txn_commit demo_crc (y_store y) w = Inr (w_txn_id w, s') \<and>
     load_state demo_crc (s_pager s') = Inr st' \<and> s_roots st' = w_roots w"
proof -
  obtain s where s: "s_freelist (s_state s) = []" "snaps (s_snapshots (s_state s)) = []"
    "length (s_pager s) = 2" "s_capacity s = None" "s_meta (s_state s) = meta_default\<lparr>m_page_count := 2\<rparr>"
    and reach: "sys_reach demo_crc None ((sys_of s)\<lparr>y_txn := Some (demo_txn s, demo_ghost)\<rparr>)"
    using demo_start by auto
  obtain c where c: "plan_commit demo_crc s (txn_absorb (demo_txn s)) = Inr c" "c_next_pgno c = 4"
    using demo_plan [OF s(5,2,1,4,3)] by blast
  have st: "y_store ((sys_of s)\<lparr>y_txn := Some (demo_txn s, demo_ghost)\<rparr>) = s" by (simp add: sys_of_def)
  with c have c': "plan_commit demo_crc (y_store ((sys_of s)\<lparr>y_txn := Some (demo_txn s, demo_ghost)\<rparr>)) (txn_absorb (demo_txn s)) = Inr c"
    "c_next_pgno c < 2 ^ 32" by simp_all
  from commit_then_load [OF reach _ c', of demo_ghost] c' show ?thesis
    by (intro exI [of _ "(sys_of s)\<lparr>y_txn := Some (demo_txn s, demo_ghost)\<rparr>"] exI [of _ "demo_txn s"] exI [of _ demo_ghost] exI [of _ c])
      (use reach in auto)
qed

text \<open>C20. On a backend without a ceiling a transaction can always be committed: planning never fails.\<close>

theorem commit_always_possible:
  assumes "sys_reach crc None y" "y_txn y = Some (w, g)"
  shows "\<exists>c. plan_commit crc (y_store y) (txn_absorb w) = Inr c"
proof -
  have fly: "in_flight crc (y_store y) (y_chains y) w g" using sys_reach_inv [OF assms(1)] assms(2) by (simp add: sys_inv_def)
  then show ?thesis using plan_commit_total [of crc "y_store y" "s_state (y_store y)" "y_chains y" "txn_absorb w"] sys_capacity [OF assms(1)]
    by (simp add: in_flight_def txn_data_def txn_absorb_frame)
qed

theorem commit_always_possible_witness:
  "\<exists>y w g. sys_reach demo_crc None y \<and> y_txn y = Some (w, g) \<and> (\<exists>c. plan_commit demo_crc (y_store y) (txn_absorb w) = Inr c)"
proof -
  obtain s where reach: "sys_reach demo_crc None ((sys_of s)\<lparr>y_txn := Some (demo_txn s, demo_ghost)\<rparr>)" using demo_start by auto
  from commit_always_possible [OF this, of "demo_txn s" demo_ghost] reach show ?thesis
    by (intro exI [of _ "(sys_of s)\<lparr>y_txn := Some (demo_txn s, demo_ghost)\<rparr>"] exI [of _ "demo_txn s"] exI [of _ demo_ghost]) simp
qed

text \<open>
  C21. A page the allocator hands to a transaction is nobody else's: the transaction does not hold it
  already, it is no meta or chain page, and no version a reader or a snapshot can see contains it.
\<close>

theorem allocated_page_is_nobodys:
  assumes "sys_reach crc cap y" "y_txn y = Some (w, g)" "txn_alloc cap w = Inr (p, w')" "w_next_pgno w' < 2 ^ 32"
  shows "p \<notin> set (owned g) \<and> p \<notin> kept_pages (y_chains y) \<and> (\<forall>t. active y t \<longrightarrow> p \<notin> visible (y_hist y t))"
proof -
  let ?f0 = "s_freelist (s_state (y_store y))"
  have inv: "sys_inv crc y" by (rule sys_reach_inv [OF assms(1)])
  have fly: "in_flight crc (y_store y) (y_chains y) w g" using inv assms(2) by (simp add: sys_inv_def)
  then have st: "store_inv crc (s_pager (y_store y)) (s_state (y_store y)) (y_chains y)" and tf: "w_tail_floor w = length (s_pager (y_store y))"
    and ti: "txn_inv (kept_pages (y_chains y)) ?f0 (w, g)" by (auto simp: in_flight_def)
  note inv' = txn_alloc_inv [OF ti assms(3,4)]
  have "fresh_page ?f0 w' (unat p)" using inv' by (simp add: txn_inv_def)
  then have fr: "fresh_page ?f0 w (unat p)" using txn_alloc_frame [OF assms(3)] by (simp add: fresh_page_def)
  then have fa: "fresh_at ?f0 (length (s_pager (y_store y))) (w_horizon w) (unat p)" by (simp add: fresh_page_def fresh_at_def tf)
  have "p \<notin> set (owned g)" using nodup_owned(1) [OF inv'] by simp
  moreover have "p \<noteq> 0" "p \<noteq> 1" using fresh_at_ge2 [OF st fa] by auto
  moreover have "p \<notin> set (all_chain_pages (y_chains y))"
  proof
    assume pin: "p \<in> set (all_chain_pages (y_chains y))"
    have "unat p \<notin># free_nos ?f0" using st pin unfolding store_inv_def by blast
    with fa chain_page_bounds [OF st pin] show False by (force simp: fresh_at_def)
  qed
  ultimately show ?thesis using fresh_unseen [OF inv assms(2) fr] by (auto simp: kept_pages_def)
qed

theorem allocated_page_is_nobodys_witness:
  "\<exists>y w g p w'. sys_reach demo_crc None y \<and> y_txn y = Some (w, g) \<and> txn_alloc None w = Inr (p, w') \<and> w_next_pgno w' < 2 ^ 32 \<and>
     p \<notin> set (owned g) \<and> p \<notin> kept_pages (y_chains y) \<and> owned g = [2]"
proof -
  obtain s where s: "s_freelist (s_state s) = []"
    and reach: "sys_reach demo_crc None ((sys_of s)\<lparr>y_txn := Some (demo_txn s, demo_ghost)\<rparr>)" using demo_start by auto
  have al: "txn_alloc None (demo_txn s) = Inr (3, (demo_txn s)\<lparr>w_next_pgno := 4\<rparr>)" using s
    by (simp add: txn_alloc_def txn_alloc_tail_def demo_txn_def txn_create_snapshot_def registry_create_def begin_write_def txn_new_def Let_def)
  from allocated_page_is_nobodys [OF reach _ al, of demo_ghost] reach al show ?thesis
    by (intro exI [of _ "(sys_of s)\<lparr>y_txn := Some (demo_txn s, demo_ghost)\<rparr>"] exI [of _ "demo_txn s"] exI [of _ demo_ghost]
        exI [of _ 3] exI [of _ "(demo_txn s)\<lparr>w_next_pgno := 4\<rparr>"]) simp
qed

text \<open>
  C26. The refcounts of the registered readers implement a multiset of transaction ids: a reader that
  begins adds one, a reader that ends removes one, and the oldest reader is the least of them.
\<close>

theorem readers_refine_multiset:
  assumes "readers_of M r"
  shows "(count M t + 1 < 2 ^ 32 \<longrightarrow> readers_of (add_mset t M) (register_reader t r)) \<and>
         (t \<in># M \<longrightarrow> readers_of (M - {#t#}) (release_reader t r)) \<and>
         oldest_reader r = (if M = {#} then None else Some (Min (set_mset M)))"
proof -
  have dom: "set_mset M = fst ` set r"
  proof (rule set_eqI)
    fix u
    have "bt_get r u = None \<longleftrightarrow> count M u = 0" using assms by (simp add: readers_of_def)
    then show "u \<in># M \<longleftrightarrow> u \<in> fst ` set r" by (simp add: bt_get_def map_of_eq_None_iff count_eq_zero_iff)
  qed
  have "oldest_reader r = (if M = {#} then None else Some (Min (set_mset M)))"
  proof (cases r)
    case Nil
    then show ?thesis using dom by (simp add: oldest_reader_def)
  next
    case (Cons a r')
    have "\<forall>x \<in> set r'. fst a < fst x" using assms Cons by (cases a) (simp add: readers_of_def)
    then have "Min (fst ` set r) = fst a" using Cons by (intro Min_eqI) (auto simp: less_imp_le)
    with dom Cons show ?thesis by (auto simp: oldest_reader_def)
  qed
  then show ?thesis using register_reader_spec [OF assms] release_reader_spec [OF assms] by blast
qed

theorem readers_refine_multiset_witness:
  "readers_of {#5#} [(5, 1)] \<and> readers_of {#5, 5#} (register_reader 5 [(5, 1)]) \<and> readers_of {#} (release_reader 5 [(5, 1)])"
proof -
  have "readers_of {#5#} [(5, 1)]" by (simp add: readers_of_def bt_get_def)
  with readers_refine_multiset [OF this, of 5] show ?thesis by simp
qed

end
