(* ===== verification/Big_Crash.thy ===== *)
theory Big_Crash
  imports Big_Isolation
begin

text \<open>
  Power failure during a commit. A disk keeps what it had at the last \<^verbatim>\<open>sync\<close>; every page written
  since may hold anything - the old bytes, the new ones, or a torn mixture - and every other page is as
  it was. The operations of a commit are those of \<open>flip_ops\<close>, and the power may fail after any of them.
\<close>

section \<open>A disk with a cache\<close>

record disk =
  d_durable :: mem_pager
  d_now :: mem_pager
  d_pending :: "pgno set"

fun disk_step :: "disk \<Rightarrow> io \<Rightarrow> disk" where
  "disk_step d (Grow n) = d\<lparr>d_now := pager_grow (d_now d) n\<rparr>"
| "disk_step d (WritePage n p) =
     (case pager_write (d_now d) n p of Inl _ \<Rightarrow> d | Inr ps \<Rightarrow> d\<lparr>d_now := ps, d_pending := insert n (d_pending d)\<rparr>)"
| "disk_step d Sync = \<lparr>d_durable = d_now d, d_now = d_now d, d_pending = {}\<rparr>"
| "disk_step d SyncData = d"

definition run_disk :: "disk \<Rightarrow> io list \<Rightarrow> disk" where
  "run_disk d ops = foldl disk_step d ops"

definition clean_disk :: "mem_pager \<Rightarrow> disk" where
  "clean_disk ps = \<lparr>d_durable = ps, d_now = ps, d_pending = {}\<rparr>"

definition survives :: "disk \<Rightarrow> mem_pager \<Rightarrow> bool" where
  "survives d ps \<longleftrightarrow> length (d_durable d) \<le> length ps \<and> length ps \<le> length (d_now d) \<and>
     (\<forall>k. unat k < length ps \<longrightarrow> k \<notin> d_pending d \<longrightarrow>
        pager_read ps k = (if unat k < length (d_durable d) then pager_read (d_durable d) k else Inr page_zeroed))"

lemma run_disk_append: "run_disk d (xs @ ys) = run_disk (run_disk d xs) ys"
  by (simp add: run_disk_def)

lemma run_disk_simps [simp]: "run_disk d [] = d" "run_disk d (x # xs) = run_disk (disk_step d x) xs"
  by (simp_all add: run_disk_def)

text \<open>The process itself sees every write at once.\<close>

lemma run_disk_now: "run_io (d_now d) ops = Inr ps \<Longrightarrow> d_now (run_disk d ops) = ps"
proof (induction ops arbitrary: d)
  case (Cons x xs)
  then show ?case by (cases x) (auto split: sum.splits)
qed simp

section \<open>The old state survives\<close>

lemma store_inv_cong:
  assumes inv: "store_inv crc ps st ch" and len: "length ps \<le> length ps'" "length ps' < 2 ^ 32"
    and keep: "\<And>p. p \<in> set (all_chain_pages ch) \<Longrightarrow> pager_read ps' p = pager_read ps p" and meta: "meta_at crc ps' (s_meta st)"
  shows "store_inv crc ps' st ch"
proof -
  have on: "chain_on crc ps' ty stride head ns es"
    if "chain_on crc ps ty stride head ns es" "set ns \<subseteq> set (all_chain_pages ch)" for ty stride head ns es
    using chain_on_cong [OF that(1) len(1)] keep that(2) by blast
  have sub: "set (ch_roots ch) \<subseteq> set (all_chain_pages ch)" "set (ch_snaps ch) \<subseteq> set (all_chain_pages ch)"
    "set (ch_cat ch) \<subseteq> set (all_chain_pages ch)" "set (ch_free ch) \<subseteq> set (all_chain_pages ch)"
    by (auto simp: all_chain_pages_def)
  have ok: "fl_ok (length ps') f" if "fl_ok (length ps) f" for f using fl_ok_mono [OF that len] .
  obtain fd where fd: "chain_on crc ps PFreelist FREE_ENTRY_BYTES (m_freelist (s_meta st)) (ch_free ch) (freelist_encode fd)"
    "free_pages fd = free_pages (s_freelist st)" "fl_ok (length ps) fd" using inv unfolding store_inv_def by blast
  have "2 \<le> length ps'" using inv len(1) by (simp add: store_inv_def)
  moreover have "chain_on crc ps' PRootRecords ROOT_RECORD_BYTES (m_root_records (s_meta st)) (ch_roots ch) (roots_encode (s_roots st))"
    by (rule on [OF _ sub(1)]) (use inv in \<open>simp add: store_inv_def\<close>)
  moreover have "chain_on crc ps' PSnapshots SNAPSHOT_ENTRY_BYTES (m_snapshots (s_meta st)) (ch_snaps ch) (registry_encode (s_snapshots st))"
    by (rule on [OF _ sub(2)]) (use inv in \<open>simp add: store_inv_def\<close>)
  moreover have "chain_on crc ps' PCatalog CATALOG_ENTRY_BYTES (m_catalog (s_meta st)) (ch_cat ch) (s_catalog st)"
    by (rule on [OF _ sub(3)]) (use inv in \<open>simp add: store_inv_def\<close>)
  moreover have "fl_ok (length ps') (s_freelist st)" by (rule ok) (use inv in \<open>simp add: store_inv_def\<close>)
  ultimately show ?thesis using inv len(2) meta on [OF fd(1) sub(4)] fd(2) ok [OF fd(3)] unfolding store_inv_def by blast
qed

text \<open>Losing or tearing the pages of a plan does not touch what the old meta page names.\<close>

lemma old_state_survives:
  assumes fly: "in_flight crc s ch w g" and pl: "planned crc s ch w g c ch'" and n: "c_next_pgno c < 2 ^ 32"
    and len: "length (s_pager s) \<le> length ps" "length ps \<le> c_next_pgno c"
    and same: "\<And>k. unat k < length (s_pager s) \<Longrightarrow> k \<notin> fst ` set (c_out c) \<Longrightarrow> k \<noteq> slot_of (c_meta c) \<Longrightarrow>
        pager_read ps k = pager_read (s_pager s) k"
    and slot: "pager_read ps (slot_of (c_meta c)) = pager_read (s_pager s) (slot_of (c_meta c)) \<or>
        (\<exists>e. read_meta crc ps (slot_of (c_meta c)) = Inl e)"
  shows "store_inv crc ps (s_state s) ch"
proof -
  let ?st = "s_state s"
  have inv: "store_inv crc (s_pager s) ?st ch" and dat: "txn_data ?st w" using fly by (auto simp: in_flight_def)
  have keep: "pager_read ps p = pager_read (s_pager s) p" if p: "p \<in> set (all_chain_pages ch)" for p
  proof -
    note b = chain_page_bounds [OF inv p]
    have "unat p \<notin># free_nos (s_freelist ?st)" using inv p unfolding store_inv_def by blast
    then have "\<not> fresh_at (s_freelist ?st) (length (s_pager s)) h (unat p)" for h using b by (force simp: fresh_at_def)
    then have "p \<notin> fst ` set (c_out c)" using planned_out [OF pl] by blast
    moreover have "p \<noteq> slot_of (c_meta c)" using b slot_less [of "c_meta c"] by auto
    ultimately show ?thesis using same b by blast
  qed
  have txn: "m_txn_id (c_meta c) = m_txn_id (s_meta ?st) + 1" "m_txn_id (s_meta ?st) < m_txn_id (c_meta c)"
    using dat pl by (auto simp: txn_data_def planned_def new_meta_def)
  have sl: "slot_of (c_meta c) = 1 - slot_of (s_meta ?st)" by (rule slot_of_next [OF txn])
  then have ne: "slot_of (s_meta ?st) \<noteq> slot_of (c_meta c)" using meta_slot_cases [of "s_meta ?st"] by auto
  have "unat (slot_of (s_meta ?st)) < length (s_pager s)" using inv slot_less [of "s_meta ?st"] by (auto simp: store_inv_def)
  then have "pager_read ps (slot_of (s_meta ?st)) = pager_read (s_pager s) (slot_of (s_meta ?st))"
    using same slot_not_out [OF pl] ne by blast
  moreover have mat: "meta_at crc (s_pager s) (s_meta ?st)" using inv by (simp add: store_inv_def)
  ultimately have "meta_at crc ps (s_meta ?st)" using slot unfolding meta_at_def sl by (auto simp: read_meta_def)
  then show ?thesis using store_inv_cong [OF inv len(1) _ keep] len(2) n by simp
qed

section \<open>Where the power fails\<close>

definition commit_ops :: "(u8 list \<Rightarrow> u32) \<Rightarrow> durability \<Rightarrow> commit_plan \<Rightarrow> io list" where
  "commit_ops crc d c = flip_ops crc d (c_out c) (c_next_pgno c) (c_meta c)"

lemma run_disk_writes:
  assumes "\<forall>x \<in> set xs. unat (fst x) < length (d_now d)"
  shows "d_durable (run_disk d (map (\<lambda>(n, p). WritePage n p) xs)) = d_durable d \<and>
         d_pending (run_disk d (map (\<lambda>(n, p). WritePage n p) xs)) = d_pending d \<union> fst ` set xs \<and>
         length (d_now (run_disk d (map (\<lambda>(n, p). WritePage n p) xs))) = length (d_now d)"
  using assms
proof (induction xs arbitrary: d)
  case (Cons x xs)
  let ?d = "disk_step d (WritePage (fst x) (snd x))"
  have d: "?d = d\<lparr>d_now := (d_now d)[unat (fst x) := snd x], d_pending := insert (fst x) (d_pending d)\<rparr>"
    using Cons.prems by (simp add: pager_write_def)
  have step: "run_disk d (map (\<lambda>(n, p). WritePage n p) (x # xs)) = run_disk ?d (map (\<lambda>(n, p). WritePage n p) xs)"
    by (simp add: split_def)
  show ?case unfolding step using Cons.IH [of ?d] Cons.prems unfolding d by auto
qed simp

text \<open>Before the first flush only pages of the plan are in doubt.\<close>

lemma before_flush:
  assumes fly: "in_flight crc s ch w g" and pl: "planned crc s ch w g c ch'" and n: "c_next_pgno c < 2 ^ 32"
    and xs: "set xs \<subseteq> set (c_out c)"
    and sv: "survives (run_disk (clean_disk (s_pager s)) ([Grow (c_next_pgno c)] @ map (\<lambda>(n, p). WritePage n p) xs)) ps"
  shows "store_inv crc ps (s_state s) ch"
proof -
  let ?d0 = "disk_step (clean_disk (s_pager s)) (Grow (c_next_pgno c))"
  have le: "length (s_pager s) \<le> c_next_pgno c" using pl by (simp add: planned_def)
  have now: "length (d_now ?d0) = c_next_pgno c" using le by (simp add: clean_disk_def pager_grow_def)
  have bd: "\<forall>x \<in> set xs. unat (fst x) < length (d_now ?d0)" unfolding now using planned_out [OF pl] xs by blast
  note r = run_disk_writes [OF bd]
  have d: "d_durable (run_disk ?d0 (map (\<lambda>(n, p). WritePage n p) xs)) = s_pager s"
    "d_pending (run_disk ?d0 (map (\<lambda>(n, p). WritePage n p) xs)) = fst ` set xs"
    "length (d_now (run_disk ?d0 (map (\<lambda>(n, p). WritePage n p) xs))) = c_next_pgno c"
    using r now by (simp_all add: clean_disk_def)
  have sv': "length (s_pager s) \<le> length ps" "length ps \<le> c_next_pgno c"
    "\<And>k. unat k < length (s_pager s) \<Longrightarrow> k \<notin> fst ` set xs \<Longrightarrow> pager_read ps k = pager_read (s_pager s) k"
    using sv d by (auto simp: survives_def)
  have slot: "unat (slot_of (c_meta c)) < length (s_pager s)" using fly slot_less [of "c_meta c"]
    by (auto simp: in_flight_def store_inv_def)
  have sub: "fst ` set xs \<subseteq> fst ` set (c_out c)" using xs by auto
  show ?thesis
  proof (rule old_state_survives [OF fly pl n sv'(1,2)])
    show "pager_read ps k = pager_read (s_pager s) k"
      if "unat k < length (s_pager s)" "k \<notin> fst ` set (c_out c)" "k \<noteq> slot_of (c_meta c)" for k
      using sv'(3) that sub by blast
    show "pager_read ps (slot_of (c_meta c)) = pager_read (s_pager s) (slot_of (c_meta c)) \<or>
        (\<exists>e. read_meta crc ps (slot_of (c_meta c)) = Inl e)"
      using sv'(3) [OF slot] slot_not_out [OF pl, of "c_meta c"] sub by blast
  qed
qed

text \<open>After it, only the meta page is.\<close>

lemma data_written:
  assumes fly: "in_flight crc s ch w g" and pl: "planned crc s ch w g c ch'"
  shows "\<exists>ps1. run_io (s_pager s) ([Grow (c_next_pgno c)] @ map (\<lambda>(n, p). WritePage n p) (c_out c)) = Inr ps1 \<and>
           length ps1 = c_next_pgno c \<and> (\<forall>x \<in> set (c_out c). pager_read ps1 (fst x) = Inr (snd x)) \<and>
           (\<forall>k. k \<notin> fst ` set (c_out c) \<longrightarrow> unat k < length (s_pager s) \<longrightarrow> pager_read ps1 k = pager_read (s_pager s) k) \<and>
           (\<forall>k. k \<notin> fst ` set (c_out c) \<longrightarrow> length (s_pager s) \<le> unat k \<longrightarrow> unat k < c_next_pgno c \<longrightarrow> pager_read ps1 k = Inr page_zeroed)"
proof -
  let ?g = "pager_grow (s_pager s) (c_next_pgno c)"
  have g: "length ?g = c_next_pgno c" using pl by (simp add: planned_def pager_grow_def)
  have "\<forall>x \<in> set (c_out c). unat (fst x) < length ?g" unfolding g using planned_out [OF pl] by blast
  then obtain ps1 where ps1: "write_all pager_write ?g (c_out c) = Inr ps1" "length ps1 = c_next_pgno c"
    using write_all_ok [of "c_out c" ?g] g by auto
  have dist: "distinct (map fst (c_out c))" using pl unfolding planned_def by blast
  have "\<forall>x \<in> set (c_out c). pager_read ps1 (fst x) = Inr (snd x)" using mem.rd_wr_all_same [OF ps1(1) dist] by simp
  moreover have "\<forall>k. k \<notin> fst ` set (c_out c) \<longrightarrow> unat k < length (s_pager s) \<longrightarrow> pager_read ps1 k = pager_read (s_pager s) k"
    using mem.rd_wr_all_other [OF ps1(1)] read_grow by simp
  moreover have "\<forall>k. k \<notin> fst ` set (c_out c) \<longrightarrow> length (s_pager s) \<le> unat k \<longrightarrow> unat k < c_next_pgno c \<longrightarrow> pager_read ps1 k = Inr page_zeroed"
    using mem.rd_wr_all_other [OF ps1(1)] by (simp add: pager_read_def pager_grow_def nth_append)
  ultimately show ?thesis using ps1 by (auto simp: run_io_writes)
qed

lemma after_flush:
  assumes fly: "in_flight crc s ch w g" and pl: "planned crc s ch w g c ch'" and n: "c_next_pgno c < 2 ^ 32"
    and len: "length ps = c_next_pgno c"
    and data: "\<forall>x \<in> set (c_out c). pager_read ps (fst x) = Inr (snd x)"
    and same: "\<And>k. k \<notin> fst ` set (c_out c) \<Longrightarrow> k \<noteq> slot_of (c_meta c) \<Longrightarrow> unat k < length (s_pager s) \<Longrightarrow> pager_read ps k = pager_read (s_pager s) k"
  shows "pager_read ps (slot_of (c_meta c)) = pager_read (s_pager s) (slot_of (c_meta c)) \<or>
      (\<exists>e. read_meta crc ps (slot_of (c_meta c)) = Inl e) \<Longrightarrow> store_inv crc ps (s_state s) ch"
    and "pager_read ps (slot_of (c_meta c)) = Inr (meta_encode crc (c_meta c)) \<Longrightarrow> holds_plan crc (s_pager s) c ps"
proof -
  have le: "length (s_pager s) \<le> length ps" using pl len by (simp add: planned_def)
  show "store_inv crc ps (s_state s) ch" if "pager_read ps (slot_of (c_meta c)) = pager_read (s_pager s) (slot_of (c_meta c)) \<or>
      (\<exists>e. read_meta crc ps (slot_of (c_meta c)) = Inl e)"
    by (rule old_state_survives [OF fly pl n le _ _ that]) (use len same in auto)
  show "holds_plan crc (s_pager s) c ps" if "pager_read ps (slot_of (c_meta c)) = Inr (meta_encode crc (c_meta c))"
    unfolding holds_plan_def using len data same that by blast
qed

text \<open>The flushed part of the disk, with the slot of the new meta page in doubt.\<close>

lemma slot_in_doubt:
  assumes fly: "in_flight crc s ch w g" and pl: "planned crc s ch w g c ch'" and n: "c_next_pgno c < 2 ^ 32"
    and d: "d_pending d \<subseteq> {slot_of (c_meta c)}" "length (d_now d) = c_next_pgno c" "length (d_durable d) = c_next_pgno c"
    and dur: "\<forall>x \<in> set (c_out c). pager_read (d_durable d) (fst x) = Inr (snd x)"
      "\<forall>k. k \<notin> fst ` set (c_out c) \<longrightarrow> k \<noteq> slot_of (c_meta c) \<longrightarrow> unat k < length (s_pager s) \<longrightarrow> pager_read (d_durable d) k = pager_read (s_pager s) k"
    and sv: "survives d ps"
  shows "pager_read ps (slot_of (c_meta c)) = pager_read (s_pager s) (slot_of (c_meta c)) \<or>
      (\<exists>e. read_meta crc ps (slot_of (c_meta c)) = Inl e) \<Longrightarrow> store_inv crc ps (s_state s) ch"
    and "pager_read ps (slot_of (c_meta c)) = Inr (meta_encode crc (c_meta c)) \<Longrightarrow> holds_plan crc (s_pager s) c ps"
proof -
  have le: "length (s_pager s) \<le> c_next_pgno c" using pl by (simp add: planned_def)
  have len: "length ps = c_next_pgno c" using sv d(2,3) by (simp add: survives_def)
  have eq: "pager_read ps k = pager_read (d_durable d) k" if "unat k < c_next_pgno c" "k \<noteq> slot_of (c_meta c)" for k
    using sv d that len by (auto simp: survives_def)
  have data: "\<forall>x \<in> set (c_out c). pager_read ps (fst x) = Inr (snd x)"
  proof
    fix x assume x: "x \<in> set (c_out c)"
    then have k: "fst x \<in> fst ` set (c_out c)" by simp
    have "fst x \<noteq> slot_of (c_meta c)" using slot_not_out [OF pl, of "c_meta c"] k by metis
    with eq planned_out [OF pl k] dur(1) x show "pager_read ps (fst x) = Inr (snd x)" by simp
  qed
  have same: "pager_read ps k = pager_read (s_pager s) k"
    if "k \<notin> fst ` set (c_out c)" "k \<noteq> slot_of (c_meta c)" "unat k < length (s_pager s)" for k
    using eq [of k] dur(2) that le by simp
  note af = after_flush [OF fly pl n len data same]
  show "pager_read ps (slot_of (c_meta c)) = pager_read (s_pager s) (slot_of (c_meta c)) \<or>
      (\<exists>e. read_meta crc ps (slot_of (c_meta c)) = Inl e) \<Longrightarrow> store_inv crc ps (s_state s) ch" by (rule af(1))
  show "pager_read ps (slot_of (c_meta c)) = Inr (meta_encode crc (c_meta c)) \<Longrightarrow> holds_plan crc (s_pager s) c ps"
    by (rule af(2))
qed

lemma take_commit_ops:
  assumes "ops = [Grow n] @ ws @ [Sync] @ [m] @ [Sync]"
  shows "take k ops = [] \<or> (\<exists>j. take k ops = [Grow n] @ take j ws \<and> k < length ops) \<or> (take k ops = [Grow n] @ ws @ [Sync] \<and> k < length ops) \<or>
    (take k ops = [Grow n] @ ws @ [Sync] @ [m] \<and> k < length ops) \<or> take k ops = ops"
proof -
  consider "k = 0" | "1 \<le> k" "k \<le> 1 + length ws" | "k = 2 + length ws" | "k = 3 + length ws" | "4 + length ws \<le> k" by linarith
  then show ?thesis
  proof cases
    case 2
    then have "take k ops = [Grow n] @ take (k - 1) ws" "k < length ops" by (cases k; simp add: assms)+
    then show ?thesis by blast
  qed (simp_all add: assms numeral_3_eq_3)
qed

lemma power_failure:
  assumes fly: "in_flight crc s ch w g" and pl: "planned crc s ch w g c ch'" and n: "c_next_pgno c < 2 ^ 32"
    and sv: "survives (run_disk (clean_disk (s_pager s)) (take k (commit_ops crc Full c))) ps"
    and slot: "pager_read ps (slot_of (c_meta c)) = pager_read (s_pager s) (slot_of (c_meta c)) \<or>
        pager_read ps (slot_of (c_meta c)) = Inr (meta_encode crc (c_meta c)) \<or> (\<exists>e. read_meta crc ps (slot_of (c_meta c)) = Inl e)"
  shows "store_inv crc ps (s_state s) ch \<or> holds_plan crc (s_pager s) c ps"
    and "take k (commit_ops crc Full c) = commit_ops crc Full c \<Longrightarrow> holds_plan crc (s_pager s) c ps"
proof -
  let ?ws = "map (\<lambda>(n, p). WritePage n p) (c_out c)" and ?m = "WritePage (slot_of (c_meta c)) (meta_encode crc (c_meta c))"
    and ?d0 = "clean_disk (s_pager s)"
  let ?a = "[Grow (c_next_pgno c)] @ ?ws"
  have ops: "commit_ops crc Full c = [Grow (c_next_pgno c)] @ ?ws @ [Sync] @ [?m] @ [Sync]"
    by (simp add: commit_ops_def flip_ops_def flush_ops_def slot_of_def)
  obtain ps1 where io: "run_io (s_pager s) ?a = Inr ps1" and len: "length ps1 = c_next_pgno c"
    and data: "\<forall>x \<in> set (c_out c). pager_read ps1 (fst x) = Inr (snd x)"
    and same: "\<forall>k. k \<notin> fst ` set (c_out c) \<longrightarrow> unat k < length (s_pager s) \<longrightarrow> pager_read ps1 k = pager_read (s_pager s) k"
    using data_written [OF fly pl] by blast
  have now1: "d_now (run_disk ?d0 ?a) = ps1" using run_disk_now [of ?d0 ?a] io by (simp add: clean_disk_def)
  have d1: "run_disk ?d0 (?a @ [Sync]) = \<lparr>d_durable = ps1, d_now = ps1, d_pending = {}\<rparr>"
    using now1 by (simp add: run_disk_append)
  have sl: "unat (slot_of (c_meta c)) < length ps1" using slot_less [of "c_meta c"] fly pl len
    by (auto simp: in_flight_def store_inv_def planned_def)
  let ?ps2 = "ps1[unat (slot_of (c_meta c)) := meta_encode crc (c_meta c)]"
  have w2: "pager_write ps1 (slot_of (c_meta c)) (meta_encode crc (c_meta c)) = Inr ?ps2" using sl by (simp add: pager_write_def)
  have d2: "run_disk ?d0 ((?a @ [Sync]) @ [?m]) = \<lparr>d_durable = ps1, d_now = ?ps2, d_pending = {slot_of (c_meta c)}\<rparr>"
    unfolding run_disk_append [of ?d0 "?a @ [Sync]"] d1 by (simp add: w2)
  have d3: "run_disk ?d0 (((?a @ [Sync]) @ [?m]) @ [Sync]) = \<lparr>d_durable = ?ps2, d_now = ?ps2, d_pending = {}\<rparr>"
    unfolding run_disk_append [of ?d0 "(?a @ [Sync]) @ [?m]"] d2 by simp
  have r2: "\<forall>x \<in> set (c_out c). pager_read ?ps2 (fst x) = Inr (snd x)"
    "\<forall>k. k \<notin> fst ` set (c_out c) \<longrightarrow> k \<noteq> slot_of (c_meta c) \<longrightarrow> unat k < length (s_pager s) \<longrightarrow> pager_read ?ps2 k = pager_read (s_pager s) k"
    "pager_read ?ps2 (slot_of (c_meta c)) = Inr (meta_encode crc (c_meta c))"
    using data same mem.rd_wr_other [OF w2] mem.rd_wr_same [OF w2] slot_not_out [OF pl, of "c_meta c"] by (metis imageI)+
  have full: "holds_plan crc (s_pager s) c ps" if all: "take k (commit_ops crc Full c) = commit_ops crc Full c"
  proof -
    have "commit_ops crc Full c = ((?a @ [Sync]) @ [?m]) @ [Sync]" using ops by simp
    with sv all d3 have sv3: "survives \<lparr>d_durable = ?ps2, d_now = ?ps2, d_pending = {}\<rparr> ps" by metis
    then have "pager_read ps (slot_of (c_meta c)) = Inr (meta_encode crc (c_meta c))" using r2(3) sl by (simp add: survives_def)
    then show ?thesis using slot_in_doubt(2) [OF fly pl n _ _ _ _ _ sv3] len r2(1,2) by simp
  qed
  then show "take k (commit_ops crc Full c) = commit_ops crc Full c \<Longrightarrow> holds_plan crc (s_pager s) c ps" .
  show "store_inv crc ps (s_state s) ch \<or> holds_plan crc (s_pager s) c ps"
    using take_commit_ops [OF ops, of k]
  proof (elim disjE exE conjE)
    assume "take k (commit_ops crc Full c) = []"
    with sv have "length ps = length (s_pager s)" "\<forall>j. unat j < length (s_pager s) \<longrightarrow> pager_read ps j = pager_read (s_pager s) j"
      by (auto simp: survives_def clean_disk_def)
    moreover have "unat (slot_of (c_meta c)) < length (s_pager s)" using slot_less [of "c_meta c"] fly by (auto simp: in_flight_def store_inv_def)
    ultimately have "store_inv crc ps (s_state s) ch" using pl by (intro old_state_survives [OF fly pl n]) (auto simp: planned_def)
    then show ?thesis ..
  next
    fix j assume "take k (commit_ops crc Full c) = [Grow (c_next_pgno c)] @ take j ?ws"
    with sv have "survives (run_disk ?d0 ([Grow (c_next_pgno c)] @ map (\<lambda>(n, p). WritePage n p) (take j (c_out c)))) ps"
      by (simp add: take_map)
    from before_flush [OF fly pl n set_take_subset this] show ?thesis ..
  next
    assume "take k (commit_ops crc Full c) = [Grow (c_next_pgno c)] @ ?ws @ [Sync]"
    with sv d1 have sv1: "survives \<lparr>d_durable = ps1, d_now = ps1, d_pending = {}\<rparr> ps" by simp
    have "unat (slot_of (c_meta c)) < length (s_pager s)" using slot_less [of "c_meta c"] fly by (auto simp: in_flight_def store_inv_def)
    then have "pager_read ps (slot_of (c_meta c)) = pager_read (s_pager s) (slot_of (c_meta c))"
      using sv1 same slot_not_out [OF pl, of "c_meta c"] sl by (simp add: survives_def)
    then show ?thesis using slot_in_doubt(1) [OF fly pl n _ _ _ _ _ sv1] len data same by simp
  next
    assume "take k (commit_ops crc Full c) = [Grow (c_next_pgno c)] @ ?ws @ [Sync] @ [?m]"
    with sv d2 have sv2: "survives \<lparr>d_durable = ps1, d_now = ?ps2, d_pending = {slot_of (c_meta c)}\<rparr> ps" by simp
    show ?thesis using slot slot_in_doubt [OF fly pl n _ _ _ _ _ sv2] len data same by auto
  next
    assume "take k (commit_ops crc Full c) = commit_ops crc Full c"
    with full show ?thesis by blast
  qed
qed

text \<open>
  Whatever the durability and wherever the power fails, a page that is neither part of the plan nor the
  slot of the new meta page reads as before.
\<close>

lemma disk_keeps:
  assumes ops: "\<forall>x \<in> set ops. (\<exists>n. x = Grow n) \<or> (\<exists>n p. x = WritePage n p \<and> n \<noteq> k) \<or> x = Sync \<or> x = SyncData"
    and d: "k \<notin> d_pending d" "unat k < length (d_durable d)" "unat k < length (d_now d)"
      "pager_read (d_durable d) k = v" "pager_read (d_now d) k = v"
  shows "k \<notin> d_pending (run_disk d ops) \<and> unat k < length (d_durable (run_disk d ops)) \<and> pager_read (d_durable (run_disk d ops)) k = v"
  using ops d
proof (induction ops arbitrary: d)
  case (Cons x xs)
  have "k \<notin> d_pending (disk_step d x) \<and> unat k < length (d_durable (disk_step d x)) \<and> unat k < length (d_now (disk_step d x)) \<and>
    pager_read (d_durable (disk_step d x)) k = v \<and> pager_read (d_now (disk_step d x)) k = v"
    using Cons.prems by (cases x)
      (auto simp: pager_read_def nth_append pager_grow_def pager_write_def nth_list_update word_unat_eq_iff split: if_splits)
  then show ?case using Cons.IH [of "disk_step d x"] Cons.prems(1) by simp
qed simp

lemma crash_keeps:
  assumes sv: "survives (run_disk (clean_disk ps0) (take j (commit_ops crc d c))) ps"
    and k: "k \<notin> fst ` set (c_out c)" "k \<noteq> slot_of (c_meta c)" "unat k < length ps0"
  shows "pager_read ps k = pager_read ps0 k"
proof -
  let ?d = "run_disk (clean_disk ps0) (take j (commit_ops crc d c))"
  have "\<forall>x \<in> set (commit_ops crc d c). (\<exists>n. x = Grow n) \<or> (\<exists>n p. x = WritePage n p \<and> n \<noteq> k) \<or> x = Sync \<or> x = SyncData"
    using k(1,2) by (cases d) (force simp: commit_ops_def flip_ops_def flush_ops_def slot_of_def)+
  then have "\<forall>x \<in> set (take j (commit_ops crc d c)). (\<exists>n. x = Grow n) \<or> (\<exists>n p. x = WritePage n p \<and> n \<noteq> k) \<or> x = Sync \<or> x = SyncData"
    using in_set_takeD by fast
  from disk_keeps [OF this, of "clean_disk ps0" "pager_read ps0 k"] k(3)
  have "k \<notin> d_pending ?d" "unat k < length (d_durable ?d)" "pager_read (d_durable ?d) k = pager_read ps0 k" by (simp_all add: clean_disk_def)
  then show ?thesis using sv by (simp add: survives_def)
qed

text \<open>The current version and those of the snapshots a transaction keeps are not in its plan.\<close>

lemma kept_version:
  assumes inv: "sys_inv crc y" and txn: "y_txn y = Some (w, g)" and pl: "planned crc (y_store y) (y_chains y) w g c ch'"
    and t: "t = cur_txn y \<or> t \<in> snap_txn_id ` set (snaps (w_snapshots w))" and p: "p \<in> visible (y_hist y t)"
  shows "p \<notin> fst ` set (c_out c) \<and> p \<noteq> slot_of (c_meta c) \<and> unat p < length (s_pager (y_store y)) \<and>
    pager_read (s_pager (y_store y)) p = v_page (y_hist y t) p"
proof -
  have i: "free_unseen (s_freelist (s_state (y_store y))) (y_hist y) (cur_txn y)"
    "\<forall>t. active y t \<longrightarrow> t \<le> cur_txn y \<and> intact crc (s_pager (y_store y)) (y_hist y t)" "\<forall>t. active y t \<longrightarrow> w_horizon w \<le> t"
    "snap_txn_id ` set (snaps (w_snapshots w)) \<subseteq> insert (cur_txn y) (snap_txn_id ` set (snaps (s_snapshots (s_state (y_store y)))))"
    "w_base w = s_meta (s_state (y_store y))"
    using inv txn by (auto simp: sys_inv_def in_flight_def txn_data_def)
  have act: "active y t" using t i(4) by (auto simp: active_def)
  have "commit_horizon (y_store y) w \<le> t"
    using t reclaim_horizon_le reclaim_horizon_snapshot by (auto simp: i(5))
  then show ?thesis using visible_not_out [OF pl i(1) _ _ _ _ p] act i(2,3) p by (auto simp: intact_def)
qed

section \<open>Without flushes\<close>

lemma zero_page_not_chain: "\<exists>e. lift_page (chain_parse page_zeroed PSnapshots stride) = Inl e"
proof -
  have "get_bytes page_zeroed 4 4 = replicate 4 0" by (simp add: page_zeroed_def get_bytes_def PAGE_SIZE_def)
  then have "page_flags page_zeroed = 0" by (simp add: page_flags_def rd32_def from_le_def numeral_eq_Suc)
  then show ?thesis by (simp add: chain_parse_def lift_page_def)
qed

text \<open>
  Under \<^verbatim>\<open>Durability::None\<close> nothing orders the meta page after the pages it names: it can be on the
  disk while a page of the snapshot chain is not.
\<close>

lemma noflush_breaks:
  assumes fly: "in_flight crc s ch w g" and pl: "planned crc s ch w g c ch'" and n: "c_next_pgno c < 2 ^ 32"
    and snap: "dc_snapshots (w_dirty_chains w)" "ch_snaps ch' = p # rest"
  shows "\<exists>ps e. survives (run_disk (clean_disk (s_pager s)) (commit_ops crc NoFlush c)) ps \<and> load_state crc ps = Inl e"
proof -
  let ?ws = "map (\<lambda>(n, p). WritePage n p) (c_out c)" and ?m = "WritePage (slot_of (c_meta c)) (meta_encode crc (c_meta c))"
    and ?d0 = "clean_disk (s_pager s)" and ?sl = "slot_of (c_meta c)"
  let ?a = "[Grow (c_next_pgno c)] @ ?ws"
  have ops: "commit_ops crc NoFlush c = ?a @ [?m]" by (simp add: commit_ops_def flip_ops_def flush_ops_def slot_of_def)
  obtain ps1 where io: "run_io (s_pager s) ?a = Inr ps1" and len: "length ps1 = c_next_pgno c"
    and data: "\<forall>x \<in> set (c_out c). pager_read ps1 (fst x) = Inr (snd x)"
    and same: "\<forall>k. k \<notin> fst ` set (c_out c) \<longrightarrow> unat k < length (s_pager s) \<longrightarrow> pager_read ps1 k = pager_read (s_pager s) k"
    and grown: "\<forall>k. k \<notin> fst ` set (c_out c) \<longrightarrow> length (s_pager s) \<le> unat k \<longrightarrow> unat k < c_next_pgno c \<longrightarrow> pager_read ps1 k = Inr page_zeroed"
    using data_written [OF fly pl] by blast
  have le: "length (s_pager s) \<le> c_next_pgno c" "2 \<le> length (s_pager s)"
    using pl fly by (auto simp: planned_def in_flight_def store_inv_def)
  then have sl: "unat ?sl < length ps1" using slot_less [of "c_meta c"] len by simp
  let ?ps2 = "ps1[unat ?sl := meta_encode crc (c_meta c)]"
  have w2: "pager_write ps1 ?sl (meta_encode crc (c_meta c)) = Inr ?ps2" using sl by (simp add: pager_write_def)
  have "length (d_now (disk_step ?d0 (Grow (c_next_pgno c)))) = c_next_pgno c" using le by (simp add: clean_disk_def pager_grow_def)
  moreover have "\<forall>x \<in> set (c_out c). unat (fst x) < c_next_pgno c" using planned_out [OF pl] by blast
  ultimately have r: "d_durable (run_disk ?d0 ?a) = s_pager s" "d_pending (run_disk ?d0 ?a) = fst ` set (c_out c)"
    using run_disk_writes [of "c_out c" "disk_step ?d0 (Grow (c_next_pgno c))"] by (simp_all add: clean_disk_def)
  have now1: "d_now (run_disk ?d0 ?a) = ps1" using run_disk_now [of ?d0 ?a] io by (simp add: clean_disk_def)
  have d: "run_disk ?d0 (?a @ [?m]) = \<lparr>d_durable = s_pager s, d_now = ?ps2, d_pending = insert ?sl (fst ` set (c_out c))\<rparr>"
    unfolding run_disk_append using r now1 w2 by simp
  have step: "chain_step w (c_freelist c) ch ch'" and out: "c_out c = w_dirty w @ chain_writes crc w (c_freelist c) ch'"
    using pl by (auto simp: planned_def)
  have "p \<in> set (changed_chains (w_dirty_chains w) ch')" using snap by (simp add: changed_chains_def)
  then have pin: "p \<in> fst ` set (c_out c)" unfolding chain_writes_nos [OF step, of crc, symmetric] out by auto
  note pb = planned_out [OF pl pin]
  let ?ps = "?ps2[unat p := page_zeroed]"
  have w3: "pager_write ?ps2 p page_zeroed = Inr ?ps" using pb len by (simp add: pager_write_def)
  have key: "pager_read ?ps k = (if unat k < length (s_pager s) then pager_read (s_pager s) k else Inr page_zeroed)"
    if k: "unat k < c_next_pgno c" "k \<noteq> ?sl" "k \<notin> fst ` set (c_out c)" for k
  proof -
    have "k \<noteq> p" using k(3) pin by blast
    then have "pager_read ?ps k = pager_read ps1 k" using mem.rd_wr_other [OF w3] mem.rd_wr_other [OF w2] k(2) by simp
    then show ?thesis using same grown k by simp
  qed
  then have sv: "survives (run_disk ?d0 (commit_ops crc NoFlush c)) ?ps"
    unfolding ops d survives_def using le len by simp
  have "holds_plan crc (s_pager s) c ?ps2"
    unfolding holds_plan_def using data same mem.rd_wr_other [OF w2] mem.rd_wr_same [OF w2] slot_not_out [OF pl, of "c_meta c"] len
    by (metis imageI length_list_update)
  from planned_store_inv [OF fly pl n this] have mat: "meta_at crc ?ps2 (c_meta c)" by (simp add: store_inv_def committed_state_def)
  have "pager_read ?ps (slot_of m) = pager_read ?ps2 (slot_of m)" for m
    using mem.rd_wr_other [OF w3, of "slot_of m"] slot_not_out [OF pl, of m] pin by metis
  moreover have "1 - slot_of (c_meta c) \<noteq> p" using pb meta_slot_cases [of "c_meta c"] by auto
  then have "pager_read ?ps (1 - slot_of (c_meta c)) = pager_read ?ps2 (1 - slot_of (c_meta c))" by (rule mem.rd_wr_other [OF w3])
  ultimately have "meta_at crc ?ps (c_meta c)" using mat by (simp add: meta_at_def read_meta_def)
  then have meta: "load_meta crc ?ps = Inr (c_meta c)" by (rule load_meta_at)
  have head: "m_snapshots (c_meta c) = Some p" using pl snap(2) by (simp add: planned_def new_meta_def chain_head_def)
  obtain e where e: "load_chain crc (pager_read ?ps) (pager_page_count ?ps) (Some p) PSnapshots SNAPSHOT_ENTRY_BYTES = Inl e"
    using zero_page_not_chain [of SNAPSHOT_ENTRY_BYTES] mem.rd_wr_same [OF w3]
    by (cases "lift_page (verify_checksum crc page_zeroed)") (auto simp: load_chain_def)
  have "\<exists>e. load_state crc ?ps = Inl e" unfolding load_state_def using meta head e by (auto split: sum.splits)
  with sv show ?thesis by blast
qed

section \<open>Properties\<close>

text \<open>
  C1. Crash atomicity. The power may fail after any of the operations of a commit at the default
  durability, and leave any bytes in the pages that were not flushed. As long as a torn meta page does
  not pass its own checks, the file then loads as the state before the commit or as the state after it;
  once the commit has returned, only as the latter. With the state after it, every page the commit wrote
  is on the disk; and either way no page of the version that was current, or of a snapshot the
  transaction keeps, has changed.
\<close>

theorem crash_atomic:
  assumes "sys_reach crc cap y" "y_txn y = Some (w, g)" "plan_commit crc (y_store y) (txn_absorb w) = Inr c" "c_next_pgno c < 2 ^ 32"
    and "survives (run_disk (clean_disk (s_pager (y_store y))) (take k (commit_ops crc Full c))) ps"
    and "pager_read ps (slot_of (c_meta c)) = pager_read (s_pager (y_store y)) (slot_of (c_meta c)) \<or>
         pager_read ps (slot_of (c_meta c)) = Inr (meta_encode crc (c_meta c)) \<or> (\<exists>e. read_meta crc ps (slot_of (c_meta c)) = Inl e)"
  shows "\<exists>st. load_state crc ps = Inr st \<and>
           (state_equiv st (committed_state (y_store y) w c) \<and> holds_plan crc (s_pager (y_store y)) c ps \<or>
            state_equiv st (s_state (y_store y)) \<and> k < length (commit_ops crc Full c)) \<and>
           (\<forall>t p. t = cur_txn y \<or> t \<in> snap_txn_id ` set (snaps (w_snapshots w)) \<longrightarrow> p \<in> visible (y_hist y t) \<longrightarrow>
              pager_read ps p = v_page (y_hist y t) p)"
proof -
  have fly: "in_flight crc (y_store y) (y_chains y) w g" using sys_reach_inv [OF assms(1)] assms(2) by (simp add: sys_inv_def)
  obtain ch' where pl: "planned crc (y_store y) (y_chains y) w g c ch'" using commit_planned [OF fly assms(3,4)] by blast
  note pf = power_failure [OF fly pl assms(4,5,6)] and inv' = planned_store_inv [OF fly pl assms(4)]
  have "pager_read ps p = v_page (y_hist y t) p"
    if "t = cur_txn y \<or> t \<in> snap_txn_id ` set (snaps (w_snapshots w))" "p \<in> visible (y_hist y t)" for t p
    using crash_keeps [OF assms(5)] kept_version [OF sys_reach_inv [OF assms(1)] assms(2) pl that] by simp
  moreover have "\<exists>st. load_state crc ps = Inr st \<and> (state_equiv st (committed_state (y_store y) w c) \<and> holds_plan crc (s_pager (y_store y)) c ps \<or>
            state_equiv st (s_state (y_store y)) \<and> k < length (commit_ops crc Full c))"
  proof (cases "k < length (commit_ops crc Full c)")
    case True
    with pf(1) show ?thesis using store_inv_loads inv' by meson
  next
    case False
    then show ?thesis using pf(2) store_inv_loads inv' by (metis not_less take_all)
  qed
  ultimately show ?thesis by blast
qed

theorem crash_atomic_witness:
  "\<exists>y w g c ps st. sys_reach demo_crc None y \<and> y_txn y = Some (w, g) \<and> plan_commit demo_crc (y_store y) (txn_absorb w) = Inr c \<and>
     survives (run_disk (clean_disk (s_pager (y_store y))) (take 1 (commit_ops demo_crc Full c))) ps \<and> load_state demo_crc ps = Inr st"
proof -
  obtain s where s: "s_freelist (s_state s) = []" "snaps (s_snapshots (s_state s)) = []"
    "length (s_pager s) = 2" "s_capacity s = None" "s_meta (s_state s) = meta_default\<lparr>m_page_count := 2\<rparr>"
    and reach: "sys_reach demo_crc None ((sys_of s)\<lparr>y_txn := Some (demo_txn s, demo_ghost)\<rparr>)"
    using demo_start by auto
  let ?y = "(sys_of s)\<lparr>y_txn := Some (demo_txn s, demo_ghost)\<rparr>"
  obtain c where c: "plan_commit demo_crc s (txn_absorb (demo_txn s)) = Inr c" "c_next_pgno c = 4"
    using demo_plan [OF s(5,2,1,4,3)] by blast
  have st: "y_store ?y = s" by (simp add: sys_of_def)
  have sv: "survives (run_disk (clean_disk (s_pager (y_store ?y))) (take 1 (commit_ops demo_crc Full c))) (s_pager s)"
    using s(3) c(2) by (simp add: st commit_ops_def flip_ops_def survives_def clean_disk_def pager_grow_def)
  from crash_atomic [OF reach _ _ _ sv, of "demo_txn s" demo_ghost] c st obtain st' where "load_state demo_crc (s_pager s) = Inr st'" by auto
  with reach c sv st show ?thesis
    by (intro exI [of _ ?y] exI [of _ "demo_txn s"] exI [of _ demo_ghost] exI [of _ c] exI [of _ "s_pager s"] exI [of _ st']) simp
qed

text \<open>
  C27. At \<^verbatim>\<open>Durability::None\<close> a power failure can leave a file that does not open: there is a commit
  after which the new meta page is on the disk and a page it names is not.
\<close>

theorem durability_none_can_break_the_file:
  "\<exists>y w g c ps e. sys_reach demo_crc None y \<and> y_txn y = Some (w, g) \<and> plan_commit demo_crc (y_store y) (txn_absorb w) = Inr c \<and>
     survives (run_disk (clean_disk (s_pager (y_store y))) (commit_ops demo_crc NoFlush c)) ps \<and> load_state demo_crc ps = Inl e"
proof -
  obtain s where s: "s_freelist (s_state s) = []" "snaps (s_snapshots (s_state s)) = []"
    "length (s_pager s) = 2" "s_capacity s = None" "s_meta (s_state s) = meta_default\<lparr>m_page_count := 2\<rparr>"
    and reach: "sys_reach demo_crc None ((sys_of s)\<lparr>y_txn := Some (demo_txn s, demo_ghost)\<rparr>)"
    using demo_start by auto
  let ?y = "(sys_of s)\<lparr>y_txn := Some (demo_txn s, demo_ghost)\<rparr>" and ?w = "demo_txn s"
  obtain c where c: "plan_commit demo_crc s (txn_absorb ?w) = Inr c" "c_next_pgno c = 4"
    using demo_plan [OF s(5,2,1,4,3)] by blast
  have st: "y_store ?y = s" by (simp add: sys_of_def)
  have fly: "in_flight demo_crc s empty_chains ?w demo_ghost" using sys_reach_inv [OF reach] by (simp add: sys_inv_def sys_of_def)
  have n: "c_next_pgno c < 2 ^ 32" using c(2) by simp
  obtain ch' where pl: "planned demo_crc s empty_chains ?w demo_ghost c ch'" using commit_planned [OF fly c(1) n] by blast
  have w: "dc_snapshots (w_dirty_chains ?w)" "length (snaps (w_snapshots ?w)) = Suc 0" using s(2)
    by (simp_all add: demo_txn_def txn_create_snapshot_def registry_create_def begin_write_def txn_new_def Let_def)
  have "chain_pages_needed SNAPSHOT_ENTRY_BYTES (Suc 0) = 1" using capacities by (simp add: chain_pages_needed_def)
  then have "1 \<le> length (ch_snaps ch')" using pl w by (simp add: planned_def chain_step_def)
  then obtain p rest where "ch_snaps ch' = p # rest" by (cases "ch_snaps ch'") auto
  from noflush_breaks [OF fly pl n w(1) this] obtain ps e where
    "survives (run_disk (clean_disk (s_pager s)) (commit_ops demo_crc NoFlush c)) ps" "load_state demo_crc ps = Inl e" by blast
  with reach c st show ?thesis
    by (intro exI [of _ ?y] exI [of _ ?w] exI [of _ demo_ghost] exI [of _ c] exI [of _ ps] exI [of _ e]) simp
qed

end
