(* ===== verification/Big_Reclaim.thy ===== *)
theory Big_Reclaim
  imports Big_Crash
begin

text \<open>
  Pages that come back: what \<^verbatim>\<open>truncate_tail\<close> gives up is nobody's, and what a commit that drops a
  snapshot writes over may be that snapshot's. Both are shown on a store of three commits: the first
  writes a chain of root records, the second takes a snapshot of it and replaces it, the third drops
  the snapshot.
\<close>

section \<open>Three commits\<close>

lemma sys_reach_step: "sys_reach crc cap y \<Longrightarrow> sys_step crc y y' \<Longrightarrow> sys_reach crc cap y'"
  unfolding sys_reach_def by (meson rtranclp.rtrancl_into_rtrancl)

lemma sys_reach_begin:
  assumes "sys_reach crc cap y" "y_txn y = None" "unat (cur_txn y) + 1 < 2 ^ 64"
  shows "sys_reach crc cap (y\<lparr>y_txn := Some (begin_write (y_store y), ghost0)\<rparr>)"
  using sys_reach_step [OF assms(1) sys_begin_write [OF assms(2,3)]] .

lemma sys_reach_call:
  assumes "sys_reach crc cap (y\<lparr>y_txn := Some (w, g)\<rparr>)"
    "txn_step (s_pager (y_store y)) (s_capacity (y_store y)) (kept_pages (y_chains y)) (s_freelist (s_state (y_store y))) (w, g) (w', g')"
  shows "sys_reach crc cap (y\<lparr>y_txn := Some (w', g')\<rparr>)"
  using sys_reach_step [OF assms(1) sys_txn [of "y\<lparr>y_txn := Some (w, g)\<rparr>" w g w' g']] assms(2) by simp

text \<open>A commit whose plan is known, and the chains it leaves.\<close>

lemma sys_reach_commit:
  assumes reach: "sys_reach crc cap (y\<lparr>y_txn := Some (w, g)\<rparr>)" and plan: "plan_commit crc (y_store y) (txn_absorb w) = Inr c"
    and n: "c_next_pgno c < 2 ^ 32"
  obtains z where "sys_reach crc cap z" "y_txn z = None" "s_state (y_store z) = committed_state (y_store y) w c"
    "length (s_pager (y_store z)) = c_next_pgno c" "s_readers (y_store z) = s_readers (y_store y)"
    "s_capacity (y_store z) = s_capacity (y_store y)" "c_meta c = new_meta w (c_next_pgno c) (y_chains z)"
    "map fst (c_out c) = map fst (w_dirty w) @ changed_chains (w_dirty_chains w) (y_chains z)"
    "chain_step w (c_freelist c) (y_chains y) (y_chains z)"
proof -
  let ?y = "y\<lparr>y_txn := Some (w, g)\<rparr>"
  have fly: "in_flight crc (y_store y) (y_chains y) w g" using sys_reach_inv [OF reach] by (simp add: sys_inv_def)
  obtain ps' ch' where com: "txn_commit crc (y_store y) w = Inr (w_txn_id w, (y_store y)\<lparr>s_pager := ps', s_state := committed_state (y_store y) w c\<rparr>)"
    and pl: "planned crc (y_store y) (y_chains y) w g c ch'" "holds_plan crc (s_pager (y_store y)) c ps'"
    using commit_spec [OF fly plan n] by blast
  have step: "chain_step w (c_freelist c) (y_chains y) ch'" "c_out c = w_dirty w @ chain_writes crc w (c_freelist c) ch'"
    using pl(1) by (auto simp: planned_def)
  have "map fst (c_out c) = map fst (w_dirty w) @ changed_chains (w_dirty_chains w) ch'"
    unfolding step(2) by (simp add: chain_writes_nos [OF step(1)])
  moreover define z where "z = ?y\<lparr>y_store := (y_store y)\<lparr>s_pager := ps', s_state := committed_state (y_store y) w c\<rparr>, y_chains := ch',
    y_hist := (y_hist y)(w_txn_id w := next_version ?y g w ch' ps'), y_txn := None\<rparr>"
  moreover have "sys_step crc ?y z"
    using sys_commit [of ?y w g crc c "w_txn_id w" _ ch'] plan n com pl(1) by (simp add: z_def)
  moreover have "length ps' = c_next_pgno c" "c_meta c = new_meta w (c_next_pgno c) ch'" using pl by (simp_all add: planned_def holds_plan_def)
  ultimately show thesis using step(1) by (intro that [OF sys_reach_step [OF reach, of z]]) simp_all
qed

definition demo_key :: fragment_key where
  "demo_key = FragmentKey 1 2 3 4"

definition demo_snapshot :: snapshot where
  "demo_snapshot = fst (registry_create \<lparr>snaps = [], next_id = 1\<rparr> 1 2 0 [] False)"

definition demo_writes :: "store \<Rightarrow> write_txn" where
  "demo_writes s = txn_set_root demo_key 0 (begin_write s)"

definition demo_replaces :: "store \<Rightarrow> write_txn" where
  "demo_replaces s = snd (txn_remove_root demo_key (snd (txn_create_snapshot 0 [] False (begin_write s))))"

definition demo_drops :: "store \<Rightarrow> write_txn" where
  "demo_drops s = snd (txn_drop_snapshot 1 (begin_write s))"

lemmas demo_defs = demo_key_def demo_snapshot_def demo_writes_def demo_replaces_def demo_drops_def txn_set_root_def txn_remove_root_def
  txn_create_snapshot_def txn_drop_snapshot_def registry_create_def registry_remove_def begin_write_def txn_new_def roots_set_def roots_remove_def

lemmas plan_defs = plan_commit_def place_chain_def recycle_chain_def alloc_one_def alloc_tail_def alloc_freelist_pages_def
  freelist_compact_def freelist_pages_loop.simps freelist_push_def merge_step_def reclaim_horizon_def oldest_reader_def oldest_txn_id_def
  pager_page_count_def chain_head_def

lemma no_chain [simp]: "chain_pgnos rd n None ty stride = Inr []"
  by (simp add: chain_pgnos_def)

lemma few_pages [simp]:
  "chain_pages_needed ROOT_RECORD_BYTES (Suc 0) = 1" "chain_pages_needed SNAPSHOT_ENTRY_BYTES (Suc 0) = 1"
  "chain_pages_needed FREE_ENTRY_BYTES (Suc 0) = 1" "chain_pages_needed FREE_ENTRY_BYTES (Suc (Suc 0)) = 1"
  "chain_pages_needed ROOT_RECORD_BYTES 0 = 0" "chain_pages_needed SNAPSHOT_ENTRY_BYTES 0 = 0" "chain_pages_needed FREE_ENTRY_BYTES 0 = 0"
  by (simp_all add: chain_pages_needed_def chain_capacity_def ROOT_RECORD_BYTES_def SNAPSHOT_ENTRY_BYTES_def
      FREE_ENTRY_BYTES_def CHAIN_DATA_def layout_defs)

abbreviation at_state :: "store \<Rightarrow> nat \<Rightarrow> txn_id \<Rightarrow> pgno option \<Rightarrow> pgno option \<Rightarrow> pgno option \<Rightarrow> root_records \<Rightarrow> snapshot_registry \<Rightarrow> freelist \<Rightarrow> bool" where
  "at_state s len t roots sns free rs reg f \<equiv> length (s_pager s) = len \<and> s_capacity s = None \<and> s_readers s = [] \<and>
     m_txn_id (s_meta (s_state s)) = t \<and> m_root_records (s_meta (s_state s)) = roots \<and> m_snapshots (s_meta (s_state s)) = sns \<and>
     m_freelist (s_meta (s_state s)) = free \<and> s_roots (s_state s) = rs \<and> s_snapshots (s_state s) = reg \<and> s_freelist (s_state s) = f"

lemma demo_absorb:
  "txn_absorb (demo_writes s) = demo_writes s" "txn_absorb (demo_replaces s) = demo_replaces s" "txn_absorb (demo_drops s) = demo_drops s"
  by (simp_all add: txn_absorb_def absorb_scratch_def demo_defs Let_def split: prod.splits)

lemma plan_writes:
  assumes "at_state s 2 0 None None None [] \<lparr>snaps = [], next_id = 1\<rparr> []"
  shows "\<exists>c. plan_commit crc s (demo_writes s) = Inr c \<and> map fst (c_out c) = [2] \<and> c_next_pgno c = 3 \<and> c_freelist c = []"
  using assms by (simp add: demo_defs plan_defs Let_def build_chain_nos)

lemma plan_replaces:
  assumes "at_state s 3 1 (Some 2) None None [(demo_key, 0)] \<lparr>snaps = [], next_id = 1\<rparr> []"
    and "chain_pgnos (pager_read (s_pager s)) 3 (Some 2) PRootRecords ROOT_RECORD_BYTES = Inr [2]"
  shows "\<exists>c. plan_commit crc s (demo_replaces s) = Inr c \<and> map fst (c_out c) = [3, 4] \<and> c_next_pgno c = 5 \<and>
    c_freelist c = [\<lparr>freed_at = 2, run_first = 2, run_len = 1\<rparr>]"
  using assms by (simp add: demo_defs plan_defs Let_def build_chain_nos word_le_nat_alt)

lemma plan_drops:
  assumes "at_state s 5 2 None (Some 3) (Some 4) [] \<lparr>snaps = [demo_snapshot], next_id = 2\<rparr> [\<lparr>freed_at = 2, run_first = 2, run_len = 1\<rparr>]"
    and "chain_pgnos (pager_read (s_pager s)) 5 (Some 3) PSnapshots SNAPSHOT_ENTRY_BYTES = Inr [3]"
      "chain_pgnos (pager_read (s_pager s)) 5 (Some 4) PFreelist FREE_ENTRY_BYTES = Inr [4]"
  shows "\<exists>c. plan_commit crc s (demo_drops s) = Inr c \<and> map fst (c_out c) = [2] \<and> c_next_pgno c = 5 \<and>
    c_freelist c = [\<lparr>freed_at = 3, run_first = 3, run_len = 2\<rparr>]"
  using assms by (simp add: demo_defs plan_defs Let_def build_chain_nos)

text \<open>The chains of a reachable state are where its meta page says.\<close>

lemma sys_chains:
  assumes "sys_reach crc cap y"
  shows "chain_pgnos (pager_read (s_pager (y_store y))) (length (s_pager (y_store y))) (m_root_records (s_meta (s_state (y_store y)))) PRootRecords ROOT_RECORD_BYTES
       = Inr (ch_roots (y_chains y))"
    "chain_pgnos (pager_read (s_pager (y_store y))) (length (s_pager (y_store y))) (m_snapshots (s_meta (s_state (y_store y)))) PSnapshots SNAPSHOT_ENTRY_BYTES
       = Inr (ch_snaps (y_chains y))"
    "chain_pgnos (pager_read (s_pager (y_store y))) (length (s_pager (y_store y))) (m_freelist (s_meta (s_state (y_store y)))) PFreelist FREE_ENTRY_BYTES
       = Inr (ch_free (y_chains y))"
proof -
  have inv: "store_inv crc (s_pager (y_store y)) (s_state (y_store y)) (y_chains y)" using sys_reach_inv [OF assms] by (simp add: sys_inv_def)
  then obtain fd where on: "chain_on crc (s_pager (y_store y)) PRootRecords ROOT_RECORD_BYTES (m_root_records (s_meta (s_state (y_store y)))) (ch_roots (y_chains y)) (roots_encode (s_roots (s_state (y_store y))))"
    "chain_on crc (s_pager (y_store y)) PSnapshots SNAPSHOT_ENTRY_BYTES (m_snapshots (s_meta (s_state (y_store y)))) (ch_snaps (y_chains y)) (registry_encode (s_snapshots (s_state (y_store y))))"
    "chain_on crc (s_pager (y_store y)) PFreelist FREE_ENTRY_BYTES (m_freelist (s_meta (s_state (y_store y)))) (ch_free (y_chains y)) (freelist_encode fd)"
    unfolding store_inv_def by blast
  note rd = chain_on_reads(2) [unfolded pager_page_count_def]
  show "chain_pgnos (pager_read (s_pager (y_store y))) (length (s_pager (y_store y))) (m_root_records (s_meta (s_state (y_store y)))) PRootRecords ROOT_RECORD_BYTES
       = Inr (ch_roots (y_chains y))" by (rule rd [OF on(1)])
  show "chain_pgnos (pager_read (s_pager (y_store y))) (length (s_pager (y_store y))) (m_snapshots (s_meta (s_state (y_store y)))) PSnapshots SNAPSHOT_ENTRY_BYTES
       = Inr (ch_snaps (y_chains y))" by (rule rd [OF on(2)])
  show "chain_pgnos (pager_read (s_pager (y_store y))) (length (s_pager (y_store y))) (m_freelist (s_meta (s_state (y_store y)))) PFreelist FREE_ENTRY_BYTES
       = Inr (ch_free (y_chains y))" by (rule rd [OF on(3)])
qed

lemma demo_wrote:
  obtains y where "sys_reach demo_crc None y" "y_txn y = None" "ch_roots (y_chains y) = [2]"
    "at_state (y_store y) 3 1 (Some 2) None None [(demo_key, 0)] \<lparr>snaps = [], next_id = 1\<rparr> []"
proof -
  obtain s where s: "store_init demo_crc None [] = Inr s" "at_state s 2 0 None None None [] \<lparr>snaps = [], next_id = 1\<rparr> []"
    using store_init_spec [of demo_crc None] by (auto simp: META_PAGES_def meta_default_def)
  let ?y = "sys_of s" and ?w = "demo_writes s"
  have r0: "sys_reach demo_crc None ?y" using s(1) by (auto simp: sys_reach_def)
  have st: "y_store ?y = s" "y_txn ?y = None" by (simp_all add: sys_of_def)
  have t: "unat (cur_txn ?y) + 1 < 2 ^ 64" using s(2) by (simp add: st)
  have r1: "sys_reach demo_crc None (?y\<lparr>y_txn := Some (?w, ghost0)\<rparr>)"
    by (rule sys_reach_call [OF sys_reach_begin [OF r0 st(2) t]]) (simp only: st demo_writes_def step_set_root)
  obtain c where c: "plan_commit demo_crc s ?w = Inr c" "map fst (c_out c) = [2]" "c_next_pgno c = 3" "c_freelist c = []"
    using plan_writes [OF s(2), of demo_crc] by (elim exE conjE)
  have p: "plan_commit demo_crc (y_store ?y) (txn_absorb ?w) = Inr c" "c_next_pgno c < 2 ^ 32" using c by (simp_all add: st demo_absorb)
  obtain z where z: "sys_reach demo_crc None z" "y_txn z = None" "s_state (y_store z) = committed_state (y_store ?y) ?w c"
    "length (s_pager (y_store z)) = c_next_pgno c" "s_readers (y_store z) = s_readers (y_store ?y)" "s_capacity (y_store z) = s_capacity (y_store ?y)"
    "c_meta c = new_meta ?w (c_next_pgno c) (y_chains z)"
    "map fst (c_out c) = map fst (w_dirty ?w) @ changed_chains (w_dirty_chains ?w) (y_chains z)"
    "chain_step ?w (c_freelist c) (y_chains ?y) (y_chains z)"
    by (rule sys_reach_commit [OF r1 p])
  have w: "w_dirty ?w = []" "w_dirty_chains ?w = \<lparr>dc_roots = True, dc_catalog = False, dc_snapshots = False\<rparr>" "w_roots ?w = [(demo_key, 0)]"
    "w_snapshots ?w = \<lparr>snaps = [], next_id = 1\<rparr>" "w_txn_id ?w = 1"
    using s(2) by (simp_all add: demo_defs Let_def)
  have "1 \<le> length (ch_roots (y_chains z))" "ch_snaps (y_chains z) = ch_snaps (y_chains ?y)" using z(9) w by (simp_all add: chain_step_def)
  moreover have "[2] = ch_roots (y_chains z) @ ch_free (y_chains z)" using z(8) c(2) w by (simp add: changed_chains_def)
  moreover have "ch_snaps (y_chains ?y) = []" by (simp add: sys_of_def empty_chains_def)
  ultimately have "ch_roots (y_chains z) = [2]" "ch_free (y_chains z) = []" "ch_snaps (y_chains z) = []"
    by (auto simp: append_eq_Cons_conv Cons_eq_append_conv)
  then show thesis using z w c by (intro that [OF z(1,2)]) (simp_all add: s(2) st committed_state_def new_meta_def chain_head_def)
qed

lemma demo_replaced:
  obtains y where "sys_reach demo_crc None y" "y_txn y = None" "ch_snaps (y_chains y) = [3]" "ch_free (y_chains y) = [4]"
    "at_state (y_store y) 5 2 None (Some 3) (Some 4) [] \<lparr>snaps = [demo_snapshot], next_id = 2\<rparr> [\<lparr>freed_at = 2, run_first = 2, run_len = 1\<rparr>]"
proof -
  obtain y where y: "sys_reach demo_crc None y" "y_txn y = None" "ch_roots (y_chains y) = [2]"
    and at: "at_state (y_store y) 3 1 (Some 2) None None [(demo_key, 0)] \<lparr>snaps = [], next_id = 1\<rparr> []" by (rule demo_wrote)
  let ?w = "demo_replaces (y_store y)"
  have t: "unat (cur_txn y) + 1 < 2 ^ 64" using at by simp
  have "sys_reach demo_crc None (y\<lparr>y_txn := Some (snd (txn_create_snapshot 0 [] False (begin_write (y_store y))), ghost0)\<rparr>)"
    by (rule sys_reach_call [OF sys_reach_begin [OF y(1,2) t] step_create_snapshot])
  then have r: "sys_reach demo_crc None (y\<lparr>y_txn := Some (?w, ghost0)\<rparr>)"
    unfolding demo_replaces_def by (rule sys_reach_call [OF _ step_remove_root])
  have ch: "chain_pgnos (pager_read (s_pager (y_store y))) 3 (Some 2) PRootRecords ROOT_RECORD_BYTES = Inr [2]"
    using sys_chains(1) [OF y(1)] at y(3) by simp
  obtain c where c: "plan_commit demo_crc (y_store y) ?w = Inr c" "map fst (c_out c) = [3, 4]" "c_next_pgno c = 5"
    "c_freelist c = [\<lparr>freed_at = 2, run_first = 2, run_len = 1\<rparr>]"
    using plan_replaces [OF at ch, of demo_crc] by (elim exE conjE)
  have p: "plan_commit demo_crc (y_store y) (txn_absorb ?w) = Inr c" "c_next_pgno c < 2 ^ 32" using c by (simp_all add: demo_absorb)
  obtain z where z: "sys_reach demo_crc None z" "y_txn z = None" "s_state (y_store z) = committed_state (y_store y) ?w c"
    "length (s_pager (y_store z)) = c_next_pgno c" "s_readers (y_store z) = s_readers (y_store y)" "s_capacity (y_store z) = s_capacity (y_store y)"
    "c_meta c = new_meta ?w (c_next_pgno c) (y_chains z)"
    "map fst (c_out c) = map fst (w_dirty ?w) @ changed_chains (w_dirty_chains ?w) (y_chains z)"
    "chain_step ?w (c_freelist c) (y_chains y) (y_chains z)"
    by (rule sys_reach_commit [OF r p])
  have w: "w_dirty ?w = []" "w_dirty_chains ?w = \<lparr>dc_roots = True, dc_catalog = False, dc_snapshots = True\<rparr>" "w_roots ?w = []"
    "w_snapshots ?w = \<lparr>snaps = [demo_snapshot], next_id = 2\<rparr>" "w_txn_id ?w = 2"
    using at by (simp_all add: demo_defs Let_def)
  have "1 \<le> length (ch_snaps (y_chains z))" "1 \<le> length (ch_free (y_chains z))" using z(9) w c(4) by (simp_all add: chain_step_def)
  moreover have "[3, 4] = ch_roots (y_chains z) @ ch_snaps (y_chains z) @ ch_free (y_chains z)" using z(8) c(2) w by (simp add: changed_chains_def)
  ultimately have "ch_roots (y_chains z) = []" "ch_snaps (y_chains z) = [3]" "ch_free (y_chains z) = [4]"
    by (auto simp: append_eq_Cons_conv Cons_eq_append_conv)
  then show thesis using z w c by (intro that [OF z(1,2)]) (simp_all add: at committed_state_def new_meta_def chain_head_def)
qed

lemma demo_dropping:
  obtains y c where "sys_reach demo_crc None y" "y_txn y = None" "sys_reach demo_crc None (y\<lparr>y_txn := Some (demo_drops (y_store y), ghost0)\<rparr>)"
    "plan_commit demo_crc (y_store y) (txn_absorb (demo_drops (y_store y))) = Inr c" "map fst (c_out c) = [2]" "c_next_pgno c = 5"
    "c_freelist c = [\<lparr>freed_at = 3, run_first = 3, run_len = 2\<rparr>]" "s_readers (y_store y) = []" "length (s_pager (y_store y)) = 5"
    "s_snapshots (s_state (y_store y)) = \<lparr>snaps = [demo_snapshot], next_id = 2\<rparr>" "w_txn_id (demo_drops (y_store y)) = 3"
proof -
  obtain y where y: "sys_reach demo_crc None y" "y_txn y = None" "ch_snaps (y_chains y) = [3]" "ch_free (y_chains y) = [4]"
    and at: "at_state (y_store y) 5 2 None (Some 3) (Some 4) [] \<lparr>snaps = [demo_snapshot], next_id = 2\<rparr> [\<lparr>freed_at = 2, run_first = 2, run_len = 1\<rparr>]"
    by (rule demo_replaced)
  let ?w = "demo_drops (y_store y)"
  have t: "unat (cur_txn y) + 1 < 2 ^ 64" using at by simp
  have r: "sys_reach demo_crc None (y\<lparr>y_txn := Some (?w, ghost0)\<rparr>)"
    unfolding demo_drops_def by (rule sys_reach_call [OF sys_reach_begin [OF y(1,2) t] step_drop_snapshot])
  have ch: "chain_pgnos (pager_read (s_pager (y_store y))) 5 (Some 3) PSnapshots SNAPSHOT_ENTRY_BYTES = Inr [3]"
    "chain_pgnos (pager_read (s_pager (y_store y))) 5 (Some 4) PFreelist FREE_ENTRY_BYTES = Inr [4]"
    using sys_chains(2,3) [OF y(1)] at y(3,4) by simp_all
  obtain c where c: "plan_commit demo_crc (y_store y) ?w = Inr c" "map fst (c_out c) = [2]" "c_next_pgno c = 5"
    "c_freelist c = [\<lparr>freed_at = 3, run_first = 3, run_len = 2\<rparr>]"
    using plan_drops [OF at ch, of demo_crc] by (elim exE conjE)
  have "w_txn_id ?w = 3" using at by (simp add: demo_defs Let_def split: prod.splits)
  then show thesis using c at by (intro that [OF y(1,2) r]) (simp_all add: demo_absorb)
qed

section \<open>A snapshot that is being dropped\<close>

lemma parse_one_type: "chain_parse p ty stride = Inr c \<Longrightarrow> page_type_u8 ty \<noteq> page_type_u8 ty' \<Longrightarrow> \<exists>e. chain_parse p ty' stride' = Inl e"
  by (auto simp: chain_parse_def Let_def split: if_splits)

text \<open>
  The horizon of a commit is that of the snapshots the transaction keeps. When the new freelist is
  written over the root records of one it drops, the old meta page still names that snapshot.
\<close>

lemma overwritten_snapshot:
  assumes fly: "in_flight crc s ch w g" and pl: "planned crc s ch w g c ch'" and n: "c_next_pgno c < 2 ^ 32"
    and get: "registry_get (s_snapshots (s_state s)) i = Some x" and root: "chain_head (ch_free ch') = Some (snap_root_records x)" "snap_root_records x \<noteq> 0"
  shows "\<exists>ps s' e. survives (run_disk (clean_disk (s_pager s)) (take (length (c_out c) + 2) (commit_ops crc Full c))) ps \<and>
    store_load crc cap ps = Inr s' \<and> registry_get (s_snapshots (s_state s')) i = Some x \<and> begin_read_at crc i s' = Inl e"
proof -
  let ?ws = "map (\<lambda>(n, p). WritePage n p) (c_out c)" and ?d0 = "clean_disk (s_pager s)" and ?p = "snap_root_records x"
  let ?a = "[Grow (c_next_pgno c)] @ ?ws"
  have ops: "take (length (c_out c) + 2) (commit_ops crc Full c) = ?a @ [Sync]" by (simp add: commit_ops_def flip_ops_def flush_ops_def)
  obtain ps where io: "run_io (s_pager s) ?a = Inr ps" and len: "length ps = c_next_pgno c"
    and data: "\<forall>x \<in> set (c_out c). pager_read ps (fst x) = Inr (snd x)"
    and same: "\<forall>k. k \<notin> fst ` set (c_out c) \<longrightarrow> unat k < length (s_pager s) \<longrightarrow> pager_read ps k = pager_read (s_pager s) k"
    using data_written [OF fly pl] by blast
  have d: "run_disk ?d0 (?a @ [Sync]) = \<lparr>d_durable = ps, d_now = ps, d_pending = {}\<rparr>"
    using run_disk_now [of ?d0 ?a] io by (simp add: run_disk_append clean_disk_def)
  have sv: "survives (run_disk ?d0 (take (length (c_out c) + 2) (commit_ops crc Full c))) ps" unfolding ops d survives_def by simp
  have "unat (slot_of (c_meta c)) < length (s_pager s)" using slot_less [of "c_meta c"] fly by (auto simp: in_flight_def store_inv_def)
  then have "pager_read ps (slot_of (c_meta c)) = pager_read (s_pager s) (slot_of (c_meta c))" using same slot_not_out [OF pl] by blast
  then have "store_inv crc ps (s_state s) ch" using after_flush(1) [OF fly pl n len data] same by blast
  from store_inv_loads [OF this] obtain st where st: "load_state crc ps = Inr st" "state_equiv st (s_state s)" by blast
  have get': "registry_get (s_snapshots st) i = Some x" using get st(2) by (simp add: registry_get_def state_equiv_def)
  have step: "chain_step w (c_freelist c) ch ch'" and out: "c_out c = w_dirty w @ chain_writes crc w (c_freelist c) ch'"
    and nd: "nodup (free_nos (c_freelist c) + mset (map unat (all_chain_pages ch')) + mset (map unat (owned g)))"
    using pl by (auto simp: planned_def)
  have bc: "pager_read ps k = Inr q" if "(k, q) \<in> set (build_chain crc PFreelist FREE_ENTRY_BYTES (freelist_encode (c_freelist c)) (ch_free ch'))" for k q
    using data that by (force simp: out chain_writes_def)
  have in2: "2 \<le> unat k \<and> unat k < length ps" if "k \<in> set (ch_free ch')" for k
    using planned_free_out [OF pl] planned_out [OF pl] that len by auto
  have "distinct (ch_free ch')" using nd by (auto simp: nodup_plus all_chain_pages_def simp del: mset_map)
  then have "chain_on crc ps PFreelist FREE_ENTRY_BYTES (chain_head (ch_free ch')) (ch_free ch') (freelist_encode (c_freelist c))"
    using step bc in2 encoded_lengths(3) [of _ "c_freelist c"] capacities
    by (intro chain_on_build) (auto simp: chain_step_def FREE_ENTRY_BYTES_def)
  moreover obtain rest where "ch_free ch' = ?p # rest" using root(1) by (cases "ch_free ch'") (simp_all add: chain_head_def)
  ultimately obtain ess where "chained crc (pager_read ps) PFreelist FREE_ENTRY_BYTES (?p # rest) ess" by (auto simp: chain_on_def)
  then obtain q c' where q: "pager_read ps ?p = Inr q" "chain_parse q PFreelist FREE_ENTRY_BYTES = Inr c'" by (cases ess) auto
  obtain e where e: "chain_parse q PRootRecords ROOT_RECORD_BYTES = Inl e" using parse_one_type [OF q(2), of PRootRecords] by auto
  have "\<exists>e. load_chain crc (pager_read ps) k (Some ?p) PRootRecords ROOT_RECORD_BYTES = Inl e" for k
    using q(1) e by (auto simp: load_chain_def lift_page_def split: sum.splits)
  then have "\<exists>e. begin_read_at crc i \<lparr>s_pager = ps, s_capacity = cap, s_state = st, s_readers = [], s_durability = Full\<rparr> = Inl e"
    using get' root(2) by (auto simp: begin_read_at_def Let_def split: sum.splits) (metis Inl_not_Inr)
  then show ?thesis using sv st(1) get' by (auto simp: store_load_def)
qed

section \<open>The end of the file after the third commit\<close>

lemma truncate_released:
  assumes "truncate_tail crc s = Inr (n, s')"
  shows "n = snd (trim_tail (s_freelist (s_state s)) (unat (m_page_count (s_meta (s_state s))))
    (reclaim_horizon [] (s_snapshots (s_state s)) (s_meta (s_state s))))"
proof -
  have "min (case oldest_txn_id (s_snapshots (s_state s)) of Some t \<Rightarrow> t | None \<Rightarrow> m_txn_id (s_meta (s_state s))) (m_txn_id (s_meta (s_state s)))
    = reclaim_horizon [] (s_snapshots (s_state s)) (s_meta (s_state s))"
    by (auto simp: reclaim_horizon_def oldest_reader_def Let_def min_def split: option.split)
  then show ?thesis using assms by (auto simp: truncate_tail_def Let_def split: if_splits sum.splits prod.splits)
qed

lemma demo_dropped:
  obtains y where "sys_reach demo_crc None y" "y_txn y = None" "s_readers (y_store y) = []" "cur_txn y = 3" "length (s_pager (y_store y)) = 5"
    "snd (trim_tail (s_freelist (s_state (y_store y))) (unat (m_page_count (s_meta (s_state (y_store y)))))
      (reclaim_horizon [] (s_snapshots (s_state (y_store y))) (s_meta (s_state (y_store y))))) = 2"
proof -
  obtain y c where y: "sys_reach demo_crc None y" "y_txn y = None" "sys_reach demo_crc None (y\<lparr>y_txn := Some (demo_drops (y_store y), ghost0)\<rparr>)"
    "plan_commit demo_crc (y_store y) (txn_absorb (demo_drops (y_store y))) = Inr c" "map fst (c_out c) = [2]" "c_next_pgno c = 5"
    "c_freelist c = [\<lparr>freed_at = 3, run_first = 3, run_len = 2\<rparr>]" "s_readers (y_store y) = []" "length (s_pager (y_store y)) = 5"
    "s_snapshots (s_state (y_store y)) = \<lparr>snaps = [demo_snapshot], next_id = 2\<rparr>" "w_txn_id (demo_drops (y_store y)) = 3"
    by (rule demo_dropping)
  have n: "c_next_pgno c < 2 ^ 32" using y(6) by simp
  let ?w = "demo_drops (y_store y)"
  obtain z where z: "sys_reach demo_crc None z" "y_txn z = None" "s_state (y_store z) = committed_state (y_store y) ?w c"
    "length (s_pager (y_store z)) = c_next_pgno c" "s_readers (y_store z) = s_readers (y_store y)" "s_capacity (y_store z) = s_capacity (y_store y)"
    "c_meta c = new_meta ?w (c_next_pgno c) (y_chains z)"
    "map fst (c_out c) = map fst (w_dirty ?w) @ changed_chains (w_dirty_chains ?w) (y_chains z)"
    "chain_step ?w (c_freelist c) (y_chains y) (y_chains z)"
    by (rule sys_reach_commit [OF y(3,4) n])
  have sn: "snaps (w_snapshots ?w) = []" using y(10) by (simp add: demo_defs Let_def split: prod.splits)
  have st: "m_txn_id (s_meta (s_state (y_store z))) = 3" "s_freelist (s_state (y_store z)) = [\<lparr>freed_at = 3, run_first = 3, run_len = 2\<rparr>]"
    "m_page_count (s_meta (s_state (y_store z))) = 5" "snaps (s_snapshots (s_state (y_store z))) = []"
    using z(3,7) y(6,7,11) sn by (simp_all add: committed_state_def new_meta_def)
  have "reclaim_horizon [] (s_snapshots (s_state (y_store z))) (s_meta (s_state (y_store z))) = 3"
    using st by (simp add: reclaim_horizon_def oldest_reader_def oldest_txn_id_def)
  moreover have "trim_tail [\<lparr>freed_at = 3, run_first = 3, run_len = 2\<rparr>] 5 3 = ([], 2)"
    by (simp add: trim_tail_def trim_loop.simps)
  ultimately show thesis using z y(6,8) st by (intro that [OF z(1,2)]) simp_all
qed

section \<open>Properties\<close>

text \<open>
  C25. When nobody reads or writes, \<^verbatim>\<open>truncate_tail\<close> succeeds. The pages it cuts off the end of the file
  were all on the freelist and freed at or before the reclaim horizon; every page of every version that
  can still be read is as it was; and the shorter file loads with the same roots, snapshots and catalog.
\<close>

theorem truncate_tail_correct:
  assumes "sys_reach crc cap y" "y_txn y = None" "s_readers (y_store y) = []" "unat (cur_txn y) + 1 < 2 ^ 64"
  shows "\<exists>n s' R st. truncate_tail crc (y_store y) = Inr (n, s') \<and> length (s_pager s') + n = length (s_pager (y_store y)) \<and>
     free_pages (s_freelist (s_state (y_store y))) = free_pages (s_freelist (s_state s')) + R \<and>
     image_mset fst R = mset [length (s_pager s')..<length (s_pager (y_store y))] \<and>
     (\<forall>x \<in># R. snd x \<le> reclaim_horizon [] (s_snapshots (s_state (y_store y))) (s_meta (s_state (y_store y)))) \<and>
     (\<forall>t p. active y t \<longrightarrow> p \<in> visible (y_hist y t) \<longrightarrow> pager_read (s_pager s') p = v_page (y_hist y t) p) \<and>
     load_state crc (s_pager s') = Inr st \<and> s_roots st = s_roots (s_state (y_store y)) \<and>
     snaps (s_snapshots st) = snaps (s_snapshots (s_state (y_store y))) \<and> s_catalog st = s_catalog (s_state (y_store y))"
proof -
  let ?s = "y_store y" and ?st = "s_state (y_store y)"
  have inv: "sys_inv crc y" by (rule sys_reach_inv [OF assms(1)])
  then have i: "store_inv crc (s_pager ?s) ?st (y_chains y)" "free_room crc (s_pager ?s) ?st (y_chains y)"
    "unat (m_page_count (s_meta ?st)) = length (s_pager ?s)" by (auto simp: sys_inv_def)
  obtain n s' where t: "truncate_tail crc ?s = Inr (n, s')" "if n = 0 then s' = ?s else truncated crc ?s (y_chains y) n s'"
    using truncate_tail_ok [OF i assms(3,4)] by blast
  let ?t = "m_txn_id (s_meta (s_state s'))"
  let ?y = "y\<lparr>y_store := s', y_hist := (y_hist y)(?t := y_hist y (cur_txn y))\<rparr>"
  have inv': "sys_inv crc ?y" by (rule truncate_sys_inv [OF inv assms(2,4) t(1)])
  then obtain st where st: "load_state crc (s_pager s') = Inr st" "state_equiv st (s_state s')"
    using store_inv_loads [of crc "s_pager s'" "s_state s'" "y_chains y"] by (auto simp: sys_inv_def)
  have "\<exists>R. length (s_pager s') + n = length (s_pager ?s) \<and> free_pages (s_freelist ?st) = free_pages (s_freelist (s_state s')) + R \<and>
     image_mset fst R = mset [length (s_pager s')..<length (s_pager ?s)] \<and> (\<forall>x \<in># R. snd x \<le> reclaim_horizon [] (s_snapshots ?st) (s_meta ?st)) \<and>
     s_roots (s_state s') = s_roots ?st \<and> s_snapshots (s_state s') = s_snapshots ?st \<and> s_catalog (s_state s') = s_catalog ?st \<and>
     (?t = cur_txn y \<or> cur_txn y < ?t)"
  proof (cases "n = 0")
    case True
    then show ?thesis using t(2) by simp
  next
    case False
    moreover have "cur_txn y < cur_txn y + 1" using assms(4) by (simp add: word_less_nat_alt unat_word_ariths)
    ultimately show ?thesis using t(2) by (fastforce simp: truncated_def truncated_state_def)
  qed
  then obtain R where R: "length (s_pager s') + n = length (s_pager ?s)" "free_pages (s_freelist ?st) = free_pages (s_freelist (s_state s')) + R"
     "image_mset fst R = mset [length (s_pager s')..<length (s_pager ?s)]" "\<forall>x \<in># R. snd x \<le> reclaim_horizon [] (s_snapshots ?st) (s_meta ?st)"
     "s_roots (s_state s') = s_roots ?st" "s_snapshots (s_state s') = s_snapshots ?st" "s_catalog (s_state s') = s_catalog ?st"
     "?t = cur_txn y \<or> cur_txn y < ?t" by (elim exE conjE)
  have "pager_read (s_pager s') p = v_page (y_hist y v) p" if v: "active y v" "p \<in> visible (y_hist y v)" for v p
  proof -
    have le: "v \<le> cur_txn y" using inv v(1) by (simp add: sys_inv_def)
    have "\<exists>u. active ?y u \<and> y_hist ?y u = y_hist y v"
    proof (cases "v = cur_txn y")
      case True
      then show ?thesis by (intro exI [of _ ?t]) (simp add: active_def)
    next
      case False
      then have "active ?y v" using v(1) assms(3) R(6) by (simp add: active_def)
      moreover have "v \<noteq> ?t" using R(8) le False by auto
      ultimately show ?thesis by (intro exI [of _ v]) simp
    qed
    then obtain u where u: "active ?y u" "y_hist ?y u = y_hist y v" by blast
    have "intact crc (s_pager (y_store ?y)) (y_hist ?y u)" using inv' u(1) unfolding sys_inv_def by blast
    then have "intact crc (s_pager s') (y_hist y v)" unfolding u(2) by simp
    then show ?thesis using v(2) by (simp add: intact_def)
  qed
  then show ?thesis using t(1) st R by (intro exI [of _ n] exI [of _ s'] exI [of _ R] exI [of _ st]) (simp add: state_equiv_def)
qed

theorem truncate_tail_correct_witness:
  "\<exists>y s' st. sys_reach demo_crc None y \<and> length (s_pager (y_store y)) = 5 \<and> truncate_tail demo_crc (y_store y) = Inr (2, s') \<and>
     length (s_pager s') = 3 \<and> load_state demo_crc (s_pager s') = Inr st"
proof -
  obtain y where y: "sys_reach demo_crc None y" "y_txn y = None" "s_readers (y_store y) = []" "cur_txn y = 3" "length (s_pager (y_store y)) = 5"
    "snd (trim_tail (s_freelist (s_state (y_store y))) (unat (m_page_count (s_meta (s_state (y_store y)))))
      (reclaim_horizon [] (s_snapshots (s_state (y_store y))) (s_meta (s_state (y_store y))))) = 2"
    by (rule demo_dropped)
  have "unat (cur_txn y) + 1 < 2 ^ 64" using y(4) by simp
  from truncate_tail_correct [OF y(1-3) this] obtain n s' st where "truncate_tail demo_crc (y_store y) = Inr (n, s')"
    "length (s_pager s') + n = length (s_pager (y_store y))" "load_state demo_crc (s_pager s') = Inr st" by (elim exE conjE)
  moreover from truncate_released [OF this(1)] have "n = 2" using y(6) by simp
  ultimately show ?thesis using y(1,5) by (intro exI [of _ y] exI [of _ s'] exI [of _ st]) simp
qed

text \<open>
  C28. A power failure during a commit that drops a snapshot can lose the snapshot and keep its entry: at
  the default durability, between the first flush and the new meta page, the file loads as before the
  commit, still lists the snapshot, and \<^verbatim>\<open>begin_read_at\<close> on it fails, because the new freelist was written
  over its root records.
\<close>

theorem dropped_snapshot_lost_by_a_crash:
  "\<exists>y w g c ps s' x e. sys_reach demo_crc None y \<and> y_txn y = Some (w, g) \<and> plan_commit demo_crc (y_store y) (txn_absorb w) = Inr c \<and>
     registry_get (s_snapshots (s_state (y_store y))) 1 = Some x \<and>
     survives (run_disk (clean_disk (s_pager (y_store y))) (take (length (c_out c) + 2) (commit_ops demo_crc Full c))) ps \<and>
     store_load demo_crc None ps = Inr s' \<and> registry_get (s_snapshots (s_state s')) 1 = Some x \<and> begin_read_at demo_crc 1 s' = Inl e"
proof -
  obtain y c where y: "sys_reach demo_crc None y" "y_txn y = None" "sys_reach demo_crc None (y\<lparr>y_txn := Some (demo_drops (y_store y), ghost0)\<rparr>)"
    "plan_commit demo_crc (y_store y) (txn_absorb (demo_drops (y_store y))) = Inr c" "map fst (c_out c) = [2]" "c_next_pgno c = 5"
    "c_freelist c = [\<lparr>freed_at = 3, run_first = 3, run_len = 2\<rparr>]" "s_readers (y_store y) = []" "length (s_pager (y_store y)) = 5"
    "s_snapshots (s_state (y_store y)) = \<lparr>snaps = [demo_snapshot], next_id = 2\<rparr>" "w_txn_id (demo_drops (y_store y)) = 3"
    by (rule demo_dropping)
  let ?w = "demo_drops (y_store y)" and ?y = "y\<lparr>y_txn := Some (demo_drops (y_store y), ghost0)\<rparr>"
  have n: "c_next_pgno c < 2 ^ 32" using y(6) by simp
  have fly: "in_flight demo_crc (y_store y) (y_chains y) ?w ghost0" using sys_reach_inv [OF y(3)] by (simp add: sys_inv_def)
  obtain ch' where pl: "planned demo_crc (y_store y) (y_chains y) ?w ghost0 c ch'" using commit_planned [OF fly y(4) n] by blast
  have "chain_step ?w (c_freelist c) (y_chains y) ch'" using pl by (simp add: planned_def)
  then have "1 \<le> length (ch_free ch')" using y(7) by (simp add: chain_step_def)
  moreover have "set (ch_free ch') \<subseteq> set (map fst (c_out c))" using planned_free_out [OF pl] by simp
  ultimately have root: "chain_head (ch_free ch') = Some (snap_root_records demo_snapshot)"
    using y(5) by (cases "ch_free ch'") (auto simp: chain_head_def demo_defs Let_def)
  have get: "registry_get (s_snapshots (s_state (y_store y))) 1 = Some demo_snapshot" "snap_root_records demo_snapshot \<noteq> 0"
    using y(10) by (simp_all add: registry_get_def demo_defs Let_def)
  obtain ps s' e where "survives (run_disk (clean_disk (s_pager (y_store y))) (take (length (c_out c) + 2) (commit_ops demo_crc Full c))) ps"
    "store_load demo_crc None ps = Inr s'" "registry_get (s_snapshots (s_state s')) 1 = Some demo_snapshot" "begin_read_at demo_crc 1 s' = Inl e"
    using overwritten_snapshot [OF fly pl n get(1) root get(2), of None] by (elim exE conjE)
  then show ?thesis using y(3,4) get(1)
    by (intro exI [of _ ?y] exI [of _ ?w] exI [of _ ghost0] exI [of _ c] exI [of _ ps] exI [of _ s'] exI [of _ demo_snapshot] exI [of _ e]) simp
qed

end
