(* ===== verification/Big_Tree.thy ===== *)
theory Big_Tree
  imports Big_Leaf Big_Branch Big_Chain
begin

text \<open>
  \<^verbatim>\<open>crates/big-btree/src/item.rs\<close> and \<^verbatim>\<open>read.rs\<close>: the items of a leaf, the descent to the leaf of a
  key, point reads one at a time and many at a time, and range scans. Reading is generic in the
  pager: every function takes the way to read a page as an argument. A stored tree is described by a
  value of type \<open>node\<close>, which names the page of each node; what a read gives is a function of the
  items of that value.
\<close>

section \<open>Errors and items\<close>

datatype btree_error =
  BStore store_error
| BPage page_error
| UnexpectedPage pgno page_type
| EmptyBranch pgno
| TooDeep pgno
| PayloadTooLarge nat

fun btree_error_code :: "btree_error \<Rightarrow> string" where
  "btree_error_code (BStore e) = store_error_code e"
| "btree_error_code (BPage e) = page_error_code e"
| "btree_error_code (PayloadTooLarge _) = ''payload_too_large''"
| "btree_error_code _ = ''tree_damaged''"

definition of_store :: "store_error + 'a \<Rightarrow> btree_error + 'a" where
  "of_store r = (case r of Inl e \<Rightarrow> Inl (BStore e) | Inr x \<Rightarrow> Inr x)"

definition of_page :: "page_error + 'a \<Rightarrow> btree_error + 'a" where
  "of_page r = (case r of Inl e \<Rightarrow> Inl (BPage e) | Inr x \<Rightarrow> Inr x)"

lemma of_simps [simp]: "of_store (Inl e) = Inl (BStore e)" "of_store (Inr x) = Inr x"
  "of_page (Inl e') = Inl (BPage e')" "of_page (Inr y) = Inr y"
  by (simp_all add: of_store_def of_page_def)

text \<open>A \<^verbatim>\<open>LeafItem\<close> has the fields of the cell a leaf builder stages.\<close>

type_synonym leaf_item = staged_cell

definition item_from_cell :: "leaf_cell \<Rightarrow> leaf_item" where
  "item_from_cell c = \<lparr>skey = ckey c, sty = cty c, selem_n = of_nat (celem_n c), scard = ccard c,
     sbitmap_checksum = cbitmap_checksum c, sbitmap_pgno = cbitmap_pgno c, spayload = cpayload c\<rparr>"

definition item_dense :: "container_key \<Rightarrow> pgno \<Rightarrow> u32 \<Rightarrow> u32 \<Rightarrow> leaf_item" where
  "item_dense k n crd checksum = \<lparr>skey = k, sty = TBitmapPtr, selem_n = 0, scard = crd,
     sbitmap_checksum = checksum, sbitmap_pgno = n, spayload = []\<rparr>"

definition item_delta :: "container_key \<Rightarrow> pgno \<Rightarrow> u32 \<Rightarrow> u32 \<Rightarrow> delta_entry list \<Rightarrow> leaf_item" where
  "item_delta k n checksum crd entries = \<lparr>skey = k, sty = TBitmapDelta, selem_n = of_nat (length entries), scard = crd,
     sbitmap_checksum = checksum, sbitmap_pgno = n, spayload = delta_encode entries\<rparr>"

definition is_dense :: "leaf_item \<Rightarrow> bool" where
  "is_dense x = owns_page (sty x)"

definition base_pgno :: "leaf_item \<Rightarrow> pgno option" where
  "base_pgno x = (if is_dense x then Some (sbitmap_pgno x) else None)"

lemma item_from_cell_of [simp]: "item_from_cell (leaf_cell_of x) = x"
  by (simp add: item_from_cell_def leaf_cell_of_def)

section \<open>Descent\<close>

definition MAX_DEPTH :: nat where "MAX_DEPTH = 32"

text \<open>The loop of \<^verbatim>\<open>leaf_for\<close>, with the number of rounds that are left.\<close>

fun leaf_for_loop :: "(pgno \<Rightarrow> store_error + page) \<Rightarrow> pgno \<Rightarrow> container_key \<Rightarrow> nat \<Rightarrow> pgno \<Rightarrow> btree_error + pgno" where
  "leaf_for_loop rd root k 0 cur = Inl (TooDeep root)"
| "leaf_for_loop rd root k (Suc n) cur =
     rbind (of_store (rd cur)) (\<lambda>page. rbind (of_page (page_page_type page)) (\<lambda>ty.
       case ty of
         PLeaf \<Rightarrow> Inr cur
       | PBranch \<Rightarrow> rbind (of_page (branch_parse page)) (\<lambda>br.
           case (case child_for br k of Some c \<Rightarrow> Some c | None \<Rightarrow> map_option bchild (branch_cell_at br 0)) of
             None \<Rightarrow> Inl (EmptyBranch cur)
           | Some c \<Rightarrow> leaf_for_loop rd root k n c)
       | other \<Rightarrow> Inl (UnexpectedPage cur other)))"

definition leaf_for :: "(pgno \<Rightarrow> store_error + page) \<Rightarrow> pgno \<Rightarrow> container_key \<Rightarrow> btree_error + pgno" where
  "leaf_for rd root k = leaf_for_loop rd root k MAX_DEPTH root"

text \<open>A hit is the page and the index of the cell on it.\<close>

definition tree_find :: "(pgno \<Rightarrow> store_error + page) \<Rightarrow> pgno \<Rightarrow> container_key \<Rightarrow> btree_error + (page \<times> nat) option" where
  "tree_find rd root k =
     rbind (leaf_for rd root k) (\<lambda>n. rbind (of_store (rd n)) (\<lambda>page. rbind (of_page (leaf_parse page)) (\<lambda>leaf.
       case leaf_search leaf k of Inr i \<Rightarrow> Inr (Some (page, i)) | Inl _ \<Rightarrow> Inr None)))"

definition found_cell :: "page \<times> nat \<Rightarrow> btree_error + leaf_cell" where
  "found_cell h = rbind (of_page (leaf_parse (fst h))) (\<lambda>leaf. of_page (leaf_cell_at leaf (snd h)))"

section \<open>Many keys at once\<close>

text \<open>
  The inner loop of \<^verbatim>\<open>find_many\<close>: it answers the first key, then every key that still falls inside
  the leaf, and gives the keys that are left. The visitor \<open>f\<close> threads a state.
\<close>

fun answer_leaf :: "leaf_page \<Rightarrow> container_key option \<Rightarrow> ('a \<Rightarrow> container_key \<Rightarrow> leaf_cell option \<Rightarrow> btree_error + 'a) \<Rightarrow>
    'a \<Rightarrow> container_key list \<Rightarrow> btree_error + 'a \<times> container_key list" where
  "answer_leaf leaf hi f acc [] = Inr (acc, [])"
| "answer_leaf leaf hi f acc (k # ks) =
     rbind (case leaf_search leaf k of
              Inr i \<Rightarrow> rbind (of_page (leaf_cell_at leaf i)) (\<lambda>c. f acc k (Some c))
            | Inl _ \<Rightarrow> f acc k None)
       (\<lambda>acc'. if ks = [] \<or> (case hi of None \<Rightarrow> True | Some l \<Rightarrow> hd ks > l) then Inr (acc', ks)
                else answer_leaf leaf hi f acc' ks)"

lemma answer_leaf_step:
  assumes "answer_leaf leaf hi f acc (k # ks) = Inr r"
  shows "\<exists>a. r = (a, ks) \<or> ks \<noteq> [] \<and> answer_leaf leaf hi f a ks = Inr r"
proof -
  from assms obtain a where
    "(if ks = [] \<or> (case hi of None \<Rightarrow> True | Some l \<Rightarrow> hd ks > l) then Inr (a, ks) else answer_leaf leaf hi f a ks) = Inr r"
    unfolding answer_leaf.simps rbind_Inr_iff by blast
  then show ?thesis by (metis sum.inject(2))
qed

lemma answer_leaf_shorter: "answer_leaf leaf hi f acc ks = Inr r \<Longrightarrow> ks \<noteq> [] \<Longrightarrow> length (snd r) < length ks"
proof (induction ks arbitrary: acc)
  case (Cons k ks)
  from answer_leaf_step [OF Cons.prems(1)] show ?case using Cons.IH by fastforce
qed simp

function find_many :: "(pgno \<Rightarrow> store_error + page) \<Rightarrow> pgno \<Rightarrow> ('a \<Rightarrow> container_key \<Rightarrow> leaf_cell option \<Rightarrow> btree_error + 'a) \<Rightarrow>
    container_key list \<Rightarrow> 'a \<Rightarrow> btree_error + 'a" where
  "find_many rd root f [] acc = Inr acc"
| "find_many rd root f (k # ks) acc =
     rbind (leaf_for rd root k) (\<lambda>n. rbind (of_store (rd n)) (\<lambda>page. rbind (of_page (leaf_parse page)) (\<lambda>leaf.
       rbind (if lcount leaf = 0 then Inr None
              else rbind (of_page (leaf_cell_at leaf (lcount leaf - 1))) (\<lambda>c. Inr (Some (ckey c)))) (\<lambda>hi.
         rbind (answer_leaf leaf hi f acc (k # ks)) (\<lambda>r. find_many rd root f (snd r) (fst r))))))"
  by pat_completeness auto
termination
  by (relation "measure (\<lambda>(rd, root, f, ks, acc). length ks)") (auto simp del: answer_leaf.simps dest!: answer_leaf_shorter)

section \<open>Scans\<close>

text \<open>
  \<^verbatim>\<open>scan\<close>. The visitor \<open>f\<close> threads a state and says whether to stop (\<^verbatim>\<open>ControlFlow::Break\<close>). The
  depth that is left bounds the recursion.
\<close>

fun walk_leaf :: "('a \<Rightarrow> leaf_cell \<Rightarrow> bool \<times> 'a) \<Rightarrow> container_key \<Rightarrow> leaf_page \<Rightarrow> nat list \<Rightarrow> 'a \<Rightarrow> btree_error + bool \<times> 'a" where
  "walk_leaf f hi leaf [] acc = Inr (False, acc)"
| "walk_leaf f hi leaf (i # is) acc =
     rbind (of_page (leaf_cell_at leaf i)) (\<lambda>c.
       if ckey c > hi then Inr (True, acc)
       else (case f acc c of (stop, acc') \<Rightarrow> if stop then Inr (True, acc') else walk_leaf f hi leaf is acc'))"

fun walk_cells :: "(pgno \<Rightarrow> 'a \<Rightarrow> btree_error + bool \<times> 'a) \<Rightarrow> container_key \<Rightarrow> container_key \<Rightarrow> branch_cell list \<Rightarrow> 'a \<Rightarrow>
    btree_error + bool \<times> 'a" where
  "walk_cells go lo hi [] acc = Inr (False, acc)"
| "walk_cells go lo hi (c # cs) acc =
     (if (case cs of [] \<Rightarrow> False | c' # _ \<Rightarrow> bkey c' \<le> lo) then walk_cells go lo hi cs acc
      else if bkey c > hi then Inr (False, acc)
      else rbind (go (bchild c) acc) (\<lambda>r. if fst r then Inr (True, snd r) else walk_cells go lo hi cs (snd r)))"

primrec walk :: "(pgno \<Rightarrow> store_error + page) \<Rightarrow> ('a \<Rightarrow> leaf_cell \<Rightarrow> bool \<times> 'a) \<Rightarrow> container_key \<Rightarrow> container_key \<Rightarrow> nat \<Rightarrow> pgno \<Rightarrow> 'a \<Rightarrow>
    btree_error + bool \<times> 'a" where
  "walk rd f lo hi 0 = (\<lambda>n acc. Inl (TooDeep n))"
| "walk rd f lo hi (Suc d) = (\<lambda>n acc.
     rbind (of_store (rd n)) (\<lambda>page. rbind (of_page (page_page_type page)) (\<lambda>ty.
       case ty of
         PLeaf \<Rightarrow> rbind (of_page (leaf_parse page)) (\<lambda>leaf.
           walk_leaf f hi leaf [(case leaf_search leaf lo of Inr i \<Rightarrow> i | Inl i \<Rightarrow> i)..<lcount leaf] acc)
       | PBranch \<Rightarrow> rbind (of_page (branch_parse page)) (\<lambda>br.
           walk_cells (walk rd f lo hi d) lo hi (branch_iter br) acc)
       | other \<Rightarrow> Inl (UnexpectedPage n other))))"

definition scan :: "(pgno \<Rightarrow> store_error + page) \<Rightarrow> pgno \<Rightarrow> container_key \<Rightarrow> container_key \<Rightarrow> ('a \<Rightarrow> leaf_cell \<Rightarrow> bool \<times> 'a) \<Rightarrow> 'a \<Rightarrow>
    btree_error + 'a" where
  "scan rd root lo hi f acc = rbind (walk rd f lo hi MAX_DEPTH root acc) (\<lambda>r. Inr (snd r))"

definition tree_count :: "(pgno \<Rightarrow> store_error + page) \<Rightarrow> pgno \<Rightarrow> btree_error + u64" where
  "tree_count rd root = scan rd root 0 (-1) (\<lambda>total c. (False, total + ucast (ccard c))) 0"

definition tree_collect :: "(pgno \<Rightarrow> store_error + page) \<Rightarrow> pgno \<Rightarrow> btree_error + leaf_item list" where
  "tree_collect rd root = scan rd root 0 (-1) (\<lambda>out c. (False, out @ [item_from_cell c])) []"

section \<open>Stored trees\<close>

datatype node = LeafNode pgno "leaf_item list" | BranchNode pgno "(branch_cell \<times> node) list"

fun root_of :: "node \<Rightarrow> pgno" where
  "root_of (LeafNode n xs) = n"
| "root_of (BranchNode n ts) = n"

fun items_of :: "node \<Rightarrow> leaf_item list" where
  "items_of (LeafNode n xs) = xs"
| "items_of (BranchNode n ts) = concat (map (\<lambda>ct. items_of (snd ct)) ts)"

text \<open>The pages of a tree, in the order of \<^verbatim>\<open>visit_tree\<close>: what a node points at, then the node.\<close>

definition dense_pages :: "leaf_item list \<Rightarrow> pgno list" where
  "dense_pages xs = map sbitmap_pgno (filter is_dense xs)"

fun pages_of :: "node \<Rightarrow> pgno list" where
  "pages_of (LeafNode n xs) = dense_pages xs @ [n]"
| "pages_of (BranchNode n ts) = concat (map (\<lambda>ct. pages_of (snd ct)) ts) @ [n]"

fun full :: "nat \<Rightarrow> node \<Rightarrow> bool" where
  "full h (LeafNode n xs) \<longleftrightarrow> h = 0"
| "full h (BranchNode n ts) \<longleftrightarrow> (\<exists>g. h = Suc g \<and> (\<forall>ct \<in> set ts. full g (snd ct)))"

text \<open>The leaf of the items \<open>xs\<close>, as a builder writes it.\<close>

definition leaf_fits_items :: "leaf_item list \<Rightarrow> bool" where
  "leaf_fits_items xs \<longleftrightarrow> (\<exists>b. lcells b = xs \<and> builder_ok b) \<and> (\<forall>x \<in> set xs. staged_ok x)"

definition leaf_image :: "(u8 list \<Rightarrow> u32) \<Rightarrow> pgno \<Rightarrow> leaf_item list \<Rightarrow> page" where
  "leaf_image crc n xs = leaf_finish crc \<lparr>lcells = xs, payload_bytes = 0\<rparr> n"

fun stored :: "(u8 list \<Rightarrow> u32) \<Rightarrow> (pgno \<Rightarrow> store_error + page) \<Rightarrow> node \<Rightarrow> bool" where
  "stored crc rd (LeafNode n xs) \<longleftrightarrow> leaf_fits_items xs \<and> rd n = Inr (leaf_image crc n xs)"
| "stored crc rd (BranchNode n ts) \<longleftrightarrow>
     ts \<noteq> [] \<and> branch_fits (map fst ts) \<and> rd n = Inr (branch_finish crc (map fst ts) n) \<and>
     (\<forall>ct \<in> set ts. bchild (fst ct) = root_of (snd ct) \<and> stored crc rd (snd ct))"

abbreviation keys_of :: "node \<Rightarrow> container_key list" where
  "keys_of t \<equiv> map skey (items_of t)"

text \<open>Every key a subtree mentions: those of its items and its separators.\<close>

fun marks :: "node \<Rightarrow> container_key list" where
  "marks (LeafNode n xs) = map skey xs"
| "marks (BranchNode n ts) = concat (map (\<lambda>ct. bkey (fst ct) # marks (snd ct)) ts)"

text \<open>Separators: the key of a cell is a lower bound of its subtree and above everything before it.\<close>

fun separated :: "(branch_cell \<times> node) list \<Rightarrow> bool" where
  "separated [] \<longleftrightarrow> True"
| "separated (ct # ts) \<longleftrightarrow> (\<forall>k \<in> set (marks (snd ct)). bkey (fst ct) \<le> k) \<and>
     (\<forall>v \<in> set ts. bkey (fst ct) < bkey (fst v) \<and> (\<forall>k \<in> set (marks (snd ct)). k < bkey (fst v))) \<and> separated ts"

fun ordered :: "node \<Rightarrow> bool" where
  "ordered (LeafNode n xs) \<longleftrightarrow> ssorted (map skey xs)"
| "ordered (BranchNode n ts) \<longleftrightarrow> separated ts \<and> (\<forall>ct \<in> set ts. ordered (snd ct))"


section \<open>Reading one node\<close>

text \<open>A parsed leaf that gives the items \<open>xs\<close>.\<close>

definition reads :: "leaf_page \<Rightarrow> leaf_item list \<Rightarrow> bool" where
  "reads lp xs \<longleftrightarrow> lcount lp = length xs \<and>
     (\<forall>i < length xs. leaf_cell_at lp i = Inr (leaf_cell_of (xs ! i)) \<and> leaf_key_at lp i = Some (skey (xs ! i)))"

lemma readsD: "reads lp xs \<Longrightarrow> lcount lp = length xs"
  "reads lp xs \<Longrightarrow> i < length xs \<Longrightarrow> leaf_cell_at lp i = Inr (leaf_cell_of (xs ! i))"
  "reads lp xs \<Longrightarrow> i < length xs \<Longrightarrow> leaf_key_at lp i = Some (skey (xs ! i))"
  by (simp_all add: reads_def)

lemma validate_type: "validate_cell_index p ty h = Inr r \<Longrightarrow> page_page_type p = Inr ty"
  by (cases ty) (simp_all add: validate_cell_index_def page_page_type_def page_type_from_u8_def Let_def split: if_splits)

lemma parse_type: "leaf_parse p = Inr lp \<Longrightarrow> page_page_type p = Inr PLeaf"
  "branch_parse p = Inr bp \<Longrightarrow> page_page_type p = Inr PBranch"
  by (auto simp: leaf_parse_def branch_parse_def validate_type split: sum.splits)

lemma leaf_finish_image: "leaf_finish crc b n = leaf_image crc n (lcells b)"
  by (simp add: leaf_image_def leaf_finish_def)

lemma leaf_image_spec:
  assumes "leaf_fits_items xs"
  shows "\<exists>lp. leaf_parse (leaf_image crc n xs) = Inr lp \<and> reads lp xs"
    and "page_page_type (leaf_image crc n xs) = Inr PLeaf"
    and "verify_checksum crc (leaf_image crc n xs) = Inr ()" and "page_ok (leaf_image crc n xs)"
proof -
  obtain b where b: "lcells b = xs" "builder_ok b" "\<forall>x \<in> set (lcells b). staged_ok x"
    using assms by (auto simp: leaf_fits_items_def)
  have im: "leaf_finish crc b n = leaf_image crc n xs" using b(1) by (simp add: leaf_finish_image)
  note spec = leaf_finish_spec [OF b(2,3), where crc = crc and n = n, unfolded im]
  show "\<exists>lp. leaf_parse (leaf_image crc n xs) = Inr lp \<and> reads lp xs"
    using spec(1) by (auto simp: reads_def b(1))
  then show "page_page_type (leaf_image crc n xs) = Inr PLeaf"
    by (auto simp: parse_type)
  show "verify_checksum crc (leaf_image crc n xs) = Inr ()" "page_ok (leaf_image crc n xs)"
    using spec(2,3) by simp_all
qed

lemma branch_finish_type:
  assumes "branch_fits cs" shows "page_page_type (branch_finish crc cs n) = Inr PBranch"
  using branch_finish_spec(1) [OF assms, of crc n] by (auto simp: parse_type)

definition lookup :: "container_key \<Rightarrow> leaf_item list \<Rightarrow> leaf_item option" where
  "lookup k xs = find (\<lambda>x. skey x = k) xs"

lemma lookup_simps [simp]: "lookup k [] = None" "lookup k (x # xs) = (if skey x = k then Some x else lookup k xs)"
  by (simp_all add: lookup_def)

lemma lookup_None_iff: "lookup k xs = None \<longleftrightarrow> k \<notin> set (map skey xs)"
  by (auto simp: lookup_def find_None_iff)

lemma lookup_append: "lookup k (xs @ ys) = (case lookup k xs of None \<Rightarrow> lookup k ys | Some x \<Rightarrow> Some x)"
  by (induction xs) auto

lemma lookup_nth:
  assumes "ssorted (map skey xs)" "i < length xs"
  shows "lookup (skey (xs ! i)) xs = Some (xs ! i)"
proof -
  have "\<forall>j < i. skey (xs ! j) \<noteq> skey (xs ! i)"
    using ssorted_nth_less [OF assms(1)] assms(2) by fastforce
  then show ?thesis using assms(2) by (auto simp: lookup_def find_Some_iff)
qed

lemma leaf_search_reads:
  assumes r: "reads lp xs" and s: "ssorted (map skey xs)"
  shows "case leaf_search lp k of
      Inr i \<Rightarrow> i < length xs \<and> lookup k xs = Some (xs ! i) \<and> skey (xs ! i) = k
    | Inl i \<Rightarrow> lookup k xs = None \<and> i \<le> length xs"
    and "filter (\<lambda>x. k \<le> skey x) xs = drop (case leaf_search lp k of Inr i \<Rightarrow> i | Inl i \<Rightarrow> i) xs"
proof -
  have key: "the (leaf_key_at lp i) = skey (xs ! i)" if "i < length xs" for i using readsD(3) [OF r that] by simp
  have less: "skey (xs ! i) < skey (xs ! j)" if "i < j" "j < length xs" for i j
    using sorted_wrt_nth_less [OF s, of i j] that by simp
  have asc: "leaf_ascending lp"
    by (auto simp: leaf_ascending_def sorted_wrt_iff_nth_less readsD(1) [OF r] key less)
  have split: "filter (\<lambda>x. k \<le> skey x) xs = drop i xs"
    if "i \<le> length xs" "\<And>j. j < i \<Longrightarrow> skey (xs ! j) < k" "\<And>j. i \<le> j \<Longrightarrow> j < length xs \<Longrightarrow> k \<le> skey (xs ! j)" for i
  proof -
    have "filter (\<lambda>x. k \<le> skey x) (take i xs) = []"
      using that(1,2) by (auto simp: filter_empty_conv in_set_conv_nth not_le)
    moreover have "filter (\<lambda>x. k \<le> skey x) (drop i xs) = drop i xs"
      using that(1,3) by (auto simp: filter_id_conv in_set_conv_nth)
    ultimately show ?thesis using filter_append [of "\<lambda>x. k \<le> skey x" "take i xs" "drop i xs"] by simp
  qed
  consider i where "leaf_search lp k = Inr i" | i where "leaf_search lp k = Inl i" by (cases "leaf_search lp k") auto
  then have "(case leaf_search lp k of
      Inr i \<Rightarrow> i < length xs \<and> lookup k xs = Some (xs ! i) \<and> skey (xs ! i) = k
    | Inl i \<Rightarrow> lookup k xs = None \<and> i \<le> length xs) \<and>
    filter (\<lambda>x. k \<le> skey x) xs = drop (case leaf_search lp k of Inr i \<Rightarrow> i | Inl i \<Rightarrow> i) xs"
  proof cases
    case 1
    from leaf_search_hit [OF 1] have i: "i < length xs" "skey (xs ! i) = k"
      using readsD(3) [OF r, of i] by (auto simp: readsD(1) [OF r])
    moreover have "filter (\<lambda>x. k \<le> skey x) xs = drop i xs"
    proof (rule split)
      show "skey (xs ! j) < k" if "j < i" for j using less [OF that i(1)] i(2) by simp
      show "k \<le> skey (xs ! j)" if "i \<le> j" "j < length xs" for j
        using less [of i j] i(2) that by (cases "i = j") auto
    qed (use i in simp)
    ultimately show ?thesis using lookup_nth [OF s i(1)] 1 by simp
  next
    case 2
    note m = leaf_search_miss [OF asc 2, unfolded readsD(1) [OF r]]
    have lo: "skey (xs ! j) < k" if "j < i" for j using m(2) [OF that] key [of j] m(1) that by simp
    have hi: "k < skey (xs ! j)" if "i \<le> j" "j < length xs" for j using m(3) [OF that] key [OF that(2)] by simp
    have "skey (xs ! j) \<noteq> k" if "j < length xs" for j
      using lo [of j] hi [of j] that by (cases "j < i") auto
    then have "lookup k xs = None" by (metis in_set_conv_nth length_map lookup_None_iff nth_map)
    moreover have "filter (\<lambda>x. k \<le> skey x) xs = drop i xs"
      using m(1) lo hi by (intro split) (auto intro: less_imp_le)
    ultimately show ?thesis using 2 m(1) by simp
  qed
  then show "case leaf_search lp k of
      Inr i \<Rightarrow> i < length xs \<and> lookup k xs = Some (xs ! i) \<and> skey (xs ! i) = k
    | Inl i \<Rightarrow> lookup k xs = None \<and> i \<le> length xs"
    "filter (\<lambda>x. k \<le> skey x) xs = drop (case leaf_search lp k of Inr i \<Rightarrow> i | Inl i \<Rightarrow> i) xs" by blast+
qed

section \<open>Routing\<close>

text \<open>The child a key goes to: the last one whose separator is not above it, or the first.\<close>

definition route :: "branch_cell list \<Rightarrow> container_key \<Rightarrow> nat" where
  "route cs k = length (takeWhile (\<lambda>c. bkey c \<le> k) cs) - 1"

lemma route_less: "cs \<noteq> [] \<Longrightarrow> route cs k < length cs"
  using length_takeWhile_le [of "\<lambda>c. bkey c \<le> k" cs] by (cases cs) (auto simp: route_def)

lemma route_above: "Suc (route cs k) < length cs \<Longrightarrow> keys_ascending cs \<Longrightarrow> k < bkey (cs ! Suc (route cs k))"
proof -
  assume a: "Suc (route cs k) < length cs" "keys_ascending cs"
  let ?n = "length (takeWhile (\<lambda>c. bkey c \<le> k) cs)"
  show ?thesis
  proof (cases ?n)
    case 0
    then have "\<not> bkey (cs ! 0) \<le> k" using nth_length_takeWhile [of "\<lambda>c. bkey c \<le> k" cs] a(1) by (cases cs) (auto split: if_splits)
    moreover have "bkey (cs ! 0) < bkey (cs ! Suc (route cs k))" using sorted_wrt_nth_less [OF a(2), of 0] a(1) by simp
    ultimately show ?thesis by simp
  next
    case (Suc m)
    then have "route cs k = m" by (simp add: route_def)
    with Suc nth_length_takeWhile [of "\<lambda>c. bkey c \<le> k" cs] a(1) show ?thesis by auto
  qed
qed

lemma route_below: "0 < route cs k \<Longrightarrow> bkey (cs ! route cs k) \<le> k"
proof -
  assume a: "0 < route cs k"
  let ?t = "takeWhile (\<lambda>c. bkey c \<le> k) cs"
  have l: "route cs k < length ?t" using a by (simp add: route_def)
  then have "?t ! route cs k \<in> set ?t" by simp
  with takeWhile_nth [OF l] show ?thesis by (metis set_takeWhileD)
qed

lemma filter_takeWhile_asc: "keys_ascending cs \<Longrightarrow> filter (\<lambda>c. bkey c \<le> k) cs = takeWhile (\<lambda>c. bkey c \<le> k) cs"
proof (induction cs)
  case (Cons c cs)
  have "filter (\<lambda>c. bkey c \<le> k) cs = []" if "k < bkey c"
    using Cons.prems that by (auto simp: filter_empty_conv dest!: bspec)
  then show ?case using Cons by auto
qed simp

lemma last_takeWhile_route: "takeWhile (\<lambda>c. bkey c \<le> k) cs \<noteq> [] \<Longrightarrow> last (takeWhile (\<lambda>c. bkey c \<le> k) cs) = cs ! route cs k"
  by (simp add: last_conv_nth route_def takeWhile_nth)

lemma child_for_route:
  assumes "keys_ascending (branch_iter br)" "branch_iter br \<noteq> []"
  shows "(case child_for br k of Some c \<Rightarrow> Some c | None \<Rightarrow> map_option bchild (branch_cell_at br 0)) =
    Some (bchild (branch_iter br ! route (branch_iter br) k))"
proof -
  have n: "0 < bcount br" using assms(2) length_branch_iter [of br] by (metis length_greater_0_conv)
  then obtain c where c: "branch_cell_at br 0 = Some c" by (simp add: branch_cell_at_def Let_def)
  have "branch_iter br ! 0 = c" using branch_iter_nth [OF n] c by simp
  then show ?thesis
    using child_for_spec [OF assms(1), of k] last_takeWhile_route [of k "branch_iter br"] c
    by (auto simp: filter_takeWhile_asc [OF assms(1)] route_def split: list.splits)
qed

text \<open>The items of a branch around the child of index \<open>i\<close>.\<close>

lemma concat_split: "i < length xss \<Longrightarrow> concat xss = concat (take i xss) @ xss ! i @ concat (drop (Suc i) xss)"
  by (metis concat.simps(2) concat_append id_take_nth_drop)

lemma marks_items: "x \<in> set (items_of t) \<Longrightarrow> skey x \<in> set (marks t)"
proof (induction t rule: items_of.induct)
  case (2 n ts)
  from "2.prems" obtain ct where "ct \<in> set ts" "x \<in> set (items_of (snd ct))" by (fastforce simp del: split_paired_Ex)
  with "2.IH" [OF this] show ?case by fastforce
qed simp

lemma separated_keys:
  assumes "separated (ct # ts)"
  shows "x \<in> set (items_of (snd ct)) \<Longrightarrow> bkey (fst ct) \<le> skey x"
    and "v \<in> set ts \<Longrightarrow> x \<in> set (items_of (snd ct)) \<Longrightarrow> skey x < bkey (fst v)"
    and "v \<in> set ts \<Longrightarrow> bkey (fst ct) < bkey (fst v)"
    and "separated ts"
  using assms marks_items [of x "snd ct"] by simp_all

lemma separated_in: "separated ts \<Longrightarrow> v \<in> set ts \<Longrightarrow> x \<in> set (items_of (snd v)) \<Longrightarrow> bkey (fst v) \<le> skey x"
  using marks_items [of x "snd v"] by (induction ts) auto

lemma separated_asc: "separated ts \<Longrightarrow> keys_ascending (map fst ts)"
  by (induction ts) auto

lemma separatedD:
  assumes "separated ts"
  shows "i < length ts \<Longrightarrow> k \<in> set (keys_of (snd (ts ! i))) \<Longrightarrow> bkey (fst (ts ! i)) \<le> k"
    and "i < j \<Longrightarrow> j < length ts \<Longrightarrow> k \<in> set (keys_of (snd (ts ! i))) \<Longrightarrow> k < bkey (fst (ts ! j))"
proof -
  show "i < length ts \<Longrightarrow> k \<in> set (keys_of (snd (ts ! i))) \<Longrightarrow> bkey (fst (ts ! i)) \<le> k"
    using separated_in [OF assms, of "ts ! i"] by fastforce
  have "k < bkey (fst (ts ! j))" if "separated ts" "i < j" "j < length ts" "k \<in> set (keys_of (snd (ts ! i)))"
    using that
  proof (induction ts arbitrary: i j)
    case (Cons ct ts)
    then obtain j' where j: "j = Suc j'" by (cases j) auto
    show ?case
    proof (cases i)
      case 0
      then show ?thesis using Cons.prems j separated_keys(2) [OF Cons.prems(1), of "ts ! j'"] by fastforce
    next
      case (Suc i')
      then show ?thesis using Cons.IH [of i' j'] Cons.prems j separated_keys(4) [OF Cons.prems(1)] by simp
    qed
  qed simp
  then show "i < j \<Longrightarrow> j < length ts \<Longrightarrow> k \<in> set (keys_of (snd (ts ! i))) \<Longrightarrow> k < bkey (fst (ts ! j))"
    using assms by blast
qed

lemma in_concat_nth:
  assumes "k \<in> set (map skey (concat (map (\<lambda>ct. items_of (snd ct)) us)))"
  shows "\<exists>j < length us. k \<in> set (keys_of (snd (us ! j)))"
proof -
  from assms obtain u where "u \<in> set us" "k \<in> set (keys_of (snd u))" by auto
  then show ?thesis by (metis in_set_conv_nth)
qed

lemma in_concat_take: "k \<in> set (map skey (concat (map (\<lambda>ct. items_of (snd ct)) (take i ts)))) \<Longrightarrow>
    \<exists>j < i. j < length ts \<and> k \<in> set (keys_of (snd (ts ! j)))"
  by (drule in_concat_nth) auto

lemma in_concat_drop:
  assumes "k \<in> set (map skey (concat (map (\<lambda>ct. items_of (snd ct)) (drop i ts))))"
  shows "\<exists>j \<ge> i. j < length ts \<and> k \<in> set (keys_of (snd (ts ! j)))"
proof -
  from in_concat_nth [OF assms] obtain j where "j < length ts - i" "k \<in> set (keys_of (snd (drop i ts ! j)))" by auto
  then show ?thesis by (intro exI [of _ "i + j"]) auto
qed

lemma ordered_ssorted: "ordered t \<Longrightarrow> ssorted (keys_of t)"
proof (induction t rule: ordered.induct)
  case (2 n ts)
  have sep: "separated ts" using 2(2) by simp
  have sub: "ssorted (keys_of (snd ct))" if "ct \<in> set ts" for ct using 2(1) [OF that] 2(2) that by simp
  have "ssorted (map skey (concat (map (\<lambda>ct. items_of (snd ct)) us)))" if "separated us" "set us \<subseteq> set ts" for us
    using that
  proof (induction us)
    case (Cons u us)
    have "separated us" by (rule separated_keys(4) [OF Cons.prems(1)])
    moreover have "x < y" if "x \<in> set (keys_of (snd u))" "v \<in> set us" "y \<in> set (keys_of (snd v))" for x y v
    proof -
      have "x < bkey (fst v)" "bkey (fst v) \<le> y"
        using separated_keys(2) [OF Cons.prems(1) that(2)] separated_in [OF separated_keys(4) [OF Cons.prems(1)] that(2)] that(1,3)
        by auto
      then show ?thesis by simp
    qed
    ultimately have "ssorted (map skey (concat (map (\<lambda>ct. items_of (snd ct)) us)))"
      "\<forall>x \<in> set (keys_of (snd u)). \<forall>y \<in> set (map skey (concat (map (\<lambda>ct. items_of (snd ct)) us))). x < y"
      using Cons by auto
    with sub [of u] Cons.prems(2) show ?case by (simp add: sorted_wrt_append)
  qed simp
  from this [OF sep subset_refl] show ?case by (simp only: items_of.simps)
qed simp

end
