(* ===== verification/Big_Search.thy ===== *)
theory Big_Search
  imports Big_Tree
begin

text \<open>
  What the reads of \<^verbatim>\<open>crates/big-btree/src/read.rs\<close> give on a stored tree: point reads, batches of
  them and scans, each against the list of the items of the tree.
\<close>

section \<open>Descent\<close>

lemma read_branch:
  assumes "stored crc rd (BranchNode n ts)"
  obtains br where "rd n = Inr (branch_finish crc (map fst ts) n)"
    "page_page_type (branch_finish crc (map fst ts) n) = Inr PBranch"
    "branch_parse (branch_finish crc (map fst ts) n) = Inr br" "branch_iter br = map fst ts"
proof -
  have rd: "rd n = Inr (branch_finish crc (map fst ts) n)" and fit: "branch_fits (map fst ts)" using assms by simp_all
  from branch_finish_spec(1) [OF fit, of crc n] that rd branch_finish_type [OF fit] show thesis by blast
qed

lemma read_leaf:
  assumes "stored crc rd (LeafNode n xs)"
  obtains lp where "rd n = Inr (leaf_image crc n xs)" "page_page_type (leaf_image crc n xs) = Inr PLeaf"
    "leaf_parse (leaf_image crc n xs) = Inr lp" "reads lp xs"
proof -
  have rd: "rd n = Inr (leaf_image crc n xs)" and fit: "leaf_fits_items xs" using assms by simp_all
  from leaf_image_spec(1) [OF fit, of crc n] that rd leaf_image_spec(2) [OF fit] show thesis by blast
qed

text \<open>The leaf a key is looked up in answers for the key, and for every later key up to its last one.\<close>

lemma route_lookup:
  assumes sep: "separated ts" and ne: "ts \<noteq> []" and i: "i = route (map fst ts) k"
    and k': "k \<le> k'" "k' = k \<or> (\<exists>x \<in> set (items_of (snd (ts ! i))). k' \<le> skey x)"
  shows "lookup k' (items_of (BranchNode n ts)) = lookup k' (items_of (snd (ts ! i)))"
proof -
  have l: "i < length ts" using route_less [of "map fst ts" k] ne by (simp add: i)
  let ?xss = "map (\<lambda>ct. items_of (snd ct)) ts"
  have "k' \<notin> set (map skey (concat (map (\<lambda>ct. items_of (snd ct)) (take i ts))))"
  proof
    assume "k' \<in> set (map skey (concat (map (\<lambda>ct. items_of (snd ct)) (take i ts))))"
    from in_concat_take [OF this] obtain j where j: "j < i" "k' \<in> set (keys_of (snd (ts ! j)))" by blast
    from separatedD(2) [OF sep j(1) l j(2)] have "k' < bkey (fst (ts ! i))" .
    moreover have "bkey (fst (ts ! i)) \<le> k" using route_below [of "map fst ts" k] j(1) l by (simp add: i)
    ultimately show False using k'(1) by simp
  qed
  moreover have "k' \<notin> set (map skey (concat (map (\<lambda>ct. items_of (snd ct)) (drop (Suc i) ts))))"
  proof
    assume "k' \<in> set (map skey (concat (map (\<lambda>ct. items_of (snd ct)) (drop (Suc i) ts))))"
    from in_concat_drop [OF this] obtain j where j: "Suc i \<le> j" "j < length ts" "k' \<in> set (keys_of (snd (ts ! j)))" by blast
    from separatedD(1) [OF sep j(2,3)] have b: "bkey (fst (ts ! j)) \<le> k'" .
    show False
    proof (cases "k' = k")
      case True
      have "k < bkey (fst (ts ! Suc i))"
        using route_above [of "map fst ts" k] separated_asc [OF sep] j(1,2) by (simp add: i)
      moreover have "bkey (fst (ts ! Suc i)) \<le> bkey (fst (ts ! j))"
        using sorted_wrt_nth_less [OF separated_asc [OF sep], of "Suc i" j] j(1,2) by (cases "Suc i = j") auto
      ultimately show False using b True by simp
    next
      case False
      with k'(2) obtain x where "x \<in> set (items_of (snd (ts ! i)))" "k' \<le> skey x" by blast
      with separatedD(2) [OF sep _ j(2), of i "skey x"] j(1) b show False by force
    qed
  qed
  ultimately have "lookup k' (concat (map (\<lambda>ct. items_of (snd ct)) (take i ts))) = None"
    "lookup k' (concat (map (\<lambda>ct. items_of (snd ct)) (drop (Suc i) ts))) = None"
    by (simp_all only: lookup_None_iff not_False_eq_True)
  then show ?thesis using l concat_split [of i ?xss]
    by (simp add: lookup_append take_map drop_map split: option.split)
qed

lemma leaf_for_loop_spec:
  "stored crc rd t \<Longrightarrow> ordered t \<Longrightarrow> full h t \<Longrightarrow> h < d \<Longrightarrow>
    \<exists>n xs. leaf_for_loop rd root k d (root_of t) = Inr n \<and> stored crc rd (LeafNode n xs) \<and> ssorted (map skey xs) \<and>
      (\<forall>k'. k \<le> k' \<and> (k' = k \<or> (\<exists>x \<in> set xs. k' \<le> skey x)) \<longrightarrow> lookup k' (items_of t) = lookup k' xs)"
proof (induction d arbitrary: t h)
  case (Suc d)
  show ?case
  proof (cases t)
    case (LeafNode n xs)
    with Suc.prems have st: "stored crc rd (LeafNode n xs)" by simp
    obtain lp where lp: "rd n = Inr (leaf_image crc n xs)" "page_page_type (leaf_image crc n xs) = Inr PLeaf"
      "leaf_parse (leaf_image crc n xs) = Inr lp" "reads lp xs" by (rule read_leaf [OF st])
    show ?thesis using lp(1,2) Suc.prems(2) st
      by (intro exI [of _ n] exI [of _ xs]) (simp add: LeafNode)
  next
    case (BranchNode n ts)
    with Suc.prems have st: "stored crc rd (BranchNode n ts)" and sep: "separated ts" and ne: "ts \<noteq> []" by simp_all
    obtain br where br: "rd n = Inr (branch_finish crc (map fst ts) n)"
      "page_page_type (branch_finish crc (map fst ts) n) = Inr PBranch"
      "branch_parse (branch_finish crc (map fst ts) n) = Inr br" "branch_iter br = map fst ts"
      by (rule read_branch [OF st])
    define i where "i = route (map fst ts) k"
    have l: "i < length ts" using route_less [of "map fst ts" k] ne by (simp add: i_def)
    obtain g where g: "h = Suc g" "full g (snd (ts ! i))" using Suc.prems(3) BranchNode l by auto
    have c: "bchild (fst (ts ! i)) = root_of (snd (ts ! i))" "stored crc rd (snd (ts ! i))" "ordered (snd (ts ! i))"
      using Suc.prems(1,2) BranchNode l by auto
    have step: "leaf_for_loop rd root k (Suc d) (root_of t) = leaf_for_loop rd root k d (root_of (snd (ts ! i)))"
      using br child_for_route [of br k] separated_asc [OF sep] ne l c(1) by (simp add: BranchNode i_def)
    from Suc.IH [OF c(2,3) g(2)] g(1) Suc.prems(4) obtain m xs where
      m: "leaf_for_loop rd root k d (root_of (snd (ts ! i))) = Inr m" "stored crc rd (LeafNode m xs)" "ssorted (map skey xs)"
      and look: "\<And>k'. k \<le> k' \<Longrightarrow> k' = k \<or> (\<exists>x \<in> set xs. k' \<le> skey x) \<Longrightarrow> lookup k' (items_of (snd (ts ! i))) = lookup k' xs"
      by (metis Suc_less_SucD)
    have "lookup k' (items_of t) = lookup k' xs" if "k \<le> k'" "k' = k \<or> (\<exists>x \<in> set xs. k' \<le> skey x)" for k'
    proof -
      have "k' = k \<or> (\<exists>x \<in> set (items_of (snd (ts ! i))). k' \<le> skey x)"
      proof (rule disjCI)
        assume "\<not> (\<exists>x \<in> set (items_of (snd (ts ! i))). k' \<le> skey x)"
        moreover have False if "x \<in> set xs" "k' \<le> skey x" "k' \<noteq> k" "\<forall>x \<in> set (items_of (snd (ts ! i))). \<not> k' \<le> skey x" for x
        proof -
          have "lookup (skey x) xs \<noteq> None" using that(1) by (auto simp: lookup_None_iff)
          moreover have "lookup (skey x) (items_of (snd (ts ! i))) = lookup (skey x) xs"
            using look [of "skey x"] that(1,2) \<open>k \<le> k'\<close> by fastforce
          ultimately have "skey x \<in> set (keys_of (snd (ts ! i)))" by (metis lookup_None_iff)
          with that(2,4) show False by auto
        qed
        ultimately show "k' = k" using that(2) by blast
      qed
      from route_lookup [OF sep ne i_def that(1) this, of n] look [OF that] show ?thesis by (simp add: BranchNode)
    qed
    with m step show ?thesis by metis
  qed
qed simp

lemma leaf_for_spec:
  assumes "stored crc rd t" "ordered t" "full h t" "h < MAX_DEPTH"
  obtains n xs lp where "leaf_for rd (root_of t) k = Inr n" "rd n = Inr (leaf_image crc n xs)"
    "leaf_parse (leaf_image crc n xs) = Inr lp" "reads lp xs" "ssorted (map skey xs)"
    "\<And>k'. k \<le> k' \<Longrightarrow> k' = k \<or> (\<exists>x \<in> set xs. k' \<le> skey x) \<Longrightarrow> lookup k' (items_of t) = lookup k' xs"
proof -
  from leaf_for_loop_spec [OF assms, of "root_of t" k] obtain n xs where
    n: "leaf_for rd (root_of t) k = Inr n" "stored crc rd (LeafNode n xs)" "ssorted (map skey xs)"
      "\<forall>k'. k \<le> k' \<and> (k' = k \<or> (\<exists>x \<in> set xs. k' \<le> skey x)) \<longrightarrow> lookup k' (items_of t) = lookup k' xs"
    unfolding leaf_for_def by blast
  show thesis using read_leaf [OF n(2)] that n(1,3,4) by metis
qed

lemma tree_find_spec:
  assumes "stored crc rd t" "ordered t" "full h t" "h < MAX_DEPTH"
  shows "case lookup k (items_of t) of
      None \<Rightarrow> tree_find rd (root_of t) k = Inr None
    | Some x \<Rightarrow> \<exists>hit. tree_find rd (root_of t) k = Inr (Some hit) \<and> found_cell hit = Inr (leaf_cell_of x)"
proof -
  obtain n xs lp where n: "leaf_for rd (root_of t) k = Inr n" "rd n = Inr (leaf_image crc n xs)"
    "leaf_parse (leaf_image crc n xs) = Inr lp" "reads lp xs" "ssorted (map skey xs)"
    "lookup k (items_of t) = lookup k xs"
    by (rule leaf_for_spec [OF assms, of k]) simp
  show ?thesis
  proof (cases "leaf_search lp k")
    case (Inl i)
    with leaf_search_reads(1) [OF n(4,5), of k] n show ?thesis by (simp add: tree_find_def)
  next
    case (Inr i)
    with leaf_search_reads(1) [OF n(4,5), of k] n readsD(2) [OF n(4), of i] show ?thesis
      by (simp add: tree_find_def found_cell_def)
  qed
qed

section \<open>Batches\<close>

text \<open>The visitor called on every key with what a point read finds for it.\<close>

fun visit_keys :: "('a \<Rightarrow> container_key \<Rightarrow> leaf_cell option \<Rightarrow> 'e + 'a) \<Rightarrow> leaf_item list \<Rightarrow> container_key list \<Rightarrow> 'a \<Rightarrow> 'e + 'a" where
  "visit_keys f xs [] acc = Inr acc"
| "visit_keys f xs (k # ks) acc = rbind (f acc k (map_option leaf_cell_of (lookup k xs))) (visit_keys f xs ks)"

lemma answer_step:
  assumes "reads lp xs" "ssorted (map skey xs)"
  shows "(case leaf_search lp k of
              Inr i \<Rightarrow> rbind (of_page (leaf_cell_at lp i)) (\<lambda>c. f acc k (Some c))
            | Inl _ \<Rightarrow> f acc k None) = f acc k (map_option leaf_cell_of (lookup k xs))"
  using leaf_search_reads(1) [OF assms, of k] readsD(2) [OF assms(1)] by (cases "leaf_search lp k") auto

lemma answer_leaf_spec:
  assumes r: "reads lp xs" "ssorted (map skey xs)" and hi: "hi = (if xs = [] then None else Some (skey (last xs)))"
  shows "sorted (k # ks) \<Longrightarrow> lookup k ys = lookup k xs \<Longrightarrow>
    (\<forall>k'. k \<le> k' \<and> (\<exists>x \<in> set xs. k' \<le> skey x) \<longrightarrow> lookup k' ys = lookup k' xs) \<Longrightarrow>
    rbind (answer_leaf lp hi f acc (k # ks)) (\<lambda>r. visit_keys f ys (snd r) (fst r)) = visit_keys f ys (k # ks) acc"
proof (induction ks arbitrary: k acc)
  case Nil
  then show ?case by (cases "f acc k (map_option leaf_cell_of (lookup k xs))") (simp_all add: answer_step [OF r])
next
  case (Cons k2 ks)
  show ?case
  proof (cases "f acc k (map_option leaf_cell_of (lookup k xs))")
    case (Inl e)
    with Cons.prems show ?thesis by (simp add: answer_step [OF r])
  next
    case (Inr acc')
    show ?thesis
    proof (cases "case hi of None \<Rightarrow> True | Some l \<Rightarrow> k2 > l")
      case True
      then have "answer_leaf lp hi f acc (k # k2 # ks) = Inr (acc', k2 # ks)"
        using Inr by (subst answer_leaf.simps(2)) (simp add: answer_step [OF r] split: option.splits)
      with Inr Cons.prems(2) show ?thesis by simp
    next
      case False
      then have xs: "xs \<noteq> []" "k2 \<le> skey (last xs)" by (auto simp: hi split: if_splits)
      have "lookup k2 ys = lookup k2 xs" using Cons.prems(1,3) xs last_in_set by auto
      moreover have "\<forall>k'. k2 \<le> k' \<and> (\<exists>x \<in> set xs. k' \<le> skey x) \<longrightarrow> lookup k' ys = lookup k' xs"
        using Cons.prems(1,3) by (auto intro: order_trans)
      ultimately have "rbind (answer_leaf lp hi f acc' (k2 # ks)) (\<lambda>r. visit_keys f ys (snd r) (fst r)) =
          visit_keys f ys (k2 # ks) acc'"
        using Cons.IH [of k2 acc'] Cons.prems(1) by simp
      moreover have "answer_leaf lp hi f acc (k # k2 # ks) = answer_leaf lp hi f acc' (k2 # ks)"
        using Inr False by (subst answer_leaf.simps(2)) (simp add: answer_step [OF r] del: answer_leaf.simps split: option.splits)
      ultimately show ?thesis using Inr Cons.prems(2) by simp
    qed
  qed
qed

lemma answer_leaf_suffix: "answer_leaf lp hi f acc ks = Inr r \<Longrightarrow> \<exists>n. snd r = drop n ks"
proof (induction ks arbitrary: acc)
  case (Cons k ks)
  from answer_leaf_step [OF Cons.prems] obtain a where "r = (a, ks) \<or> answer_leaf lp hi f a ks = Inr r" by blast
  then show ?case
  proof
    assume "r = (a, ks)"
    then show ?thesis by (intro exI [of _ 1]) simp
  next
    assume "answer_leaf lp hi f a ks = Inr r"
    from Cons.IH [OF this] obtain n where "snd r = drop n ks" ..
    then show ?thesis by (intro exI [of _ "Suc n"]) simp
  qed
qed auto

lemma find_many_spec:
  assumes t: "stored crc rd t" "ordered t" "full h t" "h < MAX_DEPTH"
  shows "sorted ks \<Longrightarrow> find_many rd (root_of t) f ks acc = visit_keys f (items_of t) ks acc"
proof (induction "length ks" arbitrary: ks acc rule: less_induct)
  case less
  show ?case
  proof (cases ks)
    case (Cons k ks')
    obtain n xs lp where n: "leaf_for rd (root_of t) k = Inr n" "rd n = Inr (leaf_image crc n xs)"
      "leaf_parse (leaf_image crc n xs) = Inr lp" "reads lp xs" "ssorted (map skey xs)"
      "\<And>k'. k \<le> k' \<Longrightarrow> k' = k \<or> (\<exists>x \<in> set xs. k' \<le> skey x) \<Longrightarrow> lookup k' (items_of t) = lookup k' xs"
      by (rule leaf_for_spec [OF t, of k]) blast
    define hi where "hi = (if xs = [] then None else Some (skey (last xs)))"
    have hi: "(if lcount lp = 0 then Inr None
        else rbind (of_page (leaf_cell_at lp (lcount lp - 1))) (\<lambda>c. Inr (Some (ckey c)))) = Inr hi"
      using readsD(2) [OF n(4), of "length xs - 1"]
      by (auto simp: readsD(1) [OF n(4)] hi_def last_conv_nth leaf_cell_of_def)
    have rest: "find_many rd (root_of t) f (snd r) (fst r) = visit_keys f (items_of t) (snd r) (fst r)"
      if r: "answer_leaf lp hi f acc ks = Inr r" for r
    proof (rule less.hyps)
      show "length (snd r) < length ks" using answer_leaf_shorter [OF r] Cons by simp
      obtain m where "snd r = drop m ks" using answer_leaf_suffix [OF r] ..
      then show "sorted (snd r)" using less.prems by (simp add: sorted_wrt_drop)
    qed
    have "find_many rd (root_of t) f ks acc = rbind (answer_leaf lp hi f acc ks) (\<lambda>r. find_many rd (root_of t) f (snd r) (fst r))"
      using n hi Cons by (simp del: answer_leaf.simps)
    also have "\<dots> = rbind (answer_leaf lp hi f acc ks) (\<lambda>r. visit_keys f (items_of t) (snd r) (fst r))"
      using rest by (intro rbind_cong) auto
    also have "\<dots> = visit_keys f (items_of t) ks acc"
      using answer_leaf_spec [OF n(4,5) hi_def, of k ks' "items_of t" f acc] less.prems n(6) [of k] n(6)
      unfolding Cons by blast
    finally show ?thesis .
  qed simp
qed

section \<open>Scans\<close>

text \<open>The visitor called on every item, until it says stop.\<close>

fun visit_items :: "('a \<Rightarrow> leaf_cell \<Rightarrow> bool \<times> 'a) \<Rightarrow> leaf_item list \<Rightarrow> 'a \<Rightarrow> bool \<times> 'a" where
  "visit_items f [] acc = (False, acc)"
| "visit_items f (x # xs) acc = (case f acc (leaf_cell_of x) of (stop, acc') \<Rightarrow> if stop then (True, acc') else visit_items f xs acc')"

lemma visit_items_append:
  "visit_items f (xs @ ys) acc = (case visit_items f xs acc of (stop, acc') \<Rightarrow> if stop then (True, acc') else visit_items f ys acc')"
  by (induction xs arbitrary: acc) (auto split: prod.split)

abbreviation in_range :: "container_key \<Rightarrow> container_key \<Rightarrow> leaf_item list \<Rightarrow> leaf_item list" where
  "in_range lo hi xs \<equiv> filter (\<lambda>x. lo \<le> skey x \<and> skey x \<le> hi) xs"

text \<open>
  What a walk of a subtree with the items \<open>xs\<close> gives: the state after the items of the range. It
  stops when the visitor said so, and may stop when it saw a key above the range.
\<close>

definition walked :: "('a \<Rightarrow> leaf_cell \<Rightarrow> bool \<times> 'a) \<Rightarrow> container_key \<Rightarrow> container_key \<Rightarrow> leaf_item list \<Rightarrow> 'a \<Rightarrow> btree_error + bool \<times> 'a \<Rightarrow> bool" where
  "walked f lo hi xs acc r \<longleftrightarrow> (\<exists>b. r = Inr (b, snd (visit_items f (in_range lo hi xs) acc)) \<and>
     (fst (visit_items f (in_range lo hi xs) acc) \<longrightarrow> b) \<and>
     (b \<longrightarrow> fst (visit_items f (in_range lo hi xs) acc) \<or> (\<exists>x \<in> set xs. hi < skey x)))"

lemma walkedE:
  assumes "walked f lo hi xs acc r"
  obtains b where "r = Inr (b, snd (visit_items f (in_range lo hi xs) acc))"
    "fst (visit_items f (in_range lo hi xs) acc) \<Longrightarrow> b"
    "b \<Longrightarrow> fst (visit_items f (in_range lo hi xs) acc) \<or> (\<exists>x \<in> set xs. hi < skey x)"
  using assms by (auto simp: walked_def)

lemma walked_mono: "walked f lo hi ys acc r \<Longrightarrow> in_range lo hi xs = in_range lo hi ys \<Longrightarrow> set ys \<subseteq> set xs \<Longrightarrow> walked f lo hi xs acc r"
  unfolding walked_def by auto

lemma walked_append:
  assumes "visit_items f (in_range lo hi xs) acc = (False, a)" "walked f lo hi ys a r"
  shows "walked f lo hi (xs @ ys) acc r"
  using assms unfolding walked_def by (auto simp: visit_items_append)

lemma walk_leaf_spec:
  assumes r: "reads lp xs" and s: "ssorted (map skey xs)"
  shows "i \<le> length xs \<Longrightarrow> (\<forall>x \<in> set (drop i xs). lo \<le> skey x) \<Longrightarrow>
    walked f lo hi (drop i xs) acc (walk_leaf f hi lp [i..<length xs] acc)"
proof (induction "length xs - i" arbitrary: i acc)
  case 0
  then show ?case by (auto simp: walked_def)
next
  case (Suc m)
  then have i: "i < length xs" by simp
  have d: "drop i xs = xs ! i # drop (Suc i) xs" using i by (simp add: Cons_nth_drop_Suc)
  have u: "[i..<length xs] = i # [Suc i..<length xs]" using i by (simp add: upt_conv_Cons)
  have lo: "lo \<le> skey (xs ! i)" using Suc.prems(2) d by simp
  have key: "ckey (leaf_cell_of (xs ! i)) = skey (xs ! i)" by (simp add: leaf_cell_of_def)
  show ?case
  proof (cases "hi < skey (xs ! i)")
    case True
    have "hi < skey x" if x: "x \<in> set (drop i xs)" for x
    proof -
      obtain j where "i \<le> j" "j < length xs" "x = xs ! j"
        using x i by (auto simp: in_set_conv_nth) (metis add.commute le_add1 less_diff_conv)
      then show ?thesis using ssorted_nth_less [OF s, of i j] True by (cases "i = j") auto
    qed
    then have "in_range lo hi (drop i xs) = []" by (auto simp: filter_empty_conv not_le)
    moreover have "xs ! i \<in> set (drop i xs)" using d by simp
    ultimately show ?thesis using True readsD(2) [OF r i] by (auto simp: walked_def u key)
  next
    case False
    have IH: "walked f lo hi (drop (Suc i) xs) acc' (walk_leaf f hi lp [Suc i..<length xs] acc')" for acc'
      using Suc.hyps(1) [of "Suc i" acc'] Suc.hyps(2) Suc.prems(2) i d by simp
    obtain stop acc' where f: "f acc (leaf_cell_of (xs ! i)) = (stop, acc')" by fastforce
    have w: "walk_leaf f hi lp [i..<length xs] acc = (if stop then Inr (True, acc') else walk_leaf f hi lp [Suc i..<length xs] acc')"
      using readsD(2) [OF r i] False f by (simp add: u key)
    have v: "visit_items f (in_range lo hi (drop i xs)) acc =
        (if stop then (True, acc') else visit_items f (in_range lo hi (drop (Suc i) xs)) acc')"
      using lo False f by (simp add: d not_less)
    show ?thesis
    proof (cases stop)
      case True
      then show ?thesis by (auto simp: walked_def w v)
    next
      case False
      then have "visit_items f (in_range lo hi [xs ! i]) acc = (False, acc')" using lo \<open>\<not> hi < skey (xs ! i)\<close> f by (simp add: not_less)
      from walked_append [OF this IH] show ?thesis using False by (simp add: w d)
    qed
  qed
qed

lemma walk_cells_spec:
  assumes go: "\<And>ct acc. ct \<in> set ts \<Longrightarrow> walked f lo hi (items_of (snd ct)) acc (go (bchild (fst ct)) acc)"
  shows "separated ts \<Longrightarrow> walked f lo hi (concat (map (\<lambda>ct. items_of (snd ct)) ts)) acc (walk_cells go lo hi (map fst ts) acc)"
  using go
proof (induction ts arbitrary: acc)
  case Nil
  then show ?case by (auto simp: walked_def)
next
  case (Cons ct ts)
  let ?rest = "concat (map (\<lambda>ct. items_of (snd ct)) ts)"
  note pre = separated_keys [OF Cons.prems(1)]
  have sep: "separated ts" by (rule pre(4))
  note IH = Cons.IH [OF sep Cons.prems(2)]
  have own: "bkey (fst ct) \<le> skey x" if "x \<in> set (items_of (snd ct))" for x
    using pre(1) that by blast
  have later: "bkey (fst ct) \<le> skey y" "x \<in> set (items_of (snd ct)) \<Longrightarrow> skey x < skey y" if y: "y \<in> set ?rest" for x y
  proof -
    obtain v where v: "v \<in> set ts" "y \<in> set (items_of (snd v))" using y unfolding set_concat set_map by blast
    have "bkey (fst v) \<le> skey y" using separated_in [OF sep v] .
    moreover have "bkey (fst ct) < bkey (fst v)" "x \<in> set (items_of (snd ct)) \<Longrightarrow> skey x < bkey (fst v)"
      using pre(2,3) v(1) by blast+
    ultimately show "bkey (fst ct) \<le> skey y" "x \<in> set (items_of (snd ct)) \<Longrightarrow> skey x < skey y" by auto
  qed
  consider (skip) "case map fst ts of [] \<Rightarrow> False | c' # _ \<Rightarrow> bkey c' \<le> lo"
    | (beyond) "\<not> (case map fst ts of [] \<Rightarrow> False | c' # _ \<Rightarrow> bkey c' \<le> lo)" "hi < bkey (fst ct)"
    | (visit) "\<not> (case map fst ts of [] \<Rightarrow> False | c' # _ \<Rightarrow> bkey c' \<le> lo)" "\<not> hi < bkey (fst ct)"
    by blast
  then show ?case
  proof cases
    case skip
    then obtain v vs where v: "ts = v # vs" "bkey (fst v) \<le> lo" by (cases ts) auto
    have "v \<in> set ts" by (simp add: v(1))
    have "skey x < lo" if "x \<in> set (items_of (snd ct))" for x
    proof -
      have "skey x < bkey (fst v)" using pre(2) \<open>v \<in> set ts\<close> that by blast
      then show ?thesis using v(2) by simp
    qed
    then have "in_range lo hi (items_of (snd ct)) = []" by (auto simp: filter_empty_conv not_le)
    then have eq: "in_range lo hi (items_of (snd ct) @ ?rest) = in_range lo hi ?rest" by simp
    have st: "walk_cells go lo hi (map fst (ct # ts)) acc = walk_cells go lo hi (map fst ts) acc" using skip by simp
    have "walked f lo hi (items_of (snd ct) @ ?rest) acc (walk_cells go lo hi (map fst ts) acc)"
      using IH [of acc] eq by (rule walked_mono) auto
    then show ?thesis using st by simp
  next
    case beyond
    have "hi < skey x" if x: "x \<in> set (items_of (snd ct) @ ?rest)" for x
    proof -
      have "bkey (fst ct) \<le> skey x" using x own later(1) unfolding set_append by blast
      then show ?thesis using beyond(2) by simp
    qed
    then have "in_range lo hi (items_of (snd ct) @ ?rest) = []" by (auto simp: filter_empty_conv not_le)
    moreover have "walk_cells go lo hi (map fst (ct # ts)) acc = Inr (False, acc)" using beyond by simp
    ultimately show ?thesis by (auto simp: walked_def)
  next
    case visit
    have "walked f lo hi (items_of (snd ct)) acc (go (bchild (fst ct)) acc)" using Cons.prems(2) by simp
    then obtain b where b: "go (bchild (fst ct)) acc = Inr (b, snd (visit_items f (in_range lo hi (items_of (snd ct))) acc))"
      "fst (visit_items f (in_range lo hi (items_of (snd ct))) acc) \<Longrightarrow> b"
      "b \<Longrightarrow> fst (visit_items f (in_range lo hi (items_of (snd ct))) acc) \<or> (\<exists>x \<in> set (items_of (snd ct)). hi < skey x)"
      by (rule walkedE) blast
    obtain stop a where v: "visit_items f (in_range lo hi (items_of (snd ct))) acc = (stop, a)" by fastforce
    have st: "walk_cells go lo hi (map fst (ct # ts)) acc = (if b then Inr (True, a) else walk_cells go lo hi (map fst ts) a)"
      using visit b(1) v by simp
    have cc: "concat (map (\<lambda>ct. items_of (snd ct)) (ct # ts)) = items_of (snd ct) @ ?rest" by simp
    have vv: "visit_items f (in_range lo hi (items_of (snd ct) @ ?rest)) acc =
        (if stop then (True, a) else visit_items f (in_range lo hi ?rest) a)"
      by (simp add: visit_items_append v)
    show ?thesis
    proof (cases b)
      case False
      then have "\<not> stop" using b(2) v by auto
      then show ?thesis using walked_append [OF _ IH [of a]] v False st cc by simp
    next
      case True
      show ?thesis
      proof (cases stop)
        case True
        then show ?thesis using \<open>b\<close> vv unfolding walked_def st cc by auto
      next
        case False
        then obtain x where x: "x \<in> set (items_of (snd ct))" "hi < skey x" using b(3) [OF \<open>b\<close>] v by auto
        have "hi < skey y" if "y \<in> set ?rest" for y using later(2) [OF that x(1)] x(2) by simp
        then have "in_range lo hi ?rest = []" by (auto simp: filter_empty_conv not_le)
        then show ?thesis using \<open>b\<close> False x vv unfolding walked_def st cc by auto
      qed
    qed
  qed
qed

lemma walk_spec: "stored crc rd t \<Longrightarrow> ordered t \<Longrightarrow> full h t \<Longrightarrow> h < d \<Longrightarrow>
    walked f lo hi (items_of t) acc (walk rd f lo hi d (root_of t) acc)"
proof (induction d arbitrary: t h acc)
  case (Suc d)
  show ?case
  proof (cases t)
    case (LeafNode n xs)
    with Suc.prems have st: "stored crc rd (LeafNode n xs)" and s: "ssorted (map skey xs)" by simp_all
    obtain lp where lp: "rd n = Inr (leaf_image crc n xs)" "page_page_type (leaf_image crc n xs) = Inr PLeaf"
      "leaf_parse (leaf_image crc n xs) = Inr lp" "reads lp xs" by (rule read_leaf [OF st])
    let ?i = "case leaf_search lp lo of Inr i \<Rightarrow> i | Inl i \<Rightarrow> i"
    have d: "filter (\<lambda>x. lo \<le> skey x) xs = drop ?i xs" by (rule leaf_search_reads(2) [OF lp(4) s])
    have i: "?i \<le> length xs" using leaf_search_reads(1) [OF lp(4) s, of lo] by (auto split: sum.splits)
    have w: "walked f lo hi (drop ?i xs) acc (walk_leaf f hi lp [?i..<length xs] acc)"
    proof (rule walk_leaf_spec [OF lp(4) s i])
      show "\<forall>x \<in> set (drop ?i xs). lo \<le> skey x" unfolding d [symmetric] by simp
    qed
    have e: "in_range lo hi xs = in_range lo hi (drop ?i xs)"
      unfolding d [symmetric] by (simp add: conj_commute)
    from walked_mono [OF w e set_drop_subset]
    have "walked f lo hi xs acc (walk_leaf f hi lp [?i..<length xs] acc)" .
    then show ?thesis using lp by (simp add: LeafNode readsD(1))
  next
    case (BranchNode n ts)
    with Suc.prems have st: "stored crc rd (BranchNode n ts)" and sep: "separated ts" by simp_all
    obtain br where br: "rd n = Inr (branch_finish crc (map fst ts) n)"
      "page_page_type (branch_finish crc (map fst ts) n) = Inr PBranch"
      "branch_parse (branch_finish crc (map fst ts) n) = Inr br" "branch_iter br = map fst ts"
      by (rule read_branch [OF st])
    have "walked f lo hi (items_of (snd ct)) acc (walk rd f lo hi d (bchild (fst ct)) acc)" if "ct \<in> set ts" for ct acc
    proof -
      obtain g where "h = Suc g" "\<forall>ct \<in> set ts. full g (snd ct)" using Suc.prems(3) unfolding BranchNode full.simps by blast
      moreover from this have "full g (snd ct)" using that by blast
      moreover have "bchild (fst ct) = root_of (snd ct)" "stored crc rd (snd ct)" "ordered (snd ct)"
        using Suc.prems(1,2) BranchNode that by auto
      ultimately show ?thesis using Suc.IH [of "snd ct" g acc] Suc.prems(4) by simp
    qed
    from walk_cells_spec [OF this sep, where acc = acc] show ?thesis
      unfolding BranchNode root_of.simps walk.simps items_of.simps br(1) using br(2,3,4) by simp
  qed
qed simp

lemma scan_spec:
  assumes "stored crc rd t" "ordered t" "full h t" "h < MAX_DEPTH"
  shows "scan rd (root_of t) lo hi f acc = Inr (snd (visit_items f (in_range lo hi (items_of t)) acc))"
  unfolding scan_def by (rule walkedE [OF walk_spec [OF assms, of f lo hi acc]]) simp

lemma visit_items_fold: "(\<And>a c. \<not> fst (f a c)) \<Longrightarrow> snd (visit_items f xs acc) = foldl (\<lambda>a x. snd (f a (leaf_cell_of x))) acc xs"
proof (induction xs arbitrary: acc)
  case (Cons x xs)
  show ?case using Cons.IH [OF Cons.prems] Cons.prems [of acc "leaf_cell_of x"]
    by (cases "f acc (leaf_cell_of x)") simp
qed simp

lemma collect_spec:
  assumes "stored crc rd t" "ordered t" "full h t" "h < MAX_DEPTH"
  shows "tree_collect rd (root_of t) = Inr (items_of t)"
    and "tree_count rd (root_of t) = Inr (sum_list (map (\<lambda>x. ucast (scard x)) (items_of t)))"
proof -
  have r: "in_range 0 (- 1) (items_of t) = items_of t" by (simp add: filter_id_conv word_order.extremum)
  have c: "foldl (\<lambda>out x. out @ [x]) out xs = out @ xs" for out xs :: "leaf_item list"
    by (induction xs arbitrary: out) simp_all
  show "tree_collect rd (root_of t) = Inr (items_of t)"
    unfolding tree_collect_def scan_spec [OF assms] r by (simp add: visit_items_fold c)
  have n: "foldl (\<lambda>total x. total + ucast (ccard (leaf_cell_of x))) total xs = (total :: u64) + sum_list (map (\<lambda>x. ucast (scard x)) xs)"
    for total xs by (induction xs arbitrary: total) (simp_all add: leaf_cell_of_def add.assoc)
  show "tree_count rd (root_of t) = Inr (sum_list (map (\<lambda>x. ucast (scard x)) (items_of t)))"
    unfolding tree_count_def scan_spec [OF assms] r by (simp add: visit_items_fold n)
qed

section \<open>The reads of a tree\<close>

text \<open>A tree the pages hold: every page as a builder writes it, the keys in order, all leaves at one depth.\<close>

definition sound_tree :: "(u8 list \<Rightarrow> u32) \<Rightarrow> (pgno \<Rightarrow> store_error + page) \<Rightarrow> node \<Rightarrow> bool" where
  "sound_tree crc rd t \<longleftrightarrow> stored crc rd t \<and> ordered t \<and> (\<exists>h < MAX_DEPTH. full h t)"

lemma sound_treeE:
  assumes "sound_tree crc rd t"
  obtains h where "stored crc rd t" "ordered t" "full h t" "h < MAX_DEPTH"
  using assms by (auto simp: sound_tree_def)

text \<open>The visitor called on every key with what its own point read finds.\<close>

fun find_each :: "(pgno \<Rightarrow> store_error + page) \<Rightarrow> pgno \<Rightarrow> ('a \<Rightarrow> container_key \<Rightarrow> leaf_cell option \<Rightarrow> btree_error + 'a) \<Rightarrow>
    container_key list \<Rightarrow> 'a \<Rightarrow> btree_error + 'a" where
  "find_each rd root f [] acc = Inr acc"
| "find_each rd root f (k # ks) acc =
     rbind (tree_find rd root k) (\<lambda>hit.
       rbind (case hit of None \<Rightarrow> Inr None | Some h \<Rightarrow> rbind (found_cell h) (\<lambda>c. Inr (Some c))) (\<lambda>cell.
         rbind (f acc k cell) (find_each rd root f ks)))"

lemma find_each_spec:
  assumes "stored crc rd t" "ordered t" "full h t" "h < MAX_DEPTH"
  shows "find_each rd (root_of t) f ks acc = visit_keys f (items_of t) ks acc"
proof (induction ks arbitrary: acc)
  case (Cons k ks)
  have IH: "find_each rd (root_of t) f ks = visit_keys f (items_of t) ks" using Cons.IH by blast
  show ?case using tree_find_spec [OF assms, of k] by (auto simp: IH split: option.splits)
qed simp

text \<open>A tree of one branch over two leaves, for the examples.\<close>

definition sample_item :: "container_key \<Rightarrow> leaf_item" where
  "sample_item k = \<lparr>skey = k, sty = TArray, selem_n = 1, scard = 1, sbitmap_checksum = 0, sbitmap_pgno = 0, spayload = [7, 0]\<rparr>"

definition sample_tree :: node where
  "sample_tree = BranchNode 5 [(\<lparr>bkey = 2, bflags = 0, bchild = 3\<rparr>, LeafNode 3 [sample_item 2]),
     (\<lparr>bkey = 9, bflags = 0, bchild = 4\<rparr>, LeafNode 4 [sample_item 9])]"

definition sample_pages :: "pgno \<Rightarrow> store_error + page" where
  "sample_pages n =
     (if n = 3 then Inr (leaf_image hd_crc 3 [sample_item 2]) else if n = 4 then Inr (leaf_image hd_crc 4 [sample_item 9])
      else Inr (branch_finish hd_crc [\<lparr>bkey = 2, bflags = 0, bchild = 3\<rparr>, \<lparr>bkey = 9, bflags = 0, bchild = 4\<rparr>] 5))"

lemma sample_leaf: "leaf_fits_items [sample_item k]"
proof -
  obtain b where b: "leaf_push leaf_new (sample_item k) = Some b" "lcells b = [sample_item k]"
    by (simp add: leaf_push_def leaf_new_def leaf_fits_def layout_defs align_up_def sample_item_def)
  have "staged_ok (sample_item k)" by (simp add: staged_ok_def sample_item_def)
  with b builder_ok_push [OF builder_ok_new b(1)] show ?thesis
    unfolding leaf_fits_items_def by auto
qed

lemma sample_key [simp]: "skey (sample_item k) = k"
  by (simp add: sample_item_def)

lemma sample_sound: "sound_tree hd_crc sample_pages sample_tree"
proof -
  have "full 1 sample_tree" by (simp add: sample_tree_def)
  then show ?thesis unfolding sound_tree_def
    by (intro conjI exI [of _ 1])
      (auto simp: sample_tree_def sample_pages_def sample_leaf branch_fits_def layout_defs align_up_def MAX_DEPTH_def)
qed

text \<open>
  C11. A point read of a tree finds a key exactly when an item of the tree has it, and the cell it
  finds is that item.
\<close>

theorem tree_find_correct:
  assumes "sound_tree crc rd t"
  shows "case lookup k (items_of t) of
      None \<Rightarrow> tree_find rd (root_of t) k = Inr None
    | Some x \<Rightarrow> \<exists>hit. tree_find rd (root_of t) k = Inr (Some hit) \<and> found_cell hit = Inr (leaf_cell_of x)"
  using assms by (rule sound_treeE) (rule tree_find_spec)

theorem tree_find_correct_witness:
  "(\<exists>hit. tree_find sample_pages 5 9 = Inr (Some hit) \<and> found_cell hit = Inr (leaf_cell_of (sample_item 9))) \<and>
   tree_find sample_pages 5 4 = Inr None"
  using tree_find_correct [OF sample_sound, of 9] tree_find_correct [OF sample_sound, of 4]
  by (simp add: sample_tree_def)

text \<open>
  C13. Reading many keys in one pass, which descends once for all the keys that fall into one leaf,
  gives the visitor what a point read of every key would give it, in the order of the keys.
\<close>

theorem find_many_correct:
  assumes "sound_tree crc rd t" "sorted ks"
  shows "find_many rd (root_of t) f ks acc = find_each rd (root_of t) f ks acc"
  using assms(1)
proof (rule sound_treeE)
  fix h
  assume t: "stored crc rd t" "ordered t" "full h t" "h < MAX_DEPTH"
  show ?thesis unfolding find_many_spec [OF t assms(2)] find_each_spec [OF t] ..
qed

theorem find_many_correct_witness:
  "find_many sample_pages 5 (\<lambda>acc k c. Inr (acc @ [(k, c \<noteq> None)])) [2, 4, 9] [] = Inr [(2, True), (4, False), (9, True)]"
proof -
  let ?f = "\<lambda>acc k c. Inr (acc @ [(k, c \<noteq> None)])"
  have t: "stored hd_crc sample_pages sample_tree" "ordered sample_tree" "full 1 sample_tree" "1 < MAX_DEPTH"
    using sample_sound by (simp_all add: sound_tree_def sample_tree_def MAX_DEPTH_def)
  have "root_of sample_tree = 5" by (simp add: sample_tree_def)
  then show ?thesis
    using find_many_correct [OF sample_sound, of "[2, 4, 9]" ?f "[]"] find_each_spec [OF t, of ?f "[2, 4, 9]" "[]"]
    by (simp add: sample_tree_def)
qed

text \<open>
  C14. A range scan gives the visitor the items between the two bounds, both included, in key order,
  and stops where the visitor says so.
\<close>

theorem scan_correct:
  assumes "sound_tree crc rd t"
  shows "scan rd (root_of t) lo hi f acc = Inr (snd (visit_items f (in_range lo hi (items_of t)) acc))"
  using assms by (rule sound_treeE) (rule scan_spec)

theorem scan_correct_witness:
  "scan sample_pages 5 3 9 (\<lambda>acc c. (False, acc @ [ckey c])) [] = Inr [9]"
  using scan_correct [OF sample_sound, of 3 9 "\<lambda>acc c. (False, acc @ [ckey c])" "[]"]
  by (simp add: sample_tree_def sample_item_def leaf_cell_of_def)

end
