(* ===== verification/Big_Edit.thy ===== *)
theory Big_Edit
  imports Big_Search
begin

text \<open>
  \<^verbatim>\<open>crates/big-btree/src/write.rs\<close>: copy-on-write changes of a tree. The code is generic in the pager
  below its transaction; here every function takes the operations of the transaction it uses as the
  record \<open>txn_ops\<close>. An error ends the whole operation, so the transaction is returned with a result
  only.
\<close>

record 'w txn_ops =
  t_read :: "'w \<Rightarrow> pgno \<Rightarrow> store_error + page"
  t_alloc :: "'w \<Rightarrow> store_error + pgno \<times> 'w"
  t_write :: "'w \<Rightarrow> pgno \<Rightarrow> page \<Rightarrow> store_error + 'w"
  t_free :: "pgno \<Rightarrow> 'w \<Rightarrow> 'w"

text \<open>The two lines every new page goes through: allocate a number, write the page built for it.\<close>

definition put_page :: "'w txn_ops \<Rightarrow> (pgno \<Rightarrow> page) \<Rightarrow> 'w \<Rightarrow> btree_error + pgno \<times> 'w" where
  "put_page P f w = rbind (of_store (t_alloc P w)) (\<lambda>(n, w1). rbind (of_store (t_write P w1 n (f n))) (\<lambda>w2. Inr (n, w2)))"

section \<open>Items\<close>

definition CAPS :: caps where
  "CAPS = \<lparr>array_max = ARRAY_MAX_ELEMS, run_max = RUN_MAX_INTERVALS\<rparr>"

definition DENSE_ABOVE_BYTES :: nat where "DENSE_ABOVE_BYTES = 4096"

definition WRITE_CAPS :: caps where
  "WRITE_CAPS =
     \<lparr>array_max = (let by_bytes = DENSE_ABOVE_BYTES div 2 in if by_bytes < ARRAY_MAX_ELEMS then by_bytes else ARRAY_MAX_ELEMS),
      run_max = (let by_bytes = DENSE_ABOVE_BYTES div 4 in if by_bytes < RUN_MAX_INTERVALS then by_bytes else RUN_MAX_INTERVALS)\<rparr>"

text \<open>
  The bits in which two bitmaps differ. \<open>word_diff\<close> is the loop over the bits of one word, with the
  bits that are left; both loops give up with \<open>None\<close> once there are more than \<open>MAX_DELTA\<close> entries.
\<close>

function word_diff :: "nat \<Rightarrow> u64 \<Rightarrow> u64 \<Rightarrow> delta_entry list \<Rightarrow> delta_entry list option" where
  "word_diff i new diff entries =
     (if diff = 0 then Some entries
      else let bit = trailing_zeros diff;
               entries' = entries @ [\<lparr>offset = of_nat (i * 64 + bit), set_to = (drop_bit bit new AND 1 = 1)\<rparr>]
           in if length entries' > MAX_DELTA then None else word_diff i new (diff AND (diff - 1)) entries')"
  by pat_completeness auto
termination
  by (relation "measure (\<lambda>(i, new, diff, entries). Suc MAX_DELTA - length entries)") auto

declare word_diff.simps [simp del]

fun words_diff :: "nat \<Rightarrow> (u64 \<times> u64) list \<Rightarrow> delta_entry list \<Rightarrow> delta_entry list option" where
  "words_diff i [] entries = Some entries"
| "words_diff i ((new, old) # ws) entries =
     (case word_diff i new (new XOR old) entries of None \<Rightarrow> None | Some entries' \<Rightarrow> words_diff (Suc i) ws entries')"

definition try_delta :: "ext \<Rightarrow> 'w txn_ops \<Rightarrow> container_key \<Rightarrow> u64 list \<Rightarrow> u32 \<Rightarrow> pgno \<Rightarrow> u32 \<Rightarrow> 'w \<Rightarrow>
    btree_error + leaf_item option" where
  "try_delta E P k words crd n checksum w =
     rbind (of_store (t_read P w n)) (\<lambda>page.
       let computed = bitmap_page_checksum E page in
       if computed \<noteq> checksum then Inl (BPage (ChecksumMismatch checksum computed))
       else rbind (of_page (base_words E page)) (\<lambda>base.
         case words_diff 0 (zip words base) [] of
           None \<Rightarrow> Inr None
         | Some entries \<Rightarrow> Inr (Some (item_delta k n checksum crd entries))))"

definition make_item_fresh :: "ext \<Rightarrow> 'w txn_ops \<Rightarrow> container_key \<Rightarrow> container \<Rightarrow> 'w \<Rightarrow> btree_error + leaf_item \<times> 'w" where
  "make_item_fresh E P k best w =
     (case best of
        Array a \<Rightarrow> Inr (\<lparr>skey = k, sty = TArray, selem_n = of_nat (length a), scard = cardinality best,
            sbitmap_checksum = 0, sbitmap_pgno = 0, spayload = bytes_u16 E a\<rparr>, w)
      | Run r \<Rightarrow> Inr (\<lparr>skey = k, sty = TRun, selem_n = of_nat (length r), scard = cardinality best,
            sbitmap_checksum = 0, sbitmap_pgno = 0, spayload = bytes_interval E r\<rparr>, w)
      | Bitmap ws \<Rightarrow>
          let page = build_bitmap_page E ws in
          rbind (put_page P (\<lambda>_. page) w) (\<lambda>(n, w'). Inr (item_dense k n (cardinality best) (bitmap_page_checksum E page), w')))"

definition make_item_over :: "ext \<Rightarrow> 'w txn_ops \<Rightarrow> container_key \<Rightarrow> container \<Rightarrow> (pgno \<times> u32) option \<Rightarrow> 'w \<Rightarrow>
    btree_error + leaf_item \<times> 'w" where
  "make_item_over E P k c base w =
     (let best = op_result_as_ref (optimize c WRITE_CAPS) in
      case (best, base) of
        (Bitmap words, Some (n, checksum)) \<Rightarrow>
          rbind (try_delta E P k words (cardinality best) n checksum w) (\<lambda>r.
            case r of Some x \<Rightarrow> Inr (x, w) | None \<Rightarrow> make_item_fresh E P k best w)
      | _ \<Rightarrow> make_item_fresh E P k best w)"

definition make_item :: "ext \<Rightarrow> 'w txn_ops \<Rightarrow> container_key \<Rightarrow> container \<Rightarrow> 'w \<Rightarrow> btree_error + leaf_item \<times> 'w" where
  "make_item E P k c w = make_item_over E P k c None w"

section \<open>Packing\<close>

text \<open>The inner loop of \<^verbatim>\<open>pack_leaves\<close>: items go into the builder until one does not fit.\<close>

fun fill_leaf :: "leaf_builder \<Rightarrow> leaf_item list \<Rightarrow> leaf_builder \<times> leaf_item list" where
  "fill_leaf b [] = (b, [])"
| "fill_leaf b (x # xs) = (case leaf_push b x of None \<Rightarrow> (b, x # xs) | Some b' \<Rightarrow> fill_leaf b' xs)"

lemma fill_leaf_split: "fill_leaf b xs = (b', rest) \<Longrightarrow> lcells b' @ rest = lcells b @ xs"
proof (induction b xs rule: fill_leaf.induct)
  case (2 b x xs)
  then show ?case by (cases "leaf_push b x") (auto simp: leaf_push_def split: if_splits)
qed simp

lemma fill_leaf_shorter: "fill_leaf leaf_new xs = (b, rest) \<Longrightarrow> lcells b \<noteq> [] \<Longrightarrow> length rest < length xs"
  using fill_leaf_split [of leaf_new xs b rest] by (metis append_self_conv2 leaf_builder.select_convs(1) leaf_new_def
      length_append length_greater_0_conv less_add_same_cancel2)

function pack_leaves_from :: "ext \<Rightarrow> 'w txn_ops \<Rightarrow> leaf_item list \<Rightarrow> 'w \<Rightarrow> btree_error + branch_cell list \<times> 'w" where
  "pack_leaves_from E P [] w = Inr ([], w)"
| "pack_leaves_from E P (x # xs) w =
     (case fill_leaf leaf_new (x # xs) of (b, rest) \<Rightarrow>
        if lcells b = [] then Inl (PayloadTooLarge (length (spayload (hd rest))))
        else rbind (put_page P (leaf_finish (crc32 E) b) w) (\<lambda>(n, w1).
          rbind (pack_leaves_from E P rest w1) (\<lambda>(cells, w2).
            Inr (\<lparr>bkey = skey x, bflags = 0, bchild = n\<rparr> # cells, w2))))"
  by pat_completeness auto
termination
  by (relation "measure (\<lambda>(E, P, xs, w). length xs)") (auto simp del: fill_leaf.simps dest: fill_leaf_shorter [OF sym])

definition pack_leaves :: "ext \<Rightarrow> 'w txn_ops \<Rightarrow> leaf_item list \<Rightarrow> 'w \<Rightarrow> btree_error + branch_cell list \<times> 'w" where
  "pack_leaves E P items w =
     (if items = [] then
        rbind (put_page P (leaf_finish (crc32 E) leaf_new) w) (\<lambda>(n, w'). Inr ([\<lparr>bkey = 0, bflags = 0, bchild = n\<rparr>], w'))
      else pack_leaves_from E P items w)"

text \<open>
  \<^verbatim>\<open>pack_branches\<close>. A chunk has at most \<^verbatim>\<open>CAPACITY\<close> cells, so none of the pushes of the source can be
  refused and the page is that of the chunk.
\<close>

lemma capacity_two: "2 \<le> BRANCH_CAPACITY"
proof -
  have "branch_fits [undefined, undefined]" by (simp add: branch_fits_def layout_defs align_up_def)
  then show ?thesis using capacity_fits [of "[undefined, undefined]"] by simp
qed

function pack_branches :: "ext \<Rightarrow> 'w txn_ops \<Rightarrow> branch_cell list \<Rightarrow> 'w \<Rightarrow> btree_error + branch_cell list \<times> 'w" where
  "pack_branches E P cells w =
     (if cells = [] then Inr ([], w)
      else let chunk = take BRANCH_CAPACITY cells in
        rbind (put_page P (branch_finish (crc32 E) chunk) w) (\<lambda>(n, w1).
          rbind (pack_branches E P (drop BRANCH_CAPACITY cells) w1) (\<lambda>(out, w2).
            Inr (\<lparr>bkey = bkey (hd chunk), bflags = 0, bchild = n\<rparr> # out, w2))))"
  by pat_completeness auto
termination
  by (relation "measure (\<lambda>(E, P, cells, w). length cells)") (use capacity_two in auto)

declare pack_branches.simps [simp del]

lemma pushes_chunk:
  assumes "length cs \<le> BRANCH_CAPACITY"
  shows "foldl (\<lambda>b c. Option.bind b (\<lambda>b. branch_push b c)) (Some []) cs = Some cs"
  using assms by (induction cs rule: rev_induct) (simp_all add: branch_push_def)

lemma pack_branches_length:
  "pack_branches E P cells w = Inr (out, w') \<Longrightarrow> (cells = [] \<longleftrightarrow> out = []) \<and> length out * BRANCH_CAPACITY < length cells + BRANCH_CAPACITY"
proof (induction E P cells w arbitrary: out w' rule: pack_branches.induct)
  case (1 E P cells w)
  show ?case
  proof (cases "cells = []")
    case False
    with "1.prems" obtain n w1 out' where o: "put_page P (branch_finish (crc32 E) (take BRANCH_CAPACITY cells)) w = Inr (n, w1)"
      "pack_branches E P (drop BRANCH_CAPACITY cells) w1 = Inr (out', w')" "length out = Suc (length out')"
      by (subst (asm) pack_branches.simps) (auto simp: Let_def rbind_Inr_iff split: prod.splits)
    from "1.IH" [OF False refl o(1) refl o(2)]
    have "length out' * BRANCH_CAPACITY < length cells - BRANCH_CAPACITY + BRANCH_CAPACITY" and
      e: "drop BRANCH_CAPACITY cells = [] \<longleftrightarrow> out' = []" by auto
    then show ?thesis using False o(3) capacity_two by (cases "out' = []") auto
  qed (use "1.prems" capacity_two in \<open>auto simp: pack_branches.simps\<close>)
qed

lemma pack_branches_shrinks:
  assumes "pack_branches E P cells w = Inr (out, w')" "1 < length cells"
  shows "length out < length cells"
proof (rule ccontr)
  assume "\<not> length out < length cells"
  then have "length cells * BRANCH_CAPACITY \<le> length out * BRANCH_CAPACITY" by simp
  then have "length cells * BRANCH_CAPACITY < length cells + BRANCH_CAPACITY" using pack_branches_length [OF assms(1)] by linarith
  moreover obtain m c where "length cells = Suc (Suc m)" "BRANCH_CAPACITY = Suc (Suc c)"
    using assms(2) capacity_two by (metis Suc_1 Suc_le_D less_iff_Suc_add One_nat_def add_Suc Suc_le_eq)
  ultimately have "Suc (Suc m) * Suc (Suc c) < Suc (Suc m) + Suc (Suc c)" by metis
  then show False by simp
qed

text \<open>The loop that adds levels until one cell is left.\<close>

function add_levels :: "ext \<Rightarrow> 'w txn_ops \<Rightarrow> branch_cell list \<Rightarrow> 'w \<Rightarrow> btree_error + branch_cell list \<times> 'w" where
  "add_levels E P cells w =
     (if length cells > 1 then rbind (pack_branches E P cells w) (\<lambda>(out, w'). add_levels E P out w') else Inr (cells, w))"
  by pat_completeness auto
termination
  by (relation "measure (\<lambda>(E, P, cells, w). length cells)") (auto dest: pack_branches_shrinks)

declare add_levels.simps [simp del]

definition build :: "ext \<Rightarrow> 'w txn_ops \<Rightarrow> leaf_item list \<Rightarrow> 'w \<Rightarrow> btree_error + pgno \<times> 'w" where
  "build E P items w =
     rbind (pack_leaves E P items w) (\<lambda>(level, w1). rbind (add_levels E P level w1) (\<lambda>(top, w2). Inr (bchild (hd top), w2)))"

section \<open>Descent\<close>

record step =
  step_pgno :: pgno
  step_index :: nat

text \<open>The search for the last separator that is not above the key, from the cell \<open>i\<close> on.\<close>

fun last_below :: "branch_cell list \<Rightarrow> container_key \<Rightarrow> nat \<Rightarrow> nat \<Rightarrow> nat" where
  "last_below [] k i idx = idx"
| "last_below (c # cs) k i idx = (if bkey c \<le> k then last_below cs k (Suc i) i else idx)"

fun descend_loop :: "'w txn_ops \<Rightarrow> 'w \<Rightarrow> pgno \<Rightarrow> container_key \<Rightarrow> nat \<Rightarrow> step list \<Rightarrow> pgno \<Rightarrow> btree_error + pgno \<times> step list" where
  "descend_loop P w root k 0 path cur = Inl (TooDeep root)"
| "descend_loop P w root k (Suc d) path cur =
     rbind (of_store (t_read P w cur)) (\<lambda>page. rbind (of_page (page_page_type page)) (\<lambda>ty.
       case ty of
         PLeaf \<Rightarrow> Inr (cur, path)
       | PBranch \<Rightarrow> rbind (of_page (branch_parse page)) (\<lambda>br.
           if bcount br = 0 then Inl (EmptyBranch cur)
           else let idx = last_below (branch_iter br) k 0 0
                in descend_loop P w root k d (path @ [\<lparr>step_pgno = cur, step_index = idx\<rparr>]) (bchild (the (branch_cell_at br idx))))
       | other \<Rightarrow> Inl (UnexpectedPage cur other)))"

definition descend :: "'w txn_ops \<Rightarrow> 'w \<Rightarrow> pgno \<Rightarrow> container_key \<Rightarrow> btree_error + pgno \<times> step list" where
  "descend P w root k = descend_loop P w root k MAX_DEPTH [] root"

section \<open>Rewriting the path\<close>

text \<open>
  The loop of \<^verbatim>\<open>rewrite_path_span\<close> over the path from the leaf up. Replacing a range of a vector is
  \<^verbatim>\<open>splice\<close> of the library; the index of a step is always inside the branch it was found in.
\<close>

definition replace_range :: "nat \<Rightarrow> nat \<Rightarrow> 'a list \<Rightarrow> 'a list \<Rightarrow> 'a list" where
  "replace_range i j new xs = take i xs @ new @ drop j xs"

fun rewrite_up :: "ext \<Rightarrow> 'w txn_ops \<Rightarrow> step list \<Rightarrow> branch_cell list \<Rightarrow> nat \<Rightarrow> 'w \<Rightarrow> btree_error + branch_cell list \<times> 'w" where
  "rewrite_up E P [] entries span w = Inr (entries, w)"
| "rewrite_up E P (step # up) entries span w =
     rbind (of_store (t_read P w (step_pgno step))) (\<lambda>page. rbind (of_page (branch_parse page)) (\<lambda>br.
       let w1 = t_free P (step_pgno step) w;
           cells = replace_range (step_index step) (min (step_index step + span) (bcount br)) entries (branch_iter br)
       in rbind (if cells = [] then Inr ([], w1) else pack_branches E P cells w1) (\<lambda>(entries', w2).
            rewrite_up E P up entries' 1 w2)))"

definition rewrite_path_span :: "ext \<Rightarrow> 'w txn_ops \<Rightarrow> step list \<Rightarrow> branch_cell list \<Rightarrow> nat \<Rightarrow> 'w \<Rightarrow> btree_error + pgno \<times> 'w" where
  "rewrite_path_span E P path entries span w =
     rbind (rewrite_up E P (rev path) entries span w) (\<lambda>(entries', w1).
       if entries' = [] then build E P [] w1
       else rbind (add_levels E P entries' w1) (\<lambda>(top, w2). Inr (bchild (hd top), w2)))"

definition rewrite_path :: "ext \<Rightarrow> 'w txn_ops \<Rightarrow> step list \<Rightarrow> branch_cell list \<Rightarrow> 'w \<Rightarrow> btree_error + pgno \<times> 'w" where
  "rewrite_path E P path entries w = rewrite_path_span E P path entries 1 w"

section \<open>Leaves\<close>

text \<open>Reading every cell of a leaf, as \<^verbatim>\<open>collect\<close> into a result does: the first error ends it.\<close>

fun cells_to_items :: "leaf_page \<Rightarrow> nat list \<Rightarrow> page_error + leaf_item list" where
  "cells_to_items lp [] = Inr []"
| "cells_to_items lp (i # is) = rbind (leaf_cell_at lp i) (\<lambda>c. rbind (cells_to_items lp is) (\<lambda>xs. Inr (item_from_cell c # xs)))"

definition read_items :: "'w txn_ops \<Rightarrow> 'w \<Rightarrow> pgno \<Rightarrow> btree_error + leaf_item list" where
  "read_items P w n = rbind (of_store (t_read P w n)) (\<lambda>page. rbind (of_page (leaf_parse page)) (\<lambda>leaf.
     of_page (cells_to_items leaf [0..<lcount leaf])))"

definition take_leaf :: "'w txn_ops \<Rightarrow> pgno \<Rightarrow> 'w \<Rightarrow> btree_error + leaf_item list \<times> 'w" where
  "take_leaf P n w = rbind (read_items P w n) (\<lambda>xs. Inr (xs, t_free P n w))"

definition find_item :: "leaf_item list \<Rightarrow> container_key \<Rightarrow> nat + nat" where
  "find_item items k = binary_search_by (\<lambda>x. cmp (skey x) k) items"

definition splice :: "'w txn_ops \<Rightarrow> leaf_item list \<Rightarrow> leaf_item \<Rightarrow> 'w \<Rightarrow> leaf_item list \<times> 'w" where
  "splice P items x w =
     (case find_item items (skey x) of
        Inr i \<Rightarrow>
          (items[i := x],
           case base_pgno (items ! i) of
             Some old \<Rightarrow> if base_pgno x \<noteq> Some old then t_free P old w else w
           | None \<Rightarrow> w)
      | Inl i \<Rightarrow> (take i items @ x # drop i items, w))"

definition item_bytes :: "leaf_item \<Rightarrow> nat" where
  "item_bytes x = align_up (LEAF_CELL_HEADER + length (spayload x)) + CELL_INDEX_ENTRY"

definition leaf_capacity :: nat where
  "leaf_capacity = PAGE_SIZE - PAGE_TRAILER - align_up PAGE_HEADER"

definition merge_right :: "'w txn_ops \<Rightarrow> step list \<Rightarrow> leaf_item list \<Rightarrow> 'w \<Rightarrow> btree_error + (leaf_item list \<times> nat) \<times> 'w" where
  "merge_right P path items w =
     (let used = sum_list (map item_bytes items) in
      if used * 2 > leaf_capacity \<or> path = [] then Inr ((items, 1), w)
      else rbind (of_store (t_read P w (step_pgno (last path)))) (\<lambda>page. rbind (of_page (branch_parse page)) (\<lambda>br.
        case branch_cell_at br (step_index (last path) + 1) of
          None \<Rightarrow> Inr ((items, 1), w)
        | Some c \<Rightarrow> rbind (read_items P w (bchild c)) (\<lambda>sibling_items.
            if used + sum_list (map item_bytes sibling_items) > leaf_capacity then Inr ((items, 1), w)
            else Inr ((items @ sibling_items, 2), t_free P (bchild c) w)))))"

text \<open>\<^verbatim>\<open>leaf_upper_bound\<close> over the path from the leaf up.\<close>

fun upper_bound_up :: "'w txn_ops \<Rightarrow> 'w \<Rightarrow> step list \<Rightarrow> btree_error + container_key option" where
  "upper_bound_up P w [] = Inr None"
| "upper_bound_up P w (step # up) =
     rbind (of_store (t_read P w (step_pgno step))) (\<lambda>page. rbind (of_page (branch_parse page)) (\<lambda>br.
       case branch_cell_at br (step_index step + 1) of Some next \<Rightarrow> Inr (Some (bkey next)) | None \<Rightarrow> upper_bound_up P w up))"

definition leaf_upper_bound :: "'w txn_ops \<Rightarrow> 'w \<Rightarrow> step list \<Rightarrow> btree_error + container_key option" where
  "leaf_upper_bound P w path = upper_bound_up P w (rev path)"

section \<open>Operations\<close>

definition put :: "ext \<Rightarrow> 'w txn_ops \<Rightarrow> pgno option \<Rightarrow> leaf_item \<Rightarrow> 'w \<Rightarrow> btree_error + pgno \<times> 'w" where
  "put E P root x w =
     (case root of
        None \<Rightarrow> build E P [x] w
      | Some r \<Rightarrow> rbind (descend P w r (skey x)) (\<lambda>(leaf_pgno, path).
          rbind (take_leaf P leaf_pgno w) (\<lambda>(items, w1).
            case splice P items x w1 of (items', w2) \<Rightarrow>
              rbind (pack_leaves E P items' w2) (\<lambda>(entries, w3). rewrite_path E P path entries w3))))"

definition remove :: "ext \<Rightarrow> 'w txn_ops \<Rightarrow> pgno \<Rightarrow> container_key \<Rightarrow> 'w \<Rightarrow> btree_error + pgno \<times> 'w" where
  "remove E P root k w =
     rbind (descend P w root k) (\<lambda>(leaf_pgno, path). rbind (take_leaf P leaf_pgno w) (\<lambda>(items, w1).
       case (case find_item items k of
               Inr i \<Rightarrow> (take i items @ drop (Suc i) items,
                  if is_dense (items ! i) then t_free P (sbitmap_pgno (items ! i)) w1 else w1)
             | Inl _ \<Rightarrow> (items, w1)) of (items', w2) \<Rightarrow>
         rbind (if items' = [] \<and> path \<noteq> [] then Inr ([], w2) else pack_leaves E P items' w2) (\<lambda>(entries, w3).
           rewrite_path E P path entries w3)))"

text \<open>The outer loop of the two batch operations. On a damaged tree it need not end.\<close>

partial_function (option) rounds :: "(pgno \<Rightarrow> 'p list \<Rightarrow> 'w \<Rightarrow> btree_error + (pgno \<times> 'p list) \<times> 'w) \<Rightarrow> pgno \<Rightarrow> 'p list \<Rightarrow> 'w \<Rightarrow>
    (btree_error + pgno \<times> 'w) option" where
  "rounds step root queue w =
     (if queue = [] then Some (Inr (root, w))
      else case step root queue w of
             Inl e \<Rightarrow> Some (Inl e)
           | Inr r \<Rightarrow> rounds step (fst (fst r)) (snd (fst r)) (snd r))"

definition beyond :: "container_key option \<Rightarrow> container_key \<Rightarrow> bool" where
  "beyond limit k = (case limit of None \<Rightarrow> False | Some b \<Rightarrow> k \<ge> b)"

fun absorb_items :: "'w txn_ops \<Rightarrow> container_key option \<Rightarrow> leaf_item list \<Rightarrow> leaf_item list \<Rightarrow> 'w \<Rightarrow>
    (leaf_item list \<times> leaf_item list) \<times> 'w" where
  "absorb_items P limit leaf [] w = ((leaf, []), w)"
| "absorb_items P limit leaf (x # queue) w =
     (if beyond limit (skey x) then ((leaf, x # queue), w)
      else case splice P leaf x w of (leaf', w') \<Rightarrow> absorb_items P limit leaf' queue w')"

definition put_many_round :: "ext \<Rightarrow> 'w txn_ops \<Rightarrow> pgno \<Rightarrow> leaf_item list \<Rightarrow> 'w \<Rightarrow> btree_error + (pgno \<times> leaf_item list) \<times> 'w" where
  "put_many_round E P root queue w =
     rbind (descend P w root (skey (hd queue))) (\<lambda>(leaf_pgno, path). rbind (leaf_upper_bound P w path) (\<lambda>limit.
       rbind (take_leaf P leaf_pgno w) (\<lambda>(leaf, w1).
         case absorb_items P limit leaf queue w1 of ((leaf', queue'), w2) \<Rightarrow>
           rbind (pack_leaves E P leaf' w2) (\<lambda>(entries, w3).
             rbind (rewrite_path E P path entries w3) (\<lambda>(root', w4). Inr ((root', queue'), w4))))))"

definition put_many :: "ext \<Rightarrow> 'w txn_ops \<Rightarrow> pgno option \<Rightarrow> leaf_item list \<Rightarrow> 'w \<Rightarrow> (btree_error + pgno \<times> 'w) option" where
  "put_many E P root items w =
     (case root of None \<Rightarrow> Some (build E P items w) | Some r \<Rightarrow> rounds (put_many_round E P) r items w)"

text \<open>The inner loop of \<^verbatim>\<open>put_containers\<close>.\<close>

definition base_at :: "leaf_item list \<Rightarrow> container_key \<Rightarrow> (pgno \<times> u32) option" where
  "base_at leaf k = (case find_item leaf k of
     Inr i \<Rightarrow> map_option (\<lambda>p. (p, sbitmap_checksum (leaf ! i))) (base_pgno (leaf ! i)) | Inl _ \<Rightarrow> None)"

fun absorb_containers :: "ext \<Rightarrow> 'w txn_ops \<Rightarrow> container_key option \<Rightarrow> leaf_item list \<Rightarrow> (container_key \<times> container) list \<Rightarrow> 'w \<Rightarrow>
    btree_error + (leaf_item list \<times> (container_key \<times> container) list) \<times> 'w" where
  "absorb_containers E P limit leaf [] w = Inr ((leaf, []), w)"
| "absorb_containers E P limit leaf ((k, c) # queue) w =
     (if beyond limit k then Inr ((leaf, (k, c) # queue), w)
      else rbind (make_item_over E P k c (base_at leaf k) w) (\<lambda>(x, w1).
        case splice P leaf x w1 of (leaf', w2) \<Rightarrow> absorb_containers E P limit leaf' queue w2))"

definition put_containers_round :: "ext \<Rightarrow> 'w txn_ops \<Rightarrow> pgno \<Rightarrow> (container_key \<times> container) list \<Rightarrow> 'w \<Rightarrow>
    btree_error + (pgno \<times> (container_key \<times> container) list) \<times> 'w" where
  "put_containers_round E P root queue w =
     rbind (descend P w root (fst (hd queue))) (\<lambda>(leaf_pgno, path). rbind (leaf_upper_bound P w path) (\<lambda>limit.
       rbind (take_leaf P leaf_pgno w) (\<lambda>(leaf, w1). rbind (absorb_containers E P limit leaf queue w1) (\<lambda>((leaf', queue'), w2).
         rbind (merge_right P path leaf' w2) (\<lambda>((merged, span), w3). rbind (pack_leaves E P merged w3) (\<lambda>(entries, w4).
           rbind (rewrite_path_span E P path entries span w4) (\<lambda>(root', w5). Inr ((root', queue'), w5))))))))"

fun make_items :: "ext \<Rightarrow> 'w txn_ops \<Rightarrow> (container_key \<times> container) list \<Rightarrow> 'w \<Rightarrow> btree_error + leaf_item list \<times> 'w" where
  "make_items E P [] w = Inr ([], w)"
| "make_items E P ((k, c) # queue) w =
     rbind (make_item E P k c w) (\<lambda>(x, w1). rbind (make_items E P queue w1) (\<lambda>(xs, w2). Inr (x # xs, w2)))"

definition put_containers :: "ext \<Rightarrow> 'w txn_ops \<Rightarrow> pgno option \<Rightarrow> (container_key \<times> container) list \<Rightarrow> 'w \<Rightarrow>
    (btree_error + pgno \<times> 'w) option" where
  "put_containers E P root queue w =
     (case root of
        None \<Rightarrow> Some (rbind (make_items E P queue w) (\<lambda>(items, w1). build E P items w1))
      | Some r \<Rightarrow> rounds (put_containers_round E P) r queue w)"

definition put_container :: "ext \<Rightarrow> 'w txn_ops \<Rightarrow> pgno option \<Rightarrow> container_key \<Rightarrow> container \<Rightarrow> 'w \<Rightarrow> (btree_error + pgno \<times> 'w) option" where
  "put_container E P root k c w = put_containers E P root [(k, c)] w"

end
