(* ===== verification/Big_Heap.thy ===== *)
theory Big_Heap
  imports Big_Edit
begin

text \<open>
  What the tree relies on of a transaction, as the locale \<open>page_heap\<close>: a set of pages is in use, a new
  page is none of them, a page that was freed is no longer one of them, and neither changes what the
  others hold. The lemmas of the locale say what packing leaves and branches makes of a forest of
  subtrees; they hold for any pages \<open>F\<close> beside the ones the operation is about.
\<close>

section \<open>Outcomes\<close>

text \<open>An operation ends with a result that satisfies \<open>Q\<close>, or is refused because the file is full.\<close>

fun exhausted :: "btree_error \<Rightarrow> bool" where
  "exhausted (BStore (MapSizeExhausted _ _)) = True"
| "exhausted _ = False"

definition outcome :: "btree_error + 'a \<Rightarrow> ('a \<Rightarrow> bool) \<Rightarrow> bool" where
  "outcome r Q = (case r of Inl e \<Rightarrow> exhausted e | Inr x \<Rightarrow> Q x)"

lemma outcome_simps [simp]: "outcome (Inl e) Q = exhausted e" "outcome (Inr x) Q = Q x"
  by (simp_all add: outcome_def)

lemma outcome_rbind: "outcome r Q \<Longrightarrow> (\<And>x. Q x \<Longrightarrow> outcome (f x) R) \<Longrightarrow> outcome (rbind r f) R"
  by (cases r) simp_all

lemma outcome_mono: "outcome r Q \<Longrightarrow> (\<And>x. Q x \<Longrightarrow> R x) \<Longrightarrow> outcome r R"
  by (cases r) simp_all

section \<open>Forests\<close>

type_synonym forest = "(branch_cell \<times> node) list"

text \<open>The pages of the nodes of a tree, without the pages of its dense containers.\<close>

fun spine :: "node \<Rightarrow> pgno list" where
  "spine (LeafNode n xs) = [n]"
| "spine (BranchNode n ts) = n # concat (map (\<lambda>ct. spine (snd ct)) ts)"

definition spines :: "forest \<Rightarrow> pgno list" where
  "spines ts = concat (map (\<lambda>ct. spine (snd ct)) ts)"

definition forest_items :: "forest \<Rightarrow> leaf_item list" where
  "forest_items ts = concat (map (\<lambda>ct. items_of (snd ct)) ts)"

definition forest_marks :: "forest \<Rightarrow> container_key list" where
  "forest_marks ts = concat (map (\<lambda>ct. bkey (fst ct) # marks (snd ct)) ts)"

definition forest_stored :: "(u8 list \<Rightarrow> u32) \<Rightarrow> (pgno \<Rightarrow> store_error + page) \<Rightarrow> nat \<Rightarrow> forest \<Rightarrow> bool" where
  "forest_stored crc rd h ts \<longleftrightarrow> (\<forall>ct \<in> set ts. bchild (fst ct) = root_of (snd ct) \<and> stored crc rd (snd ct) \<and> full h (snd ct) \<and> ordered (snd ct))"

lemma forest_simps [simp]:
  "spines [] = []" "spines (ct # ts) = spine (snd ct) @ spines ts" "spines (ts @ us) = spines ts @ spines us"
  "forest_items [] = []" "forest_items (ct # ts) = items_of (snd ct) @ forest_items ts"
  "forest_items (ts @ us) = forest_items ts @ forest_items us"
  "forest_marks [] = []" "forest_marks (ct # ts) = bkey (fst ct) # marks (snd ct) @ forest_marks ts"
  "forest_marks (ts @ us) = forest_marks ts @ forest_marks us"
  "forest_stored crc rd h []"
  "forest_stored crc rd h (ct # ts) \<longleftrightarrow>
     (bchild (fst ct) = root_of (snd ct) \<and> stored crc rd (snd ct) \<and> full h (snd ct) \<and> ordered (snd ct)) \<and> forest_stored crc rd h ts"
  "forest_stored crc rd h (ts @ us) \<longleftrightarrow> forest_stored crc rd h ts \<and> forest_stored crc rd h us"
  by (auto simp: spines_def forest_items_def forest_marks_def forest_stored_def)

lemma spine_branch: "spine (BranchNode n ts) = n # spines ts"
  and items_branch: "items_of (BranchNode n ts) = forest_items ts"
  and marks_branch: "marks (BranchNode n ts) = forest_marks ts"
  by (simp_all add: spines_def forest_items_def forest_marks_def)

lemma stored_cong: "stored crc rd t \<Longrightarrow> (\<And>q. q \<in> set (spine t) \<Longrightarrow> rd' q = rd q) \<Longrightarrow> stored crc rd' t"
proof (induction t rule: spine.induct)
  case (2 n ts)
  have "stored crc rd' (snd ct)" if "ct \<in> set ts" for ct
    using "2.IH" [OF that] "2.prems" that by fastforce
  with "2.prems" show ?case by simp
qed simp

lemma forest_stored_cong:
  assumes "forest_stored crc rd h ts" "\<And>q. q \<in> set (spines ts) \<Longrightarrow> rd' q = rd q"
  shows "forest_stored crc rd' h ts"
  using assms stored_cong [of crc rd _ rd'] by (fastforce simp: forest_stored_def spines_def)

lemma separated_append: "separated (ts @ us) \<longleftrightarrow> separated ts \<and> separated us \<and> (\<forall>k \<in> set (forest_marks ts). \<forall>v \<in> set us. k < bkey (fst v))"
  by (induction ts) auto

lemma separated_marks: "separated ts \<Longrightarrow> ts \<noteq> [] \<Longrightarrow> k \<in> set (forest_marks ts) \<Longrightarrow> bkey (fst (hd ts)) \<le> k"
proof (induction ts)
  case (Cons ct ts)
  then show ?case
  proof (cases "k \<in> set (forest_marks ts)")
    case True
    then have "ts \<noteq> []" by auto
    with Cons True have "bkey (fst (hd ts)) \<le> k" "bkey (fst ct) < bkey (fst (hd ts))" by auto
    then show ?thesis by simp
  qed auto
qed simp

lemma mark_in: "v \<in> set ts \<Longrightarrow> bkey (fst v) \<in> set (forest_marks ts)"
  by (auto simp: forest_marks_def)

lemma item_mark: "x \<in> set (forest_items ts) \<Longrightarrow> skey x \<in> set (forest_marks ts)"
  using marks_items [of x "BranchNode n ts" for n] by (simp add: items_branch marks_branch del: items_of.simps marks.simps)

lemma cells_to_items_reads:
  assumes "reads lp xs" "i \<le> length xs"
  shows "cells_to_items lp [i..<length xs] = Inr (drop i xs)"
  using assms(2)
proof (induction "length xs - i" arbitrary: i)
  case (Suc m)
  then have i: "i < length xs" by simp
  then have "[i..<length xs] = i # [Suc i..<length xs]" by (simp add: upt_conv_Cons)
  then show ?case using Suc.hyps(1) [of "Suc i"] Suc.hyps(2) i readsD(2) [OF assms(1) i] by (simp add: Cons_nth_drop_Suc)
qed simp

section \<open>The interface\<close>

locale page_heap =
  fixes P :: "'w txn_ops"
    and holds :: "'w \<Rightarrow> pgno set \<Rightarrow> bool"
  assumes fresh: "holds w H \<Longrightarrow> t_alloc P w = Inr (n, w1) \<Longrightarrow> n \<notin> H \<and>
      (\<exists>w2. t_write P w1 n c = Inr w2 \<and> holds w2 (insert n H) \<and> t_read P w2 n = Inr c \<and> (\<forall>q \<in> H. t_read P w2 q = t_read P w q))"
    and alloc_fails: "holds w H \<Longrightarrow> t_alloc P w = Inl e \<Longrightarrow> exhausted (BStore e)"
    and free: "holds w (insert n H) \<Longrightarrow> n \<notin> H \<Longrightarrow> holds (t_free P n w) H \<and> (\<forall>q \<in> H. t_read P (t_free P n w) q = t_read P w q)"
begin

text \<open>From \<open>w\<close> to \<open>w'\<close> the pages \<open>F\<close> stay as they are, and the pages \<open>A\<close> are in use beside them.\<close>

definition framed :: "'w \<Rightarrow> pgno set \<Rightarrow> 'w \<Rightarrow> pgno set \<Rightarrow> bool" where
  "framed w F w' A \<longleftrightarrow> holds w' (A \<union> F) \<and> A \<inter> F = {} \<and> (\<forall>q \<in> F. t_read P w' q = t_read P w q)"

lemma framed_refl: "holds w F \<Longrightarrow> framed w F w {}"
  by (simp add: framed_def)

lemma framed_trans: "framed w F w1 A \<Longrightarrow> framed w1 (A \<union> F) w2 B \<Longrightarrow> framed w F w2 (B \<union> A)"
  by (auto simp: framed_def Un_assoc)

lemma framed_holds: "framed w F w' A \<Longrightarrow> holds w' (A \<union> F)"
  and framed_read: "framed w F w' A \<Longrightarrow> q \<in> F \<Longrightarrow> t_read P w' q = t_read P w q"
  and framed_disjoint: "framed w F w' A \<Longrightarrow> A \<inter> F = {}"
  by (auto simp: framed_def)

text \<open>Part of the frame may be counted as part of the result.\<close>

lemma framed_move: "framed w (B \<union> F) w' A \<Longrightarrow> B \<inter> F = {} \<Longrightarrow> framed w F w' (A \<union> B)"
  by (auto simp: framed_def Un_assoc)

lemma put_page_spec:
  assumes "holds w F"
  shows "outcome (put_page P f w) (\<lambda>(n, w'). framed w F w' {n} \<and> t_read P w' n = Inr (f n))"
proof (cases "t_alloc P w")
  case (Inl e)
  then show ?thesis using alloc_fails [OF assms Inl] by (simp add: put_page_def)
next
  case (Inr a)
  then obtain n w1 where a: "t_alloc P w = Inr (n, w1)" by (cases a) auto
  from fresh [OF assms a, of "f n"] show ?thesis by (auto simp: put_page_def a framed_def)
qed

lemma put_page_then:
  assumes "holds w F" "\<And>n w'. framed w F w' {n} \<Longrightarrow> t_read P w' n = Inr (f n) \<Longrightarrow> outcome (g n w') Q"
  shows "outcome (rbind (put_page P f w) (\<lambda>(n, w'). g n w')) Q"
  using assms(2) by (intro outcome_rbind [OF put_page_spec [OF assms(1), of f]]) (auto split: prod.splits)

lemma free_spec: "holds w (insert n F) \<Longrightarrow> n \<notin> F \<Longrightarrow> framed w F (t_free P n w) {}"
  using free [of w n F] by (simp add: framed_def)

text \<open>A forest that an operation has put beside the pages \<open>F\<close>.\<close>

definition yields :: "ext \<Rightarrow> nat \<Rightarrow> 'w \<Rightarrow> pgno set \<Rightarrow> forest \<Rightarrow> 'w \<Rightarrow> bool" where
  "yields E h w F ts w' \<longleftrightarrow> framed w F w' (set (spines ts)) \<and> distinct (spines ts) \<and>
     forest_stored (crc32 E) (t_read P w') h ts \<and> separated ts"

end

section \<open>Leaves\<close>

lemma fill_leaf_ok: "builder_ok b \<Longrightarrow> fill_leaf b xs = (b', rest) \<Longrightarrow> builder_ok b'"
proof (induction b xs rule: fill_leaf.induct)
  case (2 b x xs)
  then show ?case by (cases "leaf_push b x") (auto dest: builder_ok_push)
qed simp

lemma fill_leaf_grows: "fill_leaf b xs = (b', rest) \<Longrightarrow> \<exists>ys. lcells b' = lcells b @ ys"
proof (induction b xs rule: fill_leaf.induct)
  case (2 b x xs)
  then show ?case by (cases "leaf_push b x") (auto simp: leaf_push_def split: if_splits)
qed simp

text \<open>An item that a leaf can hold, alone at least.\<close>

definition item_ok :: "leaf_item \<Rightarrow> bool" where
  "item_ok x \<longleftrightarrow> staged_ok x \<and> leaf_push leaf_new x \<noteq> None"

lemma fill_leaf_first:
  assumes "fill_leaf leaf_new (x # xs) = (b, rest)" "\<forall>y \<in> set (x # xs). item_ok y"
  obtains ys where "lcells b = x # ys" "xs = ys @ rest" "leaf_fits_items (x # ys)"
proof -
  obtain b1 where b1: "leaf_push leaf_new x = Some b1" using assms(2) by (auto simp: item_ok_def)
  then have c1: "lcells b1 = [x]" by (auto simp: leaf_push_def leaf_new_def split: if_splits)
  have f: "fill_leaf b1 xs = (b, rest)" using assms(1) b1 by simp
  obtain ys where ys: "lcells b = x # ys" using fill_leaf_grows [OF f] c1 by auto
  have xs: "xs = ys @ rest" using fill_leaf_split [OF f] c1 ys by simp
  have "builder_ok b" using fill_leaf_ok [OF builder_ok_push [OF builder_ok_new b1] f] .
  then have "leaf_fits_items (x # ys)" using ys xs assms(2) by (auto simp: leaf_fits_items_def item_ok_def)
  with ys xs that show thesis by blast
qed

lemma empty_leaf_fits: "leaf_fits_items []"
  using builder_ok_new by (auto simp: leaf_fits_items_def leaf_new_def intro!: exI [of _ leaf_new])

context page_heap
begin

lemma yields_empty: "holds w F \<Longrightarrow> yields E h w F [] w"
  by (simp add: yields_def framed_refl)

lemma pack_leaves_from_spec:
  assumes "holds w F" "\<forall>x \<in> set xs. item_ok x" "ssorted (map skey xs)"
  shows "outcome (pack_leaves_from E P xs w) (\<lambda>(cells, w'). \<exists>ts. cells = map fst ts \<and> yields E 0 w F ts w' \<and>
    forest_items ts = xs \<and> set (forest_marks ts) = set (map skey xs) \<and> length ts \<le> length xs)"
  using assms
proof (induction "length xs" arbitrary: xs w F rule: less_induct)
  case less
  show ?case
  proof (cases xs)
    case Nil
    then show ?thesis using yields_empty [OF less.prems(1)] by (auto intro!: exI [of _ "[]"])
  next
    case (Cons x zs)
    obtain b rest where fl: "fill_leaf leaf_new (x # zs) = (b, rest)" by fastforce
    then obtain ys where ys: "lcells b = x # ys" "zs = ys @ rest" "leaf_fits_items (x # ys)"
      using fill_leaf_first less.prems(2) Cons by metis
    have srt: "ssorted (map skey (x # ys))" "ssorted (map skey rest)"
      and lt: "\<forall>k \<in> set (map skey (x # ys)). \<forall>k' \<in> set (map skey rest). k < k'"
      and low: "\<forall>k \<in> set (map skey (x # ys)). skey x \<le> k"
      using less.prems(3) Cons ys(2) by (auto simp: sorted_wrt_append less_imp_le)
    have rec: "outcome (pack_leaves_from E P rest w1) (\<lambda>(cells, w'). \<exists>ts. cells = map fst ts \<and> yields E 0 w1 F1 ts w' \<and>
        forest_items ts = rest \<and> set (forest_marks ts) = set (map skey rest) \<and> length ts \<le> length rest)" if "holds w1 F1" for w1 F1
      using less.hyps [OF _ that _ srt(2)] less.prems(2) Cons ys(2) by simp
    have "outcome (rbind (pack_leaves_from E P rest w1) (\<lambda>(cells, w2). Inr (\<lparr>bkey = skey x, bflags = 0, bchild = n\<rparr> # cells, w2)))
        (\<lambda>(cells, w'). \<exists>ts. cells = map fst ts \<and> yields E 0 w F ts w' \<and> forest_items ts = xs \<and> set (forest_marks ts) = set (map skey xs) \<and> length ts \<le> length xs)"
      if n: "framed w F w1 {n}" "t_read P w1 n = Inr (leaf_finish (crc32 E) b n)" for n w1
    proof (rule outcome_rbind [OF rec [OF framed_holds [OF n(1)]]], clarsimp)
      fix ts w2
      assume y: "yields E 0 w1 (insert n F) ts w2" and it: "rest = forest_items ts" "set (forest_marks ts) = skey ` set (forest_items ts)"
        and len: "length ts \<le> length (forest_items ts)"
      let ?t = "LeafNode n (x # ys)" and ?c = "\<lparr>bkey = skey x, bflags = 0, bchild = n\<rparr>"
      have fr: "framed w F w2 (set (spines ts) \<union> {n})" using framed_trans [OF n(1)] y by (simp add: yields_def)
      have "t_read P w2 n = Inr (leaf_image (crc32 E) n (x # ys))"
        using framed_read [of w1 "insert n F" w2 "set (spines ts)" n] y n(2) ys(1) by (simp add: yields_def leaf_finish_image)
      moreover have "\<forall>v \<in> set ts. \<forall>k \<in> set (map skey (x # ys)). k < bkey (fst v)"
        using lt it mark_in [of _ ts] by (metis set_map)
      ultimately have "yields E 0 w F ((?c, ?t) # ts) w2"
        using y fr framed_disjoint [of w1 "insert n F" w2 "set (spines ts)"] ys(3) srt(1) low
        by (auto simp: yields_def)
      moreover have "forest_items ((?c, ?t) # ts) = xs" "set (forest_marks ((?c, ?t) # ts)) = set (map skey xs)"
        "length ((?c, ?t) # ts) \<le> length xs"
        using it Cons ys(2) len by auto
      ultimately show "\<exists>us. ?c # map fst ts = map fst us \<and> yields E 0 w F us w2 \<and> forest_items us = xs \<and> set (forest_marks us) = skey ` set xs \<and>
          length us \<le> length xs"
        by (intro exI [of _ "(?c, ?t) # ts"]) auto
    qed
    then have "outcome (rbind (put_page P (leaf_finish (crc32 E) b) w) (\<lambda>(n, w1). rbind (pack_leaves_from E P rest w1)
          (\<lambda>(cells, w2). Inr (\<lparr>bkey = skey x, bflags = 0, bchild = n\<rparr> # cells, w2))))
        (\<lambda>(cells, w'). \<exists>ts. cells = map fst ts \<and> yields E 0 w F ts w' \<and> forest_items ts = xs \<and> set (forest_marks ts) = set (map skey xs) \<and> length ts \<le> length xs)"
      by (rule put_page_then [OF less.prems(1)])
    then show ?thesis using fl ys(1) by (simp add: Cons del: fill_leaf.simps)
  qed
qed

lemma pack_leaves_spec:
  assumes "holds w F" "\<forall>x \<in> set xs. item_ok x" "ssorted (map skey xs)"
  shows "outcome (pack_leaves E P xs w) (\<lambda>(cells, w'). \<exists>ts. cells = map fst ts \<and> ts \<noteq> [] \<and> yields E 0 w F ts w' \<and>
    forest_items ts = xs \<and> (xs \<noteq> [] \<longrightarrow> set (forest_marks ts) = set (map skey xs)) \<and> length ts \<le> Suc (length xs))"
proof (cases "xs = []")
  case True
  have "yields E 0 w F [(\<lparr>bkey = 0, bflags = 0, bchild = n\<rparr>, LeafNode n [])] w'"
    if "framed w F w' {n}" "t_read P w' n = Inr (leaf_finish (crc32 E) leaf_new n)" for n w'
    using that empty_leaf_fits by (simp add: yields_def leaf_finish_image leaf_new_def)
  then show ?thesis using True put_page_spec [OF assms(1), of "leaf_finish (crc32 E) leaf_new"]
    by (auto simp: pack_leaves_def intro!: outcome_rbind exI [of _ "[(c, LeafNode (bchild c) [])]" for c])
next
  case False
  have "outcome (pack_leaves_from E P xs w) (\<lambda>(cells, w'). \<exists>ts. cells = map fst ts \<and> ts \<noteq> [] \<and> yields E 0 w F ts w' \<and>
    forest_items ts = xs \<and> (xs \<noteq> [] \<longrightarrow> set (forest_marks ts) = set (map skey xs)) \<and> length ts \<le> Suc (length xs))"
    using False by (intro outcome_mono [OF pack_leaves_from_spec [OF assms, of E]]) fastforce
  then show ?thesis using False by (simp add: pack_leaves_def)
qed


end

section \<open>Branches\<close>

lemma separated_split:
  assumes "separated (ts @ us)"
  shows "separated ts" "separated us"
    "k \<in> set (forest_marks ts) \<Longrightarrow> k' \<in> set (forest_marks us) \<Longrightarrow> k < k'"
proof -
  from assms have a: "separated ts" "separated us" "\<forall>k \<in> set (forest_marks ts). \<forall>v \<in> set us. k < bkey (fst v)"
    by (simp_all add: separated_append)
  then show "separated ts" "separated us" by simp_all
  assume k: "k \<in> set (forest_marks ts)" "k' \<in> set (forest_marks us)"
  then have "us \<noteq> []" by auto
  with separated_marks [OF a(2) _ k(2)] a(3) k(1) have "k < bkey (fst (hd us))" "bkey (fst (hd us)) \<le> k'" by auto
  then show "k < k'" by simp
qed

lemma chunk_node:
  assumes "forest_stored crc rd h ts" "separated ts" "ts \<noteq> []" "length ts \<le> BRANCH_CAPACITY"
    and "rd n = Inr (branch_finish crc (map fst ts) n)"
  shows "stored crc rd (BranchNode n ts)" "full (Suc h) (BranchNode n ts)" "ordered (BranchNode n ts)"
  using assms capacity_fits [of "map fst ts"] by (auto simp: forest_stored_def)

context page_heap
begin

lemma pack_branches_spec:
  assumes "holds w (set (spines ts) \<union> F)" "set (spines ts) \<inter> F = {}" "distinct (spines ts)"
    and "forest_stored (crc32 E) (t_read P w) h ts" "separated ts"
  shows "outcome (pack_branches E P (map fst ts) w) (\<lambda>(cells, w'). \<exists>us. cells = map fst us \<and> yields E (Suc h) w F us w' \<and>
    forest_items us = forest_items ts \<and> set (forest_marks us) = set (forest_marks ts))"
  using assms
proof (induction "length ts" arbitrary: ts w F rule: less_induct)
  case less
  show ?case
  proof (cases "ts = []")
    case True
    then show ?thesis using yields_empty [of w F E "Suc h"] less.prems(1) by (auto simp: pack_branches.simps intro!: exI [of _ "[]"])
  next
    case False
    define a r where "a = take BRANCH_CAPACITY ts" and "r = drop BRANCH_CAPACITY ts"
    then have ts: "ts = a @ r" and la: "length a \<le> BRANCH_CAPACITY" by simp_all
    have ne: "a \<noteq> []" using False capacity_two by (auto simp: a_def)
    have cells: "take BRANCH_CAPACITY (map fst ts) = map fst a" "drop BRANCH_CAPACITY (map fst ts) = map fst r"
      by (simp_all add: a_def r_def take_map drop_map)
    note sp = separated_split [OF less.prems(5) [unfolded ts]]
    have pages: "set (spines ts) = set (spines a) \<union> set (spines r)" by (simp add: ts)
    have dist: "distinct (spines a)" "distinct (spines r)" "set (spines a) \<inter> set (spines r) = {}"
      using less.prems(3) by (simp_all add: ts)
    have st: "forest_stored (crc32 E) (t_read P w) h a" "forest_stored (crc32 E) (t_read P w) h r"
      using less.prems(4) by (simp_all add: ts)
    have im: "set (forest_marks ts) = set (forest_marks a) \<union> set (forest_marks r)" "forest_items ts = forest_items a @ forest_items r"
      by (simp_all add: ts)
    have "outcome (rbind (pack_branches E P (map fst r) w1) (\<lambda>(out, w2). Inr (\<lparr>bkey = bkey (hd (map fst a)), bflags = 0, bchild = n\<rparr> # out, w2)))
        (\<lambda>(cells, w'). \<exists>us. cells = map fst us \<and> yields E (Suc h) w F us w' \<and>
           forest_items us = forest_items ts \<and> set (forest_marks us) = set (forest_marks ts))"
      if n: "framed w (set (spines ts) \<union> F) w1 {n}" "t_read P w1 n = Inr (branch_finish (crc32 E) (map fst a) n)" for n w1
    proof -
      let ?F = "set (spines a) \<union> {n} \<union> F"
      have nn: "n \<notin> set (spines ts) \<union> F" using framed_disjoint [OF n(1)] by simp
      have eq: "{n} \<union> (set (spines ts) \<union> F) = set (spines r) \<union> ?F" unfolding pages by blast
      have "holds w1 (set (spines r) \<union> ?F)" using framed_holds [OF n(1)] unfolding eq .
      moreover have "set (spines r) \<inter> ?F = {}" using nn dist(3) less.prems(2) pages by blast
      moreover have "forest_stored (crc32 E) (t_read P w1) h r"
        using st(2) framed_read [OF n(1)] by (rule forest_stored_cong) (simp add: pages)
      moreover have "length r < length ts" using ne by (simp add: ts)
      ultimately have rec: "outcome (pack_branches E P (map fst r) w1) (\<lambda>(cells, w'). \<exists>us. cells = map fst us \<and> yields E (Suc h) w1 ?F us w' \<and>
          forest_items us = forest_items r \<and> set (forest_marks us) = set (forest_marks r))"
        using less.hyps [of r w1 ?F] dist(2) sp(2) by blast
      show ?thesis
      proof (rule outcome_rbind [OF rec], clarify)
        fix us w2
        assume y: "yields E (Suc h) w1 ?F us w2" and us: "forest_items us = forest_items r" "set (forest_marks us) = set (forest_marks r)"
        let ?c = "\<lparr>bkey = bkey (hd (map fst a)), bflags = 0, bchild = n\<rparr>" and ?t = "BranchNode n a"
        have fr: "framed w1 ?F w2 (set (spines us))" using y by (simp add: yields_def)
        have "framed w F w2 (set (spines ((?c, ?t) # us)))"
          unfolding framed_def
        proof (intro conjI ballI)
          show "holds w2 (set (spines ((?c, ?t) # us)) \<union> F)"
            using framed_holds [OF fr] by (simp add: spine_branch Un_ac del: spine.simps)
          show "set (spines ((?c, ?t) # us)) \<inter> F = {}"
            using framed_disjoint [OF fr] nn pages less.prems(2) by (auto simp add: spine_branch simp del: spine.simps)
          show "t_read P w2 q = t_read P w q" if "q \<in> F" for q
            using framed_read [OF fr, of q] framed_read [OF n(1), of q] that by simp
        qed
        moreover have "distinct (spines ((?c, ?t) # us))"
          using y dist(1) framed_disjoint [OF fr] nn pages by (auto simp add: yields_def spine_branch simp del: spine.simps)
        moreover have "forest_stored (crc32 E) (t_read P w2) (Suc h) ((?c, ?t) # us)"
        proof -
          have "forest_stored (crc32 E) (t_read P w2) h a"
            by (rule forest_stored_cong [OF st(1)]) (use framed_read [OF fr] framed_read [OF n(1)] pages in auto)
          moreover have "t_read P w2 n = Inr (branch_finish (crc32 E) (map fst a) n)" using framed_read [OF fr, of n] n(2) by simp
          ultimately show ?thesis
            using chunk_node [OF _ sp(1) ne la, of "crc32 E" "t_read P w2" h n] y by (simp add: yields_def del: stored.simps full.simps ordered.simps)
        qed
        moreover have "separated ((?c, ?t) # us)"
        proof -
          have "bkey (fst (hd a)) \<in> set (forest_marks a)" using ne by (intro mark_in) simp
          moreover have "k < bkey (fst v)" if "k \<in> set (forest_marks a)" "v \<in> set us" for k v
            using sp(3) [OF that(1)] mark_in [OF that(2)] us(2) by simp
          ultimately show ?thesis
            using y separated_marks [OF sp(1) ne] ne by (simp add: yields_def marks_branch hd_map del: marks.simps)
        qed
        moreover have "forest_items ((?c, ?t) # us) = forest_items ts" "set (forest_marks ((?c, ?t) # us)) = set (forest_marks ts)"
          using us im mark_in [of "hd a" a] ne by (auto simp add: items_branch marks_branch hd_map simp del: items_of.simps marks.simps)
        ultimately show "outcome (Inr (?c # map fst us, w2)) (\<lambda>(cells, w'). \<exists>us. cells = map fst us \<and> yields E (Suc h) w F us w' \<and>
            forest_items us = forest_items ts \<and> set (forest_marks us) = set (forest_marks ts))"
          by (auto simp: yields_def intro!: exI [of _ "(?c, ?t) # us"])
      qed
    qed
    then have "outcome (rbind (put_page P (branch_finish (crc32 E) (map fst a)) w) (\<lambda>(n, w1).
        rbind (pack_branches E P (map fst r) w1) (\<lambda>(out, w2). Inr (\<lparr>bkey = bkey (hd (map fst a)), bflags = 0, bchild = n\<rparr> # out, w2))))
        (\<lambda>(cells, w'). \<exists>us. cells = map fst us \<and> yields E (Suc h) w F us w' \<and>
           forest_items us = forest_items ts \<and> set (forest_marks us) = set (forest_marks ts))"
      by (rule put_page_then [OF less.prems(1)])
    then show ?thesis using False by (subst pack_branches.simps) (simp add: Let_def cells)
  qed
qed


lemma yields_here:
  "yields E h w F ts w \<longleftrightarrow> holds w (set (spines ts) \<union> F) \<and> set (spines ts) \<inter> F = {} \<and> distinct (spines ts) \<and>
     forest_stored (crc32 E) (t_read P w) h ts \<and> separated ts"
  by (auto simp: yields_def framed_def)

lemma yields_again: "yields E h w F ts w' \<Longrightarrow> yields E h w' F ts w'"
  by (auto simp: yields_def framed_def)

lemma yields_trans: "yields E h w F ts w1 \<Longrightarrow> yields E g w1 F us w2 \<Longrightarrow> yields E g w F us w2"
  by (auto simp: yields_def framed_def)

lemma pack_branches_yields:
  assumes "yields E h w0 F ts w"
  shows "outcome (pack_branches E P (map fst ts) w) (\<lambda>(cells, w'). \<exists>us. cells = map fst us \<and> yields E (Suc h) w0 F us w' \<and>
    forest_items us = forest_items ts \<and> set (forest_marks us) = set (forest_marks ts) \<and>
    (ts \<noteq> [] \<longrightarrow> us \<noteq> []) \<and> length us * BRANCH_CAPACITY < length ts + BRANCH_CAPACITY)"
proof -
  from yields_again [OF assms] have "outcome (pack_branches E P (map fst ts) w) (\<lambda>(cells, w'). \<exists>us. cells = map fst us \<and> yields E (Suc h) w F us w' \<and>
    forest_items us = forest_items ts \<and> set (forest_marks us) = set (forest_marks ts))"
    by (intro pack_branches_spec) (simp_all add: yields_here)
  then show ?thesis
    using pack_branches_length [of E P "map fst ts" w] yields_trans [OF assms]
    by (cases "pack_branches E P (map fst ts) w") fastforce+
qed

section \<open>Whole trees\<close>

text \<open>A tree that an operation has put beside the pages \<open>F\<close>.\<close>

definition planted :: "ext \<Rightarrow> nat \<Rightarrow> 'w \<Rightarrow> pgno set \<Rightarrow> node \<Rightarrow> 'w \<Rightarrow> bool" where
  "planted E h w F t w' \<longleftrightarrow> framed w F w' (set (spine t)) \<and> distinct (spine t) \<and>
     stored (crc32 E) (t_read P w') t \<and> full h t \<and> ordered t"

lemma yields_planted: "yields E h w F [ct] w' \<Longrightarrow> planted E h w F (snd ct) w' \<and> bchild (fst ct) = root_of (snd ct)"
  by (simp add: yields_def planted_def)

lemma add_levels_spec:
  assumes "yields E h w0 F ts w" "ts \<noteq> []"
  shows "outcome (add_levels E P (map fst ts) w) (\<lambda>(cells, w'). \<exists>ct h'. cells = [fst ct] \<and> yields E h' w0 F [ct] w' \<and>
    items_of (snd ct) = forest_items ts \<and> (length ts = 1 \<longrightarrow> h' = h) \<and> (length ts \<le> BRANCH_CAPACITY \<longrightarrow> h' \<le> Suc h))"
  using assms
proof (induction "length ts" arbitrary: ts w h rule: less_induct)
  case less
  show ?case
  proof (cases "length ts = 1")
    case True
    then obtain ct where ct: "ts = [ct]" by (cases ts) auto
    then have "add_levels E P (map fst ts) w = Inr ([fst ct], w)" by (subst add_levels.simps) simp
    moreover have "yields E h w0 F [ct] w" "items_of (snd ct) = forest_items ts" using less.prems(1) ct by simp_all
    ultimately show ?thesis
      by (simp del: forest_simps split_paired_Ex) (rule exI [of _ ct], rule conjI, rule refl, rule exI [of _ h], simp del: forest_simps)
  next
    case False
    then have many: "1 < length ts" using less.prems(2) by (cases ts) auto
    have "outcome (rbind (pack_branches E P (map fst ts) w) (\<lambda>(out, w'). add_levels E P out w')) (\<lambda>(cells, w'). \<exists>ct h'. cells = [fst ct] \<and>
        yields E h' w0 F [ct] w' \<and> items_of (snd ct) = forest_items ts \<and> (length ts = 1 \<longrightarrow> h' = h) \<and> (length ts \<le> BRANCH_CAPACITY \<longrightarrow> h' \<le> Suc h))"
    proof (rule outcome_rbind [OF pack_branches_yields [OF less.prems(1)]], clarify)
      fix us w1
      assume us: "yields E (Suc h) w0 F us w1" "forest_items us = forest_items ts" "ts \<noteq> [] \<longrightarrow> us \<noteq> []"
        "length us * BRANCH_CAPACITY < length ts + BRANCH_CAPACITY"
      have short: "length us < length ts"
      proof (rule ccontr)
        assume "\<not> length us < length ts"
        then have "length ts * BRANCH_CAPACITY \<le> length us * BRANCH_CAPACITY" by simp
        moreover obtain m c where "length ts = Suc (Suc m)" "BRANCH_CAPACITY = Suc (Suc c)"
          using many capacity_two by (metis Suc_1 Suc_le_D less_iff_Suc_add One_nat_def add_Suc Suc_le_eq)
        ultimately have "Suc (Suc m) * Suc (Suc c) < Suc (Suc m) + Suc (Suc c)" using us(4) by (metis le_less_trans)
        then show False by simp
      qed
      have one: "length us = 1" if "length ts \<le> BRANCH_CAPACITY"
      proof -
        have "length us * BRANCH_CAPACITY < 2 * BRANCH_CAPACITY" using us(4) that by linarith
        then have "length us < 2" unfolding mult_less_cancel2 by blast
        then show ?thesis using us(3) less.prems(2) by (cases us) auto
      qed
      from less.hyps [OF short us(1)] us(3) less.prems(2)
      have "outcome (add_levels E P (map fst us) w1) (\<lambda>(cells, w'). \<exists>ct h'. cells = [fst ct] \<and> yields E h' w0 F [ct] w' \<and>
        items_of (snd ct) = forest_items us \<and> (length us = 1 \<longrightarrow> h' = Suc h) \<and> (length us \<le> BRANCH_CAPACITY \<longrightarrow> h' \<le> Suc (Suc h)))"
        by blast
      then show "outcome (add_levels E P (map fst us) w1) (\<lambda>(cells, w'). \<exists>ct h'. cells = [fst ct] \<and> yields E h' w0 F [ct] w' \<and>
        items_of (snd ct) = forest_items ts \<and> (length ts = 1 \<longrightarrow> h' = h) \<and> (length ts \<le> BRANCH_CAPACITY \<longrightarrow> h' \<le> Suc h))"
        using False us(2) one by (elim outcome_mono) (fastforce simp del: forest_simps)
    qed
    then show ?thesis using many by (subst add_levels.simps) simp
  qed
qed

lemma add_levels_root:
  assumes "yields E h w0 F ts w" "ts \<noteq> []"
  shows "outcome (rbind (add_levels E P (map fst ts) w) (\<lambda>(top, w2). Inr (bchild (hd top), w2))) (\<lambda>(r, w').
    \<exists>t h'. planted E h' w0 F t w' \<and> r = root_of t \<and> items_of t = forest_items ts \<and>
      (length ts = 1 \<longrightarrow> h' = h) \<and> (length ts \<le> BRANCH_CAPACITY \<longrightarrow> h' \<le> Suc h))"
  by (rule outcome_rbind [OF add_levels_spec [OF assms]]) (clarsimp, metis prod.sel yields_planted)

lemma build_spec:
  assumes "holds w F" "\<forall>x \<in> set xs. item_ok x" "ssorted (map skey xs)"
  shows "outcome (build E P xs w) (\<lambda>(r, w'). \<exists>t h. planted E h w F t w' \<and> r = root_of t \<and> items_of t = xs \<and>
    (length xs < BRANCH_CAPACITY \<longrightarrow> h \<le> 1))"
  unfolding build_def
proof (rule outcome_rbind [OF pack_leaves_spec [OF assms]], clarify)
  fix ts w1
  assume ts: "yields E 0 w F ts w1" "ts \<noteq> []" "length ts \<le> Suc (length (forest_items ts))"
  from add_levels_root [OF this(1,2)]
  show "outcome (rbind (add_levels E P (map fst ts) w1) (\<lambda>(top, w2). Inr (bchild (hd top), w2)))
     (\<lambda>(r, w'). \<exists>t h. planted E h w F t w' \<and> r = root_of t \<and> items_of t = forest_items ts \<and>
       (length (forest_items ts) < BRANCH_CAPACITY \<longrightarrow> h \<le> 1))"
    by (rule outcome_mono) (use ts(3) in \<open>(auto; blast)\<close>)
qed

end

end
