(* ===== verification/Big_Path.thy ===== *)
theory Big_Path
  imports Big_Heap "HOL-Library.Multiset"
begin

text \<open>
  The path of a descent, and what rewriting it makes of the tree. A frame is a branch on the path with
  the children before the hole, the cells the hole stands for, and the children after it; frames are
  listed from the leaf up.
\<close>

type_synonym frame = "pgno \<times> forest \<times> branch_cell list \<times> forest"

definition frame_cells :: "frame \<Rightarrow> branch_cell list" where
  "frame_cells = (\<lambda>(n, ls, mid, rs). map fst ls @ mid @ map fst rs)"

definition step_of :: "frame \<Rightarrow> step" where
  "step_of = (\<lambda>(n, ls, mid, rs). \<lparr>step_pgno = n, step_index = length ls\<rparr>)"

text \<open>The keys that belong into the hole: from the first, below the second.\<close>

fun limits :: "frame list \<Rightarrow> container_key option \<times> container_key option" where
  "limits [] = (None, None)"
| "limits ((n, ls, mid, rs) # fs) =
     (if ls = [] then fst (limits fs) else Some (bkey (hd mid)), if rs = [] then snd (limits fs) else Some (bkey (fst (hd rs))))"

definition inside :: "container_key option \<times> container_key option \<Rightarrow> container_key \<Rightarrow> bool" where
  "inside l k \<longleftrightarrow> (\<forall>a. fst l = Some a \<longrightarrow> a \<le> k) \<and> (\<forall>b. snd l = Some b \<longrightarrow> k < b)"

fun ctx_ok :: "(u8 list \<Rightarrow> u32) \<Rightarrow> (pgno \<Rightarrow> store_error + page) \<Rightarrow> nat \<Rightarrow> frame list \<Rightarrow> bool" where
  "ctx_ok crc rd g [] \<longleftrightarrow> True"
| "ctx_ok crc rd g ((n, ls, mid, rs) # fs) \<longleftrightarrow>
     rd n = Inr (branch_finish crc (frame_cells (n, ls, mid, rs)) n) \<and> branch_fits (frame_cells (n, ls, mid, rs)) \<and> mid \<noteq> [] \<and>
     forest_stored crc rd g (ls @ rs) \<and> separated (ls @ rs) \<and> (\<forall>k \<in> set (forest_marks ls). k < bkey (hd mid)) \<and>
     (\<forall>v \<in> set rs. bkey (hd mid) < bkey (fst v)) \<and>
     (\<forall>k \<in> insert (bkey (hd mid)) (set (forest_marks (ls @ rs))). inside (limits fs) k) \<and> ctx_ok crc rd (Suc g) fs"

fun ctx_pages :: "frame list \<Rightarrow> pgno list" where
  "ctx_pages [] = []"
| "ctx_pages ((n, ls, mid, rs) # fs) = n # spines ls @ spines rs @ ctx_pages fs"

fun left_items :: "frame list \<Rightarrow> leaf_item list" where
  "left_items [] = []"
| "left_items ((n, ls, mid, rs) # fs) = left_items fs @ forest_items ls"

fun right_items :: "frame list \<Rightarrow> leaf_item list" where
  "right_items [] = []"
| "right_items ((n, ls, mid, rs) # fs) = forest_items rs @ right_items fs"

lemma ctx_append [simp]:
  "left_items (fs @ gs) = left_items gs @ left_items fs" "right_items (fs @ gs) = right_items fs @ right_items gs"
  "ctx_pages (fs @ gs) = ctx_pages fs @ ctx_pages gs"
  by (induction fs rule: left_items.induct) simp_all

lemma inside_outer:
  assumes "ctx_ok crc rd g (f # fs)" "inside (limits (f # fs)) k"
  shows "inside (limits fs) k"
proof -
  obtain n ls mid rs where f: "f = (n, ls, mid, rs)" by (cases f)
  have m: "inside (limits fs) (bkey (hd mid))" using assms(1) by (simp add: f)
  have r: "inside (limits fs) (bkey (fst (hd rs)))" if "rs \<noteq> []"
    using assms(1) that mark_in [of "hd rs" rs] by (simp add: f)
  show ?thesis using assms(2) m r unfolding f inside_def
    by (auto split: if_splits intro: order_trans less_trans)
qed

text \<open>What is left of the hole is below every key that belongs into it, what is right of it above.\<close>

lemma ctx_items:
  "ctx_ok crc rd g fs \<Longrightarrow> inside (limits fs) k \<Longrightarrow>
    (\<forall>x \<in> set (left_items fs). skey x < k) \<and> (\<forall>x \<in> set (right_items fs). k < skey x)"
proof (induction fs arbitrary: g)
  case (Cons f fs)
  obtain n ls mid rs where f: "f = (n, ls, mid, rs)" by (cases f)
  have out: "inside (limits fs) k" by (rule inside_outer [OF Cons.prems])
  have ctx: "ctx_ok crc rd (Suc g) fs" "separated rs" "\<forall>m \<in> set (forest_marks ls). m < bkey (hd mid)"
    using Cons.prems(1) by (simp_all add: f separated_append)
  have "skey x < k" if "x \<in> set (forest_items ls)" for x
  proof -
    have "ls \<noteq> []" using that by auto
    then have "bkey (hd mid) \<le> k" using Cons.prems(2) by (simp add: f inside_def)
    then show ?thesis using ctx(3) item_mark [OF that] by fastforce
  qed
  moreover have "k < skey x" if "x \<in> set (forest_items rs)" for x
  proof -
    have ne: "rs \<noteq> []" using that by auto
    then have "k < bkey (fst (hd rs))" using Cons.prems(2) by (simp add: f inside_def)
    then show ?thesis using separated_marks [OF ctx(2) ne item_mark [OF that]] by simp
  qed
  ultimately show ?case using Cons.IH [OF ctx(1) out] by (auto simp: f)
qed simp

section \<open>Descent\<close>

lemma last_below_eq: "last_below cs k i idx = (case takeWhile (\<lambda>c. bkey c \<le> k) cs of [] \<Rightarrow> idx | t \<Rightarrow> i + length t - 1)"
  by (induction cs k i idx rule: last_below.induct) (auto split: list.splits)

lemma last_below_route: "last_below cs k 0 0 = route cs k"
  by (simp add: last_below_eq route_def split: list.splits)

lemma hole_frame:
  assumes st: "stored crc rd (BranchNode n ts)" and ord: "ordered (BranchNode n ts)" and fu: "full (Suc g) (BranchNode n ts)"
    and ctx: "ctx_ok crc rd (Suc g) fs" and ins: "\<forall>m \<in> set (marks (BranchNode n ts)). inside (limits fs) m" "inside (limits fs) k"
    and ts: "ts = ls @ (c, u) # rs" and i: "length ls = route (map fst ts) k"
  shows "ctx_ok crc rd g ((n, ls, [c], rs) # fs)" "inside (limits ((n, ls, [c], rs) # fs)) k"
    "\<forall>m \<in> set (marks u). inside (limits ((n, ls, [c], rs) # fs)) m"
proof -
  have sep: "separated (ls @ (c, u) # rs)" using ord ts by simp
  note sp = separated_split [OF sep]
  have marks: "set (marks (BranchNode n ts)) = set (forest_marks ls) \<union> {bkey c} \<union> set (marks u) \<union> set (forest_marks rs)"
    by (auto simp add: marks_branch ts simp del: marks.simps)
  have lr: "k < k'" if "k \<in> set (forest_marks ls)" "k' \<in> {bkey c} \<union> set (marks u) \<union> set (forest_marks rs)" for k k'
    using sp(3) [OF that(1), of k'] that(2) by auto
  have right: "\<forall>v \<in> set rs. bkey c < bkey (fst v) \<and> (\<forall>m \<in> set (marks u). m < bkey (fst v))" "\<forall>m \<in> set (marks u). bkey c \<le> m"
    using sp(2) by simp_all
  have "separated (ls @ rs)" using sp(1,2) lr mark_in [of _ rs] by (auto simp: separated_append simp del: split_paired_All)
  moreover have "forest_stored crc rd g (ls @ rs)"
    using st ord fu unfolding forest_stored_def ts by auto
  ultimately show "ctx_ok crc rd g ((n, ls, [c], rs) # fs)"
    using st ctx ins lr right ts marks by (auto simp: frame_cells_def simp del: marks.simps)
  have nth: "map fst ts ! length ls = c" "rs \<noteq> [] \<Longrightarrow> map fst ts ! Suc (length ls) = fst (hd rs)"
    by (simp_all add: ts nth_append hd_conv_nth)
  have below: "bkey c \<le> k" if "ls \<noteq> []"
    using route_below [of "map fst ts" k] that nth(1) unfolding i [symmetric] by simp
  have above: "k < bkey (fst (hd rs))" if "rs \<noteq> []"
    using route_above [of "map fst ts" k] separated_asc [of ts] sep that nth(2) unfolding i [symmetric]
    by (simp add: ts)
  show "inside (limits ((n, ls, [c], rs) # fs)) k"
    using below above ins(2) by (auto simp: inside_def split: if_splits)
  show "\<forall>m \<in> set (marks u). inside (limits ((n, ls, [c], rs) # fs)) m"
    using ins(1) right marks by (auto simp: inside_def simp del: marks.simps)
qed

lemma descend_loop_spec:
  assumes "stored crc (t_read P w) t" "ordered t" "full g t" "g < d" "ctx_ok crc (t_read P w) g fs"
    and "\<forall>m \<in> set (marks t). inside (limits fs) m" "inside (limits fs) k"
  shows "\<exists>fs' n xs. descend_loop P w root k d (map step_of (rev fs)) (root_of t) = Inr (n, map step_of (rev (fs' @ fs))) \<and>
    length fs' = g \<and> ctx_ok crc (t_read P w) 0 (fs' @ fs) \<and> stored crc (t_read P w) (LeafNode n xs) \<and> ssorted (map skey xs) \<and>
    (\<forall>x \<in> set xs. inside (limits (fs' @ fs)) (skey x)) \<and> inside (limits (fs' @ fs)) k \<and>
    items_of t = left_items fs' @ xs @ right_items fs' \<and> mset (spine t) = mset (n # ctx_pages fs') \<and>
    (\<forall>(n, ls, mid, rs) \<in> set fs'. length mid = 1)"
  using assms
proof (induction d arbitrary: t g fs)
  case (Suc d)
  show ?case
  proof (cases t)
    case (LeafNode n xs)
    with Suc.prems have st: "stored crc (t_read P w) (LeafNode n xs)" by simp
    obtain lp where lp: "t_read P w n = Inr (leaf_image crc n xs)" "page_page_type (leaf_image crc n xs) = Inr PLeaf"
      "leaf_parse (leaf_image crc n xs) = Inr lp" "reads lp xs" by (rule read_leaf [OF st])
    have "descend_loop P w root k (Suc d) (map step_of (rev fs)) (root_of t) = Inr (n, map step_of (rev fs))"
      using lp by (simp add: LeafNode)
    then show ?thesis using Suc.prems st by (intro exI [of _ "[]"] exI [of _ n] exI [of _ xs]) (auto simp: LeafNode)
  next
    case (BranchNode n ts)
    with Suc.prems have st: "stored crc (t_read P w) (BranchNode n ts)" and ne: "ts \<noteq> []" by simp_all
    obtain br where br: "t_read P w n = Inr (branch_finish crc (map fst ts) n)"
      "page_page_type (branch_finish crc (map fst ts) n) = Inr PBranch"
      "branch_parse (branch_finish crc (map fst ts) n) = Inr br" "branch_iter br = map fst ts"
      by (rule read_branch [OF st])
    define i where "i = route (map fst ts) k"
    have l: "i < length ts" using route_less [of "map fst ts" k] ne by (simp add: i_def)
    obtain c u where cu: "ts ! i = (c, u)" by fastforce
    define ls rs where "ls = take i ts" and "rs = drop (Suc i) ts"
    have ts: "ts = ls @ (c, u) # rs" and len: "length ls = i"
      using l cu by (simp_all add: ls_def rs_def id_take_nth_drop [symmetric] flip: cu)
    obtain g' where g: "g = Suc g'" "full g' u" using Suc.prems(3) unfolding BranchNode by (auto simp: ts)
    have u: "bchild c = root_of u" "stored crc (t_read P w) u" "ordered u" using Suc.prems(1,2) by (simp_all add: BranchNode ts)
    note fr = hole_frame [of crc "t_read P w" n ts g' fs k ls c u rs, OF st Suc.prems(2,3,5,6,7) [unfolded BranchNode g(1)] ts
        len [unfolded i_def]]
    have cnt: "bcount br = length ts" using length_branch_iter [of br] br(4) by simp
    have "descend_loop P w root k (Suc d) (map step_of (rev fs)) (root_of t) =
        descend_loop P w root k d (map step_of (rev ((n, ls, [c], rs) # fs))) (root_of u)"
      using br cnt ne l branch_iter_nth [of i br] cu u(1) len
      by (simp add: BranchNode last_below_route i_def [symmetric] Let_def step_of_def)
    moreover obtain fs' m xs where
      IH: "descend_loop P w root k d (map step_of (rev ((n, ls, [c], rs) # fs))) (root_of u) =
          Inr (m, map step_of (rev (fs' @ (n, ls, [c], rs) # fs)))" "length fs' = g'"
        "ctx_ok crc (t_read P w) 0 (fs' @ (n, ls, [c], rs) # fs)" "stored crc (t_read P w) (LeafNode m xs)" "ssorted (map skey xs)"
        "\<forall>x \<in> set xs. inside (limits (fs' @ (n, ls, [c], rs) # fs)) (skey x)" "inside (limits (fs' @ (n, ls, [c], rs) # fs)) k"
        "items_of u = left_items fs' @ xs @ right_items fs'" "mset (spine u) = mset (m # ctx_pages fs')"
        "\<forall>(n, ls, mid, rs) \<in> set fs'. length mid = 1"
      using Suc.IH [OF u(2,3) g(2) _ fr(1,3,2)] Suc.prems(4) g(1) by auto
    moreover have "items_of t = left_items (fs' @ [(n, ls, [c], rs)]) @ xs @ right_items (fs' @ [(n, ls, [c], rs)])"
      using IH(8) by (simp add: BranchNode items_branch ts del: items_of.simps)
    moreover have "mset (spine t) = mset (m # ctx_pages (fs' @ [(n, ls, [c], rs)]))"
      using IH(9) by (simp add: BranchNode spine_branch ts del: spine.simps)
    ultimately show ?thesis
      using g(1) by (intro exI [of _ "fs' @ [(n, ls, [c], rs)]"] exI [of _ m] exI [of _ xs]) auto
  qed
qed simp

end
