(* ===== verification/Big_Rewrite.thy ===== *)
theory Big_Rewrite
  imports Big_Path
begin

text \<open>
  Rewriting the path of a descent, bottom up, and the single-key operations of the tree: putting an
  item and removing one are insertion into and deletion from the list of the items.
\<close>

section \<open>Rewriting\<close>

lemma read_frame:
  assumes "ctx_ok crc rd g ((n, ls, mid, rs) # fs)"
  obtains br where "rd n = Inr (branch_finish crc (frame_cells (n, ls, mid, rs)) n)"
    "branch_parse (branch_finish crc (frame_cells (n, ls, mid, rs)) n) = Inr br"
    "branch_iter br = map fst ls @ mid @ map fst rs" "bcount br = length ls + length mid + length rs"
proof -
  have "rd n = Inr (branch_finish crc (frame_cells (n, ls, mid, rs)) n)" "branch_fits (frame_cells (n, ls, mid, rs))"
    using assms by simp_all
  with branch_finish_spec(1) [OF this(2), of crc n] that show thesis by (auto simp: frame_cells_def)
qed

lemma separated_hole:
  assumes "ctx_ok crc rd g ((n, ls, mid, rs) # fs)" "separated es" "\<forall>m \<in> set (forest_marks es). inside (limits ((n, ls, mid, rs) # fs)) m"
  shows "separated (ls @ es @ rs)"
proof -
  have sep: "separated ls" "separated rs" "\<forall>k \<in> set (forest_marks ls). \<forall>v \<in> set rs. k < bkey (fst v)"
    "\<forall>k \<in> set (forest_marks ls). k < bkey (hd mid)"
    using assms(1) by (simp_all add: separated_append)
  have "k < bkey (fst v)" if "k \<in> set (forest_marks ls)" "v \<in> set es" for k v
  proof -
    have "ls \<noteq> []" using that(1) by auto
    then have "bkey (hd mid) \<le> bkey (fst v)" using assms(3) mark_in [OF that(2)] by (auto simp: inside_def)
    then show ?thesis using sep(4) that(1) by fastforce
  qed
  moreover have "k < bkey (fst v)" if "k \<in> set (forest_marks es)" "v \<in> set rs" for k v
  proof -
    have ne: "rs \<noteq> []" using that(2) by auto
    then have "k < bkey (fst (hd rs))" using assms(3) that(1) by (auto simp: inside_def)
    also have "\<dots> \<le> bkey (fst v)" using separated_marks [OF sep(2) ne mark_in [OF that(2)]] .
    finally show ?thesis .
  qed
  ultimately show ?thesis using sep assms(2) by (auto simp: separated_append simp del: split_paired_All)
qed

lemma ctx_ok_cong:
  "ctx_ok crc rd g fs \<Longrightarrow> (\<And>q. q \<in> set (ctx_pages fs) \<Longrightarrow> rd' q = rd q) \<Longrightarrow> ctx_ok crc rd' g fs"
proof (induction crc rd g fs rule: ctx_ok.induct)
  case (2 crc rd g n ls mid rs fs)
  have "forest_stored crc rd' g (ls @ rs)"
    by (rule forest_stored_cong [of crc rd]) (use "2.prems" in auto)
  moreover have "ctx_ok crc rd' (Suc g) fs" using "2.IH" "2.prems" by simp
  ultimately show ?case using "2.prems" by simp
qed simp

context page_heap
begin

text \<open>One step up: the branch is freed and its children, with the new ones in the hole, are free-standing.\<close>

lemma open_frame:
  assumes y: "yields E g w0 (set (ctx_pages (f # fs)) \<union> F) es w"
    and d: "distinct (ctx_pages (f # fs))" "set (ctx_pages (f # fs)) \<inter> F = {}"
    and f: "f = (n, ls, mid, rs)" and ctx: "ctx_ok (crc32 E) (t_read P w0) g (f # fs)"
    and ins: "\<forall>m \<in> set (forest_marks es). inside (limits (f # fs)) m"
  shows "yields E g w0 (set (ctx_pages fs) \<union> F) (ls @ es @ rs) (t_free P n w)"
proof -
  let ?w = "t_free P n w" and ?R = "set (spines es) \<union> set (spines ls) \<union> set (spines rs) \<union> set (ctx_pages fs) \<union> F"
  note yd = y [unfolded yields_def framed_def]
  have all: "set (spines es) \<union> (set (ctx_pages (f # fs)) \<union> F) = insert n ?R" by (auto simp: f)
  have n: "n \<notin> ?R" using d yd by (auto simp: f)
  have fr: "framed w ?R ?w {}" by (rule free_spec) (use yd n all in auto)
  have keep: "t_read P ?w q = t_read P w0 q" if "q \<in> set (spines ls) \<union> set (spines rs) \<union> set (ctx_pages fs) \<union> F" for q
    using framed_read [OF fr, of q] yd that by (auto simp: f)
  have "forest_stored (crc32 E) (t_read P ?w) g es"
    by (rule forest_stored_cong [of "crc32 E" "t_read P w"]) (use yd framed_read [OF fr] in auto)
  moreover have "forest_stored (crc32 E) (t_read P ?w) g (ls @ rs)"
    by (rule forest_stored_cong [of "crc32 E" "t_read P w0"]) (use ctx keep f in auto)
  moreover have "separated (ls @ es @ rs)" using separated_hole [OF ctx [unfolded f]] yd ins f by simp
  moreover have "distinct (spines (ls @ es @ rs))" "set (spines (ls @ es @ rs)) \<inter> (set (ctx_pages fs) \<union> F) = {}"
    using d yd by (auto simp: f)
  moreover have "set (spines (ls @ es @ rs)) \<union> (set (ctx_pages fs) \<union> F) = ?R" by auto
  ultimately show ?thesis
    using framed_holds [OF fr] keep unfolding yields_def framed_def by (auto simp: Un_ac)
qed

lemma rewrite_up_spec:
  assumes "yields E g w0 (set (ctx_pages fs) \<union> F) es w" "distinct (ctx_pages fs)" "set (ctx_pages fs) \<inter> F = {}"
    and "ctx_ok (crc32 E) (t_read P w0) g fs" "\<forall>m \<in> set (forest_marks es). inside (limits fs) m"
    and "\<forall>(n, ls, mid, rs) \<in> set (tl fs). length mid = 1" "\<forall>n ls mid rs. fs \<noteq> [] \<and> hd fs = (n, ls, mid, rs) \<longrightarrow> length mid = span"
  shows "outcome (rewrite_up E P (map step_of fs) (map fst es) span w) (\<lambda>(cells, w'). \<exists>us. cells = map fst us \<and>
    yields E (g + length fs) w0 F us w' \<and> forest_items us = left_items fs @ forest_items es @ right_items fs \<and>
    (length es \<le> BRANCH_CAPACITY \<longrightarrow> length us \<le> BRANCH_CAPACITY))"
  using assms
proof (induction fs arbitrary: g es w span)
  case Nil
  then show ?case by (auto simp del: split_paired_Ex)
next
  case (Cons f fs)
  obtain n ls mid rs where f: "f = (n, ls, mid, rs)" by (cases f)
  have span: "length mid = span" using Cons.prems(7) by (simp add: f)
  have ctx: "ctx_ok (crc32 E) (t_read P w0) g ((n, ls, mid, rs) # fs)" using Cons.prems(4) by (simp add: f)
  obtain br where br: "t_read P w0 n = Inr (branch_finish (crc32 E) (frame_cells (n, ls, mid, rs)) n)"
    "branch_parse (branch_finish (crc32 E) (frame_cells (n, ls, mid, rs)) n) = Inr br"
    "branch_iter br = map fst ls @ mid @ map fst rs" "bcount br = length ls + length mid + length rs"
    by (rule read_frame [OF ctx])
  have rd: "t_read P w n = t_read P w0 n" using Cons.prems(1) by (simp add: yields_def framed_def f)
  have cells: "replace_range (length ls) (min (length ls + span) (bcount br)) (map fst es) (branch_iter br) = map fst (ls @ es @ rs)"
    using br(3,4) span by (simp add: replace_range_def)
  note op = open_frame [OF Cons.prems(1-3) f Cons.prems(4,5)]
  have small: "length ls + length rs < BRANCH_CAPACITY"
  proof -
    have "branch_fits (frame_cells (n, ls, mid, rs))" "mid \<noteq> []" using ctx by simp_all
    then show ?thesis using capacity_fits [of "frame_cells (n, ls, mid, rs)"] by (cases mid) (auto simp: frame_cells_def)
  qed
  have rest: "distinct (ctx_pages fs)" "set (ctx_pages fs) \<inter> F = {}" "ctx_ok (crc32 E) (t_read P w0) (Suc g) fs"
    using Cons.prems(2,3) ctx by (auto simp: f)
  have ones: "\<forall>(n, ls, mid, rs) \<in> set fs. length mid = 1" using Cons.prems(6) by simp
  then have tl: "\<forall>(n, ls, mid, rs) \<in> set (tl fs). length mid = 1" by (cases fs) simp_all
  from ones have hd: "\<forall>n ls mid rs. fs \<noteq> [] \<and> hd fs = (n, ls, mid, rs) \<longrightarrow> length mid = 1" by (cases fs) auto
  have out: "\<forall>m \<in> set (forest_marks (ls @ es @ rs)). inside (limits fs) m"
  proof
    fix m
    assume "m \<in> set (forest_marks (ls @ es @ rs))"
    then consider "m \<in> set (forest_marks (ls @ rs))" | "m \<in> set (forest_marks es)" by auto
    then show "inside (limits fs) m"
    proof cases
      case 1
      then show ?thesis using ctx by simp
    next
      case 2
      then show ?thesis using Cons.prems(5) inside_outer [OF Cons.prems(4)] by blast
    qed
  qed
  let ?Q = "\<lambda>(cells, w'). \<exists>us. cells = map fst us \<and> yields E (g + length (f # fs)) w0 F us w' \<and>
    forest_items us = left_items (f # fs) @ forest_items es @ right_items (f # fs) \<and> (length es \<le> BRANCH_CAPACITY \<longrightarrow> length us \<le> BRANCH_CAPACITY)"
  have next_up: "outcome (rewrite_up E P (map step_of fs) (map fst us) 1 w2) ?Q"
    if "yields E (Suc g) w0 (set (ctx_pages fs) \<union> F) us w2" "forest_items us = forest_items (ls @ es @ rs)"
      "set (forest_marks us) = set (forest_marks (ls @ es @ rs))" "length es \<le> BRANCH_CAPACITY \<longrightarrow> length us \<le> BRANCH_CAPACITY" for us w2
  proof -
    have "outcome (rewrite_up E P (map step_of fs) (map fst us) 1 w2) (\<lambda>(cells, w'). \<exists>vs. cells = map fst vs \<and>
        yields E (Suc g + length fs) w0 F vs w' \<and> forest_items vs = left_items fs @ forest_items us @ right_items fs \<and>
        (length us \<le> BRANCH_CAPACITY \<longrightarrow> length vs \<le> BRANCH_CAPACITY))"
      using Cons.IH [OF that(1) rest _ tl hd] out unfolding that(3) by blast
    then show ?thesis
      by (rule outcome_mono) (use that(2,4) in \<open>auto simp: f simp del: split_paired_Ex\<close>)
  qed
  have "outcome (rbind (if ls @ es @ rs = [] then Inr ([], t_free P n w) else pack_branches E P (map fst (ls @ es @ rs)) (t_free P n w))
      (\<lambda>(entries', w2). rewrite_up E P (map step_of fs) entries' 1 w2)) ?Q"
  proof (cases "ls @ es @ rs = []")
    case True
    have "yields E (Suc g) w0 (set (ctx_pages fs) \<union> F) [] (t_free P n w)" using op True by (simp add: yields_def)
    from next_up [OF this] True show ?thesis by simp
  next
    case False
    have "outcome (rbind (pack_branches E P (map fst (ls @ es @ rs)) (t_free P n w))
      (\<lambda>(entries', w2). rewrite_up E P (map step_of fs) entries' 1 w2)) ?Q"
    proof (rule outcome_rbind [OF pack_branches_yields [OF op]], clarify)
      fix us w2
      assume us: "yields E (Suc g) w0 (set (ctx_pages fs) \<union> F) us w2" "forest_items us = forest_items (ls @ es @ rs)"
        "set (forest_marks us) = set (forest_marks (ls @ es @ rs))" "length us * BRANCH_CAPACITY < length (ls @ es @ rs) + BRANCH_CAPACITY"
      have "length us \<le> BRANCH_CAPACITY" if "length es \<le> BRANCH_CAPACITY"
      proof -
        have "length us * BRANCH_CAPACITY < 3 * BRANCH_CAPACITY" using us(4) that small unfolding length_append by linarith
        then have "length us < 3" unfolding mult_less_cancel2 by blast
        then show ?thesis using capacity_two by simp
      qed
      then show "outcome (rewrite_up E P (map step_of fs) (map fst us) 1 w2) ?Q" by (intro next_up us(1-3)) blast
    qed
    with False show ?thesis by (simp only: if_False)
  qed
  moreover have "step_pgno (step_of f) = n" "step_index (step_of f) = length ls" by (simp_all add: f step_of_def)
  ultimately show ?case
    by (simp only: list.map(2) rewrite_up.simps(2) Let_def rd br(1,2) of_simps rbind_simps cells map_is_Nil_conv)
qed


lemma rewrite_path_spec:
  assumes "yields E g w0 (set (ctx_pages fs) \<union> F) es w" "distinct (ctx_pages fs)" "set (ctx_pages fs) \<inter> F = {}"
    and "ctx_ok (crc32 E) (t_read P w0) g fs" "\<forall>m \<in> set (forest_marks es). inside (limits fs) m"
    and "\<forall>(n, ls, mid, rs) \<in> set (tl fs). length mid = 1" "\<forall>n ls mid rs. fs \<noteq> [] \<and> hd fs = (n, ls, mid, rs) \<longrightarrow> length mid = span"
  shows "outcome (rewrite_path_span E P (map step_of (rev fs)) (map fst es) span w) (\<lambda>(r, w'). \<exists>t h'. planted E h' w0 F t w' \<and>
    r = root_of t \<and> items_of t = left_items fs @ forest_items es @ right_items fs \<and>
    (length es \<le> BRANCH_CAPACITY \<longrightarrow> h' \<le> Suc (g + length fs)))"
proof -
  have rv: "rev (map step_of (rev fs)) = map step_of fs" by (simp add: rev_map)
  show ?thesis unfolding rewrite_path_span_def rv
  proof (rule outcome_rbind [OF rewrite_up_spec [OF assms]], clarify)
    fix us w1
    assume us: "yields E (g + length fs) w0 F us w1" "forest_items us = left_items fs @ forest_items es @ right_items fs"
      "length es \<le> BRANCH_CAPACITY \<longrightarrow> length us \<le> BRANCH_CAPACITY"
    let ?Q = "\<lambda>(r, w'). \<exists>t h'. planted E h' w0 F t w' \<and> r = root_of t \<and> items_of t = left_items fs @ forest_items es @ right_items fs \<and>
      (length es \<le> BRANCH_CAPACITY \<longrightarrow> h' \<le> Suc (g + length fs))"
    show "outcome (if map fst us = [] then build E P [] w1
        else rbind (add_levels E P (map fst us) w1) (\<lambda>(top, w2). Inr (bchild (hd top), w2))) ?Q"
    proof (cases "us = []")
      case True
      have w1: "holds w1 F" "\<forall>q \<in> F. t_read P w1 q = t_read P w0 q" using us(1) True by (simp_all add: yields_def framed_def)
      have "outcome (build E P [] w1) ?Q"
        by (rule outcome_mono [OF build_spec [OF w1(1)]]) (use us(2) True w1(2) capacity_two in \<open>fastforce simp: planted_def framed_def\<close>)+
      then show ?thesis using True by simp
    next
      case False
      have "outcome (rbind (add_levels E P (map fst us) w1) (\<lambda>(top, w2). Inr (bchild (hd top), w2))) ?Q"
        by (rule outcome_mono [OF add_levels_root [OF us(1) False]]) (use us(2,3) in auto)
      then show ?thesis using False by simp
    qed
  qed
qed

end

section \<open>Where a key goes\<close>

text \<open>The leaf a descent ends at, with the frames above it.\<close>

definition located :: "(u8 list \<Rightarrow> u32) \<Rightarrow> (pgno \<Rightarrow> store_error + page) \<Rightarrow> node \<Rightarrow> container_key \<Rightarrow> pgno \<Rightarrow> leaf_item list \<Rightarrow> frame list \<Rightarrow> bool" where
  "located crc rd t k n xs fs \<longleftrightarrow> ctx_ok crc rd 0 fs \<and> stored crc rd (LeafNode n xs) \<and> ssorted (map skey xs) \<and>
     (\<forall>x \<in> set xs. inside (limits fs) (skey x)) \<and> inside (limits fs) k \<and> items_of t = left_items fs @ xs @ right_items fs \<and>
     mset (spine t) = mset (n # ctx_pages fs) \<and> (\<forall>(n, ls, mid, rs) \<in> set fs. length mid = 1)"

lemma descend_spec:
  assumes "stored crc (t_read P w) t" "ordered t" "full h t" "h < MAX_DEPTH"
  obtains n xs fs where "descend P w (root_of t) k = Inr (n, map step_of (rev fs))" "located crc (t_read P w) t k n xs fs" "length fs = h"
proof -
  have "\<exists>fs' n xs. descend_loop P w (root_of t) k MAX_DEPTH (map step_of (rev [])) (root_of t) = Inr (n, map step_of (rev (fs' @ []))) \<and>
    length fs' = h \<and> ctx_ok crc (t_read P w) 0 (fs' @ []) \<and> stored crc (t_read P w) (LeafNode n xs) \<and> ssorted (map skey xs) \<and>
    (\<forall>x \<in> set xs. inside (limits (fs' @ [])) (skey x)) \<and> inside (limits (fs' @ [])) k \<and>
    items_of t = left_items fs' @ xs @ right_items fs' \<and> mset (spine t) = mset (n # ctx_pages fs') \<and>
    (\<forall>(n, ls, mid, rs) \<in> set fs'. length mid = 1)"
    by (rule descend_loop_spec [OF assms]) (simp_all add: inside_def)
  then show thesis using that by (auto simp: descend_def located_def simp del: stored.simps)
qed

lemma read_items_spec:
  assumes "stored crc (t_read P w) (LeafNode n xs)"
  shows "read_items P w n = Inr xs"
proof -
  obtain lp where lp: "t_read P w n = Inr (leaf_image crc n xs)" "leaf_parse (leaf_image crc n xs) = Inr lp" "reads lp xs"
    by (rule read_leaf [OF assms])
  from cells_to_items_reads [OF lp(3), of 0] show ?thesis using lp by (simp add: read_items_def readsD(1))
qed

lemma next_cell:
  assumes "branch_iter br = map fst ls @ [c] @ map fst rs" "bcount br = length ls + 1 + length rs"
  shows "branch_cell_at br (length ls + 1) = (if rs = [] then None else Some (fst (hd rs)))"
proof (cases "rs = []")
  case False
  then have i: "length ls + 1 < bcount br" using assms(2) by simp
  then have "the (branch_cell_at br (length ls + 1)) = fst (hd rs)"
    using branch_iter_nth [OF i] assms(1) False by (simp add: nth_append hd_conv_nth)
  moreover have "branch_cell_at br (length ls + 1) \<noteq> None" using i by (simp add: branch_cell_at_def Let_def)
  ultimately show ?thesis using False by auto
qed (use assms(2) in \<open>simp add: branch_cell_at_def\<close>)

lemma upper_bound_spec:
  "ctx_ok crc (t_read P w) g fs \<Longrightarrow> \<forall>(n, ls, mid, rs) \<in> set fs. length mid = 1 \<Longrightarrow>
    upper_bound_up P w (map step_of fs) = Inr (snd (limits fs))"
proof (induction fs arbitrary: g)
  case (Cons f fs)
  obtain n ls mid rs where f: "f = (n, ls, mid, rs)" by (cases f)
  have ctx: "ctx_ok crc (t_read P w) g ((n, ls, mid, rs) # fs)" using Cons.prems(1) by (simp add: f)
  obtain c where mid: "mid = [c]" using Cons.prems(2) by (auto simp: f length_Suc_conv)
  obtain br where br: "t_read P w n = Inr (branch_finish crc (frame_cells (n, ls, mid, rs)) n)"
    "branch_parse (branch_finish crc (frame_cells (n, ls, mid, rs)) n) = Inr br"
    "branch_iter br = map fst ls @ mid @ map fst rs" "bcount br = length ls + length mid + length rs"
    by (rule read_frame [OF ctx])
  have at: "branch_cell_at br (length ls + 1) = (if rs = [] then None else Some (fst (hd rs)))"
    using next_cell [of br ls c rs] br(3,4) mid by simp
  have "upper_bound_up P w (map step_of fs) = Inr (snd (limits fs))" using Cons.IH [of "Suc g"] Cons.prems ctx by simp
  then show ?case using br at by (simp add: f step_of_def)
qed simp

end
