(* ===== verification/Big_Change.thy ===== *)
theory Big_Change
  imports Big_Rewrite
begin

text \<open>
  The changes of \<^verbatim>\<open>write.rs\<close> that are one item at a time: \<^verbatim>\<open>splice\<close>, \<^verbatim>\<open>put\<close> and \<^verbatim>\<open>remove\<close>, against
  insertion into and deletion from the ascending list of the items.
\<close>

section \<open>Items in order\<close>

definition put_item :: "leaf_item \<Rightarrow> leaf_item list \<Rightarrow> leaf_item list" where
  "put_item x xs = filter (\<lambda>y. skey y < skey x) xs @ x # filter (\<lambda>y. skey x < skey y) xs"

definition del_item :: "container_key \<Rightarrow> leaf_item list \<Rightarrow> leaf_item list" where
  "del_item k xs = filter (\<lambda>y. skey y \<noteq> k) xs"

lemma put_item_sorted: "ssorted (map skey xs) \<Longrightarrow> ssorted (map skey (put_item x xs))"
  by (auto simp: put_item_def sorted_wrt_append sorted_wrt_map sorted_wrt_filter intro: less_trans)

lemma set_put_item: "ssorted (map skey xs) \<Longrightarrow> set (put_item x xs) = insert x {y \<in> set xs. skey y \<noteq> skey x}"
  by (auto simp: put_item_def)

lemma del_item_sorted: "ssorted (map skey xs) \<Longrightarrow> ssorted (map skey (del_item k xs))"
  by (simp add: del_item_def sorted_wrt_map sorted_wrt_filter)

lemma put_item_around:
  assumes "\<forall>y \<in> set ls. skey y < skey x" "\<forall>y \<in> set rs. skey x < skey y"
  shows "put_item x (ls @ xs @ rs) = ls @ put_item x xs @ rs"
proof -
  have "filter (\<lambda>y. skey y < skey x) ls = ls" "filter (\<lambda>y. skey x < skey y) ls = []"
    "filter (\<lambda>y. skey y < skey x) rs = []" "filter (\<lambda>y. skey x < skey y) rs = rs"
    using assms by (auto simp: filter_id_conv filter_empty_conv)
  then show ?thesis by (simp add: put_item_def)
qed

lemma del_item_around:
  assumes "\<forall>y \<in> set ls. skey y < k" "\<forall>y \<in> set rs. k < skey y"
  shows "del_item k (ls @ xs @ rs) = ls @ del_item k xs @ rs"
proof -
  have "filter (\<lambda>y. skey y \<noteq> k) ls = ls" "filter (\<lambda>y. skey y \<noteq> k) rs = rs"
    using assms by (auto simp: filter_id_conv)
  then show ?thesis by (simp add: del_item_def)
qed

lemma lookup_around:
  assumes "\<forall>y \<in> set ls. skey y < k" "\<forall>y \<in> set rs. k < skey y"
  shows "lookup k (ls @ xs @ rs) = lookup k xs"
proof -
  have "lookup k ls = None" "lookup k rs = None" using assms by (auto simp: lookup_None_iff)
  then show ?thesis by (simp add: lookup_append split: option.split)
qed

text \<open>A position of the list splits it around a key.\<close>

lemma put_item_split:
  assumes "xs = ls @ mid @ rs" "\<forall>y \<in> set ls. skey y < skey x" "\<forall>y \<in> set rs. skey x < skey y" "\<forall>y \<in> set mid. skey y = skey x"
  shows "put_item x xs = ls @ x # rs" "del_item (skey x) xs = ls @ rs"
proof -
  have "filter (\<lambda>y. skey y < skey x) mid = []" "filter (\<lambda>y. skey x < skey y) mid = []" "filter (\<lambda>y. skey y \<noteq> skey x) mid = []"
    using assms(4) by (auto simp: filter_empty_conv)
  then show "put_item x xs = ls @ x # rs" "del_item (skey x) xs = ls @ rs"
    using put_item_around [OF assms(2,3), of mid] del_item_around [OF assms(2,3), of mid] assms(1)
    by (simp_all add: put_item_def del_item_def)
qed

interpretation leaf_items: searchable "\<lambda>k x. cmp (skey x) k" "\<lambda>xs. ssorted (map skey xs)"
  by unfold_locales (auto dest: ssorted_nth_less intro: less_trans)

lemma sorted_parts:
  assumes "ssorted (map skey xs)" "i < length xs"
  shows "\<forall>y \<in> set (take i xs). skey y < skey (xs ! i)" "\<forall>y \<in> set (drop (Suc i) xs). skey (xs ! i) < skey y"
    "xs = take i xs @ [xs ! i] @ drop (Suc i) xs"
proof -
  show xs: "xs = take i xs @ [xs ! i] @ drop (Suc i) xs" using id_take_nth_drop [OF assms(2)] by simp
  have "ssorted (map skey (take i xs @ [xs ! i] @ drop (Suc i) xs))" using assms(1) xs by metis
  then show "\<forall>y \<in> set (take i xs). skey y < skey (xs ! i)" "\<forall>y \<in> set (drop (Suc i) xs). skey (xs ! i) < skey y"
    by (auto simp: sorted_wrt_append)
qed

lemma find_item_spec:
  assumes "ssorted (map skey xs)"
  shows "case find_item xs k of
      Inr i \<Rightarrow> i < length xs \<and> skey (xs ! i) = k \<and> lookup k xs = Some (xs ! i) \<and> del_item k xs = take i xs @ drop (Suc i) xs \<and>
        (\<forall>x. skey x = k \<longrightarrow> put_item x xs = xs[i := x])
    | Inl i \<Rightarrow> lookup k xs = None \<and> del_item k xs = xs \<and> (\<forall>x. skey x = k \<longrightarrow> put_item x xs = take i xs @ x # drop i xs)"
proof (cases "find_item xs k")
  case (Inr i)
  then have i: "i < length xs" "skey (xs ! i) = k" using leaf_items.search_hit [of k xs i] by (auto simp: find_item_def)
  note parts = sorted_parts [OF assms i(1)]
  note put = put_item_split [OF parts(3), of x for x, unfolded i(2) [symmetric]]
  have "put_item x xs = xs[i := x]" if "skey x = k" for x
    using put(1) [of x] parts i that by (simp add: upd_conv_take_nth_drop)
  moreover have "del_item k xs = take i xs @ drop (Suc i) xs" using put(2) [of "xs ! i"] parts i by simp
  moreover have "lookup k xs = Some (xs ! i)" using lookup_nth [OF assms i(1)] i(2) by simp
  ultimately show ?thesis using Inr i by simp
next
  case (Inl i)
  note miss = leaf_items.search_miss [OF Inl [unfolded find_item_def] assms]
  have xs: "xs = take i xs @ [] @ drop i xs" by simp
  have "put_item x xs = take i xs @ x # drop i xs" "del_item k xs = xs" if "skey x = k" for x
    using put_item_split [OF xs, of x] miss(2,3) that by auto
  moreover have "lookup k xs = None"
  proof -
    have "skey y \<noteq> k" if "y \<in> set xs" for y
    proof -
      have "y \<in> set (take i xs) \<union> set (drop i xs)" using that by (metis append_take_drop_id set_append)
      then show ?thesis using miss(2,3) [of y] by auto
    qed
    then show ?thesis by (auto simp: lookup_None_iff)
  qed
  moreover have "\<exists>x :: leaf_item. skey x = k" by (rule exI [of _ "\<lparr>skey = k, sty = TArray, selem_n = 0, scard = 0, sbitmap_checksum = 0, sbitmap_pgno = 0, spayload = []\<rparr>"]) simp
  ultimately show ?thesis using Inl by auto
qed

text \<open>The page that putting an item releases: that of the item before it, unless the new one uses it.\<close>

definition dropped :: "leaf_item \<Rightarrow> leaf_item list \<Rightarrow> pgno set" where
  "dropped x xs = (case lookup (skey x) xs of
     None \<Rightarrow> {}
   | Some y \<Rightarrow> (case base_pgno y of None \<Rightarrow> {} | Some old \<Rightarrow> if base_pgno x \<noteq> Some old then {old} else {}))"

definition dropped_by_key :: "container_key \<Rightarrow> leaf_item list \<Rightarrow> pgno set" where
  "dropped_by_key k xs = (case lookup k xs of None \<Rightarrow> {} | Some y \<Rightarrow> set_option (base_pgno y))"

context page_heap
begin

lemma splice_spec:
  assumes "ssorted (map skey xs)" "holds w (dropped x xs \<union> F)" "dropped x xs \<inter> F = {}"
  shows "\<exists>w'. splice P xs x w = (put_item x xs, w') \<and> framed w F w' {}"
proof (cases "find_item xs (skey x)")
  case (Inl i)
  with find_item_spec [OF assms(1), of "skey x"] have "lookup (skey x) xs = None" "put_item x xs = take i xs @ x # drop i xs" by auto
  then show ?thesis using Inl assms(2) framed_refl by (simp add: splice_def dropped_def)
next
  case (Inr i)
  with find_item_spec [OF assms(1), of "skey x"] have l: "lookup (skey x) xs = Some (xs ! i)" "put_item x xs = xs[i := x]" by auto
  show ?thesis
  proof (cases "base_pgno (xs ! i)")
    case None
    then show ?thesis using Inr l assms(2) framed_refl by (simp add: splice_def dropped_def)
  next
    case (Some old)
    then show ?thesis
      using Inr l assms(2,3) framed_refl free_spec [of w old F] by (auto simp: splice_def dropped_def split: if_splits)
  qed
qed

lemma planted_from: "planted E h w1 F t w' \<Longrightarrow> \<forall>q \<in> F. t_read P w1 q = t_read P w q \<Longrightarrow> planted E h w F t w'"
  by (simp add: planted_def framed_def)

text \<open>
  The second half of every change: the leaf and what the change dropped are freed, the new items of
  the leaf are packed, and the path is rewritten.
\<close>

lemma change_leaf:
  assumes ctx: "ctx_ok (crc32 E) (t_read P w) 0 fs" "distinct (ctx_pages fs)" "set (ctx_pages fs) \<inter> F = {}"
    and ones: "\<forall>(n, ls, mid, rs) \<in> set (tl fs). length mid = 1" "\<forall>n ls mid rs. fs \<noteq> [] \<and> hd fs = (n, ls, mid, rs) \<longrightarrow> length mid = span"
    and fr: "framed w (set (ctx_pages fs) \<union> F) w2 {}"
    and zs: "\<forall>x \<in> set zs. item_ok x" "ssorted (map skey zs)" "\<forall>x \<in> set zs. inside (limits fs) (skey x)"
  shows "outcome (rbind (if zs = [] \<and> fs \<noteq> [] then Inr ([], w2) else pack_leaves E P zs w2)
      (\<lambda>(entries, w3). rewrite_path_span E P (map step_of (rev fs)) entries span w3))
    (\<lambda>(r, w'). \<exists>t h'. planted E h' w F t w' \<and> r = root_of t \<and> items_of t = left_items fs @ zs @ right_items fs \<and>
      (length zs < BRANCH_CAPACITY \<longrightarrow> h' \<le> Suc (length fs)))"
proof -
  have h2: "holds w2 (set (ctx_pages fs) \<union> F)" and same: "\<forall>q \<in> set (ctx_pages fs) \<union> F. t_read P w2 q = t_read P w q"
    using fr by (simp_all add: framed_def)
  have ctx2: "ctx_ok (crc32 E) (t_read P w2) 0 fs" by (rule ctx_ok_cong [OF ctx(1)]) (use same in simp)
  let ?Q = "\<lambda>(r, w'). \<exists>t h'. planted E h' w F t w' \<and> r = root_of t \<and> items_of t = left_items fs @ zs @ right_items fs \<and>
      (length zs < BRANCH_CAPACITY \<longrightarrow> h' \<le> Suc (length fs))"
  have up: "outcome (rewrite_path_span E P (map step_of (rev fs)) (map fst es) span w3) ?Q"
    if es: "yields E 0 w2 (set (ctx_pages fs) \<union> F) es w3" "forest_items es = zs" "\<forall>m \<in> set (forest_marks es). inside (limits fs) m"
      "length es \<le> Suc (length zs)" for es w3
    by (rule outcome_mono [OF rewrite_path_spec [OF es(1) ctx(2,3) ctx2 es(3) ones]])
      (use es(2,4) same planted_from in \<open>fastforce\<close>)
  show ?thesis
  proof (cases "zs = [] \<and> fs \<noteq> []")
    case True
    from up [OF yields_empty [OF h2]] True show ?thesis by simp
  next
    case False
    have "outcome (rbind (pack_leaves E P zs w2) (\<lambda>(entries, w3). rewrite_path_span E P (map step_of (rev fs)) entries span w3)) ?Q"
    proof (rule outcome_rbind [OF pack_leaves_spec [OF h2 zs(1,2)]], clarify)
      fix es w3
      assume es: "yields E 0 w2 (set (ctx_pages fs) \<union> F) es w3" "zs = forest_items es" "length es \<le> Suc (length (forest_items es))"
        "forest_items es \<noteq> [] \<longrightarrow> set (forest_marks es) = set (map skey (forest_items es))"
      have "\<forall>m \<in> set (forest_marks es). inside (limits fs) m"
      proof (cases "zs = []")
        case True
        with False have "fs = []" by simp
        then show ?thesis by (simp add: inside_def)
      qed (use zs(3) es(2,4) in auto)
      from up [OF es(1) es(2) [symmetric] this] es(2,3)
      show "outcome (rewrite_path_span E P (map step_of (rev fs)) (map fst es) span w3)
        (\<lambda>(r, w'). \<exists>t h'. planted E h' w F t w' \<and> r = root_of t \<and> items_of t = left_items fs @ forest_items es @ right_items fs \<and>
          (length (forest_items es) < BRANCH_CAPACITY \<longrightarrow> h' \<le> Suc (length fs)))"
        by simp
    qed
    with False show ?thesis by (simp only: if_False)
  qed
qed


end

section \<open>How much a leaf holds\<close>

lemma cells_end_sum: "cursor + sum_list (map length cs) \<le> cells_end cursor cs"
proof (induction cursor cs rule: cells_end.induct)
  case (3 cursor c c' cs)
  then show ?case using align_up_simps(1) [of "cursor + length c"] by simp
qed simp_all

lemma leaf_fits_end:
  assumes "leaf_fits_items xs"
  shows "cells_end (cells_start (map staged_bytes xs)) (map staged_bytes xs) \<le> PAGE_SIZE - PAGE_TRAILER" "\<forall>x \<in> set xs. staged_ok x"
  using assms by (auto simp: leaf_fits_items_def builder_ok_def)

lemma capacity_400: "400 \<le> BRANCH_CAPACITY"
proof -
  have "branch_fits (replicate 400 undefined)" by (simp add: branch_fits_def layout_defs align_up_def)
  then show ?thesis using capacity_fits [of "replicate 400 undefined"] by simp
qed

lemma leaf_fits_length:
  assumes "leaf_fits_items xs"
  shows "length xs < 342"
proof -
  have "24 * length xs \<le> sum_list (map length (map staged_bytes xs))" by (induction xs) simp_all
  also have "\<dots> \<le> cells_end (cells_start (map staged_bytes xs)) (map staged_bytes xs)"
    using cells_end_sum [of "cells_start (map staged_bytes xs)" "map staged_bytes xs"] by simp
  also have "\<dots> \<le> 8188" using leaf_fits_end(1) [OF assms] by (simp add: layout_defs)
  finally show ?thesis by simp
qed

lemma leaf_fits_item_ok:
  assumes "leaf_fits_items xs" "x \<in> set xs"
  shows "item_ok x"
proof -
  let ?cs = "map staged_bytes xs"
  obtain i where i: "i < length xs" "xs ! i = x" using assms(2) by (auto simp: in_set_conv_nth)
  have "cell_starts (cells_start ?cs) ?cs ! i + length (?cs ! i) \<le> PAGE_SIZE - PAGE_TRAILER"
    by (rule cell_starts_end [OF _ leaf_fits_end(1) [OF assms(1)]]) (simp add: i)
  moreover have "cells_start ?cs \<le> cell_starts (cells_start ?cs) ?cs ! i"
    by (rule cell_starts_ge [OF nth_mem]) (simp add: i)
  moreover have "16 \<le> cells_start ?cs"
  proof -
    have "align_up 14 \<le> align_up (PAGE_HEADER + length xs * CELL_INDEX_ENTRY)"
      using i(1) by (intro align_up_mono) (auto simp: layout_defs)
    then show ?thesis by (simp add: align_up_def layout_defs)
  qed
  ultimately have "16 + (24 + length (spayload x)) \<le> PAGE_SIZE - PAGE_TRAILER" using i by simp
  then have "leaf_push leaf_new x \<noteq> None" by (simp add: leaf_push_def leaf_fits_def leaf_new_def layout_defs align_up_def)
  then show ?thesis using leaf_fits_end(2) [OF assms(1)] assms(2) by (simp add: item_ok_def)
qed

section \<open>Putting and removing\<close>

lemma located_facts:
  assumes loc: "located crc rd t k n xs fs" and d: "distinct (spine t)"
  shows "ctx_ok crc rd 0 fs" "distinct (ctx_pages fs)" "n \<notin> set (ctx_pages fs)" "set (spine t) = insert n (set (ctx_pages fs))"
    "lookup k (items_of t) = lookup k xs" "\<forall>y \<in> set (left_items fs). skey y < k" "\<forall>y \<in> set (right_items fs). k < skey y"
    "\<forall>x \<in> set xs. item_ok x" "length xs < 342" "ssorted (map skey xs)"
    "\<forall>(n, ls, mid, rs) \<in> set (tl fs). length mid = 1" "\<forall>n ls mid rs. fs \<noteq> [] \<and> hd fs = (n, ls, mid, rs) \<longrightarrow> length mid = 1"
proof -
  have m: "mset (spine t) = mset (n # ctx_pages fs)" and it: "items_of t = left_items fs @ xs @ right_items fs"
    and ctx: "ctx_ok crc rd 0 fs" "inside (limits fs) k" and lf: "leaf_fits_items xs"
    and ones: "\<forall>(n, ls, mid, rs) \<in> set fs. length mid = 1"
    using loc by (simp_all add: located_def)
  show "ctx_ok crc rd 0 fs" by (rule ctx(1))
  have "distinct (n # ctx_pages fs)" using d m by (metis mset_eq_imp_distinct_iff)
  then show "distinct (ctx_pages fs)" "n \<notin> set (ctx_pages fs)" by simp_all
  show "set (spine t) = insert n (set (ctx_pages fs))" using m by (metis list.simps(15) set_mset_mset)
  show l: "\<forall>y \<in> set (left_items fs). skey y < k" and r: "\<forall>y \<in> set (right_items fs). k < skey y"
    using ctx_items [OF ctx] by simp_all
  show "lookup k (items_of t) = lookup k xs" using lookup_around [OF l r] it by simp
  show "\<forall>x \<in> set xs. item_ok x" "length xs < 342" using leaf_fits_item_ok [OF lf] leaf_fits_length [OF lf] by blast+
  show "ssorted (map skey xs)" using loc by (simp add: located_def)
  show "\<forall>(n, ls, mid, rs) \<in> set (tl fs). length mid = 1" using ones by (cases fs) simp_all
  show "\<forall>n ls mid rs. fs \<noteq> [] \<and> hd fs = (n, ls, mid, rs) \<longrightarrow> length mid = 1" using ones by (cases fs) auto
qed

context page_heap
begin

lemma take_leaf_spec:
  assumes "located (crc32 E) (t_read P w) t k n xs fs" "distinct (spine t)" "holds w (set (spine t) \<union> F)" "set (spine t) \<inter> F = {}"
  shows "take_leaf P n w = Inr (xs, t_free P n w)" "framed w (set (ctx_pages fs) \<union> F) (t_free P n w) {}"
proof -
  note loc = located_facts [OF assms(1,2)]
  have "stored (crc32 E) (t_read P w) (LeafNode n xs)" using assms(1) unfolding located_def by blast
  from read_items_spec [OF this] show "take_leaf P n w = Inr (xs, t_free P n w)" by (simp add: take_leaf_def)
  have "set (spine t) \<union> F = insert n (set (ctx_pages fs) \<union> F)" "n \<notin> set (ctx_pages fs) \<union> F"
    using loc(3,4) assms(4) by auto
  then show "framed w (set (ctx_pages fs) \<union> F) (t_free P n w) {}" using free_spec assms(3) by metis
qed

lemma framed_more: "framed w (B \<union> F) w1 {} \<Longrightarrow> framed w1 F w2 {} \<Longrightarrow> framed w F w2 {}"
  by (auto simp: framed_def)

lemma tree_put_spec:
  assumes t: "stored (crc32 E) (t_read P w) t" "ordered t" "full h t" "h < MAX_DEPTH" "distinct (spine t)"
    and x: "item_ok x"
    and w: "holds w (set (spine t) \<union> (dropped x (items_of t) \<union> F))" "set (spine t) \<inter> (dropped x (items_of t) \<union> F) = {}"
      "dropped x (items_of t) \<inter> F = {}"
  shows "outcome (put E P (Some (root_of t)) x w) (\<lambda>(r, w'). \<exists>t' h'. planted E h' w F t' w' \<and> r = root_of t' \<and>
    items_of t' = put_item x (items_of t) \<and> h' \<le> Suc h)"
proof -
  obtain n xs fs where ds: "descend P w (root_of t) (skey x) = Inr (n, map step_of (rev fs))"
    and loc: "located (crc32 E) (t_read P w) t (skey x) n xs fs" and h: "length fs = h"
    by (rule descend_spec [OF t(1-4)])
  note lf = located_facts [OF loc t(5)]
  have rel: "dropped x (items_of t) = dropped x xs" using lf(5) by (simp add: dropped_def)
  note tk = take_leaf_spec [OF loc t(5) w(1,2)]
  have "dropped x xs \<inter> (set (ctx_pages fs) \<union> F) = {}" using w(2,3) lf(4) rel by blast
  moreover have "holds (t_free P n w) (dropped x xs \<union> (set (ctx_pages fs) \<union> F))"
    using framed_holds [OF tk(2)] rel by (simp add: Un_ac)
  ultimately obtain w2 where sp: "splice P xs x (t_free P n w) = (put_item x xs, w2)" "framed (t_free P n w) (set (ctx_pages fs) \<union> F) w2 {}"
    using splice_spec [OF lf(10)] by blast
  have fr: "framed w (set (ctx_pages fs) \<union> F) w2 {}"
    using framed_more [of w "dropped x xs" "set (ctx_pages fs) \<union> F" "t_free P n w" w2] tk(2) sp(2) rel by (simp add: Un_ac)
  have zs: "\<forall>y \<in> set (put_item x xs). item_ok y" "ssorted (map skey (put_item x xs))" "\<forall>y \<in> set (put_item x xs). inside (limits fs) (skey y)"
    using lf(8) x put_item_sorted [OF lf(10)] set_put_item [OF lf(10)] loc by (auto simp: located_def)
  have disj: "set (ctx_pages fs) \<inter> F = {}" using w(2) lf(4) by blast
  have ne: "put_item x xs \<noteq> []" by (simp add: put_item_def)
  have len: "length (put_item x xs) < BRANCH_CAPACITY"
  proof -
    have "length (filter (\<lambda>y. skey y < skey x) xs) + length (filter (\<lambda>y. skey x < skey y) xs) \<le> length xs"
      by (induction xs) auto
    then show ?thesis using lf(9) capacity_400 by (simp add: put_item_def)
  qed
  have "put E P (Some (root_of t)) x w = rbind (if put_item x xs = [] \<and> fs \<noteq> [] then Inr ([], w2) else pack_leaves E P (put_item x xs) w2)
      (\<lambda>(entries, w3). rewrite_path_span E P (map step_of (rev fs)) entries 1 w3)"
    using ne by (simp add: put_def ds tk(1) sp(1) rewrite_path_def [abs_def])
  moreover have "items_of t = left_items fs @ xs @ right_items fs" using loc by (simp add: located_def)
  ultimately show ?thesis
    using change_leaf [OF lf(1,2) disj lf(11,12) fr zs] put_item_around [OF lf(6,7), of xs] len h by auto
qed

lemma tree_remove_spec:
  assumes t: "stored (crc32 E) (t_read P w) t" "ordered t" "full h t" "h < MAX_DEPTH" "distinct (spine t)"
    and w: "holds w (set (spine t) \<union> (dropped_by_key k (items_of t) \<union> F))" "set (spine t) \<inter> (dropped_by_key k (items_of t) \<union> F) = {}"
      "dropped_by_key k (items_of t) \<inter> F = {}"
  shows "outcome (remove E P (root_of t) k w) (\<lambda>(r, w'). \<exists>t' h'. planted E h' w F t' w' \<and> r = root_of t' \<and>
    items_of t' = del_item k (items_of t) \<and> h' \<le> Suc h)"
proof -
  obtain n xs fs where ds: "descend P w (root_of t) k = Inr (n, map step_of (rev fs))"
    and loc: "located (crc32 E) (t_read P w) t k n xs fs" and h: "length fs = h"
    by (rule descend_spec [OF t(1-4)])
  note lf = located_facts [OF loc t(5)]
  let ?R = "dropped_by_key k xs" and ?w1 = "t_free P n w"
  have rel: "dropped_by_key k (items_of t) = ?R" using lf(5) by (simp add: dropped_by_key_def)
  note tk = take_leaf_spec [OF loc t(5) w(1,2)]
  have disj: "?R \<inter> (set (ctx_pages fs) \<union> F) = {}" "set (ctx_pages fs) \<inter> F = {}" using w(2,3) lf(4) rel by blast+
  have h1: "holds ?w1 (?R \<union> (set (ctx_pages fs) \<union> F))" using framed_holds [OF tk(2)] rel by (simp add: Un_ac)
  have "\<exists>w2. (case find_item xs k of
      Inr i \<Rightarrow> (take i xs @ drop (Suc i) xs, if is_dense (xs ! i) then t_free P (sbitmap_pgno (xs ! i)) ?w1 else ?w1)
    | Inl _ \<Rightarrow> (xs, ?w1)) = (del_item k xs, w2) \<and> framed ?w1 (set (ctx_pages fs) \<union> F) w2 {}"
  proof (cases "find_item xs k")
    case (Inl i)
    with find_item_spec [OF lf(10), of k] show ?thesis using h1 framed_refl by (simp add: dropped_by_key_def)
  next
    case (Inr i)
    with find_item_spec [OF lf(10), of k] have l: "lookup k xs = Some (xs ! i)" "del_item k xs = take i xs @ drop (Suc i) xs" by auto
    then show ?thesis
      using Inr h1 disj(1) framed_refl free_spec [of ?w1 "sbitmap_pgno (xs ! i)" "set (ctx_pages fs) \<union> F"]
      by (auto simp: dropped_by_key_def base_pgno_def)
  qed
  then obtain w2 where sp: "(case find_item xs k of
      Inr i \<Rightarrow> (take i xs @ drop (Suc i) xs, if is_dense (xs ! i) then t_free P (sbitmap_pgno (xs ! i)) ?w1 else ?w1)
    | Inl _ \<Rightarrow> (xs, ?w1)) = (del_item k xs, w2)" "framed ?w1 (set (ctx_pages fs) \<union> F) w2 {}" by blast
  have fr: "framed w (set (ctx_pages fs) \<union> F) w2 {}"
    using framed_more [of w ?R "set (ctx_pages fs) \<union> F" ?w1 w2] tk(2) sp(2) rel by (simp add: Un_ac)
  have zs: "\<forall>y \<in> set (del_item k xs). item_ok y" "ssorted (map skey (del_item k xs))" "\<forall>y \<in> set (del_item k xs). inside (limits fs) (skey y)"
    using lf(8) del_item_sorted [OF lf(10)] loc by (auto simp: located_def del_item_def)
  have len: "length (del_item k xs) < BRANCH_CAPACITY"
    using lf(9) capacity_400 length_filter_le [of "\<lambda>y. skey y \<noteq> k" xs] unfolding del_item_def by linarith
  have "remove E P (root_of t) k w = rbind (if del_item k xs = [] \<and> fs \<noteq> [] then Inr ([], w2) else pack_leaves E P (del_item k xs) w2)
      (\<lambda>(entries, w3). rewrite_path_span E P (map step_of (rev fs)) entries 1 w3)"
    by (simp add: remove_def ds tk(1) sp(1) rewrite_path_def [abs_def])
  moreover have "items_of t = left_items fs @ xs @ right_items fs" using loc by (simp add: located_def)
  ultimately show ?thesis
    using change_leaf [OF lf(1,2) disj(2) lf(11,12) fr zs] del_item_around [OF lf(6,7), of xs] len h by auto
qed

end

end
