(* ===== verification/Big_Items.thy ===== *)
theory Big_Items
  imports Big_Change
begin

text \<open>
  The meeting of containers and tree: what an item of a leaf stands for, and that turning a container
  into an item, inline, on a page of its own or as a delta over the page that is already there, keeps
  its values.
\<close>

section \<open>The difference of two bitmaps\<close>


lemma word_diff_eq:
  "word_diff i new diff entries = Some es \<Longrightarrow>
    es = entries @ map (\<lambda>b. \<lparr>offset = of_nat (i * 64 + b), set_to = bit new b\<rparr>) (word_bits diff) \<and>
    (length entries \<le> MAX_DELTA \<longrightarrow> length es \<le> MAX_DELTA)"
proof (induction i new diff entries rule: word_diff.induct)
  case (1 i new diff entries)
  show ?case
  proof (cases "diff = 0")
    case True
    with "1.prems" show ?thesis by (subst (asm) word_diff.simps) (simp add: word_bits_def)
  next
    case False
    let ?b = "trailing_zeros diff"
    let ?es = "entries @ [\<lparr>offset = of_nat (i * 64 + ?b), set_to = (drop_bit ?b new AND 1 = 1)\<rparr>]"
    from "1.prems" False have rec: "\<not> length ?es > MAX_DELTA" "word_diff i new (diff AND (diff - 1)) ?es = Some es"
      by (subst (asm) word_diff.simps, simp add: Let_def split: if_splits)+
    from "1.IH" [OF False refl refl rec] rec(1) show ?thesis
      by (auto simp add: word_bits_step [OF False] test_bit_shift)
  qed
qed

text \<open>The positions at which two bitmaps differ, from the word \<open>i\<close> on.\<close>

fun diff_bits :: "nat \<Rightarrow> (u64 \<times> u64) list \<Rightarrow> nat list" where
  "diff_bits i [] = []"
| "diff_bits i ((new, old) # ws) = map ((+) (i * 64)) (word_bits (new XOR old)) @ diff_bits (Suc i) ws"

definition diff_entry :: "nat \<Rightarrow> (u64 \<times> u64) list \<Rightarrow> nat \<Rightarrow> delta_entry" where
  "diff_entry i ws n = \<lparr>offset = of_nat n, set_to = bit (fst (ws ! (n div 64 - i))) (n mod 64)\<rparr>"

lemma word_bits_bound: "b \<in> set (word_bits (w :: u64)) \<Longrightarrow> b < 64"
  by (auto simp: word_bits_def)

lemma set_diff_bits:
  "n \<in> set (diff_bits i ws) \<longleftrightarrow> i \<le> n div 64 \<and> n div 64 < i + length ws \<and>
     bit (fst (ws ! (n div 64 - i)) XOR snd (ws ! (n div 64 - i))) (n mod 64)"
proof (induction i ws rule: diff_bits.induct)
  case (2 i new old ws)
  have here: "n \<in> set (map ((+) (i * 64)) (word_bits (new XOR old))) \<longleftrightarrow> n div 64 = i \<and> bit (new XOR old) (n mod 64)"
  proof
    assume "n \<in> set (map ((+) (i * 64)) (word_bits (new XOR old)))"
    then obtain b where b: "n = i * 64 + b" "b \<in> set (word_bits (new XOR old))" by auto
    then have "b < 64" "bit (new XOR old) b" using word_bits_bound by (auto simp only: set_word_bits mem_Collect_eq)
    then show "n div 64 = i \<and> bit (new XOR old) (n mod 64)" using b(1) by simp
  next
    assume n: "n div 64 = i \<and> bit (new XOR old) (n mod 64)"
    then have "n = i * 64 + n mod 64" "n mod 64 \<in> set (word_bits (new XOR old))"
      by (metis div_mult_mod_eq, simp only: set_word_bits mem_Collect_eq)
    then show "n \<in> set (map ((+) (i * 64)) (word_bits (new XOR old)))" by (metis image_eqI list.set_map)
  qed
  show ?case
  proof (cases "n div 64 = i")
    case True
    with here "2.IH" show ?thesis by simp
  next
    case False
    then have "i \<le> n div 64 \<Longrightarrow> n div 64 - i = Suc (n div 64 - Suc i)" by simp
    with here "2.IH" False show ?thesis by (auto simp del: bit_xor_iff)
  qed
qed simp

lemma sorted_diff_bits: "ssorted (diff_bits i ws)"
proof (induction i ws rule: diff_bits.induct)
  case (2 i new old ws)
  have "ssorted (map ((+) (i * 64)) (word_bits (new XOR old)))" using sorted_word_bits [of "new XOR old"] by (simp add: sorted_wrt_map)
  moreover have "a < b" if "a \<in> set (map ((+) (i * 64)) (word_bits (new XOR old)))" "b \<in> set (diff_bits (Suc i) ws)" for a b
  proof -
    have "a < Suc i * 64" using that(1) word_bits_bound by fastforce
    moreover have "Suc i \<le> b div 64" using that(2) set_diff_bits by blast
    ultimately show ?thesis by simp
  qed
  ultimately show ?case using "2.IH" by (simp add: sorted_wrt_append)
qed simp

lemma words_diff_eq:
  "words_diff i ws entries = Some es \<Longrightarrow>
    es = entries @ map (diff_entry i ws) (diff_bits i ws) \<and> (length entries \<le> MAX_DELTA \<longrightarrow> length es \<le> MAX_DELTA)"
proof (induction i ws entries rule: words_diff.induct)
  case (2 i new old ws entries)
  from "2.prems" obtain es1 where es1: "word_diff i new (new XOR old) entries = Some es1" "words_diff (Suc i) ws es1 = Some es"
    by (auto split: option.splits)
  have "map (\<lambda>b. \<lparr>offset = of_nat (i * 64 + b), set_to = bit new b\<rparr>) (word_bits (new XOR old)) =
      map (diff_entry i ((new, old) # ws)) (map ((+) (i * 64)) (word_bits (new XOR old)))"
    unfolding map_map by (rule map_cong [OF refl]) (use word_bits_bound in \<open>auto simp: diff_entry_def simp del: of_nat_add of_nat_mult\<close>)
  moreover have "map (diff_entry (Suc i) ws) (diff_bits (Suc i) ws) = map (diff_entry i ((new, old) # ws)) (diff_bits (Suc i) ws)"
  proof (rule map_cong [OF refl])
    fix n
    assume "n \<in> set (diff_bits (Suc i) ws)"
    then have "Suc i \<le> n div 64" using set_diff_bits by blast
    then have "n div 64 - i = Suc (n div 64 - Suc i)" by simp
    then show "diff_entry (Suc i) ws n = diff_entry i ((new, old) # ws) n" by (simp add: diff_entry_def)
  qed
  ultimately have "es = entries @ map (diff_entry i ((new, old) # ws)) (diff_bits i ((new, old) # ws))"
    using word_diff_eq [OF es1(1)] "2.IH" [OF es1] by simp
  moreover have "length entries \<le> MAX_DELTA \<longrightarrow> length es \<le> MAX_DELTA"
    using word_diff_eq [OF es1(1)] "2.IH" [OF es1] by blast
  ultimately show ?case by blast
qed simp

lemma unat_position: "n div 64 < 1024 \<Longrightarrow> unat (of_nat n :: u16) = n"
  by (rule unat_of_nat_u16) simp

text \<open>Applied to the old bitmap, the entries give the new one.\<close>

lemma words_diff_spec:
  assumes "words_diff 0 (zip new old) [] = Some es" "length new = BITMAP_WORDS" "length old = BITMAP_WORDS"
  shows "delta_sorted es" "length es \<le> MAX_DELTA" "elems (Bitmap (delta_apply old es)) = elems (Bitmap new)"
proof -
  let ?ws = "zip new old" and ?ds = "diff_bits 0 (zip new old)"
  have len: "length ?ws = 1024" using assms(2,3) by (simp add: BITMAP_WORDS_def)
  have es: "es = map (diff_entry 0 ?ws) ?ds" "length es \<le> MAX_DELTA" using words_diff_eq [OF assms(1)] by auto
  show "length es \<le> MAX_DELTA" by (rule es(2))
  have off: "unat (offset (diff_entry 0 ?ws n)) = n" if "n \<in> set ?ds" for n
    using that unat_position [of n] len by (auto simp: set_diff_bits diff_entry_def)
  have "sorted_wrt (\<lambda>a b. offset (diff_entry 0 ?ws a) < offset (diff_entry 0 ?ws b)) ?ds"
    by (rule sorted_wrt_mono_rel [OF _ sorted_diff_bits]) (use off in \<open>simp add: word_less_nat_alt\<close>)
  then show srt: "delta_sorted es" by (simp add: es(1) sorted_wrt_map)
  have lt: "unat v div 64 < 1024" for v :: u16
  proof -
    have "unat v < 2 ^ 16" using unsigned_less [of v] by simp
    then show ?thesis by simp
  qed
  have at: "?ws ! (unat v div 64) = (new ! (unat v div 64), old ! (unat v div 64))" for v :: u16
    using lt [of v] assms(2,3) by (simp add: BITMAP_WORDS_def)
  have "v \<in> overlay (elems (Bitmap old)) es \<longleftrightarrow> v \<in> elems (Bitmap new)" for v
  proof (cases "unat v \<in> set ?ds")
    case True
    have v: "offset (diff_entry 0 ?ws (unat v)) = v" using off [OF True] by (simp add: word_unat_eq_iff)
    have "distinct (map fst (map (\<lambda>e. (offset e, set_to e)) es))"
      using srt by (simp add: delta_sorted_map o_def strict_sorted_iff)
    moreover have "(v, bit (new ! (unat v div 64)) (unat v mod 64)) \<in> set (map (\<lambda>e. (offset e, set_to e)) es)"
      using True v at [of v] by (force simp: es(1) diff_entry_def)
    ultimately have "map_of (map (\<lambda>e. (offset e, set_to e)) es) v = Some (bit (new ! (unat v div 64)) (unat v mod 64))"
      by (rule map_of_is_SomeI)
    then show ?thesis by (simp add: overlay_def)
  next
    case False
    have "v \<noteq> offset e" if "e \<in> set es" for e using that off False by (auto simp: es(1))
    then have "map_of (map (\<lambda>e. (offset e, set_to e)) es) v = None" by (force simp: map_of_eq_None_iff)
    moreover have "bit (new ! (unat v div 64)) (unat v mod 64) = bit (old ! (unat v div 64)) (unat v mod 64)"
      using False at [of v] lt [of v] len by (auto simp: set_diff_bits bit_xor_iff)
    ultimately show ?thesis by (simp add: overlay_def)
  qed
  then show "elems (Bitmap (delta_apply old es)) = elems (Bitmap new)"
    unfolding delta_apply_spec(2) [OF assms(3) srt] by blast
qed

section \<open>What an item stands for\<close>

definition base_page :: "(pgno \<Rightarrow> store_error + page) \<Rightarrow> leaf_item \<Rightarrow> page option" where
  "base_page rd x = (case base_pgno x of None \<Rightarrow> None | Some n \<Rightarrow> (case rd n of Inl _ \<Rightarrow> None | Inr p \<Rightarrow> Some p))"

text \<open>The item is a container with the values \<open>S\<close>, and its cardinality is theirs.\<close>

definition item_means :: "ext \<Rightarrow> (pgno \<Rightarrow> store_error + page) \<Rightarrow> leaf_item \<Rightarrow> u16 set \<Rightarrow> bool" where
  "item_means E rd x S \<longleftrightarrow> (\<exists>c. cell_resolve E (leaf_cell_of x) (base_page rd x) = Inr c \<and> container_inv c \<and> elems c = S) \<and>
     unat (scard x) = card S"

lemma item_means_cong:
  "item_means E rd x S \<Longrightarrow> (\<And>q. q \<in> set_option (base_pgno x) \<Longrightarrow> rd' q = rd q) \<Longrightarrow> item_means E rd' x S"
  by (cases "base_pgno x") (simp_all add: item_means_def base_page_def)

text \<open>The page of a dense item is there, with the checksum the item has, and holds a bitmap.\<close>

lemma item_means_base:
  assumes "item_means E rd x S" "base_pgno x = Some n"
  obtains p ws where "rd n = Inr p" "crc32 E p = sbitmap_checksum x" "base_words E p = Inr ws"
proof -
  have d: "owns_page (sty x)" using assms(2) by (simp add: base_pgno_def is_dense_def split: if_splits)
  obtain c where c: "cell_resolve E (leaf_cell_of x) (base_page rd x) = Inr c" using assms(1) by (auto simp: item_means_def)
  obtain p where p: "rd n = Inr p"
  proof (cases "rd n")
    case (Inl e)
    then have "base_page rd x = None" using assms(2) by (simp add: base_page_def)
    with c d show thesis
      by (cases "sty x") (simp_all add: cell_resolve_def base_check_def resolve_checked_def leaf_cell_of_def)
  qed
  then have bp: "base_page rd x = Some p" using assms(2) by (simp add: base_page_def)
  have "crc32 E p = sbitmap_checksum x"
    using c bp d by (auto simp: cell_resolve_def base_check_def has_base_def verify_base_def bitmap_page_checksum_def leaf_cell_of_def
        Let_def split: if_splits)
  moreover obtain ws where "base_words E p = Inr ws"
    using c bp d by (cases "sty x")
      (auto simp: cell_resolve_def base_check_def resolve_checked_def leaf_cell_of_def bitmap_container_def split: sum.splits if_splits)
  ultimately show thesis using that p by blast
qed

section \<open>Making an item\<close>

lemma payload_item_ok:
  assumes "staged_ok x" "length (spayload x) \<le> 4096"
  shows "item_ok x"
  using assms by (simp add: item_ok_def leaf_push_def leaf_fits_def leaf_new_def layout_defs align_up_def)

lemma write_caps: "array_max WRITE_CAPS = 2048" "run_max WRITE_CAPS = 1024"
  by (simp_all add: WRITE_CAPS_def DENSE_ABOVE_BYTES_def ARRAY_MAX_ELEMS_def RUN_MAX_INTERVALS_def CELL_PAYLOAD_MAX_def layout_defs align_up_def)

lemma optimized:
  assumes "container_inv c" "best = op_result_as_ref (optimize c WRITE_CAPS)"
  shows "container_inv best" "elems best = elems c" "best = Array a \<Longrightarrow> length a \<le> 2048" "best = Run r \<Longrightarrow> length r \<le> 1024"
proof -
  have rep: "represents best c WRITE_CAPS" unfolding assms(2) by (rule optimize_represents [OF assms(1)])
  then show "container_inv best" "elems best = elems c" by (simp_all add: represents_def)
  show "best = Array a \<Longrightarrow> length a \<le> 2048" "best = Run r \<Longrightarrow> length r \<le> 1024"
    using represents_fits [OF rep assms(1)] by (auto simp: write_caps)
qed

lemma array_item:
  assumes "ext_ok E" "ssorted a" "length a \<le> 2048"
    "x = \<lparr>skey = k, sty = TArray, selem_n = of_nat (length a), scard = cardinality (Array a), sbitmap_checksum = 0, sbitmap_pgno = 0,
       spayload = bytes_u16 E a\<rparr>"
  shows "item_ok x \<and> base_pgno x = None \<and> item_means E rd x (set a)"
proof -
  have E: "length (bytes_u16 E a) = 2 * length a" "cast_u16 E (bytes_u16 E a) = Some a" using assms(1) by (simp_all add: ext_ok_def)
  have "staged_ok x" using assms(3) E unat_of_nat_u16 [of "length a"] by (simp add: assms(4) staged_ok_def)
  then have "item_ok x" by (rule payload_item_ok) (use assms(3) E in \<open>simp add: assms(4)\<close>)
  moreover have "base_pgno x = None" by (simp add: base_pgno_def is_dense_def assms(4))
  ultimately show ?thesis
    using E cardinality_card [of "Array a"] assms(2)
    by (simp add: item_means_def assms(4) base_page_def leaf_cell_of_def cell_resolve_def base_check_def resolve_checked_def cell_container_def)
qed

lemma run_item:
  assumes "ext_ok E" "container_inv (Run r)" "length r \<le> 1024"
    "x = \<lparr>skey = k, sty = TRun, selem_n = of_nat (length r), scard = cardinality (Run r), sbitmap_checksum = 0, sbitmap_pgno = 0,
       spayload = bytes_interval E r\<rparr>"
  shows "item_ok x \<and> base_pgno x = None \<and> item_means E rd x (elems (Run r))"
proof -
  have E: "length (bytes_interval E r) = 4 * length r" "cast_interval E (bytes_interval E r) = Some r"
    using assms(1) by (simp_all add: ext_ok_def)
  have "staged_ok x" using assms(3) E unat_of_nat_u16 [of "length r"] by (simp add: assms(4) staged_ok_def)
  then have "item_ok x" by (rule payload_item_ok) (use assms(3) E in \<open>simp add: assms(4)\<close>)
  moreover have "base_pgno x = None" by (simp add: base_pgno_def is_dense_def assms(4))
  ultimately show ?thesis
    using E cardinality_card [OF assms(2)] assms(2)
    by (simp add: item_means_def assms(4) base_page_def leaf_cell_of_def cell_resolve_def base_check_def resolve_checked_def cell_container_def
        del: elems.simps cardinality.simps)
qed

lemma dense_item:
  assumes "ext_ok E" "length ws = BITMAP_WORDS" "rd n = Inr (build_bitmap_page E ws)"
    "x = item_dense k n (cardinality (Bitmap ws)) (crc32 E (build_bitmap_page E ws))"
  shows "item_ok x \<and> base_pgno x = Some n \<and> item_means E rd x (elems (Bitmap ws))"
proof -
  have "staged_ok x" by (simp add: assms(4) staged_ok_def item_dense_def)
  then have "item_ok x" by (rule payload_item_ok) (simp add: assms(4) item_dense_def)
  moreover have "base_pgno x = Some n" by (simp add: base_pgno_def is_dense_def assms(4) item_dense_def)
  ultimately show ?thesis
    using build_bitmap_page_spec(1) [OF assms(1,2)] cardinality_card [of "Bitmap ws"] assms(2,3)
    by (simp add: item_means_def assms(4) item_dense_def base_page_def leaf_cell_of_def cell_resolve_def base_check_def has_base_def
        verify_base_def bitmap_page_checksum_def resolve_checked_def bitmap_container_def del: elems.simps cardinality.simps)
qed

lemma delta_item:
  assumes "rd n = Inr p" "base_words E p = Inr old" "words_diff 0 (zip ws old) [] = Some es" "length ws = BITMAP_WORDS"
    "x = item_delta k n (crc32 E p) (cardinality (Bitmap ws)) es"
  shows "item_ok x \<and> base_pgno x = Some n \<and> item_means E rd x (elems (Bitmap ws))"
proof -
  note d = words_diff_spec [OF assms(3,4) base_words_length [OF assms(2)]]
  have len: "length es \<le> 512" using d(2) by (simp add: MAX_DELTA_def)
  have enc: "length (delta_encode es) = 4 * length es" by (simp add: length_delta_encode DELTA_ENTRY_BYTES_def)
  have "staged_ok x" using len enc unat_of_nat_u16 [of "length es"]
    by (simp add: assms(5) staged_ok_def item_delta_def DELTA_ENTRY_BYTES_def)
  then have "item_ok x" by (rule payload_item_ok) (use len enc in \<open>simp add: assms(5) item_delta_def\<close>)
  moreover have "base_pgno x = Some n" by (simp add: base_pgno_def is_dense_def assms(5) item_delta_def)
  moreover have "length (delta_apply old es) = BITMAP_WORDS"
    using delta_apply_spec(1) [OF base_words_length [OF assms(2)] d(1)] .
  ultimately show ?thesis
    using assms(1,2,4) d(3) cardinality_card [of "Bitmap ws"] decode_encode [of es]
    by (simp add: item_means_def assms(5) item_delta_def base_page_def leaf_cell_of_def cell_resolve_def base_check_def has_base_def
        verify_base_def bitmap_page_checksum_def resolve_checked_def cell_delta_def del: elems.simps cardinality.simps)
qed

context page_heap
begin

text \<open>An item that was made beside the pages \<open>F\<close>: its page is new, unless it is the base.\<close>

definition made :: "ext \<Rightarrow> container_key \<Rightarrow> u16 set \<Rightarrow> pgno option \<Rightarrow> 'w \<Rightarrow> pgno set \<Rightarrow> leaf_item \<Rightarrow> 'w \<Rightarrow> bool" where
  "made E k S old w F x w' \<longleftrightarrow> skey x = k \<and> item_ok x \<and> item_means E (t_read P w') x S \<and>
     framed w F w' (set_option (base_pgno x) - F) \<and> set_option (base_pgno x) \<inter> F \<subseteq> set_option old"

lemma make_item_fresh_spec:
  assumes "holds w F" "ext_ok E" "container_inv best"
    "\<And>a. best = Array a \<Longrightarrow> length a \<le> 2048" "\<And>r. best = Run r \<Longrightarrow> length r \<le> 1024"
  shows "outcome (make_item_fresh E P k best w) (\<lambda>(x, w'). made E k (elems best) old w F x w')"
proof (cases best)
  case (Array a)
  with array_item [OF assms(2) _ assms(4) [OF Array] refl, of k "t_read P w"] assms(1,3) framed_refl [OF assms(1)]
  show ?thesis by (simp add: make_item_fresh_def made_def)
next
  case (Run r)
  with run_item [OF assms(2) _ assms(5) [OF Run] refl, of k "t_read P w"] assms(1,3) framed_refl [OF assms(1)]
  show ?thesis by (simp add: make_item_fresh_def made_def del: elems.simps cardinality.simps)
next
  case (Bitmap ws)
  have ws: "length ws = BITMAP_WORDS" using assms(3) Bitmap by simp
  have "outcome (rbind (put_page P (\<lambda>_. build_bitmap_page E ws) w)
      (\<lambda>(n, w'). Inr (item_dense k n (cardinality best) (bitmap_page_checksum E (build_bitmap_page E ws)), w')))
      (\<lambda>(x, w'). made E k (elems best) old w F x w')"
  proof (rule put_page_then [OF assms(1)])
    fix n w'
    assume n: "framed w F w' {n}" "t_read P w' n = Inr (build_bitmap_page E ws)"
    have "{n} - F = {n}" "n \<notin> F" using framed_disjoint [OF n(1)] by blast+
    with n(1) dense_item [where rd = "t_read P w'" and k = k, OF assms(2) ws n(2) refl]
    show "outcome (Inr (item_dense k n (cardinality best) (bitmap_page_checksum E (build_bitmap_page E ws)), w'))
      (\<lambda>(x, w'). made E k (elems best) old w F x w')"
      by (simp add: made_def Bitmap bitmap_page_checksum_def item_dense_def del: elems.simps cardinality.simps)
  qed
  then show ?thesis by (simp add: make_item_fresh_def Bitmap Let_def del: elems.simps cardinality.simps)
qed

text \<open>The base of a delta: the page that is there, with the checksum the item has.\<close>

definition base_ok :: "ext \<Rightarrow> 'w \<Rightarrow> pgno set \<Rightarrow> (pgno \<times> u32) option \<Rightarrow> bool" where
  "base_ok E w F base \<longleftrightarrow> (case base of None \<Rightarrow> True
     | Some (n, checksum) \<Rightarrow> n \<in> F \<and> (\<exists>p ws. t_read P w n = Inr p \<and> crc32 E p = checksum \<and> base_words E p = Inr ws))"

lemma make_item_over_spec:
  assumes w: "holds w F" and E: "ext_ok E" and c: "container_inv c" and base: "base_ok E w F base"
  shows "outcome (make_item_over E P k c base w) (\<lambda>(x, w'). made E k (elems c) (map_option fst base) w F x w')"
proof -
  define best where "best = op_result_as_ref (optimize c WRITE_CAPS)"
  note o = optimized [OF c best_def]
  have fresh: "outcome (make_item_fresh E P k best w) (\<lambda>(x, w'). made E k (elems c) (map_option fst base) w F x w')"
    using make_item_fresh_spec [OF w E o(1)] o(2-4) by metis
  show ?thesis
  proof (cases "\<exists>ws n ck. best = Bitmap ws \<and> base = Some (n, ck)")
    case True
    then obtain ws n ck where b: "best = Bitmap ws" "base = Some (n, ck)" by blast
    have ws: "length ws = BITMAP_WORDS" "elems c = elems (Bitmap ws)" using o(1,2) b(1) by simp_all
    obtain p old where p: "n \<in> F" "t_read P w n = Inr p" "crc32 E p = ck" "base_words E p = Inr old"
      using base b(2) by (auto simp: base_ok_def)
    show ?thesis
    proof (cases "words_diff 0 (zip ws old) []")
      case None
      then have "make_item_over E P k c base w = make_item_fresh E P k best w"
        using b p by (simp add: make_item_over_def best_def [symmetric] try_delta_def bitmap_page_checksum_def Let_def)
      with fresh show ?thesis by simp
    next
      case (Some es)
      let ?x = "item_delta k n ck (cardinality (Bitmap ws)) es"
      have "make_item_over E P k c base w = Inr (?x, w)"
        using b p Some by (simp add: make_item_over_def best_def [symmetric] try_delta_def bitmap_page_checksum_def Let_def)
      moreover have "item_ok ?x \<and> base_pgno ?x = Some n \<and> item_means E (t_read P w) ?x (elems (Bitmap ws))"
        using delta_item [where rd = "t_read P w", OF p(2,4) Some ws(1) refl] p(3) by simp
      moreover have "skey ?x = k" by (simp add: item_delta_def)
      ultimately show ?thesis using framed_refl [OF w] p(1) b(2) ws(2) by (simp add: made_def del: elems.simps)
    qed
  next
    case False
    then have "make_item_over E P k c base w = make_item_fresh E P k best w"
      by (cases best; cases base) (auto simp: make_item_over_def best_def [symmetric])
    with fresh show ?thesis by simp
  qed
qed

end

end
