(* ===== verification/Big_Batch.thy ===== *)
theory Big_Batch
  imports Big_Items
begin

text \<open>
  The batch operation of \<^verbatim>\<open>write.rs\<close> that every write of the engines goes through:
  \<^verbatim>\<open>put_containers\<close>. A tree with its bitmap pages is a \<open>bank\<close> that stands for a map from keys to sets of
  values; putting containers updates the map.
\<close>

lemma rbind_assoc: "rbind (rbind r f) g = rbind r (\<lambda>x. rbind (f x) g)"
  by (cases r) simp_all

section \<open>The bitmap pages of a list of items\<close>

lemma dense_pages_simps [simp]:
  "dense_pages [] = []" "dense_pages (xs @ ys) = dense_pages xs @ dense_pages ys"
  by (simp_all add: dense_pages_def)

lemma dense_pages_Cons: "dense_pages (x # xs) = (case base_pgno x of None \<Rightarrow> [] | Some p \<Rightarrow> [p]) @ dense_pages xs"
  by (simp add: dense_pages_def base_pgno_def)

lemma in_dense: "p \<in> set (dense_pages xs) \<longleftrightarrow> (\<exists>x \<in> set xs. base_pgno x = Some p)"
  by (auto simp: dense_pages_def base_pgno_def)

lemma dense_inj:
  assumes "distinct (dense_pages xs)" "y \<in> set xs" "z \<in> set xs" "base_pgno y = Some p" "base_pgno z = Some p"
  shows "y = z"
  using assms
proof (induction xs)
  case (Cons x xs)
  have "p \<in> set (dense_pages xs)" if "base_pgno v = Some p" "v \<in> set xs" for v using that by (auto simp: in_dense)
  with Cons show ?case by (auto simp: dense_pages_Cons split: option.splits)
qed simp

lemma distinct_dense_filter: "distinct (dense_pages xs) \<Longrightarrow> distinct (dense_pages (filter Q xs))"
  by (induction xs) (auto simp: dense_pages_Cons in_dense split: option.splits)

text \<open>The page the item of a key has.\<close>

definition page_at :: "leaf_item list \<Rightarrow> container_key \<Rightarrow> pgno option" where
  "page_at xs k = Option.bind (lookup k xs) base_pgno"

lemma dropped_page: "dropped x xs = set_option (page_at xs (skey x)) - set_option (base_pgno x)"
  by (auto simp: dropped_def page_at_def split: option.splits)

lemma lookup_SomeD: "lookup k xs = Some y \<Longrightarrow> y \<in> set xs \<and> skey y = k"
  by (induction xs) (auto split: if_splits)

lemma page_at_dense: "page_at xs k = Some p \<Longrightarrow> p \<in> set (dense_pages xs)"
  by (auto simp: page_at_def in_dense bind_eq_Some_conv dest: lookup_SomeD)

lemma lookup_in: "ssorted (map skey xs) \<Longrightarrow> y \<in> set xs \<Longrightarrow> lookup (skey y) xs = Some y"
proof (induction xs)
  case (Cons x xs)
  then show ?case by (cases "y = x") (auto simp: less_le)
qed simp

lemma dense_others:
  assumes "ssorted (map skey xs)" "distinct (dense_pages xs)" "y \<in> set xs" "skey y \<noteq> k" "base_pgno y = Some p"
  shows "page_at xs k \<noteq> Some p"
proof
  assume "page_at xs k = Some p"
  then obtain z where z: "lookup k xs = Some z" "base_pgno z = Some p" by (auto simp: page_at_def bind_eq_Some_conv)
  then have "y = z" using dense_inj [OF assms(2,3) _ assms(5)] lookup_SomeD by blast
  with lookup_SomeD [OF z(1)] assms(4) show False by simp
qed

lemma set_dense_put:
  assumes "ssorted (map skey xs)" "distinct (dense_pages xs)"
  shows "set (dense_pages (put_item x xs)) = set (dense_pages xs) - set_option (page_at xs (skey x)) \<union> set_option (base_pgno x)"
proof -
  have "p \<in> set (dense_pages xs) - set_option (page_at xs (skey x)) \<longleftrightarrow> (\<exists>y \<in> set xs. skey y \<noteq> skey x \<and> base_pgno y = Some p)" for p
  proof -
    have "page_at xs (skey x) = Some p" if "y \<in> set xs" "base_pgno y = Some p" "skey y = skey x" for y
      using lookup_in [OF assms(1) that(1)] that(2,3) by (simp add: page_at_def)
    then show ?thesis using dense_others [OF assms] by (auto simp: in_dense)
  qed
  then have "set (dense_pages xs) - set_option (page_at xs (skey x)) = {p. \<exists>y \<in> set xs. skey y \<noteq> skey x \<and> base_pgno y = Some p}"
    by blast
  moreover have "p \<in> set (dense_pages (put_item x xs)) \<longleftrightarrow> base_pgno x = Some p \<or> (\<exists>y \<in> set xs. skey y \<noteq> skey x \<and> base_pgno y = Some p)" for p
    unfolding in_dense set_put_item [OF assms(1)] by blast
  ultimately show ?thesis by auto
qed

lemma distinct_dense_put:
  assumes "ssorted (map skey xs)" "distinct (dense_pages xs)" "set_option (base_pgno x) \<inter> set (dense_pages xs) \<subseteq> set_option (page_at xs (skey x))"
  shows "distinct (dense_pages (put_item x xs))"
proof -
  let ?l = "filter (\<lambda>y. skey y < skey x) xs" and ?r = "filter (\<lambda>y. skey x < skey y) xs"
  have "p \<notin> set (dense_pages (filter Q xs))" if "base_pgno x = Some p" "\<And>y. Q y \<Longrightarrow> skey y \<noteq> skey x" for p Q
  proof
    assume "p \<in> set (dense_pages (filter Q xs))"
    then obtain y where y: "y \<in> set xs" "Q y" "base_pgno y = Some p" by (auto simp: in_dense)
    then have "page_at xs (skey x) \<noteq> Some p" using dense_others [OF assms(1,2) y(1) that(2) y(3)] by simp
    moreover have "p \<in> set (dense_pages xs)" using y by (auto simp: in_dense)
    ultimately show False using assms(3) that(1) by auto
  qed
  then have x: "p \<notin> set (dense_pages ?l)" "p \<notin> set (dense_pages ?r)" if "base_pgno x = Some p" for p using that by auto
  have False if p: "p \<in> set (dense_pages ?l)" "p \<in> set (dense_pages ?r)" for p
  proof -
    obtain y z where y: "y \<in> set xs" "skey y < skey x" "base_pgno y = Some p" and z: "z \<in> set xs" "skey x < skey z" "base_pgno z = Some p"
      using p unfolding in_dense by auto
    have "y = z" by (rule dense_inj [OF assms(2) y(1) z(1) y(3) z(3)])
    with y(2) z(2) show False by simp
  qed
  then have "set (dense_pages ?l) \<inter> set (dense_pages ?r) = {}" by blast
  then show ?thesis using x distinct_dense_filter [OF assms(2)] unfolding put_item_def
    by (cases "base_pgno x") (simp_all add: dense_pages_Cons)
qed

section \<open>Leaves with their pages\<close>

definition items_mean :: "ext \<Rightarrow> (pgno \<Rightarrow> store_error + page) \<Rightarrow> leaf_item list \<Rightarrow> (container_key \<rightharpoonup> u16 set) \<Rightarrow> bool" where
  "items_mean E rd xs m \<longleftrightarrow> (\<forall>x \<in> set xs. \<exists>S. m (skey x) = Some S \<and> item_means E rd x S)"

lemma items_mean_append [simp]: "items_mean E rd (xs @ ys) m \<longleftrightarrow> items_mean E rd xs m \<and> items_mean E rd ys m"
  by (auto simp: items_mean_def)

lemma items_mean_cong:
  assumes "items_mean E rd xs m" "\<And>q. q \<in> set (dense_pages xs) \<Longrightarrow> rd' q = rd q" "\<And>x. x \<in> set xs \<Longrightarrow> m' (skey x) = m (skey x)"
  shows "items_mean E rd' xs m'"
  unfolding items_mean_def
proof
  fix x
  assume x: "x \<in> set xs"
  with assms(1) obtain S where S: "m (skey x) = Some S" "item_means E rd x S" by (auto simp: items_mean_def)
  have "item_means E rd' x S" by (rule item_means_cong [OF S(2)]) (use assms(2) x in \<open>auto simp: in_dense\<close>)
  then show "\<exists>S. m' (skey x) = Some S \<and> item_means E rd' x S" using assms(3) [OF x] S(1) by auto
qed

definition upd :: "(container_key \<rightharpoonup> u16 set) \<Rightarrow> (container_key \<times> container) list \<Rightarrow> (container_key \<rightharpoonup> u16 set)" where
  "upd m queue = foldl (\<lambda>m (k, c). m(k \<mapsto> elems c)) m queue"

lemma upd_simps [simp]: "upd m [] = m" "upd m ((k, c) # queue) = upd (m(k \<mapsto> elems c)) queue" "upd m (q1 @ q2) = upd (upd m q1) q2"
  by (simp_all add: upd_def)

lemma upd_other: "k \<notin> fst ` set queue \<Longrightarrow> upd m queue k = m k"
  by (induction queue arbitrary: m) auto

lemma dom_upd: "dom (upd m queue) = dom m \<union> fst ` set queue"
proof (induction queue arbitrary: m)
  case (Cons q queue)
  show ?case by (cases q) (auto simp: Cons.IH split: if_splits)
qed simp

lemma base_at_lookup:
  assumes "ssorted (map skey xs)"
  shows "base_at xs k = Option.bind (lookup k xs) (\<lambda>y. map_option (\<lambda>p. (p, sbitmap_checksum y)) (base_pgno y))"
  using find_item_spec [OF assms, of k] by (cases "find_item xs k") (simp_all add: base_at_def)

context page_heap
begin

definition leaf_bank :: "ext \<Rightarrow> 'w \<Rightarrow> leaf_item list \<Rightarrow> pgno set \<Rightarrow> (container_key \<rightharpoonup> u16 set) \<Rightarrow> bool" where
  "leaf_bank E w xs G m \<longleftrightarrow> ssorted (map skey xs) \<and> (\<forall>x \<in> set xs. item_ok x) \<and> distinct (dense_pages xs) \<and>
     set (dense_pages xs) \<inter> G = {} \<and> holds w (set (dense_pages xs) \<union> G) \<and> items_mean E (t_read P w) xs m"

lemma base_at_ok:
  assumes "leaf_bank E w xs G m"
  shows "base_ok E w (set (dense_pages xs) \<union> G) (base_at xs k)" "map_option fst (base_at xs k) = page_at xs k"
proof -
  have xs: "ssorted (map skey xs)" using assms by (simp add: leaf_bank_def)
  show "map_option fst (base_at xs k) = page_at xs k"
  proof (cases "lookup k xs")
    case (Some y)
    then show ?thesis unfolding base_at_lookup [OF xs] page_at_def by (cases "base_pgno y") simp_all
  qed (simp add: base_at_lookup [OF xs] page_at_def)
  show "base_ok E w (set (dense_pages xs) \<union> G) (base_at xs k)"
  proof (cases "base_at xs k")
    case (Some b)
    then obtain y n where y: "lookup k xs = Some y" "base_pgno y = Some n" "b = (n, sbitmap_checksum y)"
      unfolding base_at_lookup [OF xs] by (auto simp: bind_eq_Some_conv)
    then have "y \<in> set xs" by (auto dest: lookup_SomeD)
    moreover from this obtain S where "item_means E (t_read P w) y S" using assms by (auto simp: leaf_bank_def items_mean_def)
    moreover obtain p ws where "t_read P w n = Inr p" "crc32 E p = sbitmap_checksum y" "base_words E p = Inr ws"
      using calculation(2) y(2) by (rule item_means_base)
    ultimately show ?thesis using y(2,3) Some by (auto simp: base_ok_def in_dense)
  qed (simp add: base_ok_def)
qed

lemma absorb_one:
  assumes lb: "leaf_bank E w xs G m" and E: "ext_ok E" and c: "container_inv c"
  shows "outcome (make_item_over E P k c (base_at xs k) w) (\<lambda>(x, w1). skey x = k \<and> (\<exists>w2. splice P xs x w1 = (put_item x xs, w2) \<and>
    leaf_bank E w2 (put_item x xs) G (m(k \<mapsto> elems c)) \<and> (\<forall>q \<in> G. t_read P w2 q = t_read P w q)))"
proof -
  let ?D = "set (dense_pages xs)"
  have xs: "ssorted (map skey xs)" "\<forall>x \<in> set xs. item_ok x" "distinct (dense_pages xs)" "?D \<inter> G = {}" "holds w (?D \<union> G)"
    "items_mean E (t_read P w) xs m" using lb by (simp_all add: leaf_bank_def)
  have step: "skey x = k \<and> (\<exists>w2. splice P xs x w1 = (put_item x xs, w2) \<and>
      leaf_bank E w2 (put_item x xs) G (m(k \<mapsto> elems c)) \<and> (\<forall>q \<in> G. t_read P w2 q = t_read P w q))"
    if mk: "made E k (elems c) (page_at xs k) w (?D \<union> G) x w1" for x w1
  proof -
    have x: "skey x = k" "item_ok x" "item_means E (t_read P w1) x (elems c)" "framed w (?D \<union> G) w1 (set_option (base_pgno x) - (?D \<union> G))"
      "set_option (base_pgno x) \<inter> (?D \<union> G) \<subseteq> set_option (page_at xs k)" using mk by (simp_all add: made_def)
    let ?F = "set (dense_pages (put_item x xs)) \<union> G"
    have D': "set (dense_pages (put_item x xs)) = ?D - set_option (page_at xs k) \<union> set_option (base_pgno x)"
      using set_dense_put [OF xs(1,3), of x] x(1) by simp
    have old: "set_option (page_at xs k) \<subseteq> ?D" using page_at_dense by auto
    have drop: "dropped x xs = set_option (page_at xs k) - set_option (base_pgno x)" using dropped_page [of x xs] x(1) by simp
    have "dropped x xs \<union> ?F = (set_option (base_pgno x) - (?D \<union> G)) \<union> (?D \<union> G)" using old x(5) unfolding D' drop by blast
    then have h1: "holds w1 (dropped x xs \<union> ?F)" using framed_holds [OF x(4)] by simp
    have "dropped x xs \<inter> ?F = {}" using old xs(4) unfolding D' drop by blast
    from splice_spec [OF xs(1) h1 this] obtain w2 where w2: "splice P xs x w1 = (put_item x xs, w2)" "framed w1 ?F w2 {}" by blast
    have rd: "t_read P w2 q = t_read P w q" if "q \<in> ?F" "q \<in> ?D \<union> G" for q
      using framed_read [OF w2(2) that(1)] framed_read [OF x(4) that(2)] by simp
    have "items_mean E (t_read P w2) (put_item x xs) (m(k \<mapsto> elems c))"
      unfolding items_mean_def
    proof
      fix y
      assume "y \<in> set (put_item x xs)"
      then consider "y = x" | "y \<in> set xs" "skey y \<noteq> k" using set_put_item [OF xs(1), of x] x(1) by auto
      then show "\<exists>S. (m(k \<mapsto> elems c)) (skey y) = Some S \<and> item_means E (t_read P w2) y S"
      proof cases
        case 1
        have "item_means E (t_read P w2) x (elems c)"
          by (rule item_means_cong [OF x(3)]) (use framed_read [OF w2(2)] D' in auto)
        with 1 x(1) show ?thesis by simp
      next
        case 2
        with xs(6) obtain S where S: "m (skey y) = Some S" "item_means E (t_read P w) y S" by (auto simp: items_mean_def)
        have "item_means E (t_read P w2) y S"
        proof (rule item_means_cong [OF S(2)])
          fix q
          assume "q \<in> set_option (base_pgno y)"
          then have q: "base_pgno y = Some q" by simp
          have "q \<in> ?D" using q 2 by (auto simp: in_dense)
          moreover have "page_at xs k \<noteq> Some q" by (rule dense_others [OF xs(1,3) 2 q])
          ultimately show "t_read P w2 q = t_read P w q" by (intro rd) (auto simp: D')
        qed
        with S 2 show ?thesis by simp
      qed
    qed
    moreover have "\<forall>y \<in> set (put_item x xs). item_ok y" using set_put_item [OF xs(1), of x] xs(2) x(2) by auto
    moreover have "distinct (dense_pages (put_item x xs))" by (rule distinct_dense_put [OF xs(1,3)]) (use x(1,5) in auto)
    moreover have "set (dense_pages (put_item x xs)) \<inter> G = {}" using xs(4) x(5) old unfolding D' by blast
    moreover have "holds w2 ?F" using framed_holds [OF w2(2)] by simp
    ultimately have "leaf_bank E w2 (put_item x xs) G (m(k \<mapsto> elems c))"
      using put_item_sorted [OF xs(1), of x] by (simp add: leaf_bank_def)
    then show ?thesis using x(1) w2(1) rd by auto
  qed
  show ?thesis
  proof (rule outcome_mono [OF make_item_over_spec [OF xs(5) E c base_at_ok(1) [OF lb, of k], of k]], clarify)
    fix x w1
    assume "made E k (elems c) (map_option fst (base_at xs k)) w (?D \<union> G) x w1"
    then show "skey x = k \<and> (\<exists>w2. splice P xs x w1 = (put_item x xs, w2) \<and>
      leaf_bank E w2 (put_item x xs) G (m(k \<mapsto> elems c)) \<and> (\<forall>q \<in> G. t_read P w2 q = t_read P w q))"
      unfolding base_at_ok(2) [OF lb] by (rule step)
  qed
qed

lemma absorb_containers_spec:
  assumes "leaf_bank E w xs G m" "ext_ok E" "\<forall>(k, c) \<in> set queue. container_inv c"
  shows "outcome (absorb_containers E P limit xs queue w) (\<lambda>((ys, rest), w'). \<exists>ready. queue = ready @ rest \<and>
    (\<forall>(k, c) \<in> set ready. \<not> beyond limit k) \<and> (rest \<noteq> [] \<longrightarrow> beyond limit (fst (hd rest))) \<and> leaf_bank E w' ys G (upd m ready) \<and>
    skey ` set ys = skey ` set xs \<union> fst ` set ready \<and> (\<forall>q \<in> G. t_read P w' q = t_read P w q))"
  using assms
proof (induction queue arbitrary: xs m w)
  case (Cons a queue)
  obtain k c where a: "a = (k, c)" by (cases a)
  have c: "container_inv c" "\<forall>(k, c) \<in> set queue. container_inv c" using Cons.prems(3) by (simp_all add: a)
  show ?case
  proof (cases "beyond limit k")
    case True
    then show ?thesis using Cons.prems(1) by (simp add: a)
  next
    case False
    let ?Q = "\<lambda>((ys, rest), w'). \<exists>ready. a # queue = ready @ rest \<and>
      (\<forall>(k, c) \<in> set ready. \<not> beyond limit k) \<and> (rest \<noteq> [] \<longrightarrow> beyond limit (fst (hd rest))) \<and> leaf_bank E w' ys G (upd m ready) \<and>
      skey ` set ys = skey ` set xs \<union> fst ` set ready \<and> (\<forall>q \<in> G. t_read P w' q = t_read P w q)"
    have "outcome (rbind (make_item_over E P k c (base_at xs k) w) (\<lambda>(x, w1).
        case splice P xs x w1 of (leaf', w2) \<Rightarrow> absorb_containers E P limit leaf' queue w2)) ?Q"
    proof (rule outcome_rbind [OF absorb_one [OF Cons.prems(1,2) c(1)]], clarify)
      fix x w1 w2
      assume k: "k = skey x" and sp: "splice P xs x w1 = (put_item x xs, w2)"
        and lb: "leaf_bank E w2 (put_item x xs) G (m(skey x \<mapsto> elems c))" and same: "\<forall>q \<in> G. t_read P w2 q = t_read P w q"
      have xs: "ssorted (map skey xs)" using Cons.prems(1) by (simp add: leaf_bank_def)
      have "outcome (absorb_containers E P limit (put_item x xs) queue w2) ?Q"
      proof (rule outcome_mono [OF Cons.IH [OF lb Cons.prems(2) c(2)]], clarify)
        fix ys w' and ready rest :: "(container_key \<times> container) list"
        assume "\<forall>(k, c) \<in> set ready. \<not> beyond limit k" "rest \<noteq> [] \<longrightarrow> beyond limit (fst (hd rest))"
          "leaf_bank E w' ys G (upd (m(skey x \<mapsto> elems c)) ready)" "skey ` set ys = skey ` set (put_item x xs) \<union> fst ` set ready"
          "\<forall>q \<in> G. t_read P w' q = t_read P w2 q"
        moreover have "skey ` set (put_item x xs) = insert (skey x) (skey ` set xs)" unfolding set_put_item [OF xs] by auto
        ultimately show "\<exists>ra. a # ready @ rest = ra @ rest \<and> (\<forall>(k, c) \<in> set ra. \<not> beyond limit k) \<and>
            (rest \<noteq> [] \<longrightarrow> beyond limit (fst (hd rest))) \<and> leaf_bank E w' ys G (upd m ra) \<and>
            skey ` set ys = skey ` set xs \<union> fst ` set ra \<and> (\<forall>q \<in> G. t_read P w' q = t_read P w q)"
          using same False k by (intro exI [of _ "a # ready"]) (simp add: a)
      qed
      then show "outcome (case splice P xs x w1 of (leaf', w2) \<Rightarrow> absorb_containers E P limit leaf' queue w2) ?Q" by (simp add: sp)
    qed
    then show ?thesis using False by (simp add: a)
  qed
qed simp

end

section \<open>Merging with the right sibling\<close>

text \<open>The hole widened by the leaf to its right.\<close>

lemma widen_frame:
  assumes "ctx_ok crc rd g ((n, ls, [c], (c2, u) # rs) # fs)"
  shows "ctx_ok crc rd g ((n, ls, [c, c2], rs) # fs)"
    "inside (limits ((n, ls, [c], (c2, u) # rs) # fs)) k \<Longrightarrow> inside (limits ((n, ls, [c, c2], rs) # fs)) k"
    "k \<in> set (marks u) \<Longrightarrow> inside (limits ((n, ls, [c, c2], rs) # fs)) k"
proof -
  have sep: "separated ((c2, u) # rs)" "separated ls" "\<forall>k \<in> set (forest_marks ls). k < bkey c"
    "\<forall>v \<in> set ((c2, u) # rs). bkey c < bkey (fst v)"
    and ins: "\<forall>k \<in> insert (bkey c) (set (forest_marks (ls @ (c2, u) # rs))). inside (limits fs) k"
    using assms by (simp_all add: separated_append)
  show "ctx_ok crc rd g ((n, ls, [c, c2], rs) # fs)"
    using assms by (auto simp: frame_cells_def forest_stored_def separated_append)
  have next_key: "bkey c2 < bkey (fst (hd rs))" "k \<in> set (marks u) \<Longrightarrow> k < bkey (fst (hd rs))" if "rs \<noteq> []" for k
    using sep(1) that by simp_all
  show "inside (limits ((n, ls, [c], (c2, u) # rs) # fs)) k \<Longrightarrow> inside (limits ((n, ls, [c, c2], rs) # fs)) k"
    using next_key(1) ins unfolding inside_def by (auto intro: less_trans)
  show "inside (limits ((n, ls, [c, c2], rs) # fs)) k" if k: "k \<in> set (marks u)"
  proof -
    have "inside (limits fs) k" using ins k by simp
    moreover have "bkey c2 \<le> k" using sep(1) k by simp
    moreover have "bkey c < bkey c2" using sep(4) by simp
    ultimately show ?thesis using next_key(2) [OF _ k] unfolding inside_def by auto
  qed
qed

context page_heap
begin

lemma merge_right_spec:
  assumes ctx: "ctx_ok (crc32 E) (t_read P w) 0 fs" "distinct (ctx_pages fs)" "set (ctx_pages fs) \<inter> F = {}"
    "holds w (set (ctx_pages fs) \<union> F)" and ones: "\<forall>(n, ls, mid, rs) \<in> set fs. length mid = 1"
  shows "\<exists>fs2 zs span w3. merge_right P (map step_of (rev fs)) ys w = Inr ((ys @ zs, span), w3) \<and> map step_of fs2 = map step_of fs \<and>
    ctx_ok (crc32 E) (t_read P w3) 0 fs2 \<and> distinct (ctx_pages fs2) \<and> set (ctx_pages fs2) \<subseteq> set (ctx_pages fs) \<and>
    left_items fs2 = left_items fs \<and> right_items fs = zs @ right_items fs2 \<and> framed w (set (ctx_pages fs2) \<union> F) w3 {} \<and>
    (\<forall>z \<in> set zs. item_ok z \<and> inside (limits fs2) (skey z)) \<and> ssorted (map skey zs) \<and>
    (\<forall>k. inside (limits fs) k \<longrightarrow> inside (limits fs2) k) \<and> (\<forall>(n, ls, mid, rs) \<in> set (tl fs2). length mid = 1) \<and>
    (\<forall>n ls mid rs. fs2 \<noteq> [] \<and> hd fs2 = (n, ls, mid, rs) \<longrightarrow> length mid = span)" (is "?goal")
proof (cases "merge_right P (map step_of (rev fs)) ys w = Inr ((ys, 1), w)")
  case True
  have "\<forall>(n, ls, mid, rs) \<in> set (tl fs). length mid = 1" using ones by (cases fs) simp_all
  moreover have "\<forall>n ls mid rs. fs \<noteq> [] \<and> hd fs = (n, ls, mid, rs) \<longrightarrow> length mid = 1" using ones by (cases fs) auto
  ultimately show ?thesis
    using True ctx framed_refl [OF ctx(4)] by (intro exI [of _ fs] exI [of _ "[]"] exI [of _ 1] exI [of _ w]) simp
next
  case False
  then obtain f fs' where fs: "fs = f # fs'" by (cases fs) (auto simp: merge_right_def)
  obtain n ls mid rs where f: "f = (n, ls, mid, rs)" by (cases f)
  obtain c where mid: "mid = [c]" using ones by (auto simp: fs f length_Suc_conv)
  have ctx1: "ctx_ok (crc32 E) (t_read P w) 0 ((n, ls, [c], rs) # fs')" using ctx(1) by (simp only: fs f mid)
  obtain br where br: "t_read P w n = Inr (branch_finish (crc32 E) (frame_cells (n, ls, [c], rs)) n)"
    "branch_parse (branch_finish (crc32 E) (frame_cells (n, ls, [c], rs)) n) = Inr br"
    "branch_iter br = map fst ls @ [c] @ map fst rs" "bcount br = length ls + length [c] + length rs"
    by (rule read_frame [OF ctx1])
  have at: "branch_cell_at br (length ls + 1) = (if rs = [] then None else Some (fst (hd rs)))" using next_cell [of br ls c rs] br(3,4) by simp
  have path: "last (map step_of (rev fs)) = \<lparr>step_pgno = n, step_index = length ls\<rparr>" "map step_of (rev fs) \<noteq> []"
    by (simp_all add: fs f step_of_def)
  obtain c2 u rs' where rs: "rs = (c2, u) # rs'"
  proof (cases rs)
    case Nil
    then have "merge_right P (map step_of (rev fs)) ys w = Inr ((ys, 1), w)" using br at path by (simp add: merge_right_def Let_def)
    with False show thesis by simp
  qed (use that in auto)
  have u: "bchild c2 = root_of u" "stored (crc32 E) (t_read P w) u" "ordered u" "full 0 u" using ctx1 by (simp_all add: rs forest_stored_def)
  obtain n2 zs where leaf: "u = LeafNode n2 zs" using u(4) by (cases u) auto
  have items: "read_items P w (bchild c2) = Inr zs" using read_items_spec [of "crc32 E" P w n2 zs] u(1,2) by (simp add: leaf)
  have mr: "merge_right P (map step_of (rev fs)) ys w = Inr ((ys @ zs, 2), t_free P n2 w)"
    using False br at path items u(1) unfolding merge_right_def by (auto simp: Let_def rs leaf split: if_splits)
  let ?fs = "(n, ls, [c, c2], rs') # fs'" and ?w = "t_free P n2 w"
  have pages: "set (ctx_pages fs) = insert n2 (set (ctx_pages ?fs))" "n2 \<notin> set (ctx_pages ?fs)" "distinct (ctx_pages ?fs)"
    using ctx(2) by (auto simp: fs f rs leaf)
  have fr: "framed w (set (ctx_pages ?fs) \<union> F) ?w {}" by (rule free_spec) (use ctx(3,4) pages in auto)
  note wide = widen_frame [OF ctx1 [unfolded rs]]
  have "ctx_ok (crc32 E) (t_read P ?w) 0 ?fs" by (rule ctx_ok_cong [OF wide(1)]) (use framed_read [OF fr] in auto)
  moreover have "\<forall>z \<in> set zs. item_ok z \<and> inside (limits ?fs) (skey z)"
    using u(2) leaf_fits_item_ok [of zs] wide(3) by (auto simp: leaf)
  moreover have "\<forall>k. inside (limits fs) k \<longrightarrow> inside (limits ?fs) k" using wide(2) by (simp only: fs f mid rs) blast
  ultimately show ?thesis
    using mr pages fr u(3) ones by (intro exI [of _ ?fs] exI [of _ zs] exI [of _ 2] exI [of _ ?w]) (auto simp: fs f rs leaf step_of_def)
qed

end

section \<open>Trees with their pages\<close>

lemma beyond_inside:
  assumes "inside l k0" "k0 \<le> k" "\<not> beyond (snd l) k"
  shows "inside l k"
  using assms by (auto simp: inside_def beyond_def split: option.splits)

lemma not_beyond: "inside l k \<Longrightarrow> \<not> beyond (snd l) k"
  by (auto simp: inside_def beyond_def split: option.splits)

context page_heap
begin

text \<open>
  A tree of height \<open>h\<close> that stands for the map \<open>m\<close>: its nodes, its bitmap pages and the pages \<open>F\<close> are
  all the pages in use, none of them is two of these, and every item stands for the set of its key.
\<close>

definition bank :: "ext \<Rightarrow> 'w \<Rightarrow> nat \<Rightarrow> node \<Rightarrow> pgno set \<Rightarrow> (container_key \<rightharpoonup> u16 set) \<Rightarrow> bool" where
  "bank E w h t F m \<longleftrightarrow> stored (crc32 E) (t_read P w) t \<and> ordered t \<and> full h t \<and> distinct (spine t) \<and>
     distinct (dense_pages (items_of t)) \<and> holds w (set (spine t) \<union> (set (dense_pages (items_of t)) \<union> F)) \<and>
     set (spine t) \<inter> (set (dense_pages (items_of t)) \<union> F) = {} \<and> set (dense_pages (items_of t)) \<inter> F = {} \<and>
     items_mean E (t_read P w) (items_of t) m \<and> dom m = skey ` set (items_of t)"

lemma planted_bank:
  assumes "planted E h w (set (dense_pages xs) \<union> F) t w'" "items_of t = xs" "distinct (dense_pages xs)" "set (dense_pages xs) \<inter> F = {}"
    "items_mean E (t_read P w) xs m" "dom m = skey ` set xs"
  shows "bank E w' h t F m"
proof -
  have "items_mean E (t_read P w') xs m"
    by (rule items_mean_cong [OF assms(5)]) (use assms(1) in \<open>auto simp: planted_def framed_def\<close>)
  then show ?thesis using assms unfolding bank_def planted_def framed_def by simp
qed

text \<open>The leaf a round starts at, taken out of its tree.\<close>

lemma taken_leaf:
  assumes b: "bank E w h t F m" and loc: "located (crc32 E) (t_read P w) t k n xs fs"
  defines "G \<equiv> set (ctx_pages fs) \<union> (set (dense_pages (left_items fs)) \<union> set (dense_pages (right_items fs)) \<union> F)"
  shows "take_leaf P n w = Inr (xs, t_free P n w)" "leaf_bank E (t_free P n w) xs G m" "\<forall>q \<in> G. t_read P (t_free P n w) q = t_read P w q"
proof -
  have t: "distinct (spine t)" "distinct (dense_pages (items_of t))" "holds w (set (spine t) \<union> (set (dense_pages (items_of t)) \<union> F))"
    "set (spine t) \<inter> (set (dense_pages (items_of t)) \<union> F) = {}" "set (dense_pages (items_of t)) \<inter> F = {}"
    "items_mean E (t_read P w) (items_of t) m" using b by (simp_all add: bank_def)
  have it: "items_of t = left_items fs @ xs @ right_items fs" using loc by (simp add: located_def)
  note lf = located_facts [OF loc t(1)]
  note tk = take_leaf_spec [OF loc t(1,3,4)]
  show "take_leaf P n w = Inr (xs, t_free P n w)" by (rule tk(1))
  have all: "set (ctx_pages fs) \<union> (set (dense_pages (items_of t)) \<union> F) = set (dense_pages xs) \<union> G" by (auto simp: it G_def)
  have fr: "framed w (set (dense_pages xs) \<union> G) (t_free P n w) {}" using tk(2) unfolding all .
  show "\<forall>q \<in> G. t_read P (t_free P n w) q = t_read P w q" using framed_read [OF fr] by auto
  have "items_mean E (t_read P (t_free P n w)) xs m"
    by (rule items_mean_cong [of E "t_read P w"]) (use t(6) framed_read [OF fr] it in auto)
  moreover have "set (dense_pages xs) \<inter> G = {}" using t(2,4,5) lf(4) by (auto simp: it G_def)
  ultimately show "leaf_bank E (t_free P n w) xs G m"
    using lf(8,10) t(2) framed_holds [OF fr] by (simp add: leaf_bank_def it)
qed

lemma ready_inside:
  assumes "ssorted (map fst queue)" "queue = ready @ rest" "inside l (fst (hd queue))" "\<forall>(k, c) \<in> set ready. \<not> beyond (snd l) k"
  shows "\<forall>k \<in> fst ` set ready. inside l k"
proof
  fix k
  assume "k \<in> fst ` set ready"
  then obtain c where kc: "(k, c) \<in> set ready" by auto
  have "fst (hd queue) \<le> k"
  proof (cases queue)
    case (Cons a as)
    have "(k, c) \<in> set queue" using kc assms(2) by simp
    then show ?thesis using assms(1) Cons by auto
  qed (use kc assms(2) in simp)
  then show "inside l k" using assms(3,4) kc by (auto intro: beyond_inside)
qed

lemma put_containers_round_spec:
  assumes b: "bank E w h t F m" "h < MAX_DEPTH" and E: "ext_ok E"
    and q: "queue \<noteq> []" "ssorted (map fst queue)" "\<forall>(k, c) \<in> set queue. container_inv c"
  shows "outcome (put_containers_round E P (root_of t) queue w) (\<lambda>((r, rest), w'). \<exists>ready t' h'. queue = ready @ rest \<and> ready \<noteq> [] \<and>
    bank E w' h' t' F (upd m ready) \<and> r = root_of t' \<and> (\<forall>q \<in> F. t_read P w' q = t_read P w q))"
proof -
  have t: "stored (crc32 E) (t_read P w) t" "ordered t" "full h t" "distinct (spine t)" "distinct (dense_pages (items_of t))"
    "items_mean E (t_read P w) (items_of t) m" "dom m = skey ` set (items_of t)" "set (dense_pages (items_of t)) \<inter> F = {}"
    "set (spine t) \<inter> (set (dense_pages (items_of t)) \<union> F) = {}" using b(1) by (simp_all add: bank_def)
  obtain n xs fs where ds: "descend P w (root_of t) (fst (hd queue)) = Inr (n, map step_of (rev fs))"
    and loc: "located (crc32 E) (t_read P w) t (fst (hd queue)) n xs fs"
    by (rule descend_spec [OF t(1-3) b(2)])
  note lf = located_facts [OF loc t(4)]
  have it: "items_of t = left_items fs @ xs @ right_items fs" and ins: "inside (limits fs) (fst (hd queue))"
    and ones: "\<forall>(n, ls, mid, rs) \<in> set fs. length mid = 1" and xin: "\<forall>x \<in> set xs. inside (limits fs) (skey x)"
    using loc by (simp_all add: located_def)
  have lim: "leaf_upper_bound P w (map step_of (rev fs)) = Inr (snd (limits fs))"
    using upper_bound_spec [OF lf(1) ones] by (simp add: leaf_upper_bound_def rev_map)
  define w1 where "w1 = t_free P n w"
  define R where "R = set (dense_pages (left_items fs)) \<union> set (dense_pages (right_items fs)) \<union> F"
  note tk = taken_leaf [OF b(1) loc, folded w1_def R_def]
  have ctxR: "set (ctx_pages fs) \<inter> R = {}" using t(9) lf(4) by (auto simp: it R_def)
  let ?Q = "\<lambda>((r, rest), w'). \<exists>ready t' h'. queue = ready @ rest \<and> ready \<noteq> [] \<and>
    bank E w' h' t' F (upd m ready) \<and> r = root_of t' \<and> (\<forall>q \<in> F. t_read P w' q = t_read P w q)"
  have "outcome (rbind (absorb_containers E P (snd (limits fs)) xs queue w1) (\<lambda>((leaf', queue'), w2).
         rbind (merge_right P (map step_of (rev fs)) leaf' w2) (\<lambda>((merged, span), w3). rbind (pack_leaves E P merged w3) (\<lambda>(entries, w4).
           rbind (rewrite_path_span E P (map step_of (rev fs)) entries span w4) (\<lambda>(root', w5). Inr ((root', queue'), w5)))))) ?Q"
  proof (rule outcome_rbind [OF absorb_containers_spec [OF tk(2) E q(3)]])
    fix r
    assume absorbed: "(\<lambda>((ys, rest), w'). \<exists>ready. queue = ready @ rest \<and> (\<forall>(k, c) \<in> set ready. \<not> beyond (snd (limits fs)) k) \<and>
      (rest \<noteq> [] \<longrightarrow> beyond (snd (limits fs)) (fst (hd rest))) \<and> leaf_bank E w' ys (set (ctx_pages fs) \<union> R) (upd m ready) \<and>
      skey ` set ys = skey ` set xs \<union> fst ` set ready \<and> (\<forall>q \<in> set (ctx_pages fs) \<union> R. t_read P w' q = t_read P w1 q)) r"
    obtain ys rest w2 where r: "r = ((ys, rest), w2)" by (metis prod.exhaust)
    from absorbed [unfolded r prod.case] obtain ready where qr: "queue = ready @ rest"
      and nb: "\<forall>(k, c) \<in> set ready. \<not> beyond (snd (limits fs)) k" and rest: "rest \<noteq> [] \<longrightarrow> beyond (snd (limits fs)) (fst (hd rest))"
      and lb: "leaf_bank E w2 ys (set (ctx_pages fs) \<union> R) (upd m ready)"
      and keys: "skey ` set ys = skey ` set xs \<union> fst ` set ready" and same: "\<forall>q \<in> set (ctx_pages fs) \<union> R. t_read P w2 q = t_read P w1 q"
      by (elim exE conjE)
    have ready: "ready \<noteq> []" using rest qr not_beyond [OF ins] q(1) by auto
    have rin: "\<forall>k \<in> fst ` set ready. inside (limits fs) k" by (rule ready_inside [OF q(2) qr ins nb])
    have yin: "\<forall>y \<in> set ys. inside (limits fs) (skey y)"
    proof
      fix y
      assume "y \<in> set ys"
      then have "skey y \<in> skey ` set xs \<union> fst ` set ready" unfolding keys [symmetric] by (rule imageI)
      then show "inside (limits fs) (skey y)" using xin rin by (elim UnE imageE) auto
    qed
    have y: "ssorted (map skey ys)" "\<forall>x \<in> set ys. item_ok x" "distinct (dense_pages ys)" "set (dense_pages ys) \<inter> (set (ctx_pages fs) \<union> R) = {}"
      "holds w2 (set (dense_pages ys) \<union> (set (ctx_pages fs) \<union> R))" "items_mean E (t_read P w2) ys (upd m ready)"
      using lb by (simp_all add: leaf_bank_def)
    define B where "B = set (dense_pages ys) \<union> R"
    have read2: "t_read P w2 q = t_read P w q" if "q \<in> set (ctx_pages fs) \<union> R" for q using same tk(3) that by simp
    have ctx2: "ctx_ok (crc32 E) (t_read P w2) 0 fs" by (rule ctx_ok_cong [OF lf(1)]) (use read2 in simp)
    have hB: "holds w2 (set (ctx_pages fs) \<union> B)" "set (ctx_pages fs) \<inter> B = {}" using y(4,5) ctxR by (auto simp: B_def Un_ac)
    obtain fs2 zs span w3 where mr: "merge_right P (map step_of (rev fs)) ys w2 = Inr ((ys @ zs, span), w3)"
      and steps: "map step_of fs2 = map step_of fs" and ctx3: "ctx_ok (crc32 E) (t_read P w3) 0 fs2" "distinct (ctx_pages fs2)"
        "set (ctx_pages fs2) \<subseteq> set (ctx_pages fs)"
      and lr: "left_items fs2 = left_items fs" "right_items fs = zs @ right_items fs2" and fr3: "framed w2 (set (ctx_pages fs2) \<union> B) w3 {}"
      and zs: "\<forall>z \<in> set zs. item_ok z \<and> inside (limits fs2) (skey z)" "ssorted (map skey zs)"
      and wide: "\<forall>k. inside (limits fs) k \<longrightarrow> inside (limits fs2) k"
      and spans: "\<forall>(n, ls, mid, rs) \<in> set (tl fs2). length mid = 1" "\<forall>n ls mid rs. fs2 \<noteq> [] \<and> hd fs2 = (n, ls, mid, rs) \<longrightarrow> length mid = span"
      using merge_right_spec [OF ctx2 lf(2) hB(2,1) ones, of ys] by blast
    have above: "skey a < skey b" if "a \<in> set ys" "b \<in> set zs" for a b
      using ctx_items [OF ctx2] yin that lr(2) by auto
    have merged: "\<forall>x \<in> set (ys @ zs). item_ok x" "ssorted (map skey (ys @ zs))" "\<forall>x \<in> set (ys @ zs). inside (limits fs2) (skey x)"
      using y(1,2) zs yin wide above by (auto simp: sorted_wrt_append)
    have ne: "ys @ zs \<noteq> []" using keys ready by auto
    have fsB: "set (ctx_pages fs2) \<inter> B = {}" using ctx3(3) hB(2) by blast
    have h3: "holds w3 (set (ctx_pages fs2) \<union> B)" using framed_holds [OF fr3] by simp
    let ?items = "left_items fs @ ys @ right_items fs"
    have outside: "skey x \<notin> fst ` set ready" if "x \<in> set (left_items fs) \<union> set (right_items fs)" for x
      using ctx_items [OF lf(1)] rin that by fastforce
    have dp: "set (dense_pages ?items) \<union> F = B" by (auto simp: B_def R_def)
    have dd: "distinct (dense_pages ?items)" "set (dense_pages ?items) \<inter> F = {}"
      using t(5,8) y(3,4) by (auto simp: it R_def)
    have read3: "t_read P w3 q = t_read P w2 q" if "q \<in> B" for q using framed_read [OF fr3] that by simp
    have mean: "items_mean E (t_read P w3) (left_items fs @ right_items fs) (upd m ready)"
    proof (rule items_mean_cong)
      show "items_mean E (t_read P w) (left_items fs @ right_items fs) m" using t(6) by (simp add: it)
    qed (use read3 read2 outside upd_other [of _ ready m] in \<open>auto simp: B_def R_def\<close>)
    have meany: "items_mean E (t_read P w3) ys (upd m ready)"
      by (rule items_mean_cong [OF y(6)]) (use read3 in \<open>auto simp: B_def\<close>)
    have dom: "dom (upd m ready) = skey ` set ?items" using keys t(7) unfolding dom_upd by (auto simp: it image_Un)
    have bank: "bank E w' h' t' F (upd m ready) \<and> (\<forall>q \<in> F. t_read P w' q = t_read P w q)"
      if "planted E h' w3 B t' w'" "items_of t' = left_items fs2 @ (ys @ zs) @ right_items fs2" for h' t' w'
    proof
      show "bank E w' h' t' F (upd m ready)"
        by (rule planted_bank [of _ _ w3 ?items]) (use that dp dd mean meany dom lr in \<open>simp_all\<close>)
      have "t_read P w' q = t_read P w q" if "q \<in> F" for q
        using that read3 read2 \<open>planted E h' w3 B t' w'\<close> by (auto simp: planted_def framed_def B_def R_def)
      then show "\<forall>q \<in> F. t_read P w' q = t_read P w q" by blast
    qed
    have path: "map step_of (rev fs2) = map step_of (rev fs)" using steps by (simp add: rev_map [symmetric])
    have pk: "outcome (rbind (pack_leaves E P (ys @ zs) w3) (\<lambda>(entries, w4). rewrite_path_span E P (map step_of (rev fs)) entries span w4))
        (\<lambda>(r, w'). \<exists>t h'. planted E h' w3 B t w' \<and> r = root_of t \<and> items_of t = left_items fs2 @ (ys @ zs) @ right_items fs2 \<and>
          (length (ys @ zs) < BRANCH_CAPACITY \<longrightarrow> h' \<le> Suc (length fs2)))"
      using change_leaf [OF ctx3(1,2) fsB spans framed_refl [OF h3] merged, unfolded path] ne by (simp only: simp_thms if_False)
    have "outcome (rbind (rbind (pack_leaves E P (ys @ zs) w3) (\<lambda>(entries, w4). rewrite_path_span E P (map step_of (rev fs)) entries span w4))
        (\<lambda>(root', w5). Inr ((root', rest), w5))) ?Q"
    proof (rule outcome_rbind [OF pk], clarify)
      fix w' t' h'
      assume "planted E h' w3 B t' w'" "items_of t' = left_items fs2 @ (ys @ zs) @ right_items fs2"
      from bank [OF this] show "outcome (Inr ((root_of t', rest), w')) ?Q" using qr ready by auto
    qed
    then show "outcome ((\<lambda>((leaf', queue'), w2). rbind (merge_right P (map step_of (rev fs)) leaf' w2) (\<lambda>((merged, span), w3).
        rbind (pack_leaves E P merged w3) (\<lambda>(entries, w4).
          rbind (rewrite_path_span E P (map step_of (rev fs)) entries span w4) (\<lambda>(root', w5). Inr ((root', queue'), w5))))) r) ?Q"
      by (simp add: r mr rbind_assoc split_def)
  qed
  then show ?thesis using ds lim tk(1) by (simp add: put_containers_round_def w1_def)
qed

text \<open>
  How a batch ends: it runs out of space, or the tree has become too deep for the descent half way
  through, or the tree stands for the updated map and everything else is as it was.
\<close>

definition batched :: "ext \<Rightarrow> 'w \<Rightarrow> pgno set \<Rightarrow> (container_key \<rightharpoonup> u16 set) \<Rightarrow> (container_key \<times> container) list \<Rightarrow>
    btree_error + pgno \<times> 'w \<Rightarrow> bool" where
  "batched E w F m queue r \<longleftrightarrow> (case r of
     Inl e \<Rightarrow> exhausted e \<or> (\<exists>t' h' w' ready rest. e = TooDeep (root_of t') \<and> MAX_DEPTH \<le> h' \<and> queue = ready @ rest \<and>
       bank E w' h' t' F (upd m ready))
   | Inr (root, w') \<Rightarrow> \<exists>t' h'. root = root_of t' \<and> bank E w' h' t' F (upd m queue) \<and> (\<forall>q \<in> F. t_read P w' q = t_read P w q))"

lemma descend_too_deep:
  "stored crc (t_read P w) t \<Longrightarrow> full g t \<Longrightarrow> d \<le> g \<Longrightarrow> descend_loop P w root k d path (root_of t) = Inl (TooDeep root)"
proof (induction d arbitrary: t g path)
  case (Suc d)
  then obtain n ts g' where t: "t = BranchNode n ts" and g: "g = Suc g'" by (cases t) auto
  have st: "stored crc (t_read P w) (BranchNode n ts)" and ne: "ts \<noteq> []" using Suc.prems(1) by (simp_all add: t)
  obtain br where br: "t_read P w n = Inr (branch_finish crc (map fst ts) n)"
    "page_page_type (branch_finish crc (map fst ts) n) = Inr PBranch"
    "branch_parse (branch_finish crc (map fst ts) n) = Inr br" "branch_iter br = map fst ts"
    by (rule read_branch [OF st])
  define i where "i = route (map fst ts) k"
  have i: "i < length ts" using route_less [of "map fst ts" k] ne by (simp add: i_def)
  have cnt: "bcount br = length ts" using length_branch_iter [of br] br(4) by simp
  have in_ts: "ts ! i \<in> set ts" using i by simp
  have u: "bchild (fst (ts ! i)) = root_of (snd (ts ! i))" "stored crc (t_read P w) (snd (ts ! i))" "full g' (snd (ts ! i))"
    using st Suc.prems(2) in_ts by (auto simp: t g)
  have "the (branch_cell_at br i) = fst (ts ! i)" using branch_iter_nth [of i br] i cnt br(4) by simp
  with br cnt ne i u(1) Suc.IH [OF u(2,3)] Suc.prems(3) show ?case
    by (simp add: t g last_below_route i_def [symmetric] Let_def)
qed simp

lemma batched_later:
  assumes "batched E w1 F (upd m ready) rest r" "\<forall>q \<in> F. t_read P w1 q = t_read P w q"
  shows "batched E w F m (ready @ rest) r"
proof (cases r)
  case (Inl e)
  from assms(1) consider "exhausted e" | t' h' w' r1 r2 where "e = TooDeep (root_of t')" "MAX_DEPTH \<le> h'" "rest = r1 @ r2"
    "bank E w' h' t' F (upd (upd m ready) r1)" unfolding batched_def Inl sum.case by blast
  then show ?thesis
  proof cases
    case 2
    then show ?thesis unfolding batched_def Inl sum.case
      by (intro disjI2 exI [of _ t'] exI [of _ h'] exI [of _ w'] exI [of _ "ready @ r1"] exI [of _ r2]) simp
  qed (simp add: batched_def Inl)
next
  case (Inr x)
  then show ?thesis using assms by (cases x) (auto simp: batched_def)
qed

lemma put_containers_loop:
  assumes "bank E w h t F m" "ext_ok E" "ssorted (map fst queue)" "\<forall>(k, c) \<in> set queue. container_inv c"
  shows "\<exists>r. rounds (put_containers_round E P) (root_of t) queue w = Some r \<and> batched E w F m queue r"
  using assms
proof (induction "length queue" arbitrary: queue w h t m rule: less_induct)
  case less
  show ?case
  proof (cases "queue = []")
    case True
    then show ?thesis using less.prems(1) by (subst rounds.simps) (auto simp: batched_def)
  next
    case q: False
    show ?thesis
    proof (cases "h < MAX_DEPTH")
      case False
      have "descend P w (root_of t) (fst (hd queue)) = Inl (TooDeep (root_of t))"
        unfolding descend_def by (rule descend_too_deep [of "crc32 E" _ _ h]) (use less.prems(1) False in \<open>simp_all add: bank_def\<close>)
      then have "put_containers_round E P (root_of t) queue w = Inl (TooDeep (root_of t))" by (simp add: put_containers_round_def)
      moreover have "batched E w F m queue (Inl (TooDeep (root_of t)))"
        unfolding batched_def sum.case using less.prems(1) False
        by (intro disjI2 exI [of _ t] exI [of _ h] exI [of _ w] exI [of _ "[]"] exI [of _ queue]) simp
      ultimately show ?thesis using q by (subst rounds.simps) simp
    next
      case True
      note round = put_containers_round_spec [OF less.prems(1) True less.prems(2) q less.prems(3,4)]
      show ?thesis
      proof (cases "put_containers_round E P (root_of t) queue w")
        case (Inl e)
        then show ?thesis using round q by (subst rounds.simps) (simp add: batched_def)
      next
        case (Inr x)
        obtain r1 rest w1 where x: "x = ((r1, rest), w1)" by (metis prod.exhaust)
        obtain ready t' h' where nxt: "queue = ready @ rest" "ready \<noteq> []" "bank E w1 h' t' F (upd m ready)" "r1 = root_of t'"
          "\<forall>q \<in> F. t_read P w1 q = t_read P w q" using round unfolding Inr x by auto
        have "\<exists>r. rounds (put_containers_round E P) (root_of t') rest w1 = Some r \<and> batched E w1 F (upd m ready) rest r"
          by (rule less.hyps [OF _ nxt(3) less.prems(2)]) (use nxt(1,2) less.prems(3,4) in \<open>auto simp: sorted_wrt_append\<close>)
        then show ?thesis using batched_later [OF _ nxt(5)] nxt(1,4) q Inr x by (subst rounds.simps) auto
      qed
    qed
  qed
qed

lemma make_items_spec:
  assumes "holds w F" "ext_ok E" "ssorted (map fst queue)" "\<forall>(k, c) \<in> set queue. container_inv c"
  shows "outcome (make_items E P queue w) (\<lambda>(xs, w'). leaf_bank E w' xs F (upd m queue) \<and> map skey xs = map fst queue \<and>
    (\<forall>q \<in> F. t_read P w' q = t_read P w q))"
  using assms
proof (induction queue arbitrary: F m w)
  case Nil
  then show ?case by (simp add: leaf_bank_def items_mean_def)
next
  case (Cons a queue)
  obtain k c where a: "a = (k, c)" by (cases a)
  have c: "container_inv c" "\<forall>(k, c) \<in> set queue. container_inv c" "ssorted (map fst queue)" "k \<notin> fst ` set queue"
    "\<forall>q \<in> set queue. k < fst q" using Cons.prems(3,4) by (auto simp: a)
  let ?Q = "\<lambda>(xs, w'). leaf_bank E w' xs F (upd m (a # queue)) \<and> map skey xs = map fst (a # queue) \<and> (\<forall>q \<in> F. t_read P w' q = t_read P w q)"
  have "outcome (rbind (make_item_over E P k c None w) (\<lambda>(x, w1). rbind (make_items E P queue w1) (\<lambda>(xs, w2). Inr (x # xs, w2)))) ?Q"
  proof (rule outcome_rbind [OF make_item_over_spec [OF Cons.prems(1,2) c(1)]], simp add: base_ok_def, clarify)
    fix x w1
    assume mk: "made E k (elems c) (map_option fst None) w F x w1"
    let ?B = "set_option (base_pgno x)"
    have x: "skey x = k" "item_ok x" "item_means E (t_read P w1) x (elems c)" "framed w F w1 ?B" "?B \<inter> F = {}"
      using mk by (auto simp: made_def Diff_triv)
    show "outcome (rbind (make_items E P queue w1) (\<lambda>(xs, w2). Inr (x # xs, w2))) ?Q"
    proof (rule outcome_rbind [OF Cons.IH [OF framed_holds [OF x(4)] Cons.prems(2) c(3,2)]], clarify)
      fix xs w2
      assume lb: "leaf_bank E w2 xs (?B \<union> F) (upd (m(k \<mapsto> elems c)) queue)" and keys: "map skey xs = map fst queue"
        and same: "\<forall>q \<in> ?B \<union> F. t_read P w2 q = t_read P w1 q"
      have ks: "skey ` set xs = fst ` set queue" using keys by (metis set_map)
      have "item_means E (t_read P w2) x (elems c)" by (rule item_means_cong [OF x(3)]) (use same in auto)
      then have "items_mean E (t_read P w2) (x # xs) (upd m (a # queue))"
        using lb x(1) upd_other [OF c(4), of "m(k \<mapsto> elems c)"] by (auto simp: leaf_bank_def items_mean_def a)
      moreover have "\<forall>y \<in> set xs. k < skey y" using ks c(5) by (metis image_iff)
      moreover have "set (dense_pages (x # xs)) = set (dense_pages xs) \<union> ?B" "distinct (dense_pages (x # xs))"
        using lb by (cases "base_pgno x"; auto simp: dense_pages_Cons leaf_bank_def)+
      ultimately have "leaf_bank E w2 (x # xs) F (upd m (a # queue))"
        using lb x(1,2,5) by (auto simp: leaf_bank_def Un_ac)
      then show "outcome (Inr (x # xs, w2)) ?Q" using keys x(1) same framed_read [OF x(4)] by (simp add: a)
    qed
  qed
  then show ?case by (simp add: a make_item_def)
qed

lemma put_containers_fresh:
  assumes "holds w F" "ext_ok E" "ssorted (map fst queue)" "\<forall>(k, c) \<in> set queue. container_inv c"
  shows "\<exists>r. put_containers E P None queue w = Some r \<and> batched E w F Map.empty queue r"
proof -
  have "outcome (rbind (make_items E P queue w) (\<lambda>(items, w1). build E P items w1)) (\<lambda>(root, w'). \<exists>t' h'. root = root_of t' \<and>
    bank E w' h' t' F (upd Map.empty queue) \<and> (\<forall>q \<in> F. t_read P w' q = t_read P w q))"
  proof (rule outcome_rbind [OF make_items_spec [OF assms, of Map.empty]], clarify)
    fix xs w1
    assume lb: "leaf_bank E w1 xs F (upd Map.empty queue)" and keys: "map skey xs = map fst queue" and same: "\<forall>q \<in> F. t_read P w1 q = t_read P w q"
    have xs: "holds w1 (set (dense_pages xs) \<union> F)" "\<forall>x \<in> set xs. item_ok x" "ssorted (map skey xs)" "distinct (dense_pages xs)"
      "set (dense_pages xs) \<inter> F = {}" "items_mean E (t_read P w1) xs (upd Map.empty queue)" using lb by (simp_all add: leaf_bank_def)
    have dom: "dom (upd Map.empty queue) = skey ` set xs" using arg_cong [OF keys, of set] by (simp add: dom_upd)
    show "outcome (build E P xs w1) (\<lambda>(root, w'). \<exists>t' h'. root = root_of t' \<and>
      bank E w' h' t' F (upd Map.empty queue) \<and> (\<forall>q \<in> F. t_read P w' q = t_read P w q))"
    proof (rule outcome_mono [OF build_spec [OF xs(1-3)]], clarify)
      fix t w' h
      assume t: "planted E h w1 (set (dense_pages (items_of t)) \<union> F) t w'" "xs = items_of t"
      have "bank E w' h t F (upd Map.empty queue)"
        by (rule planted_bank [of _ _ w1 xs]) (use t xs(4-6) dom in simp_all)
      then show "\<exists>t' h'. root_of t = root_of t' \<and> bank E w' h' t' F (upd Map.empty queue) \<and> (\<forall>q \<in> F. t_read P w' q = t_read P w q)"
        using t(1) same by (auto simp: planted_def framed_def)
    qed
  qed
  then show ?thesis by (auto simp: put_containers_def batched_def outcome_def split: sum.splits)
qed

end

end
