(* ===== verification/Big_Walk.thy ===== *)
theory Big_Walk
  imports Big_Batch "HOL-Library.Multiset"
begin

text \<open>
  \<^verbatim>\<open>crates/big-btree/src/walk.rs\<close>: walks over whole trees. Visiting yields every page of a tree once,
  children first; scrubbing recomputes every checksum; freeing gives every page back; copying writes
  the same tree on new pages of another transaction.
\<close>

section \<open>Loops that may fail\<close>

fun rfold :: "('x \<Rightarrow> 'a \<Rightarrow> 'e + 'a) \<Rightarrow> 'x list \<Rightarrow> 'a \<Rightarrow> 'e + 'a" where
  "rfold f [] a = Inr a"
| "rfold f (x # xs) a = rbind (f x a) (rfold f xs)"

lemma rfold_append: "rfold f (xs @ ys) = (\<lambda>a. rbind (rfold f xs a) (rfold f ys))"
  by (induction xs) (auto simp: rbind_assoc fun_eq_iff intro: rbind_cong)

lemma rfold_map: "rfold f (map g xs) = rfold (\<lambda>x. f (g x)) xs"
  by (induction xs) (auto simp: fun_eq_iff intro: rbind_cong)

lemma rfold_one: "rfold f [x] = f x"
proof
  fix a
  show "rfold f [x] a = f x a" by (cases "f x a") simp_all
qed

section \<open>Visiting\<close>

fun shape_dense :: "leaf_page \<Rightarrow> nat list \<Rightarrow> page_error + pgno list" where
  "shape_dense lp [] = Inr []"
| "shape_dense lp (i # is) = rbind (leaf_cell_at lp i) (\<lambda>c. rbind (shape_dense lp is) (\<lambda>ps.
     Inr (if owns_page (cty c) then cbitmap_pgno c # ps else ps)))"

definition shape :: "(pgno \<Rightarrow> store_error + page) \<Rightarrow> pgno \<Rightarrow> btree_error + page_type \<times> pgno list \<times> pgno list" where
  "shape rd n =
     rbind (of_store (rd n)) (\<lambda>page. rbind (of_page (page_page_type page)) (\<lambda>ty. case ty of
       PBranch \<Rightarrow> rbind (of_page (branch_parse page)) (\<lambda>br. Inr (PBranch, map bchild (branch_iter br), []))
     | PLeaf \<Rightarrow> rbind (of_page (leaf_parse page)) (\<lambda>leaf. rbind (of_page (shape_dense leaf [0..<lcount leaf])) (\<lambda>dense.
         Inr (PLeaf, [], dense)))
     | other \<Rightarrow> Inl (UnexpectedPage n other)))"

text \<open>\<^verbatim>\<open>visit_rec\<close>, with the depth that is left in the place of the depth reached. The visitor threads a state.\<close>

primrec visit_rec :: "nat \<Rightarrow> (pgno \<Rightarrow> store_error + page) \<Rightarrow> (pgno \<Rightarrow> page_type \<Rightarrow> 'a \<Rightarrow> btree_error + 'a) \<Rightarrow> pgno \<Rightarrow> 'a \<Rightarrow> btree_error + 'a" where
  "visit_rec 0 rd f n acc = Inl (TooDeep n)"
| "visit_rec (Suc d) rd f n acc =
     rbind (shape rd n) (\<lambda>(kind, children, dense).
       rbind (rfold (visit_rec d rd f) children acc) (\<lambda>acc1. rbind (rfold (\<lambda>p. f p PBitmap) dense acc1) (f n kind)))"

definition visit_tree :: "(pgno \<Rightarrow> store_error + page) \<Rightarrow> pgno \<Rightarrow> (pgno \<Rightarrow> page_type \<Rightarrow> 'a \<Rightarrow> btree_error + 'a) \<Rightarrow> 'a \<Rightarrow> btree_error + 'a" where
  "visit_tree rd root f acc = visit_rec MAX_DEPTH rd f root acc"

section \<open>Scrubbing\<close>

record scrubbed =
  sc_pages :: u64
  sc_bitmaps :: u64

definition scrubbed_total :: "scrubbed \<Rightarrow> u64" where
  "scrubbed_total s = sc_pages s + sc_bitmaps s"

definition scrubbed_add :: "scrubbed \<Rightarrow> scrubbed \<Rightarrow> scrubbed" where
  "scrubbed_add a b = \<lparr>sc_pages = sc_pages a + sc_pages b, sc_bitmaps = sc_bitmaps a + sc_bitmaps b\<rparr>"

fun scrub_dense :: "leaf_page \<Rightarrow> nat list \<Rightarrow> page_error + (pgno \<times> u32) list" where
  "scrub_dense lp [] = Inr []"
| "scrub_dense lp (i # is) = rbind (leaf_cell_at lp i) (\<lambda>c. rbind (scrub_dense lp is) (\<lambda>ps.
     Inr (if has_base c then (cbitmap_pgno c, cbitmap_checksum c) # ps else ps)))"

definition scrub_bitmap :: "ext \<Rightarrow> (pgno \<Rightarrow> store_error + page) \<Rightarrow> pgno \<times> u32 \<Rightarrow> scrubbed \<Rightarrow> btree_error + scrubbed" where
  "scrub_bitmap E rd = (\<lambda>(d, expected) found.
     rbind (of_store (rd d)) (\<lambda>page. let computed = bitmap_page_checksum E page in
       if computed \<noteq> expected then Inl (BPage (ChecksumMismatch expected computed))
       else Inr (found\<lparr>sc_bitmaps := sc_bitmaps found + 1\<rparr>)))"

primrec scrub_rec :: "nat \<Rightarrow> ext \<Rightarrow> (pgno \<Rightarrow> store_error + page) \<Rightarrow> pgno \<Rightarrow> btree_error + scrubbed" where
  "scrub_rec 0 E rd n = Inl (TooDeep n)"
| "scrub_rec (Suc d) E rd n =
     rbind (of_store (rd n)) (\<lambda>page. rbind (of_page (verify_checksum (crc32 E) page)) (\<lambda>_.
       rbind (rbind (of_page (page_page_type page)) (\<lambda>ty. case ty of
           PBranch \<Rightarrow> rbind (of_page (branch_parse page)) (\<lambda>br. Inr (map bchild (branch_iter br), []))
         | PLeaf \<Rightarrow> rbind (of_page (leaf_parse page)) (\<lambda>leaf. rbind (of_page (scrub_dense leaf [0..<lcount leaf])) (\<lambda>dense. Inr ([], dense)))
         | other \<Rightarrow> Inl (UnexpectedPage n other)))
       (\<lambda>(children, dense).
         rbind (rfold (scrub_bitmap E rd) dense \<lparr>sc_pages = 1, sc_bitmaps = 0\<rparr>)
           (rfold (\<lambda>c found. rbind (scrub_rec d E rd c) (\<lambda>s. Inr (scrubbed_add found s))) children))))"

definition scrub_tree :: "ext \<Rightarrow> (pgno \<Rightarrow> store_error + page) \<Rightarrow> pgno \<Rightarrow> btree_error + scrubbed" where
  "scrub_tree E rd root = scrub_rec MAX_DEPTH E rd root"

section \<open>Freeing\<close>

definition free_tree :: "'w txn_ops \<Rightarrow> pgno \<Rightarrow> 'w \<Rightarrow> btree_error + 'w" where
  "free_tree P root w =
     rbind (visit_tree (t_read P w) root (\<lambda>p _ pages. Inr (pages @ [p])) []) (\<lambda>pages. Inr (foldl (\<lambda>w p. t_free P p w) w pages))"

section \<open>Copying\<close>

datatype walk_node = NBranch "branch_cell list" | NLeaf "leaf_item list"

definition read_node :: "(u8 list \<Rightarrow> u32) \<Rightarrow> (pgno \<Rightarrow> store_error + page) \<Rightarrow> pgno \<Rightarrow> btree_error + walk_node" where
  "read_node crc rd n =
     rbind (of_store (rd n)) (\<lambda>page. rbind (of_page (verify_checksum crc page)) (\<lambda>_. rbind (of_page (page_page_type page)) (\<lambda>ty. case ty of
       PBranch \<Rightarrow> rbind (of_page (branch_parse page)) (\<lambda>br. Inr (NBranch (branch_iter br)))
     | PLeaf \<Rightarrow> rbind (of_page (leaf_parse page)) (\<lambda>leaf. rbind (of_page (cells_to_items leaf [0..<lcount leaf])) (\<lambda>items. Inr (NLeaf items)))
     | other \<Rightarrow> Inl (UnexpectedPage n other))))"

definition copy_bitmap :: "ext \<Rightarrow> (pgno \<Rightarrow> store_error + page) \<Rightarrow> 'w txn_ops \<Rightarrow> pgno \<Rightarrow> u32 \<Rightarrow> 'w \<Rightarrow> btree_error + pgno \<times> 'w" where
  "copy_bitmap E rd P n expected w =
     rbind (of_store (rd n)) (\<lambda>page. let computed = bitmap_page_checksum E page in
       if computed \<noteq> expected then Inl (BPage (ChecksumMismatch expected computed)) else put_page P (\<lambda>_. page) w)"

fun copy_items :: "ext \<Rightarrow> (pgno \<Rightarrow> store_error + page) \<Rightarrow> 'w txn_ops \<Rightarrow> leaf_item list \<Rightarrow> 'w \<Rightarrow> btree_error + leaf_item list \<times> 'w" where
  "copy_items E rd P [] w = Inr ([], w)"
| "copy_items E rd P (x # xs) w =
     rbind (if is_dense x then rbind (copy_bitmap E rd P (sbitmap_pgno x) (sbitmap_checksum x) w) (\<lambda>(n, w1). Inr (x\<lparr>sbitmap_pgno := n\<rparr>, w1))
            else Inr (x, w)) (\<lambda>(y, w1). rbind (copy_items E rd P xs w1) (\<lambda>(ys, w2). Inr (y # ys, w2)))"

fun push_items :: "leaf_builder \<Rightarrow> leaf_item list \<Rightarrow> leaf_builder option" where
  "push_items b [] = Some b"
| "push_items b (x # xs) = Option.bind (leaf_push b x) (\<lambda>b'. push_items b' xs)"

fun copy_cells :: "(pgno \<Rightarrow> 'w \<Rightarrow> btree_error + pgno \<times> 'w) \<Rightarrow> pgno \<Rightarrow> branch_cell list \<Rightarrow> branch_cell list \<Rightarrow> 'w \<Rightarrow>
    btree_error + branch_cell list \<times> 'w" where
  "copy_cells go n [] b w = Inr (b, w)"
| "copy_cells go n (c # cs) b w =
     rbind (go (bchild c) w) (\<lambda>(child, w1). case branch_push b (c\<lparr>bchild := child\<rparr>) of
       None \<Rightarrow> Inl (UnexpectedPage n PBranch) | Some b' \<Rightarrow> copy_cells go n cs b' w1)"

primrec copy_rec :: "nat \<Rightarrow> ext \<Rightarrow> (pgno \<Rightarrow> store_error + page) \<Rightarrow> 'w txn_ops \<Rightarrow> pgno \<Rightarrow> 'w \<Rightarrow> btree_error + pgno \<times> 'w" where
  "copy_rec 0 E rd P n w = Inl (TooDeep n)"
| "copy_rec (Suc d) E rd P n w =
     rbind (read_node (crc32 E) rd n) (\<lambda>node. case node of
       NBranch cells \<Rightarrow> rbind (copy_cells (copy_rec d E rd P) n cells [] w) (\<lambda>(b, w1). put_page P (branch_finish (crc32 E) b) w1)
     | NLeaf items \<Rightarrow> rbind (copy_items E rd P items w) (\<lambda>(ys, w1). case push_items leaf_new ys of
         None \<Rightarrow> Inl (UnexpectedPage n PLeaf) | Some b \<Rightarrow> put_page P (leaf_finish (crc32 E) b) w1))"

definition copy_tree :: "ext \<Rightarrow> (pgno \<Rightarrow> store_error + page) \<Rightarrow> 'w txn_ops \<Rightarrow> pgno \<Rightarrow> 'w \<Rightarrow> btree_error + pgno \<times> 'w" where
  "copy_tree E rd P root w = copy_rec MAX_DEPTH E rd P root w"

section \<open>What a walk sees\<close>

fun visits :: "node \<Rightarrow> (pgno \<times> page_type) list" where
  "visits (LeafNode n xs) = map (\<lambda>p. (p, PBitmap)) (dense_pages xs) @ [(n, PLeaf)]"
| "visits (BranchNode n ts) = concat (map (\<lambda>ct. visits (snd ct)) ts) @ [(n, PBranch)]"

lemma visits_pages: "map fst (visits t) = pages_of t"
  by (induction t rule: visits.induct) (simp_all add: o_def map_concat cong: map_cong)

lemma shape_dense_reads:
  assumes "reads lp xs" "i \<le> length xs"
  shows "shape_dense lp [i..<length xs] = Inr (dense_pages (drop i xs))"
  using assms(2)
proof (induction "length xs - i" arbitrary: i)
  case (Suc m)
  then have i: "i < length xs" by simp
  then have "[i..<length xs] = i # [Suc i..<length xs]" by (simp add: upt_conv_Cons)
  moreover have "dense_pages (drop i xs) = (if owns_page (sty (xs ! i)) then [sbitmap_pgno (xs ! i)] else []) @ dense_pages (drop (Suc i) xs)"
    using i by (simp add: Cons_nth_drop_Suc [symmetric] dense_pages_def is_dense_def)
  ultimately show ?case using Suc.hyps(1) [of "Suc i"] Suc.hyps(2) i readsD(2) [OF assms(1) i] by (simp add: leaf_cell_of_def)
qed simp

lemma shape_leaf: "stored crc rd (LeafNode n xs) \<Longrightarrow> shape rd n = Inr (PLeaf, [], dense_pages xs)"
proof -
  assume "stored crc rd (LeafNode n xs)"
  then obtain lp where lp: "rd n = Inr (leaf_image crc n xs)" "page_page_type (leaf_image crc n xs) = Inr PLeaf"
    "leaf_parse (leaf_image crc n xs) = Inr lp" "reads lp xs" by (rule read_leaf)
  then show ?thesis using shape_dense_reads [OF lp(4), of 0] by (simp add: shape_def readsD(1))
qed

lemma shape_branch:
  assumes "stored crc rd (BranchNode n ts)"
  shows "shape rd n = Inr (PBranch, map (\<lambda>ct. root_of (snd ct)) ts, [])"
proof -
  obtain br where br: "rd n = Inr (branch_finish crc (map fst ts) n)" "page_page_type (branch_finish crc (map fst ts) n) = Inr PBranch"
    "branch_parse (branch_finish crc (map fst ts) n) = Inr br" "branch_iter br = map fst ts" using assms by (rule read_branch)
  have "map bchild (map fst ts) = map (\<lambda>ct. root_of (snd ct)) ts" using assms by simp
  then show ?thesis using br by (simp add: shape_def)
qed

lemma visit_rec_spec:
  assumes "stored crc rd t" "full g t" "g < d"
  shows "visit_rec d rd f (root_of t) acc = rfold (\<lambda>(p, ty). f p ty) (visits t) acc"
  using assms
proof (induction d arbitrary: t g acc)
  case (Suc d)
  show ?case
  proof (cases t)
    case (LeafNode n xs)
    with Suc.prems(1) have "shape rd n = Inr (PLeaf, [], dense_pages xs)" using shape_leaf by blast
    moreover have "rfold (\<lambda>(p, ty). f p ty) (visits t) acc = rbind (rfold (\<lambda>p. f p PBitmap) (dense_pages xs) acc) (f n PLeaf)"
      unfolding LeafNode visits.simps rfold_append rfold_map rfold_one prod.case ..
    ultimately show ?thesis by (simp add: LeafNode)
  next
    case (BranchNode n ts)
    with Suc.prems obtain g' where g: "g = Suc g'" by auto
    have ch: "visit_rec d rd f (root_of (snd ct)) acc = rfold (\<lambda>(p, ty). f p ty) (visits (snd ct)) acc" if "ct \<in> set ts" for ct acc
      by (rule Suc.IH [of _ g']) (use Suc.prems that in \<open>auto simp: BranchNode g\<close>)
    have "rfold (visit_rec d rd f) (map (\<lambda>ct. root_of (snd ct)) ts) acc = rfold (\<lambda>(p, ty). f p ty) (concat (map (\<lambda>ct. visits (snd ct)) ts)) acc"
      using ch
    proof (induction ts arbitrary: acc)
      case (Cons ct ts)
      then have "rfold (visit_rec d rd f) (map (\<lambda>ct. root_of (snd ct)) ts) = rfold (\<lambda>(p, ty). f p ty) (concat (map (\<lambda>ct. visits (snd ct)) ts))"
        by (intro ext) simp
      then show ?case using Cons.prems [of ct] by (simp add: rfold_append)
    qed simp
    moreover have "shape rd n = Inr (PBranch, map (\<lambda>ct. root_of (snd ct)) ts, [])" using Suc.prems(1) shape_branch unfolding BranchNode by blast
    moreover have "rfold (\<lambda>(p, ty). f p ty) (visits t) acc =
        rbind (rfold (\<lambda>(p, ty). f p ty) (concat (map (\<lambda>ct. visits (snd ct)) ts)) acc) (f n PBranch)"
      unfolding BranchNode visits.simps rfold_append rfold_one prod.case ..
    ultimately show ?thesis by (simp add: BranchNode)
  qed
qed simp

lemma rfold_pure: "rfold (\<lambda>x a. Inr (g x a)) xs a = Inr (fold g xs a)"
  by (induction xs arbitrary: a) simp_all

lemma rfold_collect: "rfold (\<lambda>(p, ty) a. Inr (a @ [h p ty])) xs a = Inr (a @ map (\<lambda>(p, ty). h p ty) xs)"
  by (induction xs arbitrary: a) auto

section \<open>Scrubbing\<close>

text \<open>What a scrub of arbitrary bytes has checked when it returns.\<close>

lemma scrub_dense_shape: "scrub_dense lp is = Inr ds \<Longrightarrow> shape_dense lp is = Inr (map fst ds)"
  by (induction "is" arbitrary: ds) (auto simp: rbind_Inr_iff has_base_def)

lemma scrub_dense_cell:
  "scrub_dense lp is = Inr ds \<Longrightarrow> (p, e) \<in> set ds \<Longrightarrow> \<exists>i c. leaf_cell_at lp i = Inr c \<and> has_base c \<and> cbitmap_pgno c = p \<and> cbitmap_checksum c = e"
proof (induction "is" arbitrary: ds)
  case (Cons i "is")
  then obtain c ds' where c: "leaf_cell_at lp i = Inr c" "scrub_dense lp is = Inr ds'"
    "ds = (if has_base c then (cbitmap_pgno c, cbitmap_checksum c) # ds' else ds')" by (auto simp: rbind_Inr_iff)
  show ?case
  proof (cases "(p, e) \<in> set ds'")
    case True
    then show ?thesis using Cons.IH [OF c(2)] by blast
  next
    case False
    then have "has_base c \<and> cbitmap_pgno c = p \<and> cbitmap_checksum c = e" using Cons.prems(2) c(3) by (auto split: if_splits)
    then show ?thesis using c(1) by blast
  qed
qed simp

lemma scrub_bitmaps_spec:
  "rfold (scrub_bitmap E rd) ds found = Inr s \<Longrightarrow>
    (\<forall>(p, e) \<in> set ds. \<exists>page. rd p = Inr page \<and> crc32 E page = e) \<and> s = found\<lparr>sc_bitmaps := sc_bitmaps found + of_nat (length ds)\<rparr>"
proof (induction ds arbitrary: found)
  case (Cons d ds)
  obtain p e where d: "d = (p, e)" by (cases d)
  from Cons.prems obtain page where page: "rd p = Inr page" "crc32 E page = e"
    "rfold (scrub_bitmap E rd) ds (found\<lparr>sc_bitmaps := sc_bitmaps found + 1\<rparr>) = Inr s"
    by (auto simp: d scrub_bitmap_def rbind_Inr_iff bitmap_page_checksum_def Let_def of_store_def split: sum.splits if_splits)
  show ?case using Cons.IH [OF page(3)] page(1,2) by (auto simp: d add.assoc)
qed simp

text \<open>
  The pages \<open>vs\<close> are what they were written as: the trailer of every node matches its bytes, and every
  bitmap page matches the checksum in a cell of one of the leaves.
\<close>

definition intact_pages :: "ext \<Rightarrow> (pgno \<Rightarrow> store_error + page) \<Rightarrow> (pgno \<times> page_type) list \<Rightarrow> bool" where
  "intact_pages E rd vs \<longleftrightarrow> (\<forall>(p, ty) \<in> set vs.
     if ty = PBitmap then \<exists>n page lp i c bm. (n, PLeaf) \<in> set vs \<and> rd n = Inr page \<and> leaf_parse page = Inr lp \<and> leaf_cell_at lp i = Inr c \<and>
       has_base c \<and> cbitmap_pgno c = p \<and> rd p = Inr bm \<and> crc32 E bm = cbitmap_checksum c
     else \<exists>page. rd p = Inr page \<and> verify_checksum (crc32 E) page = Inr ())"

lemma intact_pages_append: "intact_pages E rd vs \<Longrightarrow> intact_pages E rd us \<Longrightarrow> intact_pages E rd (vs @ us)"
  unfolding intact_pages_def by (fastforce split: if_splits)

definition tally :: "(pgno \<times> page_type) list \<Rightarrow> scrubbed" where
  "tally vs = \<lparr>sc_pages = of_nat (length (filter (\<lambda>v. snd v \<noteq> PBitmap) vs)), sc_bitmaps = of_nat (length (filter (\<lambda>v. snd v = PBitmap) vs))\<rparr>"

lemma tally_append: "tally (vs @ us) = scrubbed_add (tally vs) (tally us)"
  by (simp add: tally_def scrubbed_add_def)

lemma scrubbed_add_assoc: "scrubbed_add (scrubbed_add a b) c = scrubbed_add a (scrubbed_add b c)"
  "scrubbed_add a b = scrubbed_add b a" "scrubbed_add a (tally []) = a"
  by (simp_all add: scrubbed_add_def tally_def ac_simps)

abbreviation collect_pages :: "pgno \<Rightarrow> page_type \<Rightarrow> (pgno \<times> page_type) list \<Rightarrow> btree_error + (pgno \<times> page_type) list" where
  "collect_pages p ty vs \<equiv> Inr (vs @ [(p, ty)])"

lemma rfold_bitmaps: "rfold (\<lambda>p. collect_pages p PBitmap) ps vs = Inr (vs @ map (\<lambda>p. (p, PBitmap)) ps)"
  by (induction ps arbitrary: vs) simp_all

lemma scrub_children:
  assumes "\<And>c s. c \<in> set cs \<Longrightarrow> scrub_rec d E rd c = Inr s \<Longrightarrow>
    \<exists>vs. (\<forall>acc. visit_rec d rd collect_pages c acc = Inr (acc @ vs)) \<and> intact_pages E rd vs \<and> s = tally vs"
    and "rfold (\<lambda>c found. rbind (scrub_rec d E rd c) (\<lambda>s. Inr (scrubbed_add found s))) cs found = Inr s"
  shows "\<exists>vs. (\<forall>acc. rfold (visit_rec d rd collect_pages) cs acc = Inr (acc @ vs)) \<and> intact_pages E rd vs \<and> s = scrubbed_add found (tally vs)"
  using assms
proof (induction cs arbitrary: found)
  case Nil
  then show ?case by (intro exI [of _ "[]"]) (simp add: intact_pages_def scrubbed_add_assoc(3))
next
  case (Cons c cs)
  from Cons.prems(2) obtain s1 where s1: "scrub_rec d E rd c = Inr s1"
    "rfold (\<lambda>c found. rbind (scrub_rec d E rd c) (\<lambda>s. Inr (scrubbed_add found s))) cs (scrubbed_add found s1) = Inr s"
    by (auto simp: rbind_Inr_iff)
  obtain vs where vs: "\<forall>acc. visit_rec d rd collect_pages c acc = Inr (acc @ vs)" "intact_pages E rd vs" "s1 = tally vs"
    using Cons.prems(1) [OF _ s1(1)] by auto
  obtain us where us: "\<forall>acc. rfold (visit_rec d rd collect_pages) cs acc = Inr (acc @ us)" "intact_pages E rd us"
    "s = scrubbed_add (scrubbed_add found s1) (tally us)" using Cons.IH [OF Cons.prems(1) s1(2)] by auto
  show ?case using vs us intact_pages_append [OF vs(2) us(2)]
    by (intro exI [of _ "vs @ us"]) (simp add: tally_append scrubbed_add_assoc(1))
qed

lemma scrub_rec_checks:
  "scrub_rec d E rd n = Inr s \<Longrightarrow>
    \<exists>vs. (\<forall>acc. visit_rec d rd collect_pages n acc = Inr (acc @ vs)) \<and> intact_pages E rd vs \<and> s = tally vs"
proof (induction d arbitrary: n s)
  case (Suc d)
  from Suc.prems obtain page ty where page: "rd n = Inr page" "verify_checksum (crc32 E) page = Inr ()" "page_page_type page = Inr ty"
    by (auto simp: rbind_Inr_iff of_store_def of_page_def split: sum.splits)
  note run = Suc.prems [unfolded scrub_rec.simps page(1,2,3) of_simps rbind_simps]
  have node: "intact_pages E rd [(n, k)]" if "k \<noteq> PBitmap" for k using page that by (simp add: intact_pages_def)
  show ?case
  proof (cases ty)
    case PBranch
    with run obtain br where br: "branch_parse page = Inr br"
      "rfold (\<lambda>c found. rbind (scrub_rec d E rd c) (\<lambda>s. Inr (scrubbed_add found s))) (map bchild (branch_iter br)) \<lparr>sc_pages = 1, sc_bitmaps = 0\<rparr> = Inr s"
      by (cases "branch_parse page") simp_all
    obtain vs where vs: "\<forall>acc. rfold (visit_rec d rd collect_pages) (map bchild (branch_iter br)) acc = Inr (acc @ vs)" "intact_pages E rd vs"
      "s = scrubbed_add \<lparr>sc_pages = 1, sc_bitmaps = 0\<rparr> (tally vs)"
      using scrub_children [OF Suc.IH br(2)] by auto
    have sh: "shape rd n = Inr (PBranch, map bchild (branch_iter br), [])" using page br(1) PBranch by (simp add: shape_def)
    have "tally [(n, PBranch)] = \<lparr>sc_pages = 1, sc_bitmaps = 0\<rparr>" by (simp add: tally_def)
    then show ?thesis using vs sh intact_pages_append [OF vs(2) node [of PBranch]] scrubbed_add_assoc(2)
      by (intro exI [of _ "vs @ [(n, PBranch)]"]) (simp add: tally_append)
  next
    case PLeaf
    with run obtain lp ds where lp: "leaf_parse page = Inr lp" "scrub_dense lp [0..<lcount lp] = Inr ds"
      "rfold (scrub_bitmap E rd) ds \<lparr>sc_pages = 1, sc_bitmaps = 0\<rparr> = Inr s"
      by (cases "leaf_parse page"; cases "scrub_dense (projr (leaf_parse page)) [0..<lcount (projr (leaf_parse page))]") (auto simp: rbind_Inr_iff)
    note bm = scrub_bitmaps_spec [OF lp(3)]
    let ?vs = "map (\<lambda>p. (p, PBitmap)) (map fst ds) @ [(n, PLeaf)]"
    have sh: "shape rd n = Inr (PLeaf, [], map fst ds)" using page lp(1) scrub_dense_shape [OF lp(2)] PLeaf by (simp add: shape_def)
    have "\<exists>m page lp i c b. (m, PLeaf) \<in> set ?vs \<and> rd m = Inr page \<and> leaf_parse page = Inr lp \<and> leaf_cell_at lp i = Inr c \<and> has_base c \<and>
        cbitmap_pgno c = p \<and> rd p = Inr b \<and> crc32 E b = cbitmap_checksum c" if pe: "(p, e) \<in> set ds" for p e
    proof -
      obtain i c where "leaf_cell_at lp i = Inr c" "has_base c" "cbitmap_pgno c = p" "cbitmap_checksum c = e"
        using scrub_dense_cell [OF lp(2) pe] by blast
      moreover obtain b where "rd p = Inr b" "crc32 E b = e" using bm pe by auto
      ultimately show ?thesis using page(1) lp(1) by (intro exI [of _ n] exI [of _ page] exI [of _ lp] exI [of _ i] exI [of _ c] exI [of _ b]) simp
    qed
    then have "intact_pages E rd ?vs" using page unfolding intact_pages_def by (auto simp del: split_paired_Ex)
    moreover have "s = tally ?vs" using bm by (simp add: tally_def o_def filter_map)
    moreover have "\<forall>acc. visit_rec (Suc d) rd collect_pages n acc = Inr (acc @ ?vs)" using sh rfold_bitmaps by simp
    ultimately show ?thesis by blast
  qed (use run in simp_all)
qed simp

text \<open>The bitmap page of every dense item is there and matches the checksum in the item.\<close>

definition dense_ok :: "ext \<Rightarrow> (pgno \<Rightarrow> store_error + page) \<Rightarrow> leaf_item list \<Rightarrow> bool" where
  "dense_ok E rd xs \<longleftrightarrow> (\<forall>x \<in> set xs. is_dense x \<longrightarrow> (\<exists>p. rd (sbitmap_pgno x) = Inr p \<and> crc32 E p = sbitmap_checksum x))"

lemma dense_ok_simps [simp]:
  "dense_ok E rd []" "dense_ok E rd (xs @ ys) \<longleftrightarrow> dense_ok E rd xs \<and> dense_ok E rd ys"
  "dense_ok E rd (x # xs) \<longleftrightarrow> (is_dense x \<longrightarrow> (\<exists>p. rd (sbitmap_pgno x) = Inr p \<and> crc32 E p = sbitmap_checksum x)) \<and> dense_ok E rd xs"
  by (auto simp: dense_ok_def)

lemma items_mean_dense_ok:
  assumes "items_mean E rd xs m"
  shows "dense_ok E rd xs"
  unfolding dense_ok_def
proof (intro ballI impI)
  fix x
  assume x: "x \<in> set xs" "is_dense x"
  then obtain S where S: "item_means E rd x S" using assms by (auto simp: items_mean_def)
  have "base_pgno x = Some (sbitmap_pgno x)" using x(2) by (simp add: base_pgno_def)
  from item_means_base [OF S this] show "\<exists>p. rd (sbitmap_pgno x) = Inr p \<and> crc32 E p = sbitmap_checksum x" by metis
qed

lemma scrub_dense_reads:
  assumes "reads lp xs" "i \<le> length xs"
  shows "scrub_dense lp [i..<length xs] = Inr (map (\<lambda>x. (sbitmap_pgno x, sbitmap_checksum x)) (filter is_dense (drop i xs)))"
  using assms(2)
proof (induction "length xs - i" arbitrary: i)
  case (Suc m)
  then have i: "i < length xs" by simp
  then have "[i..<length xs] = i # [Suc i..<length xs]" "drop i xs = xs ! i # drop (Suc i) xs"
    by (simp_all add: upt_conv_Cons Cons_nth_drop_Suc)
  then show ?case using Suc.hyps(1) [of "Suc i"] Suc.hyps(2) i readsD(2) [OF assms(1) i] by (simp add: leaf_cell_of_def has_base_def is_dense_def)
qed simp

lemma scrub_bitmaps_pass:
  assumes "dense_ok E rd xs"
  shows "rfold (scrub_bitmap E rd) (map (\<lambda>x. (sbitmap_pgno x, sbitmap_checksum x)) (filter is_dense xs)) found =
    Inr (found\<lparr>sc_bitmaps := sc_bitmaps found + of_nat (length (dense_pages xs))\<rparr>)"
  using assms
proof (induction xs arbitrary: found)
  case (Cons x xs)
  then show ?case
    by (auto simp: scrub_bitmap_def bitmap_page_checksum_def dense_pages_def ac_simps)
qed simp

lemma scrub_rec_pass:
  assumes "stored (crc32 E) rd t" "full g t" "g < d" "dense_ok E rd (items_of t)"
  shows "scrub_rec d E rd (root_of t) = Inr (tally (visits t))"
  using assms
proof (induction d arbitrary: t g)
  case (Suc d)
  show ?case
  proof (cases t)
    case (LeafNode n xs)
    with Suc.prems(1) have st: "stored (crc32 E) rd (LeafNode n xs)" by simp
    obtain lp where lp: "rd n = Inr (leaf_image (crc32 E) n xs)" "page_page_type (leaf_image (crc32 E) n xs) = Inr PLeaf"
      "leaf_parse (leaf_image (crc32 E) n xs) = Inr lp" "reads lp xs" by (rule read_leaf [OF st])
    have "verify_checksum (crc32 E) (leaf_image (crc32 E) n xs) = Inr ()" using st leaf_image_spec(3) by simp
    then show ?thesis using lp scrub_dense_reads [OF lp(4), of 0] scrub_bitmaps_pass [of E rd xs] Suc.prems(4)
      by (simp add: LeafNode readsD(1) tally_def o_def filter_map)
  next
    case (BranchNode n ts)
    with Suc.prems obtain g' where g: "g = Suc g'" by auto
    have st: "stored (crc32 E) rd (BranchNode n ts)" using Suc.prems(1) by (simp add: BranchNode)
    obtain br where br: "rd n = Inr (branch_finish (crc32 E) (map fst ts) n)" "page_page_type (branch_finish (crc32 E) (map fst ts) n) = Inr PBranch"
      "branch_parse (branch_finish (crc32 E) (map fst ts) n) = Inr br" "branch_iter br = map fst ts" by (rule read_branch [OF st])
    have ch: "map bchild (branch_iter br) = map (\<lambda>ct. root_of (snd ct)) ts" unfolding br(4) using st by simp
    have ok: "verify_checksum (crc32 E) (branch_finish (crc32 E) (map fst ts) n) = Inr ()" using st branch_finish_spec(2) by simp
    have "scrub_rec d E rd (root_of (snd ct)) = Inr (tally (visits (snd ct)))" if "ct \<in> set ts" for ct
      by (rule Suc.IH [of _ g']) (use Suc.prems that in \<open>auto simp: BranchNode g dense_ok_def\<close>)
    then have "rfold (\<lambda>c found. rbind (scrub_rec d E rd c) (\<lambda>s. Inr (scrubbed_add found s))) (map (\<lambda>ct. root_of (snd ct)) ts) found =
        Inr (scrubbed_add found (tally (concat (map (\<lambda>ct. visits (snd ct)) ts))))" for found
      by (induction ts arbitrary: found) (simp_all add: tally_append scrubbed_add_assoc(1,3))
    moreover have "tally [(n, PBranch)] = \<lparr>sc_pages = 1, sc_bitmaps = 0\<rparr>" by (simp add: tally_def)
    ultimately show ?thesis using br(1-3) ok ch scrubbed_add_assoc(2) by (simp add: BranchNode tally_append)
  qed
qed simp

section \<open>Freeing\<close>

context page_heap
begin

lemma free_all:
  "holds w (set ps \<union> F) \<Longrightarrow> distinct ps \<Longrightarrow> set ps \<inter> F = {} \<Longrightarrow> framed w F (foldl (\<lambda>w p. t_free P p w) w ps) {}"
proof (induction ps arbitrary: w)
  case Nil
  then show ?case by (simp add: framed_refl)
next
  case (Cons p ps)
  have fr: "framed w (set ps \<union> F) (t_free P p w) {}" by (rule free_spec) (use Cons.prems in auto)
  then have "framed (t_free P p w) F (foldl (\<lambda>w p. t_free P p w) (t_free P p w) ps) {}"
    using Cons.IH [of "t_free P p w"] Cons.prems(2,3) framed_holds [OF fr] by simp
  with framed_more [OF fr] show ?case by simp
qed

lemma free_tree_spec:
  assumes "stored crc (t_read P w) t" "full g t" "g < MAX_DEPTH" "holds w (set (pages_of t) \<union> F)" "distinct (pages_of t)" "set (pages_of t) \<inter> F = {}"
  shows "\<exists>w'. free_tree P (root_of t) w = Inr w' \<and> framed w F w' {}"
proof -
  have "visit_tree (t_read P w) (root_of t) (\<lambda>p _ pages. Inr (pages @ [p])) [] = Inr (pages_of t)"
    unfolding visit_tree_def visit_rec_spec [OF assms(1-3)] using rfold_collect [of "\<lambda>p _. p" "visits t" "[]"] visits_pages [of t]
    by (simp add: case_prod_beta')
  then show ?thesis using free_all [OF assms(4-6)] by (simp add: free_tree_def)
qed

end

section \<open>Copying\<close>

lemma cells_end_prefix: "cells_end cursor as \<le> cells_end cursor (as @ bs)"
proof (induction cursor as rule: cells_end.induct)
  case (1 cursor)
  then show ?case using cells_end_sum [of cursor bs] by simp
next
  case (2 cursor c)
  show ?case
  proof (cases bs)
    case (Cons b bs')
    have "cursor + length c \<le> align_up (cursor + length c)" by (simp add: align_up_simps(1))
    also have "\<dots> \<le> cells_end (align_up (cursor + length c)) bs" using cells_end_sum [of "align_up (cursor + length c)" bs] by simp
    finally show ?thesis by (simp add: Cons)
  qed simp
qed simp

lemma push_items_all:
  assumes "builder_ok b" "cells_end (cells_start (map staged_bytes (lcells b @ xs))) (map staged_bytes (lcells b @ xs)) \<le> PAGE_SIZE - PAGE_TRAILER"
  shows "\<exists>b'. push_items b xs = Some b' \<and> lcells b' = lcells b @ xs \<and> builder_ok b'"
  using assms
proof (induction xs arbitrary: b)
  case (Cons x xs)
  let ?all = "map staged_bytes (lcells b @ x # xs)" and ?pre = "map staged_bytes (lcells b)"
  have start: "align_up (PAGE_HEADER + (length (lcells b) + 1) * CELL_INDEX_ENTRY) \<le> cells_start ?all"
    by (simp add: align_up_mono)
  have "cells_start ?all mod 8 = 0" by (rule align_up_simps(3))
  then have "cells_end (cells_start ?all) (?pre @ [staged_bytes x]) =
      cells_start ?all + sum_list (map (\<lambda>c. align_up (length c)) ?pre) + length (staged_bytes x)" by (rule cells_end_snoc)
  moreover have "cells_end (cells_start ?all) (?pre @ [staged_bytes x]) \<le> cells_end (cells_start ?all) ?all"
    using cells_end_prefix [of "cells_start ?all" "?pre @ [staged_bytes x]" "map staged_bytes xs"] by simp
  moreover have "payload_bytes b = sum_list (map (\<lambda>c. align_up (length c)) ?pre)" using Cons.prems(1)
    by (simp add: builder_ok_def o_def LEAF_CELL_HEADER_def)
  ultimately have "leaf_fits b (length (spayload x))" using Cons.prems(2) start by (simp add: leaf_fits_def LEAF_CELL_HEADER_def)
  then obtain b1 where b1: "leaf_push b x = Some b1" "lcells b1 = lcells b @ [x]" by (simp add: leaf_push_def)
  show ?case using Cons.IH [OF builder_ok_push [OF Cons.prems(1) b1(1)]] Cons.prems(2) b1 by simp
qed simp

text \<open>A copied item: the same but for its page, which holds the same bytes.\<close>

definition copied_item :: "(pgno \<Rightarrow> store_error + page) \<Rightarrow> (pgno \<Rightarrow> store_error + page) \<Rightarrow> leaf_item \<Rightarrow> leaf_item \<Rightarrow> bool" where
  "copied_item rd rd' x y \<longleftrightarrow> (if is_dense x then y = x\<lparr>sbitmap_pgno := sbitmap_pgno y\<rparr> \<and> rd' (sbitmap_pgno y) = rd (sbitmap_pgno x) else y = x)"

lemma copied_fields:
  assumes "copied_item rd rd' x y"
  shows "skey y = skey x" "is_dense y = is_dense x" "staged_ok y = staged_ok x" "length (staged_bytes y) = length (staged_bytes x)"
proof -
  obtain p where "y = x\<lparr>sbitmap_pgno := p\<rparr>" using assms by (cases "is_dense x") (auto simp: copied_item_def intro: that [of "sbitmap_pgno x"])
  then show "skey y = skey x" "is_dense y = is_dense x" "staged_ok y = staged_ok x" "length (staged_bytes y) = length (staged_bytes x)"
    by (simp_all add: is_dense_def staged_ok_def)
qed

lemma cell_resolve_pgno: "cell_resolve E (c\<lparr>cbitmap_pgno := p\<rparr>) pg = cell_resolve E c pg"
proof -
  have "base_check E (c\<lparr>cbitmap_pgno := p\<rparr>) pg = base_check E c pg"
    by (cases pg) (simp_all add: base_check_def has_base_def verify_base_def Let_def)
  moreover have "resolve_checked E (c\<lparr>cbitmap_pgno := p\<rparr>) pg = resolve_checked E c pg"
    by (cases "cty c"; cases pg) (simp_all add: resolve_checked_def cell_container_def cell_delta_def split: sum.split)
  ultimately show ?thesis by (simp add: cell_resolve_def split: sum.split)
qed

lemma copied_means:
  assumes "copied_item rd rd' x y" "item_means E rd x S"
  shows "item_means E rd' y S"
proof (cases "is_dense x")
  case True
  then obtain p where p: "y = x\<lparr>sbitmap_pgno := p\<rparr>" "rd' p = rd (sbitmap_pgno x)" using assms(1) by (auto simp: copied_item_def)
  have "leaf_cell_of y = (leaf_cell_of x)\<lparr>cbitmap_pgno := p\<rparr>" by (simp add: p(1) leaf_cell_of_def)
  then have "cell_resolve E (leaf_cell_of y) = cell_resolve E (leaf_cell_of x)"
    by (simp add: fun_eq_iff cell_resolve_pgno)
  moreover have "base_page rd' y = base_page rd x" using True p by (simp add: base_page_def base_pgno_def is_dense_def)
  ultimately show ?thesis using assms(2) p(1) by (simp add: item_means_def)
next
  case False
  then have "y = x" "base_pgno x = None" using assms(1) by (simp_all add: copied_item_def base_pgno_def)
  then show ?thesis using assms(2) by (simp add: item_means_def base_page_def)
qed

lemma copied_cong:
  assumes "copied_item rd rd' x y" "is_dense x \<Longrightarrow> rd'' (sbitmap_pgno y) = rd' (sbitmap_pgno y)"
  shows "copied_item rd rd'' x y"
  using assms by (cases "is_dense x") (simp_all add: copied_item_def)

lemma copied_all_cong:
  assumes "list_all2 (copied_item rd rd') xs ys" "\<And>q. q \<in> set (dense_pages ys) \<Longrightarrow> rd'' q = rd' q"
  shows "list_all2 (copied_item rd rd'') xs ys"
proof (rule list_all2_all_nthI)
  show "length xs = length ys" using assms(1) by (rule list_all2_lengthD)
  fix i assume i: "i < length xs"
  have c: "copied_item rd rd' (xs ! i) (ys ! i)" using assms(1) i by (rule list_all2_nthD)
  show "copied_item rd rd'' (xs ! i) (ys ! i)"
  proof (rule copied_cong [OF c])
    assume "is_dense (xs ! i)"
    then have "is_dense (ys ! i)" by (simp only: copied_fields(2) [OF c])
    moreover have "ys ! i \<in> set ys" using i list_all2_lengthD [OF assms(1)] by simp
    ultimately have "sbitmap_pgno (ys ! i) \<in> set (dense_pages ys)" by (auto simp: dense_pages_def)
    then show "rd'' (sbitmap_pgno (ys ! i)) = rd' (sbitmap_pgno (ys ! i))" by (rule assms(2))
  qed
qed

lemma copied_leaf_fits:
  assumes "list_all2 (copied_item rd rd') xs ys" "leaf_fits_items xs"
  shows "\<exists>b. push_items leaf_new ys = Some b \<and> lcells b = ys" "leaf_fits_items ys" "map skey ys = map skey xs"
proof -
  show keys: "map skey ys = map skey xs" using assms(1) by (induction rule: list_all2_induct) (simp_all add: copied_fields(1))
  have ok: "\<forall>y \<in> set ys. staged_ok y"
    using assms(1) leaf_fits_end(2) [OF assms(2)] by (induction rule: list_all2_induct) (simp_all add: copied_fields(3))
  have len: "map length (map staged_bytes ys) = map length (map staged_bytes xs)"
    using assms(1) by (induction rule: list_all2_induct) (simp_all add: copied_fields(4) del: length_staged_bytes)
  have same: "cells_end k cs = cells_end k ds" if "map length cs = map length ds" for k cs ds
    using that
  proof (induction k cs arbitrary: ds rule: cells_end.induct)
    case (2 k c)
    then show ?case by (cases ds) auto
  next
    case (3 k c c' cs)
    then obtain d d' ds' where ds: "ds = d # d' # ds'" by (cases ds; cases "tl ds") auto
    with 3 show ?case by (simp add: ds)
  qed simp
  have "length ys = length xs" using assms(1) by (rule list_all2_lengthD [symmetric])
  then have "cells_end (cells_start (map staged_bytes ys)) (map staged_bytes ys) \<le> PAGE_SIZE - PAGE_TRAILER"
    using leaf_fits_end(1) [OF assms(2)] same [OF len] by simp
  then obtain b where b: "push_items leaf_new ys = Some b" "lcells b = ys" "builder_ok b"
    using push_items_all [OF builder_ok_new, of ys] by (auto simp: leaf_new_def)
  then show "\<exists>b. push_items leaf_new ys = Some b \<and> lcells b = ys" by blast
  show "leaf_fits_items ys" using b(2,3) ok by (auto simp: leaf_fits_items_def)
qed

text \<open>The tree \<open>t'\<close> read by \<open>rd'\<close> is a copy of the tree \<open>t\<close> read by \<open>rd\<close>.\<close>

definition copy_at :: "ext \<Rightarrow> (pgno \<Rightarrow> store_error + page) \<Rightarrow> (pgno \<Rightarrow> store_error + page) \<Rightarrow> nat \<Rightarrow> node \<Rightarrow> node \<Rightarrow> bool" where
  "copy_at E rd rd' g t t' \<longleftrightarrow> stored (crc32 E) rd' t' \<and> full g t' \<and> ordered t' \<and> marks t' = marks t \<and>
     list_all2 (copied_item rd rd') (items_of t) (items_of t')"

lemma pages_mset: "mset (pages_of t) = mset (spine t @ dense_pages (items_of t))"
proof (induction t rule: pages_of.induct)
  case (2 n ts)
  then have "mset (concat (map (\<lambda>ct. pages_of (snd ct)) ts)) =
      mset (concat (map (\<lambda>ct. spine (snd ct)) ts) @ dense_pages (concat (map (\<lambda>ct. items_of (snd ct)) ts)))"
    by (induction ts) simp_all
  then show ?case by simp
qed simp

lemma pages_parts: "set (pages_of t) = set (spine t) \<union> set (dense_pages (items_of t))"
  "distinct (pages_of t) \<longleftrightarrow> distinct (spine t @ dense_pages (items_of t))"
  using mset_eq_setD [OF pages_mset [of t]] mset_eq_imp_distinct_iff [OF pages_mset [of t]] by auto

lemma copy_at_cong:
  assumes "copy_at E rd rd' g t t'" "\<And>q. q \<in> set (pages_of t') \<Longrightarrow> rd'' q = rd' q"
  shows "copy_at E rd rd'' g t t'"
proof -
  have "stored (crc32 E) rd'' t'" by (rule stored_cong [of _ rd']) (use assms in \<open>auto simp: copy_at_def pages_parts\<close>)
  moreover have "list_all2 (copied_item rd rd'') (items_of t) (items_of t')"
    by (rule copied_all_cong [of _ rd']) (use assms in \<open>auto simp: copy_at_def pages_parts\<close>)
  ultimately show ?thesis using assms(1) by (simp add: copy_at_def)
qed

definition copy_cell :: "ext \<Rightarrow> (pgno \<Rightarrow> store_error + page) \<Rightarrow> (pgno \<Rightarrow> store_error + page) \<Rightarrow> nat \<Rightarrow> branch_cell \<times> node \<Rightarrow> branch_cell \<times> node \<Rightarrow> bool" where
  "copy_cell E rd rd' g ct u \<longleftrightarrow> fst u = (fst ct)\<lparr>bchild := root_of (snd u)\<rparr> \<and> copy_at E rd rd' g (snd ct) (snd u)"

lemma copy_branch:
  assumes "list_all2 (copy_cell E rd rd' g) ts us" "separated ts" "ts \<noteq> []" "branch_fits (map fst ts)" "rd' n = Inr (branch_finish (crc32 E) (map fst us) n)"
  shows "copy_at E rd rd' (Suc g) (BranchNode m ts) (BranchNode n us)"
proof -
  have len: "length us = length ts" using assms(1) by (rule list_all2_lengthD [symmetric])
  have each: "bchild (fst u) = root_of (snd u) \<and> stored (crc32 E) rd' (snd u) \<and> full g (snd u) \<and> ordered (snd u)" if "u \<in> set us" for u
    using assms(1) that by (auto simp: list_all2_conv_all_nth in_set_conv_nth copy_cell_def copy_at_def)
  have marks: "map (\<lambda>ct. bkey (fst ct) # marks (snd ct)) us = map (\<lambda>ct. bkey (fst ct) # marks (snd ct)) ts"
    using assms(1) by (induction rule: list_all2_induct) (simp_all add: copy_cell_def copy_at_def)
  have "separated us \<longleftrightarrow> separated ts"
    using assms(1)
  proof (induction rule: list_all2_induct)
    case (Cons ct ts u us)
    have "(\<lambda>v. bkey (fst v)) ` set us = (\<lambda>v. bkey (fst v)) ` set ts"
      using Cons(2) by (induction rule: list_all2_induct) (simp_all add: copy_cell_def)
    then have all: "(\<forall>v \<in> set us. Q (bkey (fst v))) \<longleftrightarrow> (\<forall>v \<in> set ts. Q (bkey (fst v)))" for Q
      by (metis (mono_tags, lifting) image_iff)
    show ?case using Cons(1,3) all [of "\<lambda>b. bkey (fst ct) < b \<and> (\<forall>k \<in> set (marks (snd ct)). k < b)"]
      by (simp add: copy_cell_def copy_at_def)
  qed simp
  moreover have "list_all2 (copied_item rd rd') (concat (map (\<lambda>ct. items_of (snd ct)) ts)) (concat (map (\<lambda>ct. items_of (snd ct)) us))"
    using assms(1) by (induction rule: list_all2_induct) (simp_all add: copy_cell_def copy_at_def list_all2_appendI)
  moreover have "branch_fits (map fst us)" using assms(4) by (simp add: branch_fits_def len)
  moreover have "us \<noteq> []" using len assms(3) by auto
  ultimately show ?thesis using each assms(2,5) marks by (simp add: copy_at_def)
qed

lemma read_node_leaf:
  assumes "stored crc rd (LeafNode n xs)"
  shows "read_node crc rd n = Inr (NLeaf xs)"
proof -
  obtain lp where lp: "rd n = Inr (leaf_image crc n xs)" "page_page_type (leaf_image crc n xs) = Inr PLeaf"
    "leaf_parse (leaf_image crc n xs) = Inr lp" "reads lp xs" by (rule read_leaf [OF assms])
  from cells_to_items_reads [OF lp(4), of 0] show ?thesis using lp assms leaf_image_spec(3) by (simp add: read_node_def readsD(1))
qed

lemma read_node_branch:
  assumes "stored crc rd (BranchNode n ts)"
  shows "read_node crc rd n = Inr (NBranch (map fst ts))"
proof -
  obtain br where br: "rd n = Inr (branch_finish crc (map fst ts) n)" "page_page_type (branch_finish crc (map fst ts) n) = Inr PBranch"
    "branch_parse (branch_finish crc (map fst ts) n) = Inr br" "branch_iter br = map fst ts" by (rule read_branch [OF assms])
  then show ?thesis using assms branch_finish_spec(2) by (simp add: read_node_def)
qed

context page_heap
begin

lemma copy_items_spec:
  assumes "holds w F" "dense_ok E rd xs"
  shows "outcome (copy_items E rd P xs w) (\<lambda>(ys, w'). framed w F w' (set (dense_pages ys)) \<and> distinct (dense_pages ys) \<and>
    list_all2 (copied_item rd (t_read P w')) xs ys)"
  using assms
proof (induction xs arbitrary: w F)
  case Nil
  then show ?case by (simp add: framed_refl)
next
  case (Cons x xs)
  let ?Q = "\<lambda>r. (\<lambda>(y, w'). framed w F w' (set (dense_pages [y])) \<and> copied_item rd (t_read P w') x y) r"
  have "outcome (if is_dense x then rbind (copy_bitmap E rd P (sbitmap_pgno x) (sbitmap_checksum x) w) (\<lambda>(n, w1). Inr (x\<lparr>sbitmap_pgno := n\<rparr>, w1))
            else Inr (x, w)) ?Q"
  proof (cases "is_dense x")
    case True
    with Cons.prems(2) obtain p where p: "rd (sbitmap_pgno x) = Inr p" "crc32 E p = sbitmap_checksum x" by auto
    then have eq: "copy_bitmap E rd P (sbitmap_pgno x) (sbitmap_checksum x) w = put_page P (\<lambda>_. p) w"
      by (simp add: copy_bitmap_def bitmap_page_checksum_def)
    have "outcome (rbind (put_page P (\<lambda>_. p) w) (\<lambda>(n, w1). Inr (x\<lparr>sbitmap_pgno := n\<rparr>, w1))) ?Q"
      by (rule outcome_rbind [OF put_page_spec [OF Cons.prems(1)]])
        (use True p in \<open>auto simp: dense_pages_def is_dense_def copied_item_def\<close>)
    then show ?thesis using True eq by simp
  next
    case False
    then show ?thesis using Cons.prems(1) by (simp add: framed_refl dense_pages_def copied_item_def)
  qed
  then show ?case unfolding copy_items.simps
  proof (rule outcome_rbind)
    fix r assume r: "?Q r"
    obtain y w1 where yw: "r = (y, w1)" by (metis prod.exhaust)
    have y: "framed w F w1 (set (dense_pages [y]))" "copied_item rd (t_read P w1) x y" using r yw by simp_all
    have "dense_ok E rd xs" using Cons.prems(2) by simp
    note IH = Cons.IH [OF framed_holds [OF y(1)] this]
    show "outcome ((\<lambda>(y, w1). rbind (copy_items E rd P xs w1) (\<lambda>(ys, w2). Inr (y # ys, w2))) r) (\<lambda>(ys, w'). framed w F w' (set (dense_pages ys)) \<and> distinct (dense_pages ys) \<and>
      list_all2 (copied_item rd (t_read P w')) (x # xs) ys)"
      unfolding yw prod.case
    proof (rule outcome_rbind [OF IH])
      fix r2 assume r2: "(\<lambda>(ys, w'). framed w1 (set (dense_pages [y]) \<union> F) w' (set (dense_pages ys)) \<and> distinct (dense_pages ys) \<and>
        list_all2 (copied_item rd (t_read P w')) xs ys) r2"
      obtain ys w2 where e2: "r2 = (ys, w2)" by (metis prod.exhaust)
      have ys: "framed w1 (set (dense_pages [y]) \<union> F) w2 (set (dense_pages ys))" "distinct (dense_pages ys)"
        "list_all2 (copied_item rd (t_read P w2)) xs ys" using r2 e2 by simp_all
      have d: "dense_pages (y # ys) = dense_pages [y] @ dense_pages ys" "distinct (dense_pages [y])"
        by (simp_all add: dense_pages_def)
      have "copied_item rd (t_read P w2) x y"
      proof (rule copied_cong [OF y(2)])
        assume "is_dense x"
        then have "sbitmap_pgno y \<in> set (dense_pages [y]) \<union> F" using copied_fields(2) [OF y(2)] by (simp add: dense_pages_def)
        then show "t_read P w2 (sbitmap_pgno y) = t_read P w1 (sbitmap_pgno y)" by (rule framed_read [OF ys(1)])
      qed
      moreover have "framed w F w2 (set (dense_pages (y # ys)))" using framed_trans [OF y(1) ys(1)] by (simp add: d(1) Un_commute)
      moreover have "distinct (dense_pages (y # ys))" using ys(2) d framed_disjoint [OF ys(1)] by auto
      ultimately show "outcome ((\<lambda>(ys, w2). Inr (y # ys, w2)) r2) (\<lambda>(ys, w'). framed w F w' (set (dense_pages ys)) \<and> distinct (dense_pages ys) \<and>
        list_all2 (copied_item rd (t_read P w')) (x # xs) ys)" using ys(3) by (simp add: e2)
    qed
  qed
qed

text \<open>What a copy into the pages beside \<open>F\<close> gives.\<close>

definition copies :: "ext \<Rightarrow> (pgno \<Rightarrow> store_error + page) \<Rightarrow> nat \<Rightarrow> node \<Rightarrow> 'w \<Rightarrow> pgno set \<Rightarrow> pgno \<times> 'w \<Rightarrow> bool" where
  "copies E rd g t w F = (\<lambda>(r, w'). \<exists>t'. r = root_of t' \<and> framed w F w' (set (pages_of t')) \<and> distinct (pages_of t') \<and>
     copy_at E rd (t_read P w') g t t')"

lemma copy_cells_spec:
  assumes "\<And>ct w F. ct \<in> set ts \<Longrightarrow> holds w F \<Longrightarrow> outcome (go (root_of (snd ct)) w) (copies E rd g (snd ct) w F)"
    and "holds w F" "length b + length ts \<le> BRANCH_CAPACITY" "\<forall>ct \<in> set ts. bchild (fst ct) = root_of (snd ct)"
  shows "outcome (copy_cells go n (map fst ts) b w) (\<lambda>(b', w'). \<exists>us. b' = b @ map fst us \<and>
    framed w F w' (set (concat (map (\<lambda>u. pages_of (snd u)) us))) \<and> distinct (concat (map (\<lambda>u. pages_of (snd u)) us)) \<and>
    list_all2 (copy_cell E rd (t_read P w') g) ts us)"
  using assms
proof (induction ts arbitrary: b w F)
  case Nil
  then show ?case by (simp add: framed_refl)
next
  case (Cons ct ts)
  let ?pg = "\<lambda>us. concat (map (\<lambda>u. pages_of (snd u)) us)"
  let ?Q = "\<lambda>b w F ts (b', w'). \<exists>us. b' = b @ map fst us \<and> framed w F w' (set (?pg us)) \<and> distinct (?pg us) \<and>
    list_all2 (copy_cell E rd (t_read P w') g) ts us"
  have ch: "bchild (fst ct) = root_of (snd ct)" using Cons.prems(4) by simp
  have first: "outcome (go (root_of (snd ct)) w) (copies E rd g (snd ct) w F)" by (rule Cons.prems(1)) (simp_all add: Cons.prems(2))
  show ?case unfolding list.map copy_cells.simps ch
  proof (rule outcome_rbind [OF first])
    fix r assume "copies E rd g (snd ct) w F r"
    then obtain t' w1 where r: "r = (root_of t', w1)" and fr: "framed w F w1 (set (pages_of t'))" "distinct (pages_of t')"
      and cp: "copy_at E rd (t_read P w1) g (snd ct) t'" by (auto simp: copies_def)
    let ?c = "(fst ct)\<lparr>bchild := root_of t'\<rparr>"
    have push: "branch_push b ?c = Some (b @ [?c])" using Cons.prems(3) by (simp add: branch_push_def)
    have rest: "outcome (copy_cells go n (map fst ts) (b @ [?c]) w1) (?Q (b @ [?c]) w1 (set (pages_of t') \<union> F) ts)"
      by (rule Cons.IH) (use Cons.prems framed_holds [OF fr(1)] in simp_all)
    have "outcome (copy_cells go n (map fst ts) (b @ [?c]) w1) (?Q b w F (ct # ts))"
    proof (rule outcome_mono [OF rest])
      fix r2 assume "?Q (b @ [?c]) w1 (set (pages_of t') \<union> F) ts r2"
      then obtain us w2 where r2: "r2 = (b @ [?c] @ map fst us, w2)" and us: "framed w1 (set (pages_of t') \<union> F) w2 (set (?pg us))"
        "distinct (?pg us)" "list_all2 (copy_cell E rd (t_read P w2) g) ts us" by auto
      have "copy_at E rd (t_read P w2) g (snd ct) t'" by (rule copy_at_cong [OF cp]) (rule framed_read [OF us(1)], simp)
      then have "list_all2 (copy_cell E rd (t_read P w2) g) (ct # ts) ((?c, t') # us)" using us(3) by (simp add: copy_cell_def)
      moreover have "framed w F w2 (set (?pg ((?c, t') # us)))" using framed_trans [OF fr(1) us(1)] by (simp add: Un_commute)
      moreover have "distinct (?pg ((?c, t') # us))" using fr(2) us(2) framed_disjoint [OF us(1)] by auto
      ultimately show "?Q b w F (ct # ts) r2" unfolding r2 prod.case by (intro exI [of _ "(?c, t') # us"]) simp
    qed
    then show "outcome ((\<lambda>(child, w1). case branch_push b ((fst ct)\<lparr>bchild := child\<rparr>) of
       None \<Rightarrow> Inl (UnexpectedPage n PBranch) | Some b' \<Rightarrow> copy_cells go n (map fst ts) b' w1) r) (?Q b w F (ct # ts))"
      by (simp add: r push)
  qed
qed

lemma copy_rec_spec:
  assumes "stored (crc32 E) rd t" "full g t" "g < d" "ordered t" "dense_ok E rd (items_of t)" "holds w F"
  shows "outcome (copy_rec d E rd P (root_of t) w) (copies E rd g t w F)"
  using assms
proof (induction d arbitrary: t g w F)
  case (Suc d)
  show ?case
  proof (cases t)
    case (LeafNode n xs)
    have st: "stored (crc32 E) rd (LeafNode n xs)" using Suc.prems(1) by (simp add: LeafNode)
    have "dense_ok E rd xs" using Suc.prems(5) by (simp add: LeafNode)
    note items = copy_items_spec [OF Suc.prems(6) this]
    show ?thesis unfolding LeafNode root_of.simps copy_rec.simps read_node_leaf [OF st] rbind_simps walk_node.case
    proof (rule outcome_rbind [OF items])
      fix r assume "(\<lambda>(ys, w'). framed w F w' (set (dense_pages ys)) \<and> distinct (dense_pages ys) \<and> list_all2 (copied_item rd (t_read P w')) xs ys) r"
      then obtain ys w1 where r: "r = (ys, w1)" and ys: "framed w F w1 (set (dense_pages ys))" "distinct (dense_pages ys)"
        "list_all2 (copied_item rd (t_read P w1)) xs ys" by auto
      have fit: "leaf_fits_items xs" using st by simp
      obtain b where b: "push_items leaf_new ys = Some b" "lcells b = ys" using copied_leaf_fits(1) [OF ys(3) fit] by blast
      have put: "outcome (put_page P (leaf_finish (crc32 E) b) w1) (copies E rd g (LeafNode n xs) w F)"
      proof (rule outcome_mono [OF put_page_spec [OF framed_holds [OF ys(1)]]])
        fix r2 assume "(\<lambda>(m, w'). framed w1 (set (dense_pages ys) \<union> F) w' {m} \<and> t_read P w' m = Inr (leaf_finish (crc32 E) b m)) r2"
        then obtain m w2 where r2: "r2 = (m, w2)" and m: "framed w1 (set (dense_pages ys) \<union> F) w2 {m}"
          "t_read P w2 m = Inr (leaf_image (crc32 E) m ys)" by (auto simp: leaf_finish_image b(2))
        have "list_all2 (copied_item rd (t_read P w2)) xs ys" by (rule copied_all_cong [OF ys(3)]) (rule framed_read [OF m(1)], simp)
        then have "copy_at E rd (t_read P w2) g (LeafNode n xs) (LeafNode m ys)"
          using m(2) copied_leaf_fits(2,3) [OF ys(3) fit] Suc.prems(2,4) by (simp add: copy_at_def LeafNode)
        moreover have "framed w F w2 (set (pages_of (LeafNode m ys)))" using framed_trans [OF ys(1) m(1)] by simp
        moreover have "distinct (pages_of (LeafNode m ys))" using ys(2) framed_disjoint [OF m(1)] by simp
        ultimately show "copies E rd g (LeafNode n xs) w F r2"
          unfolding copies_def r2 prod.case by (intro exI [of _ "LeafNode m ys"]) (simp only: root_of.simps simp_thms)
      qed
      show "outcome ((\<lambda>(ys, w1). case push_items leaf_new ys of None \<Rightarrow> Inl (UnexpectedPage n PLeaf)
          | Some b \<Rightarrow> put_page P (leaf_finish (crc32 E) b) w1) r) (copies E rd g (LeafNode n xs) w F)"
        using put by (simp add: r b(1))
    qed
  next
    case (BranchNode n ts)
    with Suc.prems obtain g' where g: "g = Suc g'" by auto
    have st: "stored (crc32 E) rd (BranchNode n ts)" using Suc.prems(1) by (simp add: BranchNode)
    have child: "outcome (copy_rec d E rd P (root_of (snd ct)) w) (copies E rd g' (snd ct) w F)" if "ct \<in> set ts" "holds w F" for ct w F
      by (rule Suc.IH) (use Suc.prems that in \<open>auto simp: BranchNode g dense_ok_def\<close>)
    let ?pg = "\<lambda>us. concat (map (\<lambda>u. pages_of (snd u)) us)"
    have len: "length ([] :: branch_cell list) + length ts \<le> BRANCH_CAPACITY" using st capacity_fits [of "map fst ts"] by simp
    have roots: "\<forall>ct \<in> set ts. bchild (fst ct) = root_of (snd ct)" using st by simp
    have cells: "outcome (copy_cells (copy_rec d E rd P) n (map fst ts) [] w) (\<lambda>(b', w'). \<exists>us. b' = [] @ map fst us \<and>
      framed w F w' (set (?pg us)) \<and> distinct (?pg us) \<and> list_all2 (copy_cell E rd (t_read P w') g') ts us)"
      using child Suc.prems(6) len roots by (rule copy_cells_spec)
    show ?thesis unfolding BranchNode root_of.simps copy_rec.simps read_node_branch [OF st] rbind_simps walk_node.case
    proof (rule outcome_rbind [OF cells])
      fix r assume "(\<lambda>(b', w'). \<exists>us. b' = [] @ map fst us \<and> framed w F w' (set (?pg us)) \<and> distinct (?pg us) \<and>
        list_all2 (copy_cell E rd (t_read P w') g') ts us) r"
      then obtain us w1 where r: "r = (map fst us, w1)" and us: "framed w F w1 (set (?pg us))" "distinct (?pg us)"
        "list_all2 (copy_cell E rd (t_read P w1) g') ts us" by auto
      have put: "outcome (put_page P (branch_finish (crc32 E) (map fst us)) w1) (copies E rd g (BranchNode n ts) w F)"
      proof (rule outcome_mono [OF put_page_spec [OF framed_holds [OF us(1)]]])
        fix r2 assume "(\<lambda>(m, w'). framed w1 (set (?pg us) \<union> F) w' {m} \<and> t_read P w' m = Inr (branch_finish (crc32 E) (map fst us) m)) r2"
        then obtain m w2 where r2: "r2 = (m, w2)" and m: "framed w1 (set (?pg us) \<union> F) w2 {m}"
          "t_read P w2 m = Inr (branch_finish (crc32 E) (map fst us) m)" by auto
        have "copy_cell E rd (t_read P w2) g' ct u" if "copy_cell E rd (t_read P w1) g' ct u" "u \<in> set us" for ct u
          using that framed_read [OF m(1)] unfolding copy_cell_def by (auto intro: copy_at_cong)
        then have "list_all2 (copy_cell E rd (t_read P w2) g') ts us" using us(3) by (auto simp: list_all2_conv_all_nth)
        then have "copy_at E rd (t_read P w2) g (BranchNode n ts) (BranchNode m us)"
          unfolding g by (rule copy_branch) (use st m(2) Suc.prems(4) in \<open>simp_all add: BranchNode\<close>)
        moreover have "framed w F w2 (set (pages_of (BranchNode m us)))" using framed_trans [OF us(1) m(1)] by simp
        moreover have "distinct (pages_of (BranchNode m us))" using us(2) framed_disjoint [OF m(1)] by simp
        ultimately show "copies E rd g (BranchNode n ts) w F r2"
          unfolding copies_def r2 prod.case by (intro exI [of _ "BranchNode m us"]) (simp only: root_of.simps simp_thms)
      qed
      show "outcome ((\<lambda>(b, w1). put_page P (branch_finish (crc32 E) b) w1) r) (copies E rd g (BranchNode n ts) w F)"
        using put by (simp add: r)
    qed
  qed
qed simp

end

section \<open>Properties\<close>

text \<open>
  C18. A walk of a tree shows the visitor every page of the tree with its type, each node after
  everything it points at, and hands the visitor's error on.
\<close>

theorem visit_tree_correct:
  assumes "sound_tree crc rd t"
  shows "visit_tree rd (root_of t) f acc = rfold (\<lambda>(p, ty). f p ty) (visits t) acc"
  using assms by (rule sound_treeE) (simp add: visit_tree_def visit_rec_spec)

theorem visit_tree_correct_witness: "visit_tree sample_pages 5 collect_pages [] = Inr [(3, PLeaf), (4, PLeaf), (5, PBranch)]"
  using visit_tree_correct [OF sample_sound, of collect_pages "[]"]
  by (simp add: sample_tree_def dense_pages_def is_dense_def sample_item_def)

text \<open>
  C16. A scrub that returns, of whatever bytes the file holds, has checked every page a walk reaches:
  the trailer of every node matches its bytes, every dense page matches the checksum in a cell of a
  leaf that was walked, and the two counts are the numbers of those pages.
\<close>

theorem scrub_finds_damage:
  assumes "scrub_tree E rd root = Inr s"
  shows "\<exists>vs. visit_tree rd root collect_pages [] = Inr vs \<and> intact_pages E rd vs \<and> s = tally vs"
  using scrub_rec_checks [OF assms [unfolded scrub_tree_def]] by (auto simp: visit_tree_def)

text \<open>
  C17. A tree as the writer leaves it, with every dense page under the checksum of its cell, passes the
  scrub, which counts each of its pages once.
\<close>

theorem scrub_passes:
  assumes "sound_tree (crc32 E) rd t" "dense_ok E rd (items_of t)"
  shows "scrub_tree E rd (root_of t) = Inr (tally (visits t))"
  using assms(1) by (rule sound_treeE) (simp add: scrub_tree_def scrub_rec_pass assms(2))

theorem scrub_passes_witness: "scrub_tree (le_ext hd_crc) sample_pages 5 = Inr \<lparr>sc_pages = 3, sc_bitmaps = 0\<rparr>"
proof -
  have "sound_tree (crc32 (le_ext hd_crc)) sample_pages sample_tree" using sample_sound by (simp add: le_ext_def)
  moreover have "dense_ok (le_ext hd_crc) sample_pages (items_of sample_tree)"
    by (simp add: sample_tree_def is_dense_def sample_item_def)
  ultimately show ?thesis using scrub_passes [of "le_ext hd_crc" sample_pages sample_tree]
    by (simp add: sample_tree_def tally_def dense_pages_def is_dense_def sample_item_def)
qed

theorem scrub_finds_damage_witness:
  "\<exists>vs. visit_tree sample_pages 5 collect_pages [] = Inr vs \<and> intact_pages (le_ext hd_crc) sample_pages vs \<and>
     \<lparr>sc_pages = 3, sc_bitmaps = 0\<rparr> = tally vs"
proof -
  have "sound_tree (crc32 (le_ext hd_crc)) sample_pages sample_tree" using sample_sound by (simp add: le_ext_def)
  then obtain g where g: "stored (crc32 (le_ext hd_crc)) sample_pages sample_tree" "full g sample_tree" "g < MAX_DEPTH" by (rule sound_treeE)
  have "dense_ok (le_ext hd_crc) sample_pages (items_of sample_tree)"
    by (simp add: sample_tree_def is_dense_def sample_item_def)
  from scrub_rec_pass [OF g this] have "scrub_tree (le_ext hd_crc) sample_pages 5 = Inr \<lparr>sc_pages = 3, sc_bitmaps = 0\<rparr>"
    by (simp add: scrub_tree_def sample_tree_def tally_def dense_pages_def is_dense_def sample_item_def)
  then show ?thesis by (rule scrub_finds_damage)
qed

end
