(* ===== verification/Big_TreeTxn.thy ===== *)
theory Big_TreeTxn
  imports Big_Walk Big_Isolation
begin

text \<open>
  The B-tree on a write transaction (\<^verbatim>\<open>crates/big-pager/src/write.rs\<close>). The four calls the tree
  makes are those of the transaction, and the pages a client may rely on are those it was given in
  this transaction and has not freed, together with the live pages of the committed file that it has
  not released. The transaction keeps the laws the tree is proved against, so every tree operation
  runs inside an execution of the transaction.
\<close>

definition txn_ops_of :: "mem_pager \<Rightarrow> nat \<Rightarrow> write_txn txn_ops" where
  "txn_ops_of ps c = \<lparr>t_read = txn_read ps, t_alloc = txn_alloc (Some c), t_write = txn_write, t_free = txn_free\<rparr>"

definition in_use :: "pgno set \<Rightarrow> freelist \<Rightarrow> write_txn \<times> txn_ghost \<Rightarrow> pgno set" where
  "in_use K f0 = (\<lambda>(w, g). set (owned g) \<union> {p. live_page K f0 (w_tail_floor w) p \<and> p \<notin> set (released g)})"

definition txn_holds :: "mem_pager \<Rightarrow> nat \<Rightarrow> pgno set \<Rightarrow> write_txn \<Rightarrow> write_txn \<Rightarrow> pgno set \<Rightarrow> bool" where
  "txn_holds ps c K w0 w H \<longleftrightarrow> c < 2 ^ 32 \<and> (\<exists>g. txn_reach ps (Some c) K w0 (w, g) \<and>
     txn_inv K (w_freelist w0) (w, g) \<and> H = in_use K (w_freelist w0) (w, g))"

lemma txn_alloc_next:
  assumes "txn_alloc (Some c) w = Inr (p, w')"
  shows "w_next_pgno w' = w_next_pgno w \<or> w_next_pgno w' \<le> c"
  using assms by (auto simp: txn_alloc_def txn_alloc_tail_def Let_def split: if_splits option.splits prod.splits)

lemma txn_alloc_dirty:
  assumes "txn_alloc cap w = Inr (p, w')" "q \<noteq> p" "bt_inv (w_dirty w)"
  shows "bt_get (w_dirty w') q = bt_get (w_dirty w) q"
  using assms by (auto simp: txn_alloc_def txn_alloc_tail_def Let_def bt_get_remove split: if_splits option.splits prod.splits)

lemma txn_free_read:
  assumes "q \<noteq> p" "bt_inv (w_dirty w)"
  shows "txn_read ps (txn_free p w) q = txn_read ps w q"
  using assms by (simp add: txn_read_def txn_free_def bt_get_remove)

lemma in_use_next:
  assumes "txn_inv K f0 (w', g\<lparr>owned := p # owned g\<rparr>)" "w_tail_floor w' = w_tail_floor w"
  shows "p \<notin> in_use K f0 (w, g)"
proof -
  have "p \<notin> set (owned g)" using nodup_owned(1) [OF assms(1)] by simp
  moreover have "fresh_page f0 w' (unat p)" using assms(1) by (simp add: txn_inv_def)
  then have "\<not> live_page K f0 (w_tail_floor w') p" using live_not_fresh by blast
  ultimately show ?thesis by (simp add: in_use_def assms(2))
qed

lemma txn_fresh:
  assumes "txn_holds ps c K w0 w H" "txn_alloc (Some c) w = Inr (n, w1)"
  shows "n \<notin> H \<and> (\<exists>w2. txn_write w1 n p = Inr w2 \<and> txn_holds ps c K w0 w2 (insert n H) \<and>
    txn_read ps w2 n = Inr p \<and> (\<forall>q \<in> H. txn_read ps w2 q = txn_read ps w q))"
proof -
  let ?f = "w_freelist w0"
  obtain g where g: "c < 2 ^ 32" "txn_reach ps (Some c) K w0 (w, g)" "txn_inv K ?f (w, g)" "H = in_use K ?f (w, g)"
    using assms(1) by (auto simp: txn_holds_def)
  let ?g = "g\<lparr>owned := n # owned g\<rparr>" and ?w = "w1\<lparr>w_dirty := bt_insert n p (w_dirty w1)\<rparr>"
  have "w_next_pgno w < 2 ^ 32" using g(3) by (simp add: txn_inv_def)
  then have n: "w_next_pgno w1 < 2 ^ 32" using txn_alloc_next [OF assms(2)] g(1) by auto
  note i1 = txn_alloc_inv [OF g(3) assms(2) n]
  have fl: "w_tail_floor w1 = w_tail_floor w" using txn_alloc_frame [OF assms(2)] by simp
  have "unat n < w_next_pgno w1" using balance_bound(1) [OF i1] by simp
  then have wr: "txn_write w1 n p = Inr ?w" by (simp add: txn_write_def)
  have nH: "n \<notin> H" using in_use_next [OF i1 fl] g(4) by simp
  have "txn_step ps (Some c) K ?f (w, g) (w1, ?g)" using assms(2) n by (rule step_alloc)
  moreover have "txn_step ps (Some c) K ?f (w1, ?g) (?w, ?g)" using wr by (auto intro: step_write)
  ultimately have "txn_reach ps (Some c) K w0 (?w, ?g)"
    using g(2) unfolding txn_reach_def by (meson rtranclp.rtrancl_into_rtrancl)
  moreover have "txn_inv K ?f (?w, ?g)" by (rule txn_write_inv [OF i1]) simp
  moreover have "insert n H = in_use K ?f (?w, ?g)" by (auto simp: g(4) in_use_def fl)
  ultimately have "txn_holds ps c K w0 ?w (insert n H)" using g(1) by (auto simp: txn_holds_def)
  moreover have "bt_inv (w_dirty w)" using g(3) by (simp add: txn_inv_def)
  then have "\<forall>q \<in> H. txn_read ps ?w q = txn_read ps w q"
    using txn_alloc_dirty [OF assms(2)] nH by (auto simp: txn_read_def bt_get_insert_any)
  ultimately show ?thesis using wr nH by (simp add: txn_read_def bt_get_insert_any)
qed

lemma txn_alloc_fails:
  "txn_alloc (Some c) w = Inl e \<Longrightarrow> exhausted (BStore e)"
  by (auto simp: txn_alloc_def txn_alloc_tail_def Let_def split: if_splits option.splits prod.splits)

lemma txn_give_back:
  assumes "txn_holds ps c K w0 w (insert n H)" "n \<notin> H"
  shows "txn_holds ps c K w0 (txn_free n w) H \<and> (\<forall>q \<in> H. txn_read ps (txn_free n w) q = txn_read ps w q)"
proof -
  let ?f = "w_freelist w0"
  obtain g where g: "c < 2 ^ 32" "txn_reach ps (Some c) K w0 (w, g)" "txn_inv K ?f (w, g)"
    "insert n H = in_use K ?f (w, g)"
    using assms(1) by (auto simp: txn_holds_def)
  have fl: "w_tail_floor (txn_free n w) = w_tail_floor w" by (simp add: txn_free_def)
  have H: "H = in_use K ?f (w, g) - {n}" using g(4) assms(2) by blast
  have "\<exists>g'. txn_step ps (Some c) K ?f (w, g) (txn_free n w, g') \<and> H = in_use K ?f (txn_free n w, g')"
  proof (cases "n \<in> set (owned g)")
    case True
    have "fresh_page ?f w (unat n)" using g(3) True by (simp add: txn_inv_def)
    then have "\<not> live_page K ?f (w_tail_floor w) n" using live_not_fresh by blast
    then have "H = in_use K ?f (txn_free n w, g\<lparr>owned := remove1 n (owned g)\<rparr>)"
      using nodup_owned(1) [OF g(3)] by (auto simp: H in_use_def fl)
    with True show ?thesis by (blast intro: step_free_owned)
  next
    case False
    with g(4) have n: "live_page K ?f (w_tail_floor w) n" "n \<notin> set (released g)" by (auto simp: in_use_def)
    have "H = in_use K ?f (txn_free n w, g\<lparr>released := n # released g\<rparr>)"
      using False by (auto simp: H in_use_def fl)
    with n show ?thesis by (blast intro: step_free_live)
  qed
  then obtain g' where g': "txn_step ps (Some c) K ?f (w, g) (txn_free n w, g')" "H = in_use K ?f (txn_free n w, g')" by blast
  then have "txn_reach ps (Some c) K w0 (txn_free n w, g')"
    using g(2) unfolding txn_reach_def by (meson rtranclp.rtrancl_into_rtrancl)
  then have "txn_holds ps c K w0 (txn_free n w) H" using g(1) g' txn_step_inv [OF g'(1) g(3)] by (auto simp: txn_holds_def)
  moreover have "bt_inv (w_dirty w)" using g(3) by (simp add: txn_inv_def)
  moreover have "txn_read ps (txn_free n w) q = txn_read ps w q" if "q \<in> H" for q
    using that assms(2) calculation(2) by (intro txn_free_read) auto
  ultimately show ?thesis by blast
qed

interpretation tree_txn: page_heap "txn_ops_of ps c" "txn_holds ps c K w0" for ps c K w0
  by unfold_locales (use txn_fresh txn_alloc_fails txn_give_back in \<open>auto simp: txn_ops_of_def\<close>)

section \<open>The tree operations inside a transaction\<close>

text \<open>
  A tree of height \<open>h\<close> in the transaction: its nodes and the pages \<open>F\<close> are together the pages in
  use, and no page belongs to two of them.
\<close>

definition tree_in :: "ext \<Rightarrow> mem_pager \<Rightarrow> nat \<Rightarrow> pgno set \<Rightarrow> write_txn \<Rightarrow> write_txn \<Rightarrow> nat \<Rightarrow> node \<Rightarrow> pgno set \<Rightarrow> bool" where
  "tree_in E ps c K w0 w h t F \<longleftrightarrow> txn_holds ps c K w0 w (set (spine t) \<union> F) \<and> set (spine t) \<inter> F = {} \<and>
     distinct (spine t) \<and> stored (crc32 E) (txn_read ps w) t \<and> ordered t \<and> full h t"

lemma planted_tree_in:
  "page_heap.planted (txn_ops_of ps c) (txn_holds ps c K w0) E h w F t w' \<longleftrightarrow>
   tree_in E ps c K w0 w' h t F \<and> (\<forall>q \<in> F. txn_read ps w' q = txn_read ps w q)"
  unfolding tree_txn.planted_def tree_txn.framed_def tree_in_def by (auto simp: txn_ops_of_def)

lemma tree_inD:
  assumes "tree_in E ps c K w0 w h t F"
  shows "stored (crc32 E) (t_read (txn_ops_of ps c) w) t" "ordered t" "full h t" "distinct (spine t)"
    "txn_holds ps c K w0 w (set (spine t) \<union> F)" "set (spine t) \<inter> F = {}"
  using assms by (simp_all add: tree_in_def txn_ops_of_def)

text \<open>The tree an edit has planted, seen as a map from keys to items.\<close>

lemma planted_map:
  assumes "page_heap.planted (txn_ops_of ps c) (txn_holds ps c K w0) E h' w F t' w'" "h' \<le> n" "\<forall>k. lookup k (items_of t') = m k"
  shows "\<exists>t'' h''. tree_in E ps c K w0 w' h'' t'' F \<and> root_of t' = root_of t'' \<and> h'' \<le> n \<and>
    (\<forall>k. lookup k (items_of t'') = m k) \<and> (\<forall>q \<in> F. txn_read ps w' q = txn_read ps w q)"
  using assms unfolding planted_tree_in by blast

lemma lookup_filter: "lookup k (filter (\<lambda>y. Q (skey y)) xs) = (if Q k then lookup k xs else None)"
  by (induction xs) auto

lemma lookup_put_item: "lookup k (put_item x xs) = (if k = skey x then Some x else lookup k xs)"
  using lookup_filter [of k "\<lambda>j. j < skey x" xs] lookup_filter [of k "\<lambda>j. skey x < j" xs]
  by (auto simp: put_item_def lookup_append split: option.split)

lemma lookup_del_item: "lookup k (del_item j xs) = (if k = j then None else lookup k xs)"
  using lookup_filter [of k "\<lambda>i. i \<noteq> j" xs] by (simp add: del_item_def)

text \<open>A file of four pages: three that are not the tree's, and a leaf with one item.\<close>

definition sample_file :: mem_pager where
  "sample_file = [page_zeroed, page_zeroed, page_zeroed, leaf_image hd_crc 3 [sample_item 2]]"

definition sample_txn :: write_txn where
  "sample_txn = txn_new 4 meta_default 0 [] [] \<lparr>snaps = [], next_id = 1\<rparr> []"

lemma sample_in: "tree_in (le_ext hd_crc) sample_file 100 {0, 1, 2} sample_txn sample_txn 0 (LeafNode 3 [sample_item 2]) {}"
proof -
  have inv: "txn_inv {0, 1, 2} [] (sample_txn, ghost0)"
    unfolding sample_txn_def by (rule txn_new_inv) (simp_all add: meta_default_def fl_ok_def)
  have three: "p = 3" if "p \<noteq> 0" "p \<noteq> 1" "p \<noteq> 2" "unat p < 4" for p :: pgno
  proof -
    have "unat p = 3" using that by (auto simp: word_unat_eq_iff)
    then show ?thesis by (simp add: word_unat_eq_iff)
  qed
  have "in_use {0, 1, 2} [] (sample_txn, ghost0) = {3}"
    using three by (auto simp: in_use_def live_page_def sample_txn_def txn_new_def)
  moreover have "w_freelist sample_txn = []" by (simp add: sample_txn_def txn_new_def)
  ultimately have "txn_holds sample_file 100 {0, 1, 2} sample_txn sample_txn {3}"
    using inv unfolding txn_holds_def txn_reach_def by auto
  moreover have "txn_read sample_file sample_txn 3 = Inr (leaf_image hd_crc 3 [sample_item 2])"
    by (simp add: txn_read_def sample_txn_def txn_new_def sample_file_def pager_read_def bt_get_def)
  ultimately show ?thesis using sample_leaf by (simp add: tree_in_def le_ext_def)
qed

text \<open>
  C9. Putting an item into a tree inside a write transaction either finds the map full or gives the
  root of a tree whose items are those before with the new one in the place of its key. The new tree
  takes no page that anything else uses, every other page reads as before, the bitmap page of an item
  that was replaced is given back unless the new item still uses it, and the height grows by one at
  most.
\<close>

theorem txn_put_correct:
  assumes "tree_in E ps c K w0 w h t (dropped x (items_of t) \<union> F)" "h < MAX_DEPTH" "item_ok x" "dropped x (items_of t) \<inter> F = {}"
  shows "outcome (put E (txn_ops_of ps c) (Some (root_of t)) x w) (\<lambda>(r, w'). \<exists>t' h'.
    tree_in E ps c K w0 w' h' t' F \<and> r = root_of t' \<and> h' \<le> Suc h \<and>
    (\<forall>k. lookup k (items_of t') = (if k = skey x then Some x else lookup k (items_of t))) \<and>
    (\<forall>q \<in> F. txn_read ps w' q = txn_read ps w q))"
proof -
  note t = tree_inD [OF assms(1)]
  show ?thesis
    by (rule outcome_mono [OF tree_txn.tree_put_spec [OF t(1-3) assms(2) t(4) assms(3) t(5,6) assms(4)]])
      (clarify, rule planted_map, assumption+, simp add: lookup_put_item)
qed

theorem txn_put_correct_witness:
  "outcome (put (le_ext hd_crc) (txn_ops_of sample_file 100) (Some 3) (sample_item 5) sample_txn) (\<lambda>(r, w'). \<exists>t' h'.
     tree_in (le_ext hd_crc) sample_file 100 {0, 1, 2} sample_txn w' h' t' {} \<and> r = root_of t' \<and> h' \<le> 1 \<and>
     lookup 2 (items_of t') = Some (sample_item 2) \<and> lookup 5 (items_of t') = Some (sample_item 5))"
proof (rule outcome_mono [OF txn_put_correct [of "le_ext hd_crc" sample_file 100 "{0, 1, 2}" sample_txn sample_txn 0
        "LeafNode 3 [sample_item 2]" "sample_item 5" "{}", unfolded root_of.simps]])
  show "item_ok (sample_item 5)"
    by (simp add: item_ok_def staged_ok_def leaf_push_def leaf_new_def leaf_fits_def layout_defs align_up_def sample_item_def)
qed (use sample_in in \<open>simp_all add: dropped_def MAX_DEPTH_def, fastforce\<close>)

text \<open>
  C10. Removing a key inside a write transaction either finds the map full or gives the root of a tree
  with the items of all other keys. The bitmap page of the item that went is given back, the other
  pages read as before.
\<close>

theorem txn_remove_correct:
  assumes "tree_in E ps c K w0 w h t (dropped_by_key k (items_of t) \<union> F)" "h < MAX_DEPTH" "dropped_by_key k (items_of t) \<inter> F = {}"
  shows "outcome (remove E (txn_ops_of ps c) (root_of t) k w) (\<lambda>(r, w'). \<exists>t' h'.
    tree_in E ps c K w0 w' h' t' F \<and> r = root_of t' \<and> h' \<le> Suc h \<and>
    (\<forall>j. lookup j (items_of t') = (if j = k then None else lookup j (items_of t))) \<and>
    (\<forall>q \<in> F. txn_read ps w' q = txn_read ps w q))"
proof -
  note t = tree_inD [OF assms(1)]
  show ?thesis
    by (rule outcome_mono [OF tree_txn.tree_remove_spec [OF t(1-3) assms(2) t(4-6) assms(3)]])
      (clarify, rule planted_map, assumption+, simp add: lookup_del_item)
qed

theorem txn_remove_correct_witness:
  "outcome (remove (le_ext hd_crc) (txn_ops_of sample_file 100) 3 2 sample_txn) (\<lambda>(r, w'). \<exists>t' h'.
     tree_in (le_ext hd_crc) sample_file 100 {0, 1, 2} sample_txn w' h' t' {} \<and> r = root_of t' \<and> h' \<le> 1 \<and>
     lookup 2 (items_of t') = None)"
proof (rule outcome_mono [OF txn_remove_correct [of "le_ext hd_crc" sample_file 100 "{0, 1, 2}" sample_txn sample_txn 0
        "LeafNode 3 [sample_item 2]" 2 "{}", unfolded root_of.simps]])
  have "base_pgno (sample_item 2) = None" by (simp add: base_pgno_def is_dense_def sample_item_def)
  then have none: "dropped_by_key 2 (items_of (LeafNode 3 [sample_item 2])) = {}" by (simp add: dropped_by_key_def)
  show "tree_in (le_ext hd_crc) sample_file 100 {0, 1, 2} sample_txn sample_txn 0 (LeafNode 3 [sample_item 2])
      (dropped_by_key 2 (items_of (LeafNode 3 [sample_item 2])) \<union> {})"
    unfolding none using sample_in by simp
qed (fastforce simp: MAX_DEPTH_def)+

text \<open>
  C12. Building a tree from ascending items inside a write transaction either finds the map full or
  gives the root of a tree with exactly those items, on pages nothing else uses. Below the fanout of
  one branch the tree has two levels at most.
\<close>

theorem txn_build_correct:
  assumes "txn_holds ps c K w0 w F" "\<forall>x \<in> set xs. item_ok x" "ssorted (map skey xs)"
  shows "outcome (build E (txn_ops_of ps c) xs w) (\<lambda>(r, w'). \<exists>t h.
    tree_in E ps c K w0 w' h t F \<and> r = root_of t \<and> items_of t = xs \<and> (length xs < BRANCH_CAPACITY \<longrightarrow> h \<le> 1) \<and>
    (\<forall>q \<in> F. txn_read ps w' q = txn_read ps w q))"
  by (rule outcome_mono [OF tree_txn.build_spec [OF assms]]) (auto simp: planted_tree_in)

theorem txn_build_correct_witness:
  "outcome (build (le_ext hd_crc) (txn_ops_of sample_file 100) [sample_item 5, sample_item 8] sample_txn) (\<lambda>(r, w'). \<exists>t h.
     tree_in (le_ext hd_crc) sample_file 100 {0, 1, 2} sample_txn w' h t {3} \<and> r = root_of t \<and>
     items_of t = [sample_item 5, sample_item 8] \<and> txn_read sample_file w' 3 = txn_read sample_file sample_txn 3)"
proof (rule outcome_mono [OF txn_build_correct [of sample_file 100 "{0, 1, 2}" sample_txn sample_txn "{3}"]])
  show "\<forall>x \<in> set [sample_item 5, sample_item 8]. item_ok x"
    by (simp add: item_ok_def staged_ok_def leaf_push_def leaf_new_def leaf_fits_def layout_defs align_up_def sample_item_def)
qed (use sample_in in \<open>auto simp: tree_in_def\<close>)

section \<open>Containers in a tree\<close>

text \<open>
  A tree in the transaction that stands for the map \<open>m\<close> from keys to sets of values: every item
  resolves to a container with the values of its key, on bitmap pages of its own.
\<close>

definition bitmap_tree :: "ext \<Rightarrow> mem_pager \<Rightarrow> nat \<Rightarrow> pgno set \<Rightarrow> write_txn \<Rightarrow> write_txn \<Rightarrow> nat \<Rightarrow> node \<Rightarrow> pgno set \<Rightarrow>
    (container_key \<rightharpoonup> u16 set) \<Rightarrow> bool" where
  "bitmap_tree E ps c K w0 w h t F m \<longleftrightarrow> tree_in E ps c K w0 w h t (set (dense_pages (items_of t)) \<union> F) \<and>
     distinct (dense_pages (items_of t)) \<and> set (dense_pages (items_of t)) \<inter> F = {} \<and>
     items_mean E (txn_read ps w) (items_of t) m \<and> dom m = skey ` set (items_of t)"

lemma bank_bitmap_tree: "page_heap.bank (txn_ops_of ps c) (txn_holds ps c K w0) E w h t F m = bitmap_tree E ps c K w0 w h t F m"
  unfolding tree_txn.bank_def bitmap_tree_def tree_in_def by (auto simp: txn_ops_of_def)

lemma read_txn_ops: "t_read (txn_ops_of ps c) = txn_read ps"
  by (simp add: txn_ops_of_def)

lemma sample_means: "item_means (le_ext crc) rd (sample_item k) {7}"
proof -
  have "cast_u16 (le_ext crc) [7, 0] = Some [7]"
  proof -
    have "bytes_u16 (le_ext crc) [7] = [7, 0]" by (simp add: le_ext_def to_le_def upt_conv_Cons)
    then show ?thesis using le_ext_ok [of crc] unfolding ext_ok_def by metis
  qed
  then show ?thesis
    by (simp add: item_means_def sample_item_def base_page_def leaf_cell_of_def cell_resolve_def base_check_def resolve_checked_def
        cell_container_def base_pgno_def is_dense_def)
qed

lemma sample_bitmaps:
  "bitmap_tree (le_ext hd_crc) sample_file 100 {0, 1, 2} sample_txn sample_txn 0 (LeafNode 3 [sample_item 2]) {} [2 \<mapsto> {7}]"
proof -
  have none: "dense_pages [sample_item 2] = []" by (simp add: dense_pages_def is_dense_def sample_item_def)
  show ?thesis using sample_in sample_means
    by (simp add: bitmap_tree_def items_mean_def none)
qed

text \<open>
  C8. Putting containers into a tree inside a write transaction always returns. It finds the map full,
  or the tree has grown too deep to descend half way through, or it gives the root of a tree that
  stands for the old map with the sets of the containers in the places of their keys, whatever
  representation each container gets: inline, a bitmap page, or a delta over the page that was there.
  The pages nothing refers to any more are given back and all others read as before.
\<close>

theorem put_containers_correct:
  assumes "bitmap_tree E ps c K w0 w h t F m" "ext_ok E" "ssorted (map fst queue)" "\<forall>(k, q) \<in> set queue. container_inv q"
  shows "\<exists>r. put_containers E (txn_ops_of ps c) (Some (root_of t)) queue w = Some r \<and> (case r of
     Inl e \<Rightarrow> exhausted e \<or> (\<exists>t' h' w' done rest. e = TooDeep (root_of t') \<and> MAX_DEPTH \<le> h' \<and> queue = done @ rest \<and>
       bitmap_tree E ps c K w0 w' h' t' F (upd m done))
   | Inr (root, w') \<Rightarrow> \<exists>t' h'. root = root_of t' \<and> bitmap_tree E ps c K w0 w' h' t' F (upd m queue) \<and>
       (\<forall>q \<in> F. txn_read ps w' q = txn_read ps w q))"
  using tree_txn.put_containers_loop [OF assms(1) [folded bank_bitmap_tree] assms(2-4)]
  unfolding put_containers_def tree_txn.batched_def bank_bitmap_tree read_txn_ops option.case .

theorem put_containers_correct_witness:
  "\<exists>r. put_containers (le_ext hd_crc) (txn_ops_of sample_file 100) (Some 3) [(2, Array [1, 4]), (5, Run [\<lparr>istart = 3, ilast = 9\<rparr>])] sample_txn = Some r \<and>
   (case r of Inl e \<Rightarrow> exhausted e \<or> (\<exists>root. e = TooDeep root)
    | Inr (root, w') \<Rightarrow> \<exists>t' h' m. root = root_of t' \<and>
        bitmap_tree (le_ext hd_crc) sample_file 100 {0, 1, 2} sample_txn w' h' t' {} m \<and> m 2 = Some {1, 4})"
proof -
  let ?q = "[(2, Array [1, 4]), (5, Run [\<lparr>istart = 3, ilast = 9\<rparr>])]"
  have "\<forall>(k, q) \<in> set ?q. container_inv q" by (simp add: runs_wf_def)
  from put_containers_correct [OF sample_bitmaps le_ext_ok _ this]
  obtain r where r: "put_containers (le_ext hd_crc) (txn_ops_of sample_file 100) (Some 3) ?q sample_txn = Some r"
    "case r of
     Inl e \<Rightarrow> exhausted e \<or> (\<exists>t' h' w' done rest. e = TooDeep (root_of t') \<and> MAX_DEPTH \<le> h' \<and> ?q = done @ rest \<and>
       bitmap_tree (le_ext hd_crc) sample_file 100 {0, 1, 2} sample_txn w' h' t' {} (upd [2 \<mapsto> {7}] done))
   | Inr (root, w') \<Rightarrow> \<exists>t' h'. root = root_of t' \<and> bitmap_tree (le_ext hd_crc) sample_file 100 {0, 1, 2} sample_txn w' h' t' {} (upd [2 \<mapsto> {7}] ?q) \<and>
       (\<forall>q \<in> {}. txn_read sample_file w' q = txn_read sample_file sample_txn q)"
    by (auto simp del: upd_simps)
  moreover have "upd [2 \<mapsto> {7}] ?q 2 = Some {1, 4}" by simp
  ultimately show ?thesis by (intro exI [of _ r]) (cases r; fastforce simp del: upd_simps)
qed

section \<open>Whole trees\<close>

lemma bitmap_tree_pages:
  "bitmap_tree E ps c K w0 w h t F m \<longleftrightarrow> txn_holds ps c K w0 w (set (pages_of t) \<union> F) \<and> set (pages_of t) \<inter> F = {} \<and>
     distinct (pages_of t) \<and> stored (crc32 E) (txn_read ps w) t \<and> ordered t \<and> full h t \<and>
     items_mean E (txn_read ps w) (items_of t) m \<and> dom m = skey ` set (items_of t)"
  unfolding bitmap_tree_def tree_in_def pages_parts by (auto simp: Un_assoc)

text \<open>
  C15. Copying a tree into a write transaction, from any store that holds it, finds the map of the
  destination full or gives the root of a tree of the same height that stands for the same sets, on
  pages nothing else uses, while everything else in the destination reads as before.
\<close>

theorem copy_tree_correct:
  assumes "stored (crc32 E) rd t" "ordered t" "full h t" "h < MAX_DEPTH" "items_mean E rd (items_of t) m" "dom m = skey ` set (items_of t)"
    and "txn_holds ps c K w0 w F"
  shows "outcome (copy_tree E rd (txn_ops_of ps c) (root_of t) w) (\<lambda>(r, w'). \<exists>t'. r = root_of t' \<and>
    bitmap_tree E ps c K w0 w' h t' F m \<and> (\<forall>q \<in> F. txn_read ps w' q = txn_read ps w q))"
  unfolding copy_tree_def
proof (rule outcome_mono [OF tree_txn.copy_rec_spec [OF assms(1,3,4,2) items_mean_dense_ok [OF assms(5)] assms(7)]])
  fix r
  assume "page_heap.copies (txn_ops_of ps c) (txn_holds ps c K w0) E rd h t w F r"
  then obtain t' w' where t': "r = (root_of t', w')" "tree_txn.framed ps c K w0 w F w' (set (pages_of t'))" "distinct (pages_of t')"
    "copy_at E rd (txn_read ps w') h t t'" by (auto simp: tree_txn.copies_def read_txn_ops)
  then have cp: "list_all2 (copied_item rd (txn_read ps w')) (items_of t) (items_of t')" by (simp add: copy_at_def)
  have keys: "map skey (items_of t') = map skey (items_of t)"
    using cp by (induction rule: list_all2_induct) (simp_all add: copied_fields(1))
  have "items_mean E (txn_read ps w') (items_of t') m"
    using cp assms(5) by (induction rule: list_all2_induct) (auto simp: items_mean_def copied_fields(1) intro: copied_means)
  moreover have "dom m = skey ` set (items_of t')" using assms(6) keys by (metis list.set_map)
  ultimately have "bitmap_tree E ps c K w0 w' h t' F m"
    using t' unfolding bitmap_tree_pages tree_txn.framed_def copy_at_def by auto
  moreover have "\<forall>q \<in> F. txn_read ps w' q = txn_read ps w q" using t'(2) by (simp add: tree_txn.framed_def read_txn_ops)
  ultimately show "(\<lambda>(r, w'). \<exists>t'. r = root_of t' \<and> bitmap_tree E ps c K w0 w' h t' F m \<and> (\<forall>q \<in> F. txn_read ps w' q = txn_read ps w q)) r"
    using t'(1) by auto
qed

theorem copy_tree_correct_witness:
  "outcome (copy_tree (le_ext hd_crc) sample_pages (txn_ops_of sample_file 100) 5 sample_txn) (\<lambda>(r, w'). \<exists>t'. r = root_of t' \<and>
     bitmap_tree (le_ext hd_crc) sample_file 100 {0, 1, 2} sample_txn w' 1 t' {3} [2 \<mapsto> {7}, 9 \<mapsto> {7}])"
proof -
  let ?E = "le_ext hd_crc" and ?m = "[2 \<mapsto> {7}, 9 \<mapsto> {7}]"
  have t: "stored (crc32 ?E) sample_pages sample_tree" "ordered sample_tree" "full 1 sample_tree" "1 < MAX_DEPTH"
    using sample_sound by (simp_all add: sound_tree_def sample_tree_def MAX_DEPTH_def le_ext_def)
  have m: "items_mean ?E sample_pages (items_of sample_tree) ?m" "dom ?m = skey ` set (items_of sample_tree)"
    using sample_means by (auto simp: sample_tree_def items_mean_def)
  have "txn_holds sample_file 100 {0, 1, 2} sample_txn sample_txn {3}" using sample_in by (simp add: tree_in_def)
  from copy_tree_correct [OF t m this] have "outcome (copy_tree ?E sample_pages (txn_ops_of sample_file 100) (root_of sample_tree) sample_txn)
    (\<lambda>(r, w'). \<exists>t'. r = root_of t' \<and> bitmap_tree ?E sample_file 100 {0, 1, 2} sample_txn w' 1 t' {3} ?m \<and>
      (\<forall>q \<in> {3}. txn_read sample_file w' q = txn_read sample_file sample_txn q))" .
  then have "outcome (copy_tree ?E sample_pages (txn_ops_of sample_file 100) (root_of sample_tree) sample_txn)
    (\<lambda>(r, w'). \<exists>t'. r = root_of t' \<and> bitmap_tree ?E sample_file 100 {0, 1, 2} sample_txn w' 1 t' {3} ?m)"
    by (rule outcome_mono) auto
  then show ?thesis by (simp add: sample_tree_def)
qed

text \<open>
  C19. Freeing a tree inside a write transaction succeeds and gives back each of its pages, those of its
  dense containers included, and no other: the pages in use are those beside the tree, unchanged.
\<close>

theorem free_tree_correct:
  assumes "bitmap_tree E ps c K w0 w h t F m" "h < MAX_DEPTH"
  shows "\<exists>w'. free_tree (txn_ops_of ps c) (root_of t) w = Inr w' \<and> txn_holds ps c K w0 w' F \<and>
    (\<forall>q \<in> F. txn_read ps w' q = txn_read ps w q)"
proof -
  have t: "stored (crc32 E) (t_read (txn_ops_of ps c) w) t" "full h t" "txn_holds ps c K w0 w (set (pages_of t) \<union> F)"
    "distinct (pages_of t)" "set (pages_of t) \<inter> F = {}" using assms(1) by (simp_all add: bitmap_tree_pages read_txn_ops)
  show ?thesis using tree_txn.free_tree_spec [OF t(1,2) assms(2) t(3-5)] by (auto simp: tree_txn.framed_def read_txn_ops)
qed

theorem free_tree_correct_witness:
  "\<exists>w'. free_tree (txn_ops_of sample_file 100) 3 sample_txn = Inr w' \<and> txn_holds sample_file 100 {0, 1, 2} sample_txn w' {}"
  using free_tree_correct [OF sample_bitmaps] by (auto simp: MAX_DEPTH_def)

end
