(* ===== verification/Big_Civil.thy ===== *)
theory Big_Civil
  imports Big_Prelude
begin

text \<open>
  \<^verbatim>\<open>crates/big-civil/src/lib.rs\<close>: the proleptic Gregorian calendar, its two directions, the
  texts of dates and times, and rounding to a calendar boundary. An \<^verbatim>\<open>i64\<close> is an integer kept in
  range by \<open>i64\<close>, the wrap-around of the type; the unsigned fields are integers as well, so that a
  subtraction means what it means in the source.
\<close>

section \<open>The calendar\<close>

definition i64 :: "int \<Rightarrow> int" where
  "i64 x = (x + 2 ^ 63) mod 2 ^ 64 - 2 ^ 63"

text \<open>Division of the machine, which rounds toward zero; the divisor is a positive constant.\<close>

definition quot :: "int \<Rightarrow> int \<Rightarrow> int" where
  "quot a b = (if 0 \<le> a then a div b else - ((- a) div b))"

definition SECONDS_PER_DAY :: int where "SECONDS_PER_DAY = 86400"

record civil =
  c_year :: int
  c_month :: int
  c_day :: int
  c_hour :: int
  c_minute :: int
  c_second :: int

definition civil_from_days :: "int \<Rightarrow> int \<times> int \<times> int" where
  "civil_from_days z0 =
     (let z = i64 (z0 + 719468);
          era = quot (if z \<ge> 0 then z else i64 (z - 146096)) 146097;
          doe = i64 (z - i64 (era * 146097)) mod 2 ^ 64;
          yoe = (doe - doe div 1460 + doe div 36524 - doe div 146096) div 365;
          y = i64 (yoe + i64 (era * 400));
          doy = doe - (365 * yoe + yoe div 4 - yoe div 100);
          mp = (5 * doy + 2) div 153;
          d = doy - (153 * mp + 2) div 5 + 1;
          m = (if mp < 10 then mp + 3 else mp - 9)
      in (if m \<le> 2 then i64 (y + 1) else y, m, d))"

definition days_from_civil :: "int \<Rightarrow> int \<Rightarrow> int \<Rightarrow> int" where
  "days_from_civil y0 m d =
     (let y = (if m \<le> 2 then i64 (y0 - 1) else y0);
          era = quot (if y \<ge> 0 then y else i64 (y - 399)) 400;
          yoe = i64 (y - i64 (era * 400)) mod 2 ^ 64;
          mp = (if m > 2 then m - 3 else m + 9);
          doy = (153 * mp + 2) div 5 + d - 1;
          doe = yoe * 365 + yoe div 4 - yoe div 100 + doy
      in i64 (i64 (i64 (era * 146097) + doe) - 719468))"

definition decompose :: "int \<Rightarrow> civil" where
  "decompose t =
     (let days = t div SECONDS_PER_DAY; secs = t mod SECONDS_PER_DAY;
          (y, m, d) = civil_from_days days
      in \<lparr>c_year = y, c_month = m, c_day = d, c_hour = secs div 3600,
          c_minute = secs div 60 mod 60, c_second = secs mod 60\<rparr>)"

definition is_leap_year :: "int \<Rightarrow> bool" where
  "is_leap_year y \<longleftrightarrow> (y mod 4 = 0 \<and> y mod 100 \<noteq> 0) \<or> y mod 400 = 0"

definition days_in_month :: "int \<Rightarrow> int \<Rightarrow> int" where
  "days_in_month y m =
     (if m \<in> {1, 3, 5, 7, 8, 10, 12} then 31
      else if m \<in> {4, 6, 9, 11} then 30
      else if m = 2 then (if is_leap_year y then 29 else 28)
      else 0)"

section \<open>Texts\<close>

text \<open>A text is the list of its bytes. \<^verbatim>\<open>digits\<close> folds over them and stops at one that is not a digit.\<close>

fun digits_from :: "int \<Rightarrow> string \<Rightarrow> int option" where
  "digits_from n [] = Some n"
| "digits_from n (c # cs) =
     (if 48 \<le> (of_char c :: int) \<and> (of_char c :: int) \<le> 57 then digits_from (n * 10 + (of_char c - 48)) cs else None)"

definition digits :: "string \<Rightarrow> int option" where
  "digits b = digits_from 0 b"

definition parse_date :: "string \<Rightarrow> int option" where
  "parse_date b =
     (if length b \<noteq> 10 \<or> b ! 4 \<noteq> CHR ''-'' \<or> b ! 7 \<noteq> CHR ''-'' then None
      else
       (case digits (take 4 b) of None \<Rightarrow> None
        | Some year \<Rightarrow>
       (case digits (take 2 (drop 5 b)) of None \<Rightarrow> None
        | Some month \<Rightarrow>
       (case digits (take 2 (drop 8 b)) of None \<Rightarrow> None
        | Some day \<Rightarrow>
            if month = 0 \<or> day = 0 \<or> day > days_in_month year month then None
            else Some (days_from_civil year month day)))))"

definition parse_datetime :: "string \<Rightarrow> int option" where
  "parse_datetime b =
     (if length b = 10 then map_option (\<lambda>d. i64 (d * SECONDS_PER_DAY)) (parse_date b)
      else if length b \<noteq> 19 \<or> (b ! 10 \<noteq> CHR '' '' \<and> b ! 10 \<noteq> CHR ''T'') \<or> b ! 13 \<noteq> CHR '':'' \<or> b ! 16 \<noteq> CHR '':'' then None
      else
       (case parse_date (take 10 b) of None \<Rightarrow> None
        | Some days \<Rightarrow>
       (case digits (take 2 (drop 11 b)) of None \<Rightarrow> None
        | Some hour \<Rightarrow>
       (case digits (take 2 (drop 14 b)) of None \<Rightarrow> None
        | Some minute \<Rightarrow>
       (case digits (take 2 (drop 17 b)) of None \<Rightarrow> None
        | Some second \<Rightarrow>
            if hour > 23 \<or> minute > 59 \<or> second > 59 then None
            else Some (i64 (days * SECONDS_PER_DAY + hour * 3600 + minute * 60 + second)))))))"

text \<open>\<^verbatim>\<open>{:04}\<close> and \<^verbatim>\<open>{:02}\<close> of the formatting library: zeros up to the width, after the sign.\<close>

fun dec :: "nat \<Rightarrow> string" where
  "dec n = (if n < 10 then [char_of (48 + n)] else dec (n div 10) @ [char_of (48 + n mod 10)])"

declare dec.simps [simp del]

definition pad :: "nat \<Rightarrow> string \<Rightarrow> string" where
  "pad w s = replicate (w - length s) (CHR ''0'') @ s"

definition fmt :: "nat \<Rightarrow> int \<Rightarrow> string" where
  "fmt w x = (if x < 0 then CHR ''-'' # pad (w - 1) (dec (nat (- x))) else pad w (dec (nat x)))"

definition format_date :: "int \<Rightarrow> string" where
  "format_date days =
     (let (y, m, d) = civil_from_days days in fmt 4 y @ ''-'' @ fmt 2 m @ ''-'' @ fmt 2 d)"

definition format_datetime :: "int \<Rightarrow> string" where
  "format_datetime t =
     (let c = decompose t
      in fmt 4 (c_year c) @ ''-'' @ fmt 2 (c_month c) @ ''-'' @ fmt 2 (c_day c) @ '' '' @
         fmt 2 (c_hour c) @ '':'' @ fmt 2 (c_minute c) @ '':'' @ fmt 2 (c_second c))"

section \<open>Rounding\<close>

datatype unit_of_time = Year | Quarter | Month | Week | Day | Hour | Minute | Second

definition lower :: "char \<Rightarrow> char" where
  "lower c = (if 65 \<le> (of_char c :: nat) \<and> (of_char c :: nat) \<le> 90 then char_of ((of_char c :: nat) + 32) else c)"

definition trim_end_s :: "string \<Rightarrow> string" where
  "trim_end_s s = rev (dropWhile (\<lambda>c. c = CHR ''s'') (rev s))"

definition unit_parse :: "string \<Rightarrow> unit_of_time option" where
  "unit_parse s =
     (let t = trim_end_s (map lower s) in
      if t = ''year'' then Some Year else if t = ''quarter'' then Some Quarter
      else if t = ''month'' then Some Month else if t = ''week'' then Some Week
      else if t = ''day'' then Some Day else if t = ''hour'' then Some Hour
      else if t = ''minute'' \<or> t = ''min'' then Some Minute
      else if t = ''second'' \<or> t = ''sec'' then Some Second
      else None)"

definition is_whole_days :: "unit_of_time \<Rightarrow> bool" where
  "is_whole_days u \<longleftrightarrow> u \<in> {Year, Quarter, Month, Week, Day}"

fun unit_name :: "unit_of_time \<Rightarrow> string" where
  "unit_name Year = ''year''"
| "unit_name Quarter = ''quarter''"
| "unit_name Month = ''month''"
| "unit_name Week = ''week''"
| "unit_name Day = ''day''"
| "unit_name Hour = ''hour''"
| "unit_name Minute = ''minute''"
| "unit_name Second = ''second''"

definition truncate_days :: "int \<Rightarrow> unit_of_time \<Rightarrow> int" where
  "truncate_days days u =
     (let (y, m, _) = civil_from_days days in
      case u of
        Year \<Rightarrow> days_from_civil y 1 1
      | Quarter \<Rightarrow> days_from_civil y ((m - 1) div 3 * 3 + 1) 1
      | Month \<Rightarrow> days_from_civil y m 1
      | Week \<Rightarrow> i64 (i64 (i64 (days + 3) div 7 * 7) - 3)
      | _ \<Rightarrow> days)"

definition truncate_secs :: "int \<Rightarrow> unit_of_time \<Rightarrow> int" where
  "truncate_secs t u =
     (case u of
        Second \<Rightarrow> t
      | Minute \<Rightarrow> i64 (t div 60 * 60)
      | Hour \<Rightarrow> i64 (t div 3600 * 3600)
      | _ \<Rightarrow> i64 (truncate_days (t div SECONDS_PER_DAY) u * SECONDS_PER_DAY))"

definition shift_months :: "int \<Rightarrow> int \<Rightarrow> int \<Rightarrow> int" where
  "shift_months y m n =
     (let total = (m - 1) + n in days_from_civil (i64 (y + total div 12)) (total mod 12 + 1) 1)"

definition next_days :: "int \<Rightarrow> unit_of_time \<Rightarrow> int" where
  "next_days days u =
     (let start = truncate_days days u; (y, m, _) = civil_from_days start in
      case u of
        Year \<Rightarrow> days_from_civil (i64 (y + 1)) 1 1
      | Quarter \<Rightarrow> shift_months y m 3
      | Month \<Rightarrow> shift_months y m 1
      | Week \<Rightarrow> i64 (start + 7)
      | _ \<Rightarrow> i64 (start + 1))"

definition next_secs :: "int \<Rightarrow> unit_of_time \<Rightarrow> int" where
  "next_secs t u =
     (let start = truncate_secs t u in
      case u of
        Second \<Rightarrow> i64 (start + 1)
      | Minute \<Rightarrow> i64 (start + 60)
      | Hour \<Rightarrow> i64 (start + 3600)
      | _ \<Rightarrow> i64 (next_days (start div SECONDS_PER_DAY) u * SECONDS_PER_DAY))"

definition to_days :: "int \<Rightarrow> int" where
  "to_days t = t div SECONDS_PER_DAY"

section \<open>Years of an era\<close>

lemma i64_id [simp]: "- (2 ^ 63) \<le> x \<Longrightarrow> x < 2 ^ 63 \<Longrightarrow> i64 x = x"
  by (simp add: i64_def)

lemma quot_floor:
  assumes "0 < b"
  shows "quot (if 0 \<le> z then z else z - (b - 1)) b = z div b"
proof (cases "0 \<le> z")
  case False
  have "(b - 1 - z) div b = - (z div b)"
  proof -
    have "z = b * (z div b) + z mod b" by simp
    moreover have "0 \<le> z mod b" "z mod b < b" using assms by simp_all
    ultimately have "b - 1 - z = b * (- (z div b)) + (b - 1 - z mod b)" "0 \<le> b - 1 - z mod b" "b - 1 - z mod b < b"
      by (simp_all add: algebra_simps)
    then show ?thesis by (rule int_div_pos_eq)
  qed
  with False assms show ?thesis by (simp add: quot_def)
qed (simp add: quot_def)

text \<open>
  An era is 400 years from the first of March. Year \<open>Y\<close> of an era begins at day \<open>year_start Y\<close> and
  the last one takes in the leap day of the era.
\<close>

definition year_start :: "int \<Rightarrow> int" where
  "year_start Y = 365 * Y + Y div 4 - Y div 100"

definition year_len :: "int \<Rightarrow> int" where
  "year_len Y = (if is_leap_year (Y + 1) then 366 else 365)"

definition year_of_era :: "int \<Rightarrow> int" where
  "year_of_era doe = (doe - doe div 1460 + doe div 36524 - doe div 146096) div 365"

lemma sub_div_mono:
  fixes a b k :: int
  assumes "a \<le> b" "0 < k"
  shows "a - a div k \<le> b - b div k"
proof -
  have "b \<le> a + (b - a) * k" using assms mult_left_mono [of 1 k "b - a"] by simp
  then have "b div k \<le> (a + (b - a) * k) div k" using assms by (intro zdiv_mono1) simp_all
  with assms show ?thesis by simp
qed

lemma year_of_era_mono:
  assumes "a \<le> b"
  shows "year_of_era a \<le> year_of_era b"
proof -
  have "x div 146096 = x div 36524 div 4" for x :: int by (simp add: zdiv_zmult2_eq [symmetric])
  moreover have "a div 36524 - a div 36524 div 4 \<le> b div 36524 - b div 36524 div 4"
    using assms by (intro sub_div_mono zdiv_mono1) simp_all
  ultimately show ?thesis
    unfolding year_of_era_def using sub_div_mono [OF assms, of 1460] by (intro zdiv_mono1) simp_all
qed

lemma year_table:
  "\<forall>Y \<in> set [0..399]. year_of_era (year_start Y) = Y \<and> year_of_era (year_start Y + year_len Y - 1) = Y \<and>
     (Y < 399 \<longrightarrow> year_start (Y + 1) = year_start Y + year_len Y)"
  by code_simp

lemma year_facts:
  assumes "0 \<le> Y" "Y \<le> 399"
  shows "year_of_era (year_start Y) = Y" "year_of_era (year_start Y + year_len Y - 1) = Y"
    "Y < 399 \<Longrightarrow> year_start (Y + 1) = year_start Y + year_len Y" "0 \<le> year_start Y"
    "year_start Y + year_len Y \<le> 146097"
proof -
  show "year_of_era (year_start Y) = Y" "year_of_era (year_start Y + year_len Y - 1) = Y"
    "Y < 399 \<Longrightarrow> year_start (Y + 1) = year_start Y + year_len Y"
    using year_table assms by simp_all
  have "Y div 100 \<le> Y div 4" using assms by (intro zdiv_mono2) simp_all
  then show "0 \<le> year_start Y" using assms by (simp add: year_start_def)
  have "Y div 4 \<le> 99" "3 \<le> Y div 100" if "300 \<le> Y" using that assms by presburger+
  then show "year_start Y + year_len Y \<le> 146097"
    using assms by (cases "300 \<le> Y") (auto simp: year_start_def year_len_def split: if_splits)
qed

definition in_era :: "int \<Rightarrow> int \<Rightarrow> bool" where
  "in_era Y doy \<longleftrightarrow> 0 \<le> Y \<and> Y \<le> 399 \<and> 0 \<le> doy \<and> doy < year_len Y"

definition era_day :: "int \<Rightarrow> int \<Rightarrow> int \<Rightarrow> int" where
  "era_day E Y doy = 146097 * E + year_start Y + doy - 719468"

definition month_start :: "int \<Rightarrow> int" where
  "month_start mp = (153 * mp + 2) div 5"

definition civil_of :: "int \<Rightarrow> int \<Rightarrow> int \<Rightarrow> int \<times> int \<times> int" where
  "civil_of E Y doy =
     (let mp = (5 * doy + 2) div 153;
          m = (if mp < 10 then mp + 3 else mp - 9)
      in (400 * E + Y + (if m \<le> 2 then 1 else 0), m, doy - month_start mp + 1))"

lemma year_of_era_eq:
  assumes "in_era Y doy"
  shows "year_of_era (year_start Y + doy) = Y" "0 \<le> year_start Y + doy" "year_start Y + doy < 146097"
proof -
  have Y: "0 \<le> Y" "Y \<le> 399" and doy: "0 \<le> doy" "doy < year_len Y" using assms by (auto simp: in_era_def)
  note f = year_facts [OF Y]
  show "0 \<le> year_start Y + doy" "year_start Y + doy < 146097" using f(4,5) doy by simp_all
  have "Y \<le> year_of_era (year_start Y + doy)"
    using year_of_era_mono [of "year_start Y" "year_start Y + doy"] f(1) doy by simp
  moreover have "year_of_era (year_start Y + doy) \<le> Y"
    using year_of_era_mono [of "year_start Y + doy" "year_start Y + year_len Y - 1"] f(2) doy by simp
  ultimately show "year_of_era (year_start Y + doy) = Y" by simp
qed

lemma in_era_ex:
  assumes "0 \<le> doe" "doe < 146097"
  shows "\<exists>Y doy. in_era Y doy \<and> doe = year_start Y + doy"
proof -
  have "\<exists>Y doy. in_era Y doy \<and> doe = year_start Y + doy"
    if "n < 400" "doe < year_start (int n) + year_len (int n)" for n
    using that
  proof (induction n)
    case 0
    then show ?case using assms by (intro exI [of _ 0] exI [of _ doe]) (simp add: in_era_def year_start_def)
  next
    case (Suc n)
    show ?case
    proof (cases "year_start (int (Suc n)) \<le> doe")
      case True
      with Suc.prems show ?thesis
        by (intro exI [of _ "int (Suc n)"] exI [of _ "doe - year_start (int (Suc n))"]) (auto simp: in_era_def)
    next
      case False
      then have "doe < year_start (int n) + year_len (int n)"
        using Suc.prems year_facts(3) [of "int n"] by (simp add: add.commute)
      with Suc show ?thesis by simp
    qed
  qed
  from this [of 399] assms show ?thesis by (simp add: year_start_def year_len_def is_leap_year_def)
qed

lemma era_day_ex: "\<exists>E Y doy. in_era Y doy \<and> z = era_day E Y doy"
proof -
  obtain Y doy where "in_era Y doy" "(z + 719468) mod 146097 = year_start Y + doy"
    using in_era_ex [of "(z + 719468) mod 146097"] by auto
  moreover have "z + 719468 = 146097 * ((z + 719468) div 146097) + (z + 719468) mod 146097" by simp
  ultimately have "z = era_day ((z + 719468) div 146097) Y doy" by (simp add: era_day_def)
  with \<open>in_era Y doy\<close> show ?thesis by blast
qed

lemma civil_from_era_day:
  assumes "in_era Y doy" "- (2 ^ 63) \<le> era_day E Y doy" "era_day E Y doy < 2 ^ 63 - 719468"
  shows "civil_from_days (era_day E Y doy) = civil_of E Y doy"
proof -
  define doe where "doe = year_start Y + doy"
  define z where "z = 146097 * E + doe"
  note y = year_of_era_eq [OF assms(1), folded doe_def]
  have z: "era_day E Y doy + 719468 = z" by (simp add: era_day_def z_def doe_def)
  have b: "- (2 ^ 63) + 719468 \<le> z" "z < 2 ^ 63" using assms(2,3) z by simp_all
  have E: "z div 146097 = E" using y by (simp add: z_def)
  have era: "quot (if z \<ge> 0 then z else i64 (z - 146096)) 146097 = E"
    using quot_floor [of 146097 z] b E by (simp split: if_splits)
  have "- 70000000000000 < E" "E < 70000000000000" using b y unfolding z_def by simp_all
  moreover have Y: "0 \<le> Y" "Y \<le> 399" using assms(1) by (auto simp: in_era_def)
  ultimately have ids: "i64 z = z" "i64 (z - i64 (E * 146097)) mod 2 ^ 64 = doe"
      "i64 (Y + i64 (E * 400)) = 400 * E + Y" "i64 (400 * E + Y + 1) = 400 * E + Y + 1"
    using b y by (simp_all add: z_def)
  have yoe: "(doe - doe div 1460 + doe div 36524 - doe div 146096) div 365 = Y"
    using y(1) by (simp only: year_of_era_def)
  have doy: "doe - (365 * Y + Y div 4 - Y div 100) = doy" by (simp add: doe_def year_start_def)
  have "civil_from_days (era_day E Y doy) =
      (let mp = (5 * doy + 2) div 153; d = doy - (153 * mp + 2) div 5 + 1; m = (if mp < 10 then mp + 3 else mp - 9)
       in (if m \<le> 2 then 400 * E + Y + 1 else 400 * E + Y, m, d))"
    unfolding civil_from_days_def by (simp only: Let_def z ids(1) era) (simp only: ids yoe doy)
  then show ?thesis by (auto simp: civil_of_def month_start_def Let_def)
qed

section \<open>Months\<close>

lemma div_eq_iff_bounds:
  fixes x k q :: int
  assumes "0 < k"
  shows "x div k = q \<longleftrightarrow> k * q \<le> x \<and> x < k * q + k"
proof
  assume "x div k = q"
  moreover have "x = k * (x div k) + x mod k" "0 \<le> x mod k" "x mod k < k" using assms by simp_all
  ultimately show "k * q \<le> x \<and> x < k * q + k" by simp
next
  assume "k * q \<le> x \<and> x < k * q + k"
  then show "x div k = q" using int_div_pos_eq [of x k q "x - k * q"] by simp
qed

lemma month_start_bounds: "5 * month_start k \<le> 153 * k + 2" "153 * k - 2 \<le> 5 * month_start k"
  using div_eq_iff_bounds [of 5 "153 * k + 2" "month_start k"] by (simp_all add: month_start_def)

lemma month_index:
  "(5 * doy + 2) div 153 = mp \<longleftrightarrow> month_start mp \<le> doy \<and> doy < month_start (mp + 1)"
  using month_start_bounds [of mp] month_start_bounds [of "mp + 1"]
  by (auto simp: div_eq_iff_bounds)

lemma leap_era: "is_leap_year (400 * E + y) = is_leap_year y"
proof -
  have "(y + 4 * (100 * E)) mod 4 = y mod 4" "(y + 100 * (4 * E)) mod 100 = y mod 100" "(y + 400 * E) mod 400 = y mod 400"
    by (simp_all only: mod_mult_self2)
  then show ?thesis by (simp add: is_leap_year_def add.commute)
qed

text \<open>The month a day of the year falls in, counted from March, and the days it has.\<close>

lemma month_cases:
  assumes "0 \<le> mp" "mp \<le> (11 :: int)"
  shows "mp = 0 \<or> mp = 1 \<or> mp = 2 \<or> mp = 3 \<or> mp = 4 \<or> mp = 5 \<or> mp = 6 \<or> mp = 7 \<or> mp = 8 \<or> mp = 9 \<or> mp = 10 \<or> mp = 11"
  using assms by presburger

lemma month_len:
  assumes "0 \<le> mp" "mp \<le> 11" "in_era Y 0" "m = (if mp < 10 then mp + 3 else mp - 9)"
  shows "month_start mp + days_in_month (400 * E + Y + (if m \<le> 2 then 1 else 0)) m
    = (if mp = 11 then year_len Y else month_start (mp + 1))"
  using month_cases [OF assms(1,2)] assms(3,4) leap_era [of E "Y + 1"]
  by (elim disjE) (simp_all add: month_start_def days_in_month_def year_len_def add.assoc)

definition valid_civil :: "int \<times> int \<times> int \<Rightarrow> bool" where
  "valid_civil c \<longleftrightarrow> (case c of (y, m, d) \<Rightarrow> 1 \<le> m \<and> m \<le> 12 \<and> 1 \<le> d \<and> d \<le> days_in_month y m)"

lemma month_of_day:
  assumes "in_era Y doy"
  shows "0 \<le> (5 * doy + 2) div 153" "(5 * doy + 2) div 153 \<le> 11"
    "month_start ((5 * doy + 2) div 153) \<le> doy"
    "doy < (if (5 * doy + 2) div 153 = 11 then year_len Y else month_start ((5 * doy + 2) div 153 + 1))"
proof -
  have doy: "0 \<le> doy" "doy < 366" "doy < year_len Y" using assms by (auto simp: in_era_def year_len_def split: if_splits)
  then show "0 \<le> (5 * doy + 2) div 153" "(5 * doy + 2) div 153 \<le> 11"
    using zdiv_mono1 [of "5 * doy + 2" 1827 153] by simp_all
  show "month_start ((5 * doy + 2) div 153) \<le> doy"
    "doy < (if (5 * doy + 2) div 153 = 11 then year_len Y else month_start ((5 * doy + 2) div 153 + 1))"
    using month_index [of doy "(5 * doy + 2) div 153"] doy(3) by auto
qed

lemma civil_of_valid:
  assumes "in_era Y doy"
  shows "valid_civil (civil_of E Y doy)"
proof -
  define mp where "mp = (5 * doy + 2) div 153"
  define m where "m = (if mp < 10 then mp + 3 else mp - 9)"
  note d = month_of_day [OF assms, folded mp_def]
  have "in_era Y 0" using assms by (auto simp: in_era_def)
  from month_len [OF d(1,2) this m_def, of E] d show ?thesis
    by (auto simp: valid_civil_def civil_of_def Let_def mp_def [symmetric] m_def [symmetric] split: if_splits)
      (auto simp: m_def split: if_splits)
qed

text \<open>The year and the month when both begin with March.\<close>

definition march_year :: "int \<Rightarrow> int \<Rightarrow> int" where
  "march_year y m = (if m \<le> 2 then y - 1 else y)"

definition march_month :: "int \<Rightarrow> int" where
  "march_month m = (if m > 2 then m - 3 else m + 9)"

lemma civil_of_ex:
  assumes "valid_civil (y, m, d)"
  shows "\<exists>E Y doy. in_era Y doy \<and> civil_of E Y doy = (y, m, d) \<and> 400 * E \<le> y \<and> y \<le> 400 * E + 400 \<and>
    E = march_year y m div 400 \<and> Y = march_year y m mod 400 \<and> doy = month_start (march_month m) + d - 1"
proof -
  define mp where "mp = (if m > 2 then m - 3 else m + 9)"
  define y' where "y' = (if m \<le> 2 then y - 1 else y)"
  define E Y doy where "E = y' div 400" and "Y = y' mod 400" and "doy = month_start mp + d - 1"
  have m: "m = (if mp < 10 then mp + 3 else mp - 9)" and mp: "0 \<le> mp" "mp \<le> 11"
    and d: "1 \<le> d" "d \<le> days_in_month y m"
    using assms by (auto simp: valid_civil_def mp_def)
  have y: "y = 400 * E + Y + (if m \<le> 2 then 1 else 0)" by (simp add: E_def Y_def y'_def)
  have Y: "0 \<le> Y" "Y \<le> 399" using pos_mod_bound [of 400 y'] by (simp_all add: Y_def)
  then have "in_era Y 0" by (simp add: in_era_def year_len_def)
  note len = month_len [OF mp this m, of E, folded y]
  have lo: "0 \<le> month_start mp" using mp(1) by (simp add: month_start_def)
  have hi: "month_start (mp + 1) \<le> 337" if "mp \<noteq> 11"
    using that mp month_start_bounds(1) [of "mp + 1"] by simp
  have doy: "0 \<le> doy" "month_start mp \<le> doy" "doy < (if mp = 11 then year_len Y else month_start (mp + 1))"
    using d lo len by (auto simp: doy_def)
  then have in_era: "in_era Y doy"
    using Y hi by (auto simp: in_era_def year_len_def split: if_splits)
  then have "doy < month_start (mp + 1)"
    using doy(3) by (auto simp: month_start_def in_era_def year_len_def split: if_splits)
  with doy(2) have "(5 * doy + 2) div 153 = mp" by (simp add: month_index)
  then have "civil_of E Y doy = (y, m, d)"
    using m y by (simp add: civil_of_def Let_def doy_def)
  moreover have "E = march_year y m div 400" "Y = march_year y m mod 400" "doy = month_start (march_month m) + d - 1"
    by (simp_all add: E_def Y_def doy_def y'_def mp_def march_year_def march_month_def)
  moreover have "400 * E \<le> y" "y \<le> 400 * E + 400" using y Y by auto
  ultimately show ?thesis using in_era by blast
qed

lemma days_from_civil_of:
  assumes "in_era Y doy" "- (2 ^ 63) \<le> era_day E Y doy" "era_day E Y doy < 2 ^ 63 - 719468"
  shows "(case civil_of E Y doy of (y, m, d) \<Rightarrow> days_from_civil y m d) = era_day E Y doy"
proof -
  define mp where "mp = (5 * doy + 2) div 153"
  define m where "m = (if mp < 10 then mp + 3 else mp - 9)"
  have Y: "0 \<le> Y" "Y \<le> 399" using assms by (auto simp: in_era_def)
  note d = month_of_day [OF assms(1), folded mp_def] and y = year_of_era_eq [OF assms(1)]
  have mp: "(if m > 2 then m - 3 else m + 9) = mp" using d(1,2) by (auto simp: m_def)
  have E: "- 70000000000000 < E" "E < 70000000000000" "- (2 ^ 63) \<le> E * 146097"
      "E * 146097 + (year_start Y + doy) < 2 ^ 63" "- (2 ^ 63) \<le> E * 146097 + (year_start Y + doy) - 719468"
    using assms(2,3) y(2,3) unfolding era_day_def by simp_all
  have cut: "(if m \<le> 2 then i64 (400 * E + Y + (if m \<le> 2 then 1 else 0) - 1)
      else 400 * E + Y + (if m \<le> 2 then 1 else 0)) = 400 * E + Y"
    using Y E(1,2) by simp
  have era: "quot (if 400 * E + Y \<ge> 0 then 400 * E + Y else i64 (400 * E + Y - 399)) 400 = E"
    using quot_floor [of 400 "400 * E + Y"] Y E(1,2) by (simp split: if_splits)
  define doe where "doe = year_start Y + doy"
  have yoe: "i64 (400 * E + Y - i64 (E * 400)) mod 2 ^ 64 = Y" using Y E(1,2) by simp
  have doy: "month_start mp + (doy - month_start mp + 1) - 1 = doy" by simp
  have "Y * 365 + Y div 4 - Y div 100 + doy = doe" by (simp add: doe_def year_start_def)
  then have sum: "i64 (i64 (i64 (E * 146097) + (Y * 365 + Y div 4 - Y div 100 + doy)) - 719468) = 146097 * E + doe - 719468"
    using E(3,4,5) y(2,3) by (simp add: doe_def)
  have "days_from_civil (400 * E + Y + (if m \<le> 2 then 1 else 0)) m (doy - month_start mp + 1) = 146097 * E + doe - 719468"
    unfolding days_from_civil_def by (simp only: Let_def cut era mp) (simp only: yoe month_start_def [symmetric] doy sum)
  then show ?thesis
    by (simp add: civil_of_def Let_def mp_def [symmetric] m_def [symmetric] era_day_def doe_def)
qed

text \<open>Days and dates correspond, as far as the arithmetic of \<^verbatim>\<open>i64\<close> is exact.\<close>

lemma civil_from_days_spec:
  assumes "- (2 ^ 63) \<le> z" "z < 2 ^ 63 - 719468"
  shows "valid_civil (civil_from_days z)" "civil_from_days z = (y, m, d) \<Longrightarrow> days_from_civil y m d = z"
proof -
  obtain E Y doy where e: "in_era Y doy" "z = era_day E Y doy" using era_day_ex by blast
  note c = civil_from_era_day [of Y doy E, folded e(2), OF e(1) assms]
  show "valid_civil (civil_from_days z)" using civil_of_valid [OF e(1)] by (simp add: c)
  show "days_from_civil y m d = z" if "civil_from_days z = (y, m, d)"
    using days_from_civil_of [of Y doy E, folded e(2), OF e(1) assms] that by (simp add: c)
qed

definition day_number :: "int \<Rightarrow> int \<Rightarrow> int \<Rightarrow> int" where
  "day_number y m d = 146097 * (march_year y m div 400) + year_start (march_year y m mod 400)
     + month_start (march_month m) + d - 1 - 719468"

lemma days_from_civil_spec:
  assumes "valid_civil (y, m, d)" "\<bar>y\<bar> \<le> 10 ^ 16"
  shows "civil_from_days (days_from_civil y m d) = (y, m, d)"
    "\<bar>days_from_civil y m d\<bar> \<le> 366 * (\<bar>y\<bar> + 400) + 719468" "days_from_civil y m d = day_number y m d"
proof -
  obtain E Y doy where e: "in_era Y doy" "civil_of E Y doy = (y, m, d)" "400 * E \<le> y" "y \<le> 400 * E + 400"
    and def: "E = march_year y m div 400" "Y = march_year y m mod 400" "doy = month_start (march_month m) + d - 1"
    using civil_of_ex [OF assms(1)] by blast
  note r = year_of_era_eq(2,3) [OF e(1)]
  have z: "- (2 ^ 63) \<le> era_day E Y doy" "era_day E Y doy < 2 ^ 63 - 719468"
    using e(3,4) r assms(2) by (simp_all add: era_day_def)
  have "days_from_civil y m d = era_day E Y doy" using days_from_civil_of [OF e(1) z] by (simp add: e(2))
  with civil_from_era_day [OF e(1) z] e(2) show "civil_from_days (days_from_civil y m d) = (y, m, d)" by simp
  show "\<bar>days_from_civil y m d\<bar> \<le> 366 * (\<bar>y\<bar> + 400) + 719468"
    using \<open>days_from_civil y m d = era_day E Y doy\<close> e(3,4) r by (simp add: era_day_def abs_if split: if_splits)
  show "days_from_civil y m d = day_number y m d"
    using \<open>days_from_civil y m d = era_day E Y doy\<close> by (simp add: era_day_def day_number_def def)
qed

lemma civil_year_bound:
  assumes "\<bar>e\<bar> \<le> 10 ^ 15" "civil_from_days e = (y, m, d)"
  shows "\<bar>y\<bar> \<le> 10 ^ 13"
proof -
  obtain E Y doy where e: "in_era Y doy" "e = era_day E Y doy" using era_day_ex by blast
  note r = year_of_era_eq(2,3) [OF e(1)]
  have "civil_of E Y doy = (y, m, d)"
    using civil_from_era_day [OF e(1), of E] assms e(2) by simp
  then have "y = 400 * E + Y \<or> y = 400 * E + Y + 1" by (auto simp: civil_of_def Let_def split: if_splits)
  moreover have "\<bar>146097 * E\<bar> \<le> 10 ^ 15 + 10 ^ 6" using assms(1) e(2) r by (simp add: era_day_def)
  ultimately show ?thesis using e(1) by (auto simp: in_era_def)
qed

end
