(* ===== verification/Big_Dates.thy ===== *)
theory Big_Dates
  imports Big_Civil
begin

section \<open>Texts read back\<close>

text \<open>The digits of a number at a fixed width.\<close>

fun fixed :: "nat \<Rightarrow> int \<Rightarrow> string" where
  "fixed 0 x = []"
| "fixed (Suc w) x = fixed w (x div 10) @ [char_of (48 + nat (x mod 10))]"

lemma length_fixed [simp]: "length (fixed w x) = w"
  by (induction w x rule: fixed.induct) simp_all

lemma digits_from_snoc:
  "digits_from n (s @ [c]) = (case digits_from n s of None \<Rightarrow> None | Some k \<Rightarrow> digits_from k [c])"
  by (induction n s rule: digits_from.induct) simp_all

lemma of_char_digit: "0 \<le> d \<Longrightarrow> d < 10 \<Longrightarrow> (of_char (char_of (48 + nat d)) :: int) = 48 + d"
proof -
  assume d: "0 \<le> d" "d < 10"
  then have "48 + nat d < 256" by simp
  then have "(of_char (char_of (48 + nat d) :: char) :: nat) = 48 + nat d" by (simp add: of_char_of)
  then show ?thesis using d by (metis of_nat_of_char int_nat_eq of_nat_add of_nat_numeral)
qed

lemma digits_fixed: "0 \<le> x \<Longrightarrow> x < 10 ^ w \<Longrightarrow> digits (fixed w x) = Some x"
proof (induction w x rule: fixed.induct)
  case (2 w x)
  have "x div 10 < 10 ^ w" using "2.prems" by (simp add: div_less_iff_less_mult)
  with "2.IH" "2.prems" have "digits (fixed w (x div 10)) = Some (x div 10)" by simp
  then show ?case
    by (simp add: digits_def digits_from_snoc of_char_digit del: of_char_of)
qed (simp add: digits_def)

lemma digits_fixed_unique: "digits s = Some x \<Longrightarrow> s = fixed (length s) x \<and> 0 \<le> x \<and> x < 10 ^ length s"
proof (induction s arbitrary: x rule: rev_induct)
  case (snoc c s)
  then obtain k where k: "digits s = Some k" "48 \<le> (of_char c :: int)" "(of_char c :: int) \<le> 57" "x = k * 10 + (of_char c - 48)"
    by (auto simp: digits_def digits_from_snoc split: option.splits if_splits)
  define d where "d = (of_char c :: int) - 48"
  have d: "0 \<le> d" "d < 10" "x = 10 * k + d" using k by (simp_all add: d_def)
  then have "x div 10 = k" "x mod 10 = d" by simp_all
  moreover have "char_of (48 + nat d) = c"
  proof -
    have "int (48 + nat d) = of_char c" using d by (simp add: d_def)
    then have "48 + nat d = of_char c" by (metis of_nat_of_char of_nat_eq_iff)
    then show ?thesis by simp
  qed
  ultimately show ?case using snoc.IH [OF k(1)] d by simp
qed (simp add: digits_def)

lemma fixed_zero: "fixed w 0 = replicate w (CHR ''0'')"
proof (induction w)
  case (Suc w)
  moreover have "char_of (48 :: nat) = CHR ''0''" by code_simp
  ultimately show ?case by (simp add: replicate_append_same)
qed simp

lemma pad_dec: "n < 10 ^ w \<Longrightarrow> 0 < w \<Longrightarrow> pad w (dec n) = fixed w (int n) \<and> length (dec n) \<le> w"
proof (induction n arbitrary: w rule: dec.induct)
  case (1 n)
  obtain v where w: "w = Suc v" using "1.prems" by (cases w) auto
  show ?case
  proof (cases "n < 10")
    case True
    then show ?thesis by (simp add: pad_def w dec.simps [of n] fixed_zero)
  next
    case False
    have "n div 10 < 10 ^ v" using "1.prems" w by (simp add: div_less_iff_less_mult)
    moreover from this False have "0 < v" by (cases v) auto
    ultimately have IH: "pad v (dec (n div 10)) = fixed v (int (n div 10))" "length (dec (n div 10)) \<le> v"
      using "1.IH" [OF False] by blast+
    then show ?thesis
      using False by (simp add: pad_def w dec.simps [of n] Suc_diff_le zdiv_int zmod_int nat_mod_distrib)
  qed
qed

lemma fmt_fixed: "0 \<le> x \<Longrightarrow> x < 10 ^ w \<Longrightarrow> 0 < w \<Longrightarrow> fmt w x = fixed w x"
proof -
  assume x: "0 \<le> x" "x < 10 ^ w" "0 < w"
  then have "nat x < 10 ^ w" by (simp add: nat_less_iff)
  from pad_dec [OF this x(3)] x show ?thesis by (simp add: fmt_def)
qed

lemma split_date:
  assumes "length s = 10"
  shows "s = take 4 s @ s ! 4 # take 2 (drop 5 s) @ s ! 7 # take 2 (drop 8 s)"
proof -
  have "s = take 4 s @ s ! 4 # drop 5 s" using id_take_nth_drop [of 4 s] assms by simp
  moreover have "drop 5 s = take 2 (drop 5 s) @ s ! 7 # drop 8 s" using id_take_nth_drop [of 2 "drop 5 s"] assms by simp
  moreover have "take 2 (drop 8 s) = drop 8 s" using assms by simp
  ultimately show ?thesis by simp
qed

lemma join_date:
  assumes "length a = 4" "length b = 2" "length c = 2"
  shows "(a @ x # b @ y # c) ! 4 = x" "(a @ x # b @ y # c) ! 7 = y" "take 4 (a @ x # b @ y # c) = a"
    "take 2 (drop 5 (a @ x # b @ y # c)) = b" "take 2 (drop 8 (a @ x # b @ y # c)) = c"
  using assms by (simp_all add: nth_append)

lemma join_time:
  assumes "length a = 10" "length b = 2" "length c = 2" "length d = 2"
  shows "(a @ x # b @ y # c @ w # d) ! 10 = x" "(a @ x # b @ y # c @ w # d) ! 13 = y" "(a @ x # b @ y # c @ w # d) ! 16 = w"
    "take 10 (a @ x # b @ y # c @ w # d) = a" "take 2 (drop 11 (a @ x # b @ y # c @ w # d)) = b"
    "take 2 (drop 14 (a @ x # b @ y # c @ w # d)) = c" "take 2 (drop 17 (a @ x # b @ y # c @ w # d)) = d"
  using assms by (simp_all add: nth_append)

lemma parse_fixed:
  assumes "valid_civil (y, m, d)" "0 \<le> y" "y \<le> 9999"
  shows "parse_date (fixed 4 y @ CHR ''-'' # fixed 2 m @ CHR ''-'' # fixed 2 d) = Some (days_from_civil y m d)"
proof -
  have "m \<le> 12" "1 \<le> m" "1 \<le> d" "d \<le> days_in_month y m" "d \<le> 31"
    using assms(1) by (auto simp: valid_civil_def days_in_month_def split: if_splits)
  moreover from this have "digits (fixed 4 y) = Some y" "digits (fixed 2 m) = Some m" "digits (fixed 2 d) = Some d"
    using assms by (simp_all add: digits_fixed del: fixed.simps)
  ultimately show ?thesis by (simp add: parse_date_def join_date del: fixed.simps)
qed

lemma parse_date_fixed:
  assumes "parse_date s = Some z"
  shows "\<exists>y m d. s = fixed 4 y @ CHR ''-'' # fixed 2 m @ CHR ''-'' # fixed 2 d \<and> valid_civil (y, m, d) \<and>
    0 \<le> y \<and> y \<le> 9999 \<and> z = days_from_civil y m d"
proof -
  have len: "length s = 10" "s ! 4 = CHR ''-''" "s ! 7 = CHR ''-''" using assms by (auto simp: parse_date_def split: if_splits)
  obtain y m d where p: "digits (take 4 s) = Some y" "digits (take 2 (drop 5 s)) = Some m" "digits (take 2 (drop 8 s)) = Some d"
    "m \<noteq> 0" "d \<noteq> 0" "d \<le> days_in_month y m" "z = days_from_civil y m d"
    using assms by (auto simp: parse_date_def split: if_splits option.splits)
  note f = digits_fixed_unique [OF p(1)] digits_fixed_unique [OF p(2)] digits_fixed_unique [OF p(3)]
  have "days_in_month y m = 0 \<or> m \<le> 12" by (simp add: days_in_month_def)
  then have "valid_civil (y, m, d)" using f p(4-6) len by (auto simp: valid_civil_def)
  moreover have "take 4 s = fixed 4 y" "take 2 (drop 5 s) = fixed 2 m" "take 2 (drop 8 s) = fixed 2 d"
    using f len by (simp_all add: min_def del: fixed.simps)
  ultimately show ?thesis using split_date [OF len(1)] f len p(7) by (intro exI conjI) (simp_all del: fixed.simps)
qed

definition four_digit_year :: "int \<Rightarrow> bool" where
  "four_digit_year z \<longleftrightarrow> - (2 ^ 63) \<le> z \<and> z < 2 ^ 63 - 719468 \<and>
     0 \<le> fst (civil_from_days z) \<and> fst (civil_from_days z) \<le> 9999"

lemma format_fixed:
  assumes "four_digit_year z" "civil_from_days z = (y, m, d)"
  shows "format_date z = fixed 4 y @ CHR ''-'' # fixed 2 m @ CHR ''-'' # fixed 2 d" "valid_civil (y, m, d)"
    "0 \<le> y" "y \<le> 9999" "days_from_civil y m d = z"
proof -
  have z: "- (2 ^ 63) \<le> z" "z < 2 ^ 63 - 719468" and y: "0 \<le> y" "y \<le> 9999"
    using assms by (simp_all add: four_digit_year_def)
  show v: "valid_civil (y, m, d)" using civil_from_days_spec(1) [OF z] assms(2) by simp
  show "0 \<le> y" "y \<le> 9999" by fact+
  show "days_from_civil y m d = z" by (rule civil_from_days_spec(2) [OF z assms(2)])
  have "m \<le> 12" "1 \<le> m" "1 \<le> d" "d \<le> 31"
    using v by (auto simp: valid_civil_def days_in_month_def split: if_splits)
  then show "format_date z = fixed 4 y @ CHR ''-'' # fixed 2 m @ CHR ''-'' # fixed 2 d"
    using y by (simp add: format_date_def assms(2) fmt_fixed del: fixed.simps)
qed

lemma date_text:
  assumes "four_digit_year z"
  shows "parse_date s = Some z \<longleftrightarrow> s = format_date z"
proof -
  obtain y m d where c: "civil_from_days z = (y, m, d)" by (cases "civil_from_days z")
  note f = format_fixed [OF assms c]
  show ?thesis
  proof
    assume "s = format_date z"
    then show "parse_date s = Some z" using parse_fixed [OF f(2,3,4)] f(1,5) by simp
  next
    assume "parse_date s = Some z"
    from parse_date_fixed [OF this] obtain y' m' d' where
      s: "s = fixed 4 y' @ CHR ''-'' # fixed 2 m' @ CHR ''-'' # fixed 2 d'" and
      v: "valid_civil (y', m', d')" "0 \<le> y'" "y' \<le> 9999" "z = days_from_civil y' m' d'" by blast
    from days_from_civil_spec(1) [OF v(1)] v have "civil_from_days z = (y', m', d')" by simp
    with c f(1) s show "s = format_date z" by simp
  qed
qed

lemma parse_datetime_fixed:
  assumes "length a = 10" "parse_date a = Some z" "0 \<le> h" "h \<le> 23" "0 \<le> mi" "mi \<le> 59" "0 \<le> s" "s \<le> 59"
  shows "parse_datetime (a @ CHR '' '' # fixed 2 h @ CHR '':'' # fixed 2 mi @ CHR '':'' # fixed 2 s)
    = Some (i64 (z * SECONDS_PER_DAY + h * 3600 + mi * 60 + s))"
proof -
  have g: "digits (fixed 2 h) = Some h" "digits (fixed 2 mi) = Some mi" "digits (fixed 2 s) = Some s"
    using assms by (simp_all add: digits_fixed del: fixed.simps)
  note j = join_time [OF assms(1), of "fixed 2 h" "fixed 2 mi" "fixed 2 s" "CHR '' ''" "CHR '':''" "CHR '':''"]
  show ?thesis using assms by (simp add: parse_datetime_def j g del: fixed.simps)
qed

lemma datetime_text:
  assumes "four_digit_year (t div 86400)"
  shows "parse_datetime (format_datetime t) = Some t"
proof -
  define z r where "z = t div 86400" and "r = t mod 86400"
  obtain y m d where c: "civil_from_days z = (y, m, d)" by (cases "civil_from_days z")
  note f = format_fixed [OF assms [folded z_def] c]
  have r: "0 \<le> r" "r < 86400" and t: "t = z * 86400 + r" by (simp_all add: r_def z_def)
  define h mi s where "h = r div 3600" and "mi = r div 60 mod 60" and "s = r mod 60"
  have b: "0 \<le> h" "h \<le> 23" "0 \<le> mi" "mi \<le> 59" "0 \<le> s" "s \<le> 59"
    using r zdiv_mono1 [of r 86399 3600] by (simp_all add: h_def mi_def s_def)
  have md: "m \<le> 12" "1 \<le> m" "1 \<le> d" "d \<le> 31"
    using f(2) by (auto simp: valid_civil_def days_in_month_def split: if_splits)
  have "decompose t = \<lparr>c_year = y, c_month = m, c_day = d, c_hour = h, c_minute = mi, c_second = s\<rparr>"
    by (simp add: decompose_def SECONDS_PER_DAY_def z_def [symmetric] r_def [symmetric] c h_def mi_def s_def)
  then have written: "format_datetime t = format_date z @ CHR '' '' # fixed 2 h @ CHR '':'' # fixed 2 mi @ CHR '':'' # fixed 2 s"
    using b f(3,4) md by (simp add: format_datetime_def format_date_def c fmt_fixed del: fixed.simps)
  have len: "length (format_date z) = 10" using f(1) by (simp del: fixed.simps)
  have pd: "parse_date (format_date z) = Some z" using date_text [OF assms] by (simp add: z_def)
  have "r div 3600 = r div 60 div 60" by (simp add: zdiv_zmult2_eq [symmetric])
  moreover have "r = r div 60 * 60 + r mod 60" "r div 60 = r div 60 div 60 * 60 + r div 60 mod 60" by simp_all
  ultimately have sum: "z * SECONDS_PER_DAY + h * 3600 + mi * 60 + s = t"
    unfolding h_def mi_def s_def SECONDS_PER_DAY_def using t by linarith
  have "i64 t = t" using days_from_civil_spec(2) [OF f(2)] f(3-5) t r by (simp add: abs_le_iff)
  then show ?thesis using parse_datetime_fixed [OF len pd b] by (simp only: written sum)
qed

lemma date_beyond_9999: "parse_date (format_date 2932897) = None"
proof -
  have "civil_from_days 2932897 = (10000, 1, 1)" by code_simp
  then have "length (format_date 2932897) = 11" by (simp add: format_date_def fmt_def pad_def dec.simps)
  then show ?thesis by (simp add: parse_date_def)
qed

lemma civil_from_days_overflows: "fst (civil_from_days (2 ^ 63 - 1)) < 0"
  by code_simp

section \<open>Properties\<close>

text \<open>
  C39. The two directions of the calendar are inverse to each other where the arithmetic of \<^verbatim>\<open>i64\<close> is
  exact: every 64-bit day count but the last 719468 has a real date (a month from 1 to 12, a day the
  month has) that gives the day back, and every real date of a year between minus and plus
  10000000000000000 comes back from its day.
\<close>

theorem civil_days_bijection:
  "(- (2 ^ 63) \<le> z \<and> z < 2 ^ 63 - 719468 \<longrightarrow>
      (case civil_from_days z of (y, m, d) \<Rightarrow>
         1 \<le> m \<and> m \<le> 12 \<and> 1 \<le> d \<and> d \<le> days_in_month y m \<and> days_from_civil y m d = z)) \<and>
   (\<bar>y\<bar> \<le> 10 ^ 16 \<and> 1 \<le> m \<and> m \<le> 12 \<and> 1 \<le> d \<and> d \<le> days_in_month y m \<longrightarrow>
      civil_from_days (days_from_civil y m d) = (y, m, d))"
  using civil_from_days_spec [of z] days_from_civil_spec(1) [of y m d]
  by (auto simp: valid_civil_def split: prod.splits)

theorem civil_days_bijection_witness:
  "civil_from_days 19737 = (2024, 1, 15) \<and> days_from_civil 2024 1 15 = 19737 \<and>
   civil_from_days (days_from_civil 2000 2 29) = (2000, 2, 29)"
proof -
  have "civil_from_days 19737 = (2024, 1, 15)" by code_simp
  moreover have "29 \<le> days_in_month 2000 2" by code_simp
  ultimately show ?thesis using civil_days_bijection [of 19737 2000 2 29] by simp
qed

text \<open>
  C40. Dates have one spelling: a text is read as a day of the years 0 to 9999 exactly when it is the
  text \<^verbatim>\<open>format_date\<close> writes for it, so no second spelling is accepted and what is written reads
  back; a moment of those years, written with its time, reads back as well.
\<close>

theorem date_text_roundtrip:
  assumes "four_digit_year (t div 86400)"
  shows "(parse_date s = Some (t div 86400) \<longleftrightarrow> s = format_date (t div 86400)) \<and>
         parse_datetime (format_datetime t) = Some t"
  using date_text [OF assms] datetime_text [OF assms] by blast

theorem date_text_roundtrip_witness:
  "parse_date ''2024-01-15'' = Some 19737 \<and> format_date 19737 = ''2024-01-15'' \<and>
   parse_datetime (format_datetime 1705314600) = Some 1705314600"
proof -
  have "four_digit_year 19737" "parse_date ''2024-01-15'' = Some 19737" by code_simp+
  with date_text_roundtrip [of 1705314600 "''2024-01-15''"] show ?thesis by simp
qed

end
