(* ===== verification/Big_Rounding.thy ===== *)
theory Big_Rounding
  imports Big_Civil
begin

text \<open>
  Rounding a day or a moment to a calendar boundary, the second half of
  \<^verbatim>\<open>crates/big-civil/src/lib.rs\<close>: every unit cuts time into intervals, rounding gives the start of the
  interval a moment falls in, and the boundary after it is the start of the following one.
\<close>

section \<open>Boundaries\<close>

text \<open>
  What the callers of a rounding rely on: a moment lies between its rounding and the boundary after it,
  and the intervals of two moments are the same one or do not meet.
\<close>

locale rounding =
  fixes trunc :: "int \<Rightarrow> int" and nxt :: "int \<Rightarrow> int" and D :: "int set"
  assumes inside: "e \<in> D \<Longrightarrow> trunc e \<le> e \<and> e < nxt e"
    and apart: "e \<in> D \<Longrightarrow> e' \<in> D \<Longrightarrow>
      (trunc e = trunc e' \<and> nxt e = nxt e') \<or> nxt e \<le> trunc e' \<or> nxt e' \<le> trunc e"
begin

lemma same_interval:
  assumes "e \<in> D" "e' \<in> D" "trunc e \<le> e'" "e' < nxt e"
  shows "trunc e' = trunc e" "nxt e' = nxt e"
  using apart [OF assms(1,2)] inside [OF assms(1)] inside [OF assms(2)] assms(3,4) by auto

lemma same_start:
  assumes "e \<in> D" "e' \<in> D" "trunc e' = trunc e"
  shows "trunc e \<le> e' \<and> e' < nxt e"
  using apart [OF assms(1,2)] inside [OF assms(1)] inside [OF assms(2)] assms(3) by auto

lemma boundary:
  assumes "e \<in> D" "nxt e \<in> D"
  shows "trunc (nxt e) = nxt e"
  using apart [OF assms] inside [OF assms(1)] inside [OF assms(2)] by auto

end

text \<open>
  A calendar unit numbers its intervals: \<open>start k\<close> is the first moment of interval \<open>k\<close> and \<open>key e\<close> the
  interval \<open>e\<close> falls in. That gives a rounding.
\<close>

locale calendar_unit =
  fixes start :: "int \<Rightarrow> int" and key :: "int \<Rightarrow> int" and D :: "int set"
  assumes bracket: "e \<in> D \<Longrightarrow> start (key e) \<le> e \<and> e < start (key e + 1)"
    and order: "e \<in> D \<Longrightarrow> e' \<in> D \<Longrightarrow> key e < key e' \<Longrightarrow> start (key e + 1) \<le> start (key e')"
begin

lemma is_rounding: "rounding (\<lambda>e. start (key e)) (\<lambda>e. start (key e + 1)) D"
proof
  fix e e' assume "e \<in> D" "e' \<in> D"
  then show "(start (key e) = start (key e') \<and> start (key e + 1) = start (key e' + 1)) \<or>
      start (key e + 1) \<le> start (key e') \<or> start (key e' + 1) \<le> start (key e)"
    using order [of e e'] order [of e' e] by (cases "key e" "key e'" rule: linorder_cases) auto
qed (rule bracket)

sublocale rounding "\<lambda>e. start (key e)" "\<lambda>e. start (key e + 1)" D
  by (rule is_rounding)

lemma scaled:
  assumes "0 < c"
  shows "calendar_unit (\<lambda>k. start k * c) (\<lambda>t. key (t div c)) {t. t div c \<in> D}"
proof
  fix t assume "t \<in> {t. t div c \<in> D}"
  then have "start (key (t div c)) \<le> t div c" "t div c + 1 \<le> start (key (t div c) + 1)" using bracket by force+
  then have "start (key (t div c)) * c \<le> (t div c) * c" "(t div c + 1) * c \<le> start (key (t div c) + 1) * c"
    using assms mult_right_mono [of _ _ c] by (metis less_imp_le)+
  moreover have "(t div c) * c \<le> t" "t < (t div c + 1) * c"
    using div_eq_iff_bounds [OF assms, of t "t div c"] by (simp_all add: algebra_simps)
  ultimately show "start (key (t div c)) * c \<le> t \<and> t < start (key (t div c) + 1) * c" by linarith
next
  fix t t' assume "t \<in> {t. t div c \<in> D}" "t' \<in> {t. t div c \<in> D}" "key (t div c) < key (t' div c)"
  then show "start (key (t div c) + 1) * c \<le> start (key (t' div c)) * c"
    using order [of "t div c" "t' div c"] assms by (simp add: mult_right_mono)
qed

end

subsection \<open>Months, quarters and years\<close>

definition month_day :: "int \<Rightarrow> int" where
  "month_day k = days_from_civil (k div 12) (k mod 12 + 1) 1"

definition month_key :: "int \<Rightarrow> int" where
  "month_key e = (case civil_from_days e of (y, m, _) \<Rightarrow> 12 * y + m - 1)"

lemma days_in_month_pos: "1 \<le> m \<Longrightarrow> m \<le> 12 \<Longrightarrow> 28 \<le> days_in_month y m"
  using month_cases [of "m - 1"] by (auto simp: days_in_month_def)

lemma month_succ:
  assumes "1 \<le> m" "m \<le> 12"
  shows "day_number (if m = 12 then y + 1 else y) (if m = 12 then 1 else m + 1) 1 = day_number y m 1 + days_in_month y m"
proof -
  define mp y' where "mp = march_month m" and "y' = march_year y m"
  define E Y where "E = y' div 400" and "Y = y' mod 400"
  have Y: "0 \<le> Y" "Y \<le> 399" using pos_mod_bound [of 400 y'] by (simp_all add: Y_def)
  then have e: "in_era Y 0" by (simp add: in_era_def year_len_def)
  have mp: "0 \<le> mp" "mp \<le> 11" "m = (if mp < 10 then mp + 3 else mp - 9)" using assms by (auto simp: mp_def march_month_def)
  have y: "400 * E + Y + (if m \<le> 2 then 1 else 0) = y" by (simp add: E_def Y_def y'_def march_year_def)
  note len = month_len [OF mp(1,2) e mp(3), of E, unfolded y]
  show ?thesis
  proof (cases "mp = 11")
    case True
    then have m: "m = 2" using mp(3) by simp
    have next_year: "146097 * ((y' + 1) div 400) + year_start ((y' + 1) mod 400) = 146097 * E + year_start Y + year_len Y"
    proof (cases "Y = 399")
      case True
      then have "y' + 1 = 400 * (E + 1)" by (simp add: E_def Y_def) (metis mult_div_mod_eq add.commute)
      then have "(y' + 1) div 400 = E + 1" "(y' + 1) mod 400 = 0" by simp_all
      with True show ?thesis by (simp add: year_start_def year_len_def is_leap_year_def)
    next
      case False
      have "y' + 1 = 400 * E + (Y + 1)" by (simp add: E_def Y_def)
      then have "(y' + 1) div 400 = E" "(y' + 1) mod 400 = Y + 1"
        using False Y by (simp_all add: div_eq_iff_bounds mod_eq_dvd_iff [symmetric] int_mod_pos_eq [of _ 400 E])
      with year_facts(3) [OF Y] False Y show ?thesis by simp
    qed
    from len True have "month_start 11 + days_in_month y 2 = year_len Y" by (simp add: m)
    moreover have "y' = y - 1" by (simp add: y'_def march_year_def m)
    ultimately show ?thesis
      using next_year by (simp add: day_number_def m march_year_def march_month_def E_def Y_def month_start_def)
  next
    case False
    have "march_year (if m = 12 then y + 1 else y) (if m = 12 then 1 else m + 1) = y'"
      "march_month (if m = 12 then 1 else m + 1) = mp + 1"
      using assms False by (auto simp: y'_def mp_def march_year_def march_month_def)
    then show ?thesis using len False by (simp add: day_number_def y'_def [symmetric] mp_def [symmetric])
  qed
qed

lemma month_day_step:
  assumes "\<bar>k\<bar> \<le> 10 ^ 16"
  shows "month_day (k + 1) = month_day k + days_in_month (k div 12) (k mod 12 + 1)" "month_day k < month_day (k + 1)"
proof -
  define y m where "y = k div 12" and "m = k mod 12 + 1"
  have k: "k = 12 * y + (m - 1)" "1 \<le> m" "m \<le> 12" using pos_mod_bound [of 12 k] by (simp_all add: y_def m_def)
  have y: "\<bar>y\<bar> \<le> 10 ^ 16 - 1" using assms k by simp
  have k1: "(k + 1) div 12 = (if m = 12 then y + 1 else y)" "(k + 1) mod 12 + 1 = (if m = 12 then 1 else m + 1)"
    using k by (auto simp: div_eq_iff_bounds int_mod_pos_eq [of _ 12 y] int_mod_pos_eq [of _ 12 "y + 1"])
  have v: "valid_civil (x, n, 1)" if "1 \<le> n" "n \<le> 12" for x n
    using days_in_month_pos [OF that, of x] that by (simp add: valid_civil_def)
  have "month_day (k + 1) = day_number (if m = 12 then y + 1 else y) (if m = 12 then 1 else m + 1) 1"
    unfolding month_day_def k1 using y k(2,3) by (intro days_from_civil_spec(3) v) auto
  moreover have "month_day k = day_number y m 1"
    unfolding month_day_def y_def [symmetric] m_def [symmetric] using y k(2,3) by (intro days_from_civil_spec(3) v) auto
  ultimately show s: "month_day (k + 1) = month_day k + days_in_month (k div 12) (k mod 12 + 1)"
    using month_succ [OF k(2,3), of y] by (simp add: y_def m_def)
  show "month_day k < month_day (k + 1)" using s days_in_month_pos [OF k(2,3), of y] by (simp add: y_def m_def)
qed

lemma month_day_mono:
  assumes "a \<le> b" "\<bar>a\<bar> \<le> 10 ^ 16" "\<bar>b\<bar> \<le> 10 ^ 16"
  shows "month_day a \<le> month_day b"
  using assms
proof (induction b rule: int_ge_induct)
  case (step i)
  then have "\<bar>i\<bar> \<le> 10 ^ 16" by simp
  with step month_day_step(2) [of i] show ?case by simp
qed simp

definition day_range :: "int set" where "day_range = {e. \<bar>e\<bar> \<le> 10 ^ 15}"

lemma month_key_bracket:
  assumes "e \<in> day_range"
  shows "\<bar>month_key e\<bar> \<le> 10 ^ 15" "month_day (month_key e) \<le> e" "e < month_day (month_key e + 1)"
    "\<exists>d. civil_from_days e = (month_key e div 12, month_key e mod 12 + 1, d)"
proof -
  obtain y m d where c: "civil_from_days e = (y, m, d)" by (cases "civil_from_days e")
  have e: "\<bar>e\<bar> \<le> 10 ^ 15" using assms by (simp add: day_range_def)
  have y: "\<bar>y\<bar> \<le> 10 ^ 13" using civil_year_bound [OF e c] .
  have v: "valid_civil (y, m, d)" "days_from_civil y m d = e"
    using civil_from_days_spec [of e, OF _ _ ] e c by force+
  then have m: "1 \<le> m" "m \<le> 12" "1 \<le> d" "d \<le> days_in_month y m" by (auto simp: valid_civil_def)
  have k: "month_key e = 12 * y + (m - 1)" by (simp add: month_key_def c)
  then have dm: "month_key e div 12 = y" "month_key e mod 12 + 1 = m"
    using m by (simp_all add: div_eq_iff_bounds int_mod_pos_eq [of _ 12 y])
  show b: "\<bar>month_key e\<bar> \<le> 10 ^ 15" using k y m by simp
  have "valid_civil (y, m, 1)" using m by (auto simp: valid_civil_def)
  then have "month_day (month_key e) = day_number y m 1"
    unfolding month_day_def dm using y by (intro days_from_civil_spec(3)) simp_all
  moreover have "e = day_number y m d" using days_from_civil_spec(3) [OF v(1)] v(2) y by simp
  ultimately have "e = month_day (month_key e) + d - 1" by (simp add: day_number_def)
  with m month_day_step(1) [of "month_key e"] b
  show "month_day (month_key e) \<le> e" "e < month_day (month_key e + 1)" by (simp_all add: dm)
  show "\<exists>d. civil_from_days e = (month_key e div 12, month_key e mod 12 + 1, d)" by (simp add: c dm)
qed

text \<open>Units of \<open>n\<close> months, for the month, the quarter and the year.\<close>

lemma months_unit:
  assumes "0 < n" "n \<le> 12"
  shows "calendar_unit (\<lambda>k. month_day (n * k)) (\<lambda>e. month_key e div n) day_range"
proof
  fix e assume e: "e \<in> day_range"
  note k = month_key_bracket [OF e]
  have d: "n * (month_key e div n) \<le> month_key e" "month_key e + 1 \<le> n * (month_key e div n + 1)"
    using div_eq_iff_bounds [OF assms(1), of "month_key e" "month_key e div n"] by (simp_all add: algebra_simps)
  moreover have "n * (month_key e div n + 1) \<le> month_key e + 12" using d(1) assms(2) by (simp add: algebra_simps)
  ultimately have "month_day (n * (month_key e div n)) \<le> month_day (month_key e)"
    "month_day (month_key e + 1) \<le> month_day (n * (month_key e div n + 1))"
    using k(1) assms by (intro month_day_mono; simp add: algebra_simps)+
  with k show "month_day (n * (month_key e div n)) \<le> e \<and> e < month_day (n * (month_key e div n + 1))" by linarith
next
  fix e e' assume e: "e \<in> day_range" "e' \<in> day_range" and lt: "month_key e div n < month_key e' div n"
  have d: "n * (x div n) \<le> x" "x < n * (x div n) + n" for x
    using div_eq_iff_bounds [OF assms(1), of x "x div n"] by simp_all
  have "n * (month_key e div n + 1) \<le> n * (month_key e' div n)" using lt assms by (intro mult_left_mono) simp_all
  moreover have "- (10 ^ 15) - 12 \<le> n * (month_key e div n)" "n * (month_key e' div n) \<le> 10 ^ 15"
    using d [of "month_key e"] d [of "month_key e'"] month_key_bracket(1) [OF e(1)] month_key_bracket(1) [OF e(2)] assms
    by simp_all
  ultimately show "month_day (n * (month_key e div n + 1)) \<le> month_day (n * (month_key e' div n))"
    using assms by (intro month_day_mono) (simp_all add: algebra_simps)
qed

subsection \<open>The units of days\<close>

fun unit_start :: "unit_of_time \<Rightarrow> int \<Rightarrow> int" where
  "unit_start Year k = month_day (12 * k)"
| "unit_start Quarter k = month_day (3 * k)"
| "unit_start Month k = month_day k"
| "unit_start Week k = 7 * k - 3"
| "unit_start _ k = k"

fun unit_key :: "unit_of_time \<Rightarrow> int \<Rightarrow> int" where
  "unit_key Year e = month_key e div 12"
| "unit_key Quarter e = month_key e div 3"
| "unit_key Month e = month_key e"
| "unit_key Week e = (e + 3) div 7"
| "unit_key _ e = e"

lemma unit_of_days: "calendar_unit (unit_start u) (unit_key u) day_range"
proof -
  have "calendar_unit (\<lambda>k. 7 * k - 3) (\<lambda>e. (e + 3) div 7) day_range"
  proof
    show "7 * ((e + 3) div 7) - 3 \<le> e \<and> e < 7 * ((e + 3) div 7 + 1) - 3" for e :: int
      using div_eq_iff_bounds [of 7 "e + 3" "(e + 3) div 7"] by simp
  qed simp
  moreover have "calendar_unit (\<lambda>k. k) (\<lambda>e. e) day_range" by unfold_locales simp_all
  ultimately show ?thesis
    using months_unit [of 12] months_unit [of 3] months_unit [of 1]
    by (cases u) (simp_all add: unit_start.simps [abs_def] unit_key.simps [abs_def])
qed

interpretation units: calendar_unit "unit_start u" "unit_key u" day_range for u
  by (rule unit_of_days)

lemma civil_month_day:
  assumes "\<bar>k\<bar> \<le> 10 ^ 16"
  shows "civil_from_days (month_day k) = (k div 12, k mod 12 + 1, 1)"
proof -
  have m: "1 \<le> k mod 12 + 1" "k mod 12 + 1 \<le> 12" using pos_mod_bound [of 12 k] by simp_all
  have "valid_civil (k div 12, k mod 12 + 1, 1)"
    using days_in_month_pos [OF m, of "k div 12"] m by (simp add: valid_civil_def)
  moreover have "12 * (k div 12) \<le> k" "k < 12 * (k div 12) + 12" using div_eq_iff_bounds [of 12 k "k div 12"] by simp_all
  then have "\<bar>k div 12\<bar> \<le> 10 ^ 16" using assms by simp
  ultimately show ?thesis unfolding month_day_def by (rule days_from_civil_spec(1))
qed

lemma shift_months_eq:
  assumes "\<bar>k\<bar> \<le> 10 ^ 16" "0 \<le> n" "n \<le> 12"
  shows "shift_months (k div 12) (k mod 12 + 1) n = month_day (k + n)"
proof -
  define r where "r = k mod 12"
  have r: "0 \<le> r" "r < 12" "k = 12 * (k div 12) + r" using pos_mod_bound [of 12 k] by (simp_all add: r_def)
  have "k + n = 12 * (k div 12) + (r + n)" using r(3) by simp
  then have e: "(k + n) div 12 = k div 12 + (r + n) div 12" "(k + n) mod 12 = (r + n) mod 12"
    by (simp_all only: div_mult_self4 mod_mult_self4)
  have "0 \<le> (r + n) div 12" "(r + n) div 12 \<le> 2" using r assms zdiv_mono1 [of "r + n" 24 12] by simp_all
  moreover have "\<bar>k div 12\<bar> \<le> 10 ^ 16" using r assms by simp
  ultimately have "i64 (k div 12 + (r + n) div 12) = k div 12 + (r + n) div 12" by simp
  then show ?thesis by (simp add: shift_months_def month_day_def e r_def Let_def)
qed

lemma quarter_month:
  fixes k :: int
  shows "3 * (k div 3) div 12 = k div 12" "3 * (k div 3) mod 12 = 3 * (k mod 12 div 3)"
proof -
  define q where "q = k div 3"
  have "3 * q div (3 * 4) = q div 4" "3 * q mod (3 * 4) = 3 * (q mod 4)"
    using div_mult_mult1 [of 3 q 4] mult_mod_right [of 3 q 4] by simp_all
  moreover have "k div (3 * 4) = q div 4" "k mod (3 * 4) = 3 * (q mod 4) + k mod 3"
    by (simp_all only: q_def zdiv_zmult2_eq zmod_zmult2_eq)
  moreover have "(3 * (q mod 4) + k mod 3) div 3 = q mod 4" by simp
  ultimately show "3 * (k div 3) div 12 = k div 12" "3 * (k div 3) mod 12 = 3 * (k mod 12 div 3)" by (simp_all add: q_def)
qed

lemma truncate_days_eq:
  assumes "e \<in> day_range"
  shows "truncate_days e u = unit_start u (unit_key u e)"
proof -
  obtain d where c: "civil_from_days e = (month_key e div 12, month_key e mod 12 + 1, d)"
    using month_key_bracket(4) [OF assms] by blast
  have "\<bar>e\<bar> \<le> 10 ^ 15" using assms by (simp add: day_range_def)
  moreover have "7 * ((e + 3) div 7) \<le> e + 3" "e + 3 < 7 * ((e + 3) div 7) + 7"
    using div_eq_iff_bounds [of 7 "e + 3" "(e + 3) div 7"] by simp_all
  ultimately have week: "i64 (i64 (i64 (e + 3) div 7 * 7) - 3) = 7 * ((e + 3) div 7) - 3" by simp
  show ?thesis
    using quarter_month [of "month_key e"]
    by (cases u) (simp_all add: truncate_days_def c week month_day_def mult.commute [of "month_key e mod 12 div 3" 3])
qed

lemma next_days_eq:
  assumes "e \<in> day_range"
  shows "next_days e u = unit_start u (unit_key u e + 1)"
proof -
  note t = truncate_days_eq [OF assms] and k = month_key_bracket(1) [OF assms]
  have b: "\<bar>n * (month_key e div n)\<bar> \<le> 10 ^ 15 + 12" if "0 < n" "n \<le> 12" for n
    using div_eq_iff_bounds [OF that(1), of "month_key e" "month_key e div n"] that(2) k by (simp add: abs_if split: if_splits)
  have e: "\<bar>e\<bar> \<le> 10 ^ 15" using assms by (simp add: day_range_def)
  moreover have "7 * ((e + 3) div 7) \<le> e + 3" "e + 3 < 7 * ((e + 3) div 7) + 7"
    using div_eq_iff_bounds [of 7 "e + 3" "(e + 3) div 7"] by simp_all
  ultimately have week: "i64 (7 * ((e + 3) div 7) - 3 + 7) = 7 * ((e + 3) div 7 + 1) - 3" by simp
  show ?thesis
  proof (cases u)
    case Year
    have "civil_from_days (month_day (12 * (month_key e div 12))) = (month_key e div 12, 1, 1)"
      using civil_month_day [of "12 * (month_key e div 12)"] b [of 12] by simp
    moreover have "i64 (month_key e div 12 + 1) = month_key e div 12 + 1" using b [of 12] by simp
    ultimately show ?thesis by (simp add: next_days_def t Year month_day_def)
  next
    case Quarter
    then show ?thesis
      using civil_month_day [of "3 * (month_key e div 3)"] shift_months_eq [of "3 * (month_key e div 3)" 3] b [of 3]
      by (simp add: next_days_def t algebra_simps)
  next
    case Month
    then show ?thesis
      using civil_month_day [of "month_key e"] shift_months_eq [of "month_key e" 1] k by (simp add: next_days_def t)
  qed (use week e in \<open>simp_all add: next_days_def t split: prod.splits\<close>)
qed

lemma rounding_cong:
  assumes "rounding t n D" "\<And>e. e \<in> D \<Longrightarrow> t' e = t e" "\<And>e. e \<in> D \<Longrightarrow> n' e = n e"
  shows "rounding t' n' D"
  using assms by (auto simp: rounding_def)

interpretation days: rounding "\<lambda>e. truncate_days e u" "\<lambda>e. next_days e u" day_range for u
  by (rule rounding_cong [OF calendar_unit.is_rounding [OF unit_of_days]]) (simp_all add: truncate_days_eq next_days_eq)

subsection \<open>The units of seconds\<close>

lemma month_day_growth:
  "\<bar>k\<bar> \<le> 10 ^ 15 + 12 \<Longrightarrow> n \<le> 12 \<Longrightarrow> month_day (k + int n) \<le> month_day k + 31 * int n"
proof (induction n)
  case (Suc n)
  have "days_in_month y m \<le> 31" for y m by (simp add: days_in_month_def)
  moreover have "\<bar>k + int n\<bar> \<le> 10 ^ 16" using Suc.prems by simp
  ultimately have "month_day (k + int n + 1) \<le> month_day (k + int n) + 31"
    using month_day_step(1) [of "k + int n"] by simp
  then have "month_day (k + int (Suc n)) \<le> month_day (k + int n) + 31" by (simp only: of_nat_Suc add.assoc [symmetric] add.commute [of 1])
  with Suc show ?case by simp
qed simp

lemma unit_length:
  assumes "e \<in> day_range"
  shows "next_days e u \<le> truncate_days e u + 372"
proof -
  have b: "\<bar>n * (month_key e div n)\<bar> \<le> 10 ^ 15 + 12" if "0 < n" "n \<le> 12" for n
    using div_eq_iff_bounds [OF that(1), of "month_key e" "month_key e div n"] that(2) month_key_bracket(1) [OF assms]
    by (simp add: abs_if split: if_splits)
  show ?thesis
    using month_day_growth [of "month_key e" 1] month_day_growth [of "3 * (month_key e div 3)" 3]
      month_day_growth [of "12 * (month_key e div 12)" 12] b [of 1] b [of 3] b [of 12]
    by (cases u) (simp_all add: truncate_days_eq next_days_eq assms algebra_simps)
qed

text \<open>The 64-bit range of seconds, less the margin in which a boundary may fall outside it.\<close>

definition second_range :: "int set" where "second_range = {t. \<bar>t\<bar> \<le> 92 * 10 ^ 17 + 10 ^ 8}"

lemma second_day:
  assumes "t \<in> second_range"
  shows "t div 86400 \<in> day_range" "\<bar>t div 86400\<bar> \<le> 1065 * 10 ^ 11"
proof -
  show "\<bar>t div 86400\<bar> \<le> 1065 * 10 ^ 11"
    using assms div_eq_iff_bounds [of 86400 t "t div 86400"] by (simp add: second_range_def)
  then show "t div 86400 \<in> day_range" by (simp add: day_range_def)
qed

lemma rounding_subset: "rounding t n D \<Longrightarrow> D' \<subseteq> D \<Longrightarrow> rounding t n D'"
  unfolding rounding_def by blast

lemma truncate_next_secs:
  assumes "t \<in> second_range" "is_whole_days u"
  shows "truncate_secs t u = truncate_days (t div 86400) u * 86400"
    "next_secs t u = next_days (t div 86400) u * 86400"
proof -
  let ?d = "t div 86400"
  note d = second_day [OF assms(1)]
  have b: "truncate_days ?d u \<le> ?d" "?d < next_days ?d u" "next_days ?d u \<le> truncate_days ?d u + 372"
    using days.inside [OF d(1), of u] unit_length [OF d(1), of u] by simp_all
  then have r: "\<bar>truncate_days ?d u\<bar> \<le> 1065 * 10 ^ 11 + 372" "\<bar>next_days ?d u\<bar> \<le> 1065 * 10 ^ 11 + 372"
    using d(2) by (auto simp: abs_le_iff)
  have "i64 (truncate_days ?d u * 86400) = truncate_days ?d u * 86400" using r by simp
  then show t: "truncate_secs t u = truncate_days ?d u * 86400"
    using assms(2) by (cases u) (simp_all add: truncate_secs_def SECONDS_PER_DAY_def is_whole_days_def)
  have "truncate_days ?d u \<in> day_range" using r by (simp add: day_range_def)
  then have "next_days (truncate_days ?d u) u = next_days ?d u"
    using b by (intro days.same_interval(2) [OF d(1)]) simp_all
  moreover have "i64 (next_days ?d u * 86400) = next_days ?d u * 86400" using r by simp
  ultimately show "next_secs t u = next_days ?d u * 86400"
    using assms(2) t by (cases u) (simp_all add: next_secs_def SECONDS_PER_DAY_def is_whole_days_def)
qed

lemma clock_secs:
  assumes "t \<in> second_range" "(u, c) \<in> {(Second, 1), (Minute, 60), (Hour, 3600)}"
  shows "truncate_secs t u = t div c * c" "next_secs t u = (t div c + 1) * c"
proof -
  have t: "\<bar>t\<bar> \<le> 92 * 10 ^ 17 + 10 ^ 8" using assms(1) by (simp add: second_range_def)
  have "i64 (t div c * c) = t div c * c" "i64 (t div c * c + c) = t div c * c + c" if "0 < c" "c \<le> 3600"
    using div_eq_iff_bounds [OF that(1), of t "t div c"] that t by (auto simp: mult.commute abs_le_iff intro!: i64_id)
  then show "truncate_secs t u = t div c * c" "next_secs t u = (t div c + 1) * c"
    using assms(2) by (auto simp: truncate_secs_def next_secs_def algebra_simps)
qed

interpretation secs: rounding "\<lambda>t. truncate_secs t u" "\<lambda>t. next_secs t u" second_range for u
proof (cases "is_whole_days u")
  case True
  have "rounding (\<lambda>t. unit_start u (unit_key u (t div 86400)) * 86400)
      (\<lambda>t. unit_start u (unit_key u (t div 86400) + 1) * 86400) second_range"
    by (rule rounding_subset [OF calendar_unit.is_rounding [OF calendar_unit.scaled [OF unit_of_days, of 86400]]])
      (auto dest: second_day)
  then show "rounding (\<lambda>t. truncate_secs t u) (\<lambda>t. next_secs t u) second_range"
    by (rule rounding_cong) (simp_all add: truncate_next_secs True truncate_days_eq next_days_eq second_day(1))
next
  case False
  have "calendar_unit (\<lambda>k. k) (\<lambda>e. e) UNIV" by unfold_locales simp_all
  then have r: "rounding (\<lambda>t. t div c * c) (\<lambda>t. (t div c + 1) * c) second_range" if "0 < c" for c
    using calendar_unit.is_rounding [OF calendar_unit.scaled [OF _ that, of "\<lambda>k. k" "\<lambda>e. e" UNIV]]
    by (auto intro: rounding_subset)
  obtain c :: int where c: "(u, c) \<in> {(Second, 1), (Minute, 60), (Hour, 3600)}" using False by (cases u) (auto simp: is_whole_days_def)
  then have "0 < c" by auto
  from r [OF this] show "rounding (\<lambda>t. truncate_secs t u) (\<lambda>t. next_secs t u) second_range"
    by (rule rounding_cong) (simp_all add: clock_secs [OF _ c])
qed

text \<open>A boundary is at most 372 days away.\<close>

lemma next_secs_near:
  assumes "t \<in> second_range"
  shows "next_secs t u \<le> t + 10 ^ 8"
proof (cases "is_whole_days u")
  case True
  have "next_days (t div 86400) u \<le> t div 86400 + 372"
    using unit_length [OF second_day(1) [OF assms], of u] days.inside [OF second_day(1) [OF assms], of u] by simp
  moreover have "t div 86400 * 86400 \<le> t" by simp
  ultimately show ?thesis unfolding truncate_next_secs(2) [OF assms True] by simp
next
  case False
  obtain c :: int where c: "(u, c) \<in> {(Second, 1), (Minute, 60), (Hour, 3600)}" using False by (cases u) (auto simp: is_whole_days_def)
  moreover have "t div c * c \<le> t" using c by auto
  ultimately show ?thesis unfolding clock_secs(2) [OF assms c] by (auto simp: algebra_simps)
qed

text \<open>
  At the two ends of the range the arithmetic wraps (a build with overflow checks panics there), so a
  statement about rounding has to stay clear of them.
\<close>

lemma rounding_wraps_at_the_ends:
  "next_secs (2 ^ 63 - 1) Second = - (2 ^ 63)" "- (2 ^ 63) < truncate_secs (- (2 ^ 63)) Minute"
  by code_simp+

section \<open>Properties\<close>

text \<open>
  C38. Rounding a moment cuts time into intervals. For every unit, from the second to the year, and all
  moments within 9200000000000000000 seconds (about 291 billion years) of the epoch, which is the
  64-bit range but for a margin at its ends: a moment lies in the half-open range from
  \<^verbatim>\<open>truncate\<close> to \<^verbatim>\<open>next\<close>, the moments of that range and no others round to the same start, and the
  boundary after it is a start itself. That is what lets a comparison with a rounded time be answered
  as a range. Closer to the ends of the 64-bit range the boundary may not be representable.
\<close>

theorem truncate_partitions_time:
  assumes "\<bar>t\<bar> \<le> 92 * 10 ^ 17"
  shows "truncate_secs t u \<le> t \<and> t < next_secs t u \<and> truncate_secs (next_secs t u) u = next_secs t u \<and>
    (\<forall>s. \<bar>s\<bar> \<le> 92 * 10 ^ 17 \<longrightarrow>
       (truncate_secs t u \<le> s \<and> s < next_secs t u \<longleftrightarrow> truncate_secs s u = truncate_secs t u))"
proof -
  have t: "t \<in> second_range" using assms by (simp add: second_range_def)
  have "next_secs t u \<in> second_range"
    using next_secs_near [OF t, of u] secs.inside [OF t, of u] assms by (auto simp: second_range_def abs_le_iff)
  note r = t this
  have "truncate_secs t u \<le> s \<and> s < next_secs t u \<longleftrightarrow> truncate_secs s u = truncate_secs t u" if "\<bar>s\<bar> \<le> 92 * 10 ^ 17" for s
  proof -
    have s: "s \<in> second_range" using that by (simp add: second_range_def)
    show ?thesis using secs.same_interval(1) [OF r(1) s] secs.same_start [OF r(1) s] by blast
  qed
  then show ?thesis using secs.inside [OF r(1), of u] secs.boundary [OF r] by blast
qed

theorem truncate_partitions_time_witness:
  "truncate_secs (-1) Month = -2678400 \<and> truncate_secs (-1) Month \<le> -1 \<and>
   truncate_secs (next_secs (-1) Month) Month = next_secs (-1) Month \<and> next_secs (-1) Month = 0"
proof -
  have "truncate_secs (-1) Month = -2678400" "next_secs (-1) Month = 0" by code_simp+
  with truncate_partitions_time [of "-1" Month] show ?thesis by simp
qed

end
