(* ===== verification/Spec2Isabelle.thy ===== *)
theory Spec2Isabelle
  imports Big_Cardinality Big_Leaf Big_Branch Big_Reclaim Big_TreeTxn Big_Dates Big_Rounding
begin

text \<open>
  \<^bold>\<open>The storage core of the database.\<close> The program keeps bitmaps in one file. A bitmap is cut into
  containers of at most 65536 values; a container is an item of a copy-on-write B-tree; the nodes of
  the tree are pages of 8192 bytes; the pages belong to a store that gives them out, takes them back
  and commits them atomically. The development follows these layers from the bottom up. Everything is
  translated from the Rust sources under \<^verbatim>\<open>src/crates\<close>.

  \<^bold>\<open>Conventions.\<close> A Rust \<^verbatim>\<open>Result\<close> is a sum with the error on the left, and \<^verbatim>\<open>?\<close> is \<open>rbind\<close>. Integers
  that are stored or combined bitwise are words of their width (\<open>u8\<close>, \<open>u16\<close>, \<open>u32\<close>, \<open>u64\<close>); a
  \<^verbatim>\<open>usize\<close> that only counts or indexes is a natural number; the calendar keeps 64-bit signed integers
  as integers with the wrap-around \<open>i64\<close> written out. A page is a byte list. A mutable receiver is
  passed and returned. \<^verbatim>\<open>crc32fast\<close> and \<^verbatim>\<open>bytemuck\<close> are not part of the repository: the checksum
  is a function \<open>crc\<close> about which nothing is assumed, and the slice casts are fields of the record \<open>ext\<close>
  with the laws \<open>ext_ok\<close>; \<open>le_ext\<close> is a little-endian instance of them. Proof-only definitions (ghost
  state, denotations, invariants) are not in the map of definitions to sources.

  \<^bold>\<open>Containers\<close> (\<^verbatim>\<open>big-container\<close>).
  \<^item> \<open>Big_Prelude\<close>, \<open>Big_Bytes\<close>: bits of a word, binary search as the locale \<open>searchable\<close>, little-endian
    bytes, reads and writes of byte ranges.
  \<^item> \<open>Big_Container\<close>: \<^verbatim>\<open>interval.rs\<close>, \<^verbatim>\<open>container/mod.rs\<close>, \<^verbatim>\<open>optimize.rs\<close>. \<open>container_inv\<close> is the
    well-formedness of a container and \<open>elems\<close> the set it stands for. Iteration, membership, insertion
    and removal are those of the set; \<open>optimize\<close> keeps the set and gives the smallest representation.
  \<^item> \<open>Big_SetOps\<close>, \<open>Big_Cardinality\<close>: \<^verbatim>\<open>ops/\<close> and \<^verbatim>\<open>builder.rs\<close>. All pairs of representations under all
    four operations give the set operation; the builder is the locale \<open>ascending_sink\<close>; counting an
    intersection agrees with building it. \<open>built\<close> are the containers any sequence of operations gives;
    all of them are well formed.
  \<^item> \<open>Big_Delta\<close>: \<^verbatim>\<open>delta.rs\<close>. A point read through a delta, the materialised bitmap and the
    cardinality agree.

  \<^bold>\<open>Pages\<close> (\<^verbatim>\<open>big-page\<close>).
  \<^item> \<open>Big_Page\<close>: header, checksum, the cell index and its validation, the laying out of cells.
  \<^item> \<open>Big_Leaf\<close>, \<open>Big_Branch\<close>: builders and readers at the byte level. What is pushed is read back, a
    reader of arbitrary bytes stays inside the page, the search of a leaf and the routing of a branch
    are those of the sorted keys, a dense page with a wrong checksum is refused.
  \<^item> \<open>Big_Chain\<close>: chains of pages, with the page store as the locale \<open>page_store\<close> and the memory
    backend of \<^verbatim>\<open>big-pager/src/mem.rs\<close> as its first instance. Chains read back; cycles are detected.

  \<^bold>\<open>The store\<close> (\<^verbatim>\<open>big-pager\<close>).
  \<^item> \<open>Big_Map\<close>: the ordered map of the standard library as the locale \<open>ordered_map\<close>.
  \<^item> \<open>Big_Records\<close>: fragment keys, root records, snapshots, the meta page.
  \<^item> \<open>Big_Freelist\<close>: runs of free pages. A freelist stands for the multiset of its pages with the
    transaction that freed each; every operation is described by what it does to that multiset, and the
    loop that finds pages for the list itself ends.
  \<^item> \<open>Big_Txn\<close>: the write transaction. \<open>txn_step\<close> is the relation of its operations with the pages the
    client owns and has released as ghost state; \<open>txn_inv\<close> says that no page is lost or handed out twice.
  \<^item> \<open>Big_Store\<close>, \<open>Big_Commit\<close>, \<open>Big_Truncate\<close>, \<open>Big_Isolation\<close>: opening, readers, snapshots, planning and
    performing a commit, truncation. The steps of \<open>sys_step\<close> are: beginning a read at the current version or
    at a snapshot, ending one, beginning a write, a call on the write transaction, rolling back, committing,
    a commit that fails while it is planned, \<^verbatim>\<open>set_durability\<close> and \<^verbatim>\<open>truncate_tail\<close> while nobody writes, and
    closing the file and loading it again. The reachable states are those after \<^verbatim>\<open>init\<close> and any of these
    steps. A reader sees the version it opened; what was committed is what loads; a commit on a backend
    without a ceiling can always be planned.
  \<^item> \<open>Big_Crash\<close>: a commit as the sequence of disk operations it is, on a disk that may keep or lose
    every write since the last sync. At full durability a power failure leaves the old or the new state,
    and the pages of the current version and of every snapshot the transaction keeps. A crash is not a step
    of \<open>sys_step\<close>, and a crash inside \<^verbatim>\<open>truncate_tail\<close> is not modelled.
  \<^item> \<open>Big_Reclaim\<close>: what \<^verbatim>\<open>truncate_tail\<close> gives back is nobody's. A snapshot that a commit drops is not
    protected during that commit: a run of three commits shows a power failure after which the file still
    lists the snapshot and cannot read it.

  \<^bold>\<open>The tree\<close> (\<^verbatim>\<open>big-btree\<close>).
  \<^item> \<open>Big_Tree\<close>, \<open>Big_Search\<close>: \<^verbatim>\<open>item.rs\<close>, \<^verbatim>\<open>read.rs\<close>. A \<open>node\<close> is the tree a set of pages holds
    (\<open>stored\<close>), with \<open>ordered\<close> keys and all leaves at one depth (\<open>full\<close>). Point reads, reads of many keys
    and scans are lookups in its list of items.
  \<^item> \<open>Big_Edit\<close>: \<^verbatim>\<open>write.rs\<close>, over the four operations of a transaction the tree calls.
  \<^item> \<open>Big_Heap\<close>, \<open>Big_Path\<close>, \<open>Big_Rewrite\<close>, \<open>Big_Change\<close>: the locale \<open>page_heap\<close> is what the tree relies
    on of a transaction. Its lemmas are triples: with certain pages in use, an operation either runs out
    of space (\<open>exhausted\<close>, the only error) or gives pages that hold the tree that is meant, and leaves
    every other page alone.
  \<^item> \<open>Big_Items\<close>, \<open>Big_Batch\<close>: what an item stands for, that turning a container into an item (inline, on a
    page of its own, or as a delta over the page that is there) keeps its values, and the batch operation
    the engines write through, with the merging of small leaves.
  \<^item> \<open>Big_Walk\<close>: \<^verbatim>\<open>walk.rs\<close>. A walk sees every page once, children first; a scrub that returns has
    checked every page a walk of those bytes reaches; a copy stands for the same sets.
  \<^item> \<open>Big_TreeTxn\<close>: the write transaction satisfies these laws; building, putting, removing, putting
    containers, copying and freeing inside a transaction refine the operations on maps.

  \<^bold>\<open>The calendar\<close> (\<^verbatim>\<open>big-civil\<close>).
  \<^item> \<open>Big_Civil\<close>, \<open>Big_Dates\<close>, \<open>Big_Rounding\<close>: day counts and dates are in bijection, texts read back,
    and rounding to a unit (locales \<open>calendar_unit\<close> and \<open>rounding\<close>) partitions time.

  \<^bold>\<open>Bounds and fuel.\<close> A descent is bounded by \<open>MAX_DEPTH\<close> as in the source, and the theorems ask for a
  tree of smaller height. A walk of a chain is bounded by the number of pages, as in the source. The outer loop
  of the batch operations is a partial function, since on a damaged tree the code may not end. A transaction is
  followed as long as the file has less than \<open>2 ^ 32\<close> pages, which is what a page number can name; the tree
  theorems take a map ceiling below that. A transaction begins, and the file is truncated, while transaction
  ids are below \<open>2 ^ 64 - 1\<close>; the table of readers counts fewer than \<open>2 ^ 32\<close> at one transaction. In the calendar, day counts
  are converted except for the last 719468 of the 64-bit range, dates for years between \<open>- (10 ^ 16)\<close> and
  \<open>10 ^ 16\<close>, and moments are rounded within \<open>92 * 10 ^ 17\<close> seconds of the epoch: nearer to the ends of the
  range the code wraps around, and \<open>rounding_wraps_at_the_ends\<close> shows that it does.

  \<^bold>\<open>Not modelled.\<close> The operations of the store are taken one after another, as its locks make them; races
  between threads are not. The mapped file, positioned writes and metrics of the pager are system calls
  and counters. Texts of errors are left out. The layers above the tree (engines, catalog, planner,
  executor, SQL, access control) and the network, process and command line code are not modelled.
\<close>

section \<open>From containers to the file and back\<close>

text \<open>The bitmap page a reader fetches for a cell before it resolves the cell.\<close>

definition cell_base :: "(pgno \<Rightarrow> store_error + page) \<Rightarrow> leaf_cell \<Rightarrow> page option" where
  "cell_base rd cell = (if has_base cell then (case rd (cbitmap_pgno cell) of Inl _ \<Rightarrow> None | Inr p \<Rightarrow> Some p) else None)"

definition reads_as :: "ext \<Rightarrow> (pgno \<Rightarrow> store_error + page) \<Rightarrow> pgno \<Rightarrow> container_key \<Rightarrow> u16 set option \<Rightarrow> bool" where
  "reads_as E rd root k v \<longleftrightarrow> (case v of
     None \<Rightarrow> tree_find rd root k = Inr None
   | Some S \<Rightarrow> \<exists>hit cell q. tree_find rd root k = Inr (Some hit) \<and> found_cell hit = Inr cell \<and>
       cell_resolve E cell (cell_base rd cell) = Inr q \<and> container_inv q \<and> elems q = S)"

lemma cell_base_of: "cell_base rd (leaf_cell_of x) = base_page rd x"
  by (simp add: cell_base_def base_page_def has_base_def base_pgno_def is_dense_def leaf_cell_of_def)

lemma means_reads:
  assumes t: "stored crc rd t" "ordered t" "full h t" "h < MAX_DEPTH" and m: "items_mean E rd (items_of t) m" "dom m = skey ` set (items_of t)"
  shows "reads_as E rd (root_of t) k (m k)"
proof (cases "lookup k (items_of t)")
  case None
  then have "m k = None" using m(2) by (auto simp: lookup_None_iff)
  then show ?thesis using tree_find_spec [OF t, of k] None by (simp add: reads_as_def)
next
  case (Some x)
  then have x: "x \<in> set (items_of t)" "skey x = k" using lookup_SomeD by blast+
  then obtain S q where "m k = Some S" "cell_resolve E (leaf_cell_of x) (base_page rd x) = Inr q" "container_inv q" "elems q = S"
    using m(1) by (auto simp: items_mean_def item_means_def)
  then show ?thesis using tree_find_spec [OF t, of k] Some by (auto simp: reads_as_def cell_base_of)
qed

text \<open>What a transaction reads of the pages it has in use is what the file holds after the commit.\<close>

lemma committed_pages:
  assumes fly: "in_flight crc s ch w g" and pl: "planned crc s ch w g c ch'" and hp: "holds_plan crc (s_pager s) c ps'"
    and q: "q \<in> in_use (kept_pages ch) (s_freelist (s_state s)) (w, g)" "txn_read (s_pager s) w q = Inr p"
  shows "pager_read ps' q = Inr p"
proof (cases "bt_get (w_dirty w) q")
  case (Some p')
  then have "(q, p') \<in> set (w_dirty w)" by (auto simp: bt_get_def dest: map_of_SomeD)
  moreover have "w_dirty w @ chain_writes crc w (c_freelist c) ch' = c_out c" using pl by (simp add: planned_def)
  ultimately have "(q, p') \<in> set (c_out c)" by (metis UnI1 set_append)
  with hp have "pager_read ps' q = Inr p'" by (fastforce simp: holds_plan_def)
  then show ?thesis using q(2) Some by (simp add: txn_read_def)
next
  case None
  have inv: "txn_inv (kept_pages ch) (s_freelist (s_state s)) (w, g)" and tf: "w_tail_floor w = length (s_pager s)"
    using fly by (simp_all add: in_flight_def)
  have rd: "pager_read (s_pager s) q = Inr p" using q(2) None by (simp add: txn_read_def)
  then have len: "unat q < length (s_pager s)" by (auto simp: pager_read_def split: if_splits)
  let ?f = "s_freelist (s_state s)"
  have two: "2 \<le> unat q" if "fresh_at ?f (length (s_pager s)) h (unat q)" for h
    by (rule fresh_at_ge2 [OF _ that, of crc ch]) (use fly in \<open>simp add: in_flight_def\<close>)
  have "q \<notin> fst ` set (c_out c) \<and> 2 \<le> unat q"
  proof (cases "q \<in> set (owned g)")
    case True
    have step: "chain_step w (c_freelist c) ch ch'" and out: "c_out c = w_dirty w @ chain_writes crc w (c_freelist c) ch'"
      and nd: "nodup (free_nos (c_freelist c) + mset (map unat (all_chain_pages ch')) + mset (map unat (owned g)))"
      using pl by (simp_all add: planned_def)
    have "q \<notin> set (all_chain_pages ch')" using nd True unfolding nodup_plus by auto
    then have "q \<notin> set (map fst (chain_writes crc w (c_freelist c) ch'))"
      using chain_writes_nos [OF step] set_chains [of ch' "w_dirty_chains w"] by simp
    moreover have "q \<notin> fst ` set (w_dirty w)" using None by (auto simp: bt_get_def map_of_eq_None_iff)
    moreover have "fresh_page ?f w (unat q)" using inv True by (simp add: txn_inv_def)
    then have "fresh_at ?f (length (s_pager s)) (w_horizon w) (unat q)" by (simp add: fresh_page_def fresh_at_def tf)
    ultimately show ?thesis using out two by auto
  next
    case False
    then have live: "live_page (kept_pages ch) ?f (length (s_pager s)) q" using q(1) tf by (simp add: in_use_def)
    have "\<not> fresh_at ?f (length (s_pager s)) n (unat q)" for n
      using live by (force simp: live_page_def fresh_at_def)
    moreover have "q \<noteq> 0" "q \<noteq> 1" using live by (auto simp: live_page_def kept_pages_def)
    then have "unat q \<noteq> 0" "unat q \<noteq> 1" by (auto simp: word_unat_eq_iff)
    ultimately show ?thesis using planned_out [OF pl, of q] by auto
  qed
  moreover have "q \<noteq> slot_of (c_meta c)" using calculation slot_less [of "c_meta c"] by auto
  ultimately show ?thesis using hp rd len by (simp add: holds_plan_def)
qed

lemma stored_reads: "stored crc rd t \<Longrightarrow> q \<in> set (spine t) \<Longrightarrow> \<exists>p. rd q = Inr p"
  by (induction t rule: spine.induct) auto

lemma items_mean_reads:
  assumes "items_mean E rd xs m" "q \<in> set (dense_pages xs)"
  shows "\<exists>p. rd q = Inr p"
proof -
  obtain x where x: "x \<in> set xs" "base_pgno x = Some q" using assms(2) by (auto simp: in_dense)
  then obtain S where "item_means E rd x S" using assms(1) by (auto simp: items_mean_def)
  then show ?thesis using item_means_base [OF _ x(2)] by metis
qed

text \<open>
  C7. What was put is what is read. A tree of containers that a write transaction holds, and whose
  root it records, is in the file after the commit: the file loads, the root record is there, and a
  point read of any key through the pages of the file finds nothing where the map has nothing and
  otherwise a cell that resolves, with the checksum of its bitmap page verified, to a well-formed
  container with exactly the values of the map.
\<close>

theorem committed_bitmaps_read_back:
  assumes y: "sys_reach crc (Some c) y" "unat (cur_txn y) + 1 < 2 ^ 64"
    and t: "bitmap_tree E (s_pager (y_store y)) c (kept_pages (y_chains y)) (begin_write (y_store y)) w h t F m" "h < MAX_DEPTH" "crc32 E = crc"
    and root: "txn_root w k = Some (root_of t)"
    and plan: "plan_commit crc (y_store y) (txn_absorb w) = Inr cm" "c_next_pgno cm < 2 ^ 32"
  shows "\<exists>s' st'. txn_commit crc (y_store y) w = Inr (w_txn_id w, s') \<and> load_state crc (s_pager s') = Inr st' \<and>
    roots_get (s_roots st') k = Some (root_of t) \<and> (\<forall>j. reads_as E (pager_read (s_pager s')) (root_of t) j (m j))"
proof -
  let ?s = "y_store y" and ?ch = "y_chains y"
  let ?K = "kept_pages ?ch" and ?w0 = "begin_write ?s" and ?f = "s_freelist (s_state ?s)"
  have inv: "store_inv crc (s_pager ?s) (s_state ?s) ?ch" using sys_reach_inv [OF y(1)] by (simp add: sys_inv_def)
  have f0: "w_freelist ?w0 = ?f" by (simp add: begin_write_def Let_def txn_new_def)
  have tr: "txn_holds (s_pager ?s) c ?K ?w0 w (set (spine t) \<union> (set (dense_pages (items_of t)) \<union> F))"
    "stored crc (txn_read (s_pager ?s) w) t" "ordered t" "full h t" "items_mean E (txn_read (s_pager ?s) w) (items_of t) m"
    "dom m = skey ` set (items_of t)"
    using t by (simp_all add: bitmap_tree_def tree_in_def)
  obtain g where g: "txn_reach (s_pager ?s) (Some c) ?K ?w0 (w, g)"
    "set (spine t) \<union> (set (dense_pages (items_of t)) \<union> F) = in_use ?K ?f (w, g)"
    using tr(1) by (auto simp: txn_holds_def f0)
  have "open_txn ?s ?ch w g" using g(1) sys_capacity [OF y(1)] by (simp add: txn_reach_def open_txn_def f0)
  from open_txn_in_flight [OF inv y(2) this] have fly: "in_flight crc ?s ?ch w g" .
  obtain ps' ch' where com: "txn_commit crc ?s w = Inr (w_txn_id w, ?s\<lparr>s_pager := ps', s_state := committed_state ?s w cm\<rparr>)"
    and inv': "store_inv crc ps' (committed_state ?s w cm) ch'" and pl: "planned crc ?s ?ch w g cm ch'" "holds_plan crc (s_pager ?s) cm ps'"
    using commit_spec [OF fly plan] by blast
  obtain st' where st': "load_state crc ps' = Inr st'" "state_equiv st' (committed_state ?s w cm)" using store_inv_loads [OF inv'] by blast
  have same: "pager_read ps' q = txn_read (s_pager ?s) w q"
    if "q \<in> in_use ?K ?f (w, g)" "txn_read (s_pager ?s) w q = Inr p" for q p
    using committed_pages [OF fly pl that] that(2) by simp
  have "stored crc (pager_read ps') t"
    by (rule stored_cong [OF tr(2)]) (use same g(2) stored_reads [OF tr(2)] in blast)
  moreover have "items_mean E (pager_read ps') (items_of t) m"
    by (rule items_mean_cong [OF tr(5)]) (use same g(2) items_mean_reads [OF tr(5)] in blast)+
  ultimately have "reads_as E (pager_read ps') (root_of t) j (m j)" for j
    using means_reads [of crc "pager_read ps'" t h E m j] tr(3,4,6) t(2) by blast
  moreover have "roots_get (s_roots st') k = Some (root_of t)"
    using st'(2) root by (simp add: state_equiv_def committed_state_def txn_root_def)
  ultimately show ?thesis using com st'(1) by auto
qed

lemma txn_holds_set_root: "txn_holds ps c K w0 w H \<Longrightarrow> txn_holds ps c K w0 (txn_set_root k r w) H"
proof -
  assume "txn_holds ps c K w0 w H"
  then obtain g where g: "c < 2 ^ 32" "txn_reach ps (Some c) K w0 (w, g)" "txn_inv K (w_freelist w0) (w, g)" "H = in_use K (w_freelist w0) (w, g)"
    by (auto simp: txn_holds_def)
  have st: "txn_step ps (Some c) K (w_freelist w0) (w, g) (txn_set_root k r w, g)" by (rule step_set_root)
  then have "txn_reach ps (Some c) K w0 (txn_set_root k r w, g)" using g(2) unfolding txn_reach_def by (meson rtranclp.rtrancl_into_rtrancl)
  moreover have "H = in_use K (w_freelist w0) (txn_set_root k r w, g)" using g(4) by (simp add: in_use_def txn_set_root_def)
  ultimately show ?thesis using g(1) txn_step_inv [OF st g(3)] by (auto simp: txn_holds_def)
qed

theorem committed_bitmaps_read_back_witness:
  "\<exists>y w s' st'. sys_reach demo_crc (Some 100) y \<and> txn_commit demo_crc (y_store y) w = Inr (w_txn_id w, s') \<and>
     load_state demo_crc (s_pager s') = Inr st' \<and> roots_get (s_roots st') (FragmentKey 1 2 3 4) = Some 2 \<and>
     reads_as (le_ext demo_crc) (pager_read (s_pager s')) 2 5 (Some {7}) \<and> reads_as (le_ext demo_crc) (pager_read (s_pager s')) 2 6 None"
proof -
  obtain s where s: "store_init demo_crc (Some 100) [] = Inr s" "store_inv demo_crc (s_pager s) (s_state s) empty_chains" "s_readers s = []"
    "s_roots (s_state s) = []" "m_txn_id (s_meta (s_state s)) = 0" "s_freelist (s_state s) = []" "s_snapshots (s_state s) = \<lparr>snaps = [], next_id = 1\<rparr>"
    and len: "length (s_pager s) = 2" "s_capacity s = Some 100" and meta: "s_meta (s_state s) = meta_default\<lparr>m_page_count := 2\<rparr>"
    using store_init_spec [of demo_crc "Some 100"] by (auto simp: META_PAGES_def)
  let ?y = "sys_of s" and ?K = "kept_pages empty_chains" and ?w0 = "begin_write s" and ?k = "FragmentKey 1 2 3 4"
  let ?w1 = "?w0\<lparr>w_next_pgno := 3\<rparr>" and ?p = "leaf_image demo_crc 2 [sample_item 5]" and ?t = "LeafNode 2 [sample_item 5]"
  let ?w2 = "?w1\<lparr>w_dirty := [(2, ?p)]\<rparr>"
  have y: "sys_reach demo_crc (Some 100) ?y" "y_store ?y = s" "y_chains ?y = empty_chains" using s(1) by (auto simp: sys_reach_def sys_of_def)
  have w0: "w_scratch ?w0 = []" "w_freelist ?w0 = []" "w_next_pgno ?w0 = 2" "w_tail_floor ?w0 = 2" "w_dirty ?w0 = []" "w_roots ?w0 = []"
    using s len by (simp_all add: begin_write_def Let_def txn_new_def pager_page_count_def)
  have fly: "in_flight demo_crc s empty_chains ?w0 ghost0" by (rule begin_write_in_flight [OF s(2)]) (simp add: s(5))
  have "in_use ?K [] (?w0, ghost0) = {}"
  proof -
    have "q = 0 \<or> q = 1" if "unat q < 2" for q :: pgno
      using that by (metis One_nat_def Suc_1 less_2_cases_iff unat_eq_zero word_unat_eq_iff unat_1)
    then show ?thesis by (auto simp: in_use_def live_page_def w0 kept_pages_def)
  qed
  then have h0: "txn_holds (s_pager s) 100 ?K ?w0 ?w0 {}"
    using fly s(6) unfolding txn_holds_def txn_reach_def w0 by (auto simp: in_flight_def)
  have "txn_alloc (Some 100) ?w0 = Inr (2, ?w1)" by (simp add: txn_alloc_def txn_alloc_tail_def w0)
  from txn_fresh [OF h0 this, of ?p] have h2: "txn_holds (s_pager s) 100 ?K ?w0 ?w2 {2}" "txn_read (s_pager s) ?w2 2 = Inr ?p"
    by (simp_all add: txn_write_def w0)
  let ?v = "txn_set_root ?k 2 ?w2"
  have rd: "txn_read (s_pager s) ?v 2 = Inr ?p" using h2(2) by (simp add: txn_read_def txn_set_root_def)
  have none: "dense_pages [sample_item 5] = []" by (simp add: dense_pages_def is_dense_def sample_item_def)
  have bt: "bitmap_tree (le_ext demo_crc) (s_pager s) 100 ?K ?w0 ?v 0 ?t {} [5 \<mapsto> {7}]"
    using txn_holds_set_root [OF h2(1), of ?k 2] rd sample_leaf sample_means none
    by (simp add: bitmap_tree_def tree_in_def items_mean_def le_ext_def)
  have one: "chain_pages_needed ROOT_RECORD_BYTES (Suc 0) = 1" "chain_pages_needed FREE_ENTRY_BYTES 0 = 0"
    using capacities by (simp_all add: chain_pages_needed_def)
  have head: "chain_pgnos rd n None ty stride = Inr []" for rd n ty stride by (simp add: chain_pgnos_def)
  have ab: "txn_absorb ?v = ?v" by (simp add: txn_absorb_def absorb_scratch_def txn_set_root_def w0)
  have f: "w_base ?v = meta_default\<lparr>m_page_count := 2\<rparr>" "w_freelist ?v = []" "w_next_pgno ?v = 3" "w_roots ?v = [(?k, 2)]"
    "dc_roots (w_dirty_chains ?v) = True" "dc_catalog (w_dirty_chains ?v) = False" "dc_snapshots (w_dirty_chains ?v) = False"
    using s meta by (simp_all add: txn_set_root_def roots_set_def begin_write_def txn_new_def Let_def)
  obtain cm where cm: "plan_commit demo_crc s (txn_absorb ?v) = Inr cm" "c_next_pgno cm = 4"
    unfolding ab using one len s meta
    by (simp add: plan_commit_def f Let_def place_chain_def recycle_chain_def head meta_default_def alloc_one_def alloc_tail_def
        alloc_freelist_pages_def freelist_compact_def freelist_pages_loop.simps roots_encode_def)
  have "txn_root ?v ?k = Some (root_of ?t)" by (simp add: txn_root_def f roots_get_def bt_get_def)
  from committed_bitmaps_read_back [OF y(1) _ _ _ _ this, of "le_ext demo_crc" 0 "{}" "[5 \<mapsto> {7}]"] bt cm y(2,3) s(5)
  obtain s' st' where fin: "txn_commit demo_crc s ?v = Inr (w_txn_id ?v, s')" "load_state demo_crc (s_pager s') = Inr st'"
    "roots_get (s_roots st') ?k = Some (root_of ?t)" "\<forall>j. reads_as (le_ext demo_crc) (pager_read (s_pager s')) (root_of ?t) j ([5 \<mapsto> {7}] j)"
    by (auto simp: MAX_DEPTH_def le_ext_def)
  have "reads_as (le_ext demo_crc) (pager_read (s_pager s')) 2 5 (Some {7})" using spec [OF fin(4), of 5] by simp
  moreover have "reads_as (le_ext demo_crc) (pager_read (s_pager s')) 2 6 None" using spec [OF fin(4), of 6] by simp
  ultimately show ?thesis using y fin by (intro exI [of _ ?y] exI [of _ ?v] exI [of _ s'] exI [of _ st']) simp
qed

end
